(* ===== verification/Prelude.thy ===== *)
theory Prelude
  imports Complex_Main "HOL-Library.Word" "HOL-Library.Product_Lexorder"
    "HOL-Library.List_Lexorder" "HOL-Library.Char_ord" "HOL-Library.Option_ord"
    "HOL-Library.Multiset"
begin

text \<open>
  What the component theories share: names for the model's basic types (timestamps, durations,
  job identifiers, JSON values), the semantics of the SQL statements the store issues over a
  table held as a list of rows, Rust's saturating and truncating integer operations, and the
  rounding of a non-negative integer to a 64-bit float.
\<close>

unbundle bit_operations_syntax

named_theorems table_simps
named_theorems rust_simps

section \<open>Basic types\<close>

text \<open>
  A timestamp is a number of microseconds since the epoch: the store writes every timestamp as
  fixed-width text with microsecond precision, whose text order is the order of these numbers.
  A \<open>Duration\<close> is a number of nanoseconds. A \<open>Uuid\<close> is its sixteen bytes.
\<close>

type_synonym time = int
type_synonym duration = nat
type_synonym uuid = "8 word list"

definition micros_per_sec :: int where
  "micros_per_sec = 1000000"

definition nanos_per_sec :: nat where
  "nanos_per_sec = 1000000000"

definition from_secs :: "nat \<Rightarrow> duration" where
  "from_secs n = n * nanos_per_sec"

text \<open>
  \<open>n as i64\<close> for a \<open>u64\<close> or a 64-bit \<open>usize\<close>: the same 64 bits, read as a signed number.
\<close>

definition u64_as_i64 :: "nat \<Rightarrow> int" where
  "u64_as_i64 n = sint (of_nat n :: 64 word)"

text \<open>
  \<open>t + chrono::Duration::seconds(n)\<close> panics when the milliseconds of \<open>n\<close> do not fit an
  \<open>i64\<close>, and when the sum leaves the calendar (\<open>DateTime::<Utc>::MIN_UTC\<close> to \<open>MAX_UTC\<close>, the
  years -262143 to 262142). The instant \<open>t\<close> is itself in the calendar, so a later sum can only
  pass its end and an earlier one only its beginning.
\<close>

definition chrono_MAX_UTC :: time where
  "chrono_MAX_UTC = 8210266876799999999"

definition chrono_MIN_UTC :: time where
  "chrono_MIN_UTC = - 8334601228800000000"

definition chrono_add_panics :: "time \<Rightarrow> int \<Rightarrow> bool" where
  "chrono_add_panics t n \<longleftrightarrow>
     \<bar>n\<bar> > 9223372036854775 \<or>
     (n > 0 \<and> t + n * micros_per_sec > chrono_MAX_UTC) \<or>
     (n < 0 \<and> t + n * micros_per_sec < chrono_MIN_UTC)"

definition as_secs :: "duration \<Rightarrow> nat" where
  "as_secs d = d div nanos_per_sec"

text \<open>
  A JSON document. A number is an unsigned integer, a negative integer or a finite float, as
  the parser distinguishes them; the entries of an object are in key order.
\<close>

datatype json =
    JNull
  | JBool bool
  | JPosInt nat
  | JNegInt int
  | JFloat rat
  | JString string
  | JArray "json list"
  | JObject "(string \<times> json) list"

lemma as_secs_from_secs [simp, rust_simps]: "as_secs (from_secs n) = n"
  by (simp add: as_secs_def from_secs_def nanos_per_sec_def)

lemma u64_as_i64_0 [simp, rust_simps]: "u64_as_i64 0 = 0"
  by (simp add: u64_as_i64_def)

lemma u64_as_i64_small: "n < 2 ^ 63 \<Longrightarrow> u64_as_i64 n = int n"
  by (simp add: u64_as_i64_def signed_of_nat signed_take_bit_int_eq_self)

lemma chrono_add_0 [simp, rust_simps]: "\<not> chrono_add_panics t 0"
  by (simp add: chrono_add_panics_def)

lemma from_secs_le [simp, rust_simps]: "from_secs m \<le> from_secs n \<longleftrightarrow> m \<le> n"
  by (simp add: from_secs_def nanos_per_sec_def)

lemma from_secs_less [simp, rust_simps]: "from_secs m < from_secs n \<longleftrightarrow> m < n"
  by (simp add: from_secs_def nanos_per_sec_def)

lemma as_secs_mono: "d \<le> e \<Longrightarrow> as_secs d \<le> as_secs e"
  by (simp add: as_secs_def div_le_mono)

section \<open>Tables\<close>

text \<open>
  A table is the list of its rows. \<open>UPDATE t SET f WHERE p\<close> rewrites the matching rows in
  place, \<open>rows_affected\<close> is the number of rows it matched, \<open>SELECT \<dots> WHERE p\<close> filters,
  \<open>ORDER BY k LIMIT n\<close> takes the first \<open>n\<close> rows of the stable sort by \<open>k\<close>. Rows that
  compare equal keep the table's order; no statement below relies on which order that is, and
  every theorem quantifies over the table.
\<close>

definition update_where :: "('r \<Rightarrow> bool) \<Rightarrow> ('r \<Rightarrow> 'r) \<Rightarrow> 'r list \<Rightarrow> 'r list" where
  "update_where p f rows = map (\<lambda>r. if p r then f r else r) rows"

definition rows_affected :: "('r \<Rightarrow> bool) \<Rightarrow> 'r list \<Rightarrow> nat" where
  "rows_affected p rows = length (filter p rows)"

definition order_limit :: "('r \<Rightarrow> 'k::linorder) \<Rightarrow> nat \<Rightarrow> 'r list \<Rightarrow> 'r list" where
  "order_limit k n rows = take n (sort_key k rows)"

lemma length_update_where [simp, table_simps]: "length (update_where p f rows) = length rows"
  by (simp add: update_where_def)

lemma set_update_where [table_simps]:
  "set (update_where p f rows) = (\<lambda>r. if p r then f r else r) ` set rows"
  by (simp add: update_where_def)

lemma update_where_Nil [simp]: "update_where p f [] = []"
  by (simp add: update_where_def)

lemma update_where_Cons [simp]:
  "update_where p f (r # rows) = (if p r then f r else r) # update_where p f rows"
  by (simp add: update_where_def)

lemma update_where_none:
  "(\<And>r. r \<in> set rows \<Longrightarrow> \<not> p r) \<Longrightarrow> update_where p f rows = rows"
  by (induction rows) auto

lemma rows_affected_0: "rows_affected p rows = 0 \<longleftrightarrow> (\<forall>r\<in>set rows. \<not> p r)"
  by (simp add: rows_affected_def filter_empty_conv)

lemma rows_affected_pos: "0 < rows_affected p rows \<longleftrightarrow> (\<exists>r\<in>set rows. p r)"
  using rows_affected_0 [of p rows] by auto

lemma map_update_where_same:
  "(\<And>r. r \<in> set rows \<Longrightarrow> p r \<Longrightarrow> k (f r) = k r) \<Longrightarrow> map k (update_where p f rows) = map k rows"
  by (induction rows) auto

lemma ball_update_where:
  "(\<forall>r\<in>set rows. P r) \<Longrightarrow> (\<And>r. r \<in> set rows \<Longrightarrow> p r \<Longrightarrow> P r \<Longrightarrow> P (f r)) \<Longrightarrow>
   \<forall>r\<in>set (update_where p f rows). P r"
  by (induction rows) auto

lemma find_update_where_same:
  "(\<And>r. r \<in> set rows \<Longrightarrow> p r \<Longrightarrow> q (f r) = q r) \<Longrightarrow>
   find q (update_where p f rows) = map_option (\<lambda>r. if p r then f r else r) (find q rows)"
  by (induction rows) auto

lemma set_order_limit: "set (order_limit k n rows) \<subseteq> set rows"
  using set_take_subset [of n "sort_key k rows"] by (simp add: order_limit_def)

lemma order_limit_1_best:
  assumes "order_limit k 1 rows = r # rs" and "x \<in> set rows"
  shows "k r \<le> k x"
proof -
  obtain zs where zs: "sort_key k rows = r # zs"
    using assms(1) by (cases "sort_key k rows") (auto simp: order_limit_def)
  have "sorted (map k (r # zs))"
    using sorted_sort_key [of k rows] by (simp add: zs)
  moreover have "x \<in> set (r # zs)"
    using assms(2) by (simp flip: zs)
  ultimately show ?thesis by auto
qed

lemma order_limit_Nil: "order_limit k n rows = [] \<longleftrightarrow> n = 0 \<or> rows = []"
proof -
  have "sort_key k rows = [] \<longleftrightarrow> rows = []"
    by (metis length_sort length_0_conv)
  then show ?thesis by (simp add: order_limit_def)
qed

lemma order_limit_all: "length rows \<le> n \<Longrightarrow> order_limit k n rows = sort_key k rows"
  by (simp add: order_limit_def)

lemma find_Some_mem: "find p xs = Some x \<Longrightarrow> x \<in> set xs \<and> p x"
  by (induction xs) (auto split: if_splits)

lemma find_distinct_key:
  "distinct (map k rows) \<Longrightarrow> r \<in> set rows \<Longrightarrow> find (\<lambda>x. k x = k r) rows = Some r"
  by (induction rows) (auto simp: image_iff)

lemma distinct_key_eq:
  "distinct (map k rows) \<Longrightarrow> r \<in> set rows \<Longrightarrow> r' \<in> set rows \<Longrightarrow> k r = k r' \<Longrightarrow> r = r'"
  by (meson distinct_map inj_onD)

section \<open>Rust integers\<close>

definition u64_max :: nat where
  "u64_max = 2 ^ 64 - 1"

definition saturating_mul_u64 :: "nat \<Rightarrow> nat \<Rightarrow> nat" where
  "saturating_mul_u64 a b = min u64_max (a * b)"

definition saturating_pow_u64 :: "nat \<Rightarrow> nat \<Rightarrow> nat" where
  "saturating_pow_u64 a n = (if a = 2 \<and> 64 \<le> n then u64_max else min u64_max (a ^ n))"

text \<open>\<open>as u32\<close> on a non-negative \<open>i64\<close> keeps the low 32 bits.\<close>

definition as_u32 :: "int \<Rightarrow> nat" where
  "as_u32 n = nat (n mod 2 ^ 32)"

lemma saturating_pow_u64_eq: "saturating_pow_u64 2 n = min u64_max (2 ^ n)"
proof (cases "64 \<le> n")
  case True
  then have "(2::nat) ^ 64 \<le> 2 ^ n" by (intro power_increasing) auto
  with True show ?thesis by (simp add: saturating_pow_u64_def u64_max_def)
qed (simp add: saturating_pow_u64_def)

section \<open>Floats\<close>

text \<open>
  The 64-bit float nearest to a non-negative integer: 53 significant bits, ties to the even
  significand. Products of such values with a power of two are exact.
\<close>

fun f64_exp :: "nat \<Rightarrow> nat" where
  "f64_exp n = (if n < 2 ^ 53 then 0 else Suc (f64_exp (n div 2)))"

declare f64_exp.simps [simp del]

definition f64_round :: "nat \<Rightarrow> nat" where
  "f64_round n =
     (let e = f64_exp n; q = n div 2 ^ e; r = n mod 2 ^ e
      in (if 2 ^ e < 2 * r \<or> (2 * r = 2 ^ e \<and> odd q) then Suc q else q) * 2 ^ e)"

lemma f64_exp_small [simp]: "n < 2 ^ 53 \<Longrightarrow> f64_exp n = 0"
  by (subst f64_exp.simps) simp

lemma f64_round_exact [simp, rust_simps]: "n < 2 ^ 53 \<Longrightarrow> f64_round n = n"
  by (simp add: f64_round_def)

lemma f64_exp_low: "0 < f64_exp n \<Longrightarrow> 2 ^ 52 * 2 ^ f64_exp n \<le> n"
proof (induction n rule: f64_exp.induct)
  case (1 n)
  have big: "\<not> n < 2 ^ 53"
    using "1.prems" by (metis f64_exp_small less_irrefl)
  then have e: "f64_exp n = Suc (f64_exp (n div 2))"
    by (subst f64_exp.simps) simp
  show ?case
  proof (cases "f64_exp (n div 2) = 0")
    case True
    with big e show ?thesis by simp
  next
    case False
    then have "2 ^ 52 * 2 ^ f64_exp (n div 2) \<le> n div 2"
      using "1.IH" [OF big] by simp
    then show ?thesis by (simp add: e)
  qed
qed

text \<open>Rounding moves a value up by at most one part in \<open>2 ^ 53\<close>.\<close>

lemma f64_round_upper: "2 ^ 53 * f64_round n \<le> (2 ^ 53 + 1) * n"
proof (cases "f64_exp n = 0")
  case True
  then have "f64_round n = n" by (simp add: f64_round_def)
  then show ?thesis by simp
next
  case False
  define e q r where "e = f64_exp n" and "q = n div 2 ^ e" and "r = n mod 2 ^ e"
  have n: "n = q * 2 ^ e + r" and r: "r < 2 ^ e"
    by (simp_all add: q_def r_def div_mult_mod_eq)
  have low: "2 ^ 52 * 2 ^ e \<le> n"
    using f64_exp_low [of n] False by (simp add: e_def)
  have "2 * f64_round n \<le> 2 * n + 2 ^ e"
  proof (cases "2 ^ e < 2 * r \<or> (2 * r = 2 ^ e \<and> odd q)")
    case True
    then have "f64_round n = Suc q * 2 ^ e"
      by (simp add: f64_round_def Let_def e_def [symmetric] q_def [symmetric] r_def [symmetric])
    moreover have "2 ^ e \<le> 2 * r" using True by linarith
    ultimately show ?thesis using n by simp
  next
    case False
    then have "f64_round n = q * 2 ^ e"
      by (simp add: f64_round_def Let_def e_def [symmetric] q_def [symmetric] r_def [symmetric])
    then show ?thesis using n by simp
  qed
  then have "2 ^ 53 * f64_round n \<le> 2 ^ 53 * n + 2 ^ 52 * 2 ^ e" by simp
  with low show ?thesis by simp
qed

end
