(* ===== verification/Job.thy ===== *)
theory Job
  imports Prelude
begin

text \<open>
  The job model of \<open>crates/core/src/job.rs\<close> and the \<open>jobs\<close> table of
  \<open>crates/core/migrations\<close>: the status vocabulary with its text form, and a row of the table
  with every column the store reads or writes. \<open>JobRow\<close> and \<open>Job\<close> of the source are
  projections of this row.
\<close>

section \<open>Status\<close>

datatype JobStatus = Queued | Running | Waiting | Succeeded | Failed | Cancelled

fun job_status_as_str :: "JobStatus \<Rightarrow> string" where
  "job_status_as_str Queued = ''queued''"
| "job_status_as_str Running = ''running''"
| "job_status_as_str Waiting = ''waiting''"
| "job_status_as_str Succeeded = ''succeeded''"
| "job_status_as_str Failed = ''failed''"
| "job_status_as_str Cancelled = ''cancelled''"

definition job_status_parse :: "string \<Rightarrow> JobStatus option" where
  "job_status_parse s =
     (if s = ''queued'' then Some Queued
      else if s = ''running'' then Some Running
      else if s = ''waiting'' then Some Waiting
      else if s = ''succeeded'' then Some Succeeded
      else if s = ''failed'' then Some Failed
      else if s = ''cancelled'' then Some Cancelled
      else None)"

fun is_terminal :: "JobStatus \<Rightarrow> bool" where
  "is_terminal Succeeded = True"
| "is_terminal Failed = True"
| "is_terminal Cancelled = True"
| "is_terminal _ = False"

lemma is_terminal_iff: "is_terminal st \<longleftrightarrow> st \<in> {Succeeded, Failed, Cancelled}"
  by (cases st) auto

lemma job_status_roundtrip [simp]: "job_status_parse (job_status_as_str st) = Some st"
  by (cases st) (simp_all add: job_status_parse_def)

lemma job_status_parse_Some: "job_status_parse s = Some st \<longleftrightarrow> s = job_status_as_str st"
  by (cases st) (auto simp: job_status_parse_def)

section \<open>Rows of the jobs table\<close>

record job_row =
  j_id :: uuid
  j_app :: string
  j_params :: json
  j_status :: JobStatus
  j_attempts :: int
  j_max_attempts :: int
  j_priority :: int
  j_callback_url :: "string option"
  j_callback_secret :: "string option"
  j_budget_usd :: "rat option"
  j_idempotency_key :: "string option"
  j_schedule_id :: "string option"
  j_trigger_id :: "string option"
  j_source_job_id :: "string option"
  j_target_key :: "string option"
  j_result :: "json option"
  j_error :: "string option"
  j_requeue_reason :: "string option"
  j_cause_kind :: "string option"
  j_input_request :: "json option"
  j_waiting_since :: "time option"
  j_waiting_expires_at :: "time option"
  j_resumed_input :: "json option"
  j_executor_id :: "string option"
  j_heartbeat_at :: "time option"
  j_principal_id :: "string option"
  j_workflow_run_id :: "string option"
  j_workflow_step :: "string option"
  j_root_id :: "string option"
  j_created_at :: time
  j_available_at :: time
  j_started_at :: "time option"
  j_finished_at :: "time option"

text \<open>\<open>EnqueueOptions\<close> of \<open>crates/core/src/storage.rs\<close>.\<close>

record EnqueueOptions =
  o_params :: json
  o_max_attempts :: int
  o_delay_secs :: nat
  o_priority :: int
  o_callback_url :: "string option"
  o_callback_secret :: "string option"
  o_budget_usd :: "rat option"
  o_idempotency_key :: "string option"
  o_schedule_id :: "string option"
  o_trigger_id :: "string option"
  o_source_job_id :: "string option"
  o_target_key :: "string option"
  o_workflow_run_id :: "string option"
  o_workflow_step :: "string option"
  o_root_id :: "string option"

end
