(* ===== verification/Failure.thy ===== *)
theory Failure
  imports Prelude
begin

text \<open>
  The error type of \<open>crates/core/src/error.rs\<close> with the classifications the runtime decides by:
  whether a failure is terminal for its job, whether it is pumper's own (a router failure),
  whether it is store contention, which wait a server stated, and what a failed Claude call
  leaves in the cost ledger. The driver's and the parser's own errors carry their rendered text.
\<close>

section \<open>Spend\<close>

datatype SpendCertainty = Billed | Unmetered | UnknownSpend | Free

fun spend_certainty_as_str :: "SpendCertainty \<Rightarrow> string" where
  "spend_certainty_as_str Billed = ''billed''"
| "spend_certainty_as_str Unmetered = ''unmetered''"
| "spend_certainty_as_str UnknownSpend = ''unknown''"
| "spend_certainty_as_str Free = ''free''"

definition spend_certainty_ALL :: "SpendCertainty list" where
  "spend_certainty_ALL = [Billed, Unmetered, UnknownSpend, Free]"

definition spend_certainty_parse :: "string \<Rightarrow> SpendCertainty option" where
  "spend_certainty_parse s = find (\<lambda>c. spend_certainty_as_str c = s) spend_certainty_ALL"

fun is_uncertain :: "SpendCertainty \<Rightarrow> bool" where
  "is_uncertain Unmetered = True"
| "is_uncertain UnknownSpend = True"
| "is_uncertain _ = False"

definition from_amount :: "rat \<Rightarrow> SpendCertainty" where
  "from_amount cost_usd = (if cost_usd > 0 then Billed else Free)"

datatype ClaudeFailure =
    Spawn | Timeout | NonZeroExit | CliError | Unparseable | PromptUndelivered
  | WaitFailed | Interrupted | PipeFailure

fun claude_failure_as_str :: "ClaudeFailure \<Rightarrow> string" where
  "claude_failure_as_str Spawn = ''spawn''"
| "claude_failure_as_str Timeout = ''timeout''"
| "claude_failure_as_str NonZeroExit = ''nonzero_exit''"
| "claude_failure_as_str CliError = ''is_error''"
| "claude_failure_as_str Unparseable = ''unparseable''"
| "claude_failure_as_str PromptUndelivered = ''prompt_undelivered''"
| "claude_failure_as_str WaitFailed = ''wait_failed''"
| "claude_failure_as_str Interrupted = ''interrupted''"
| "claude_failure_as_str PipeFailure = ''pipe_failure''"

fun unreported_certainty :: "ClaudeFailure \<Rightarrow> SpendCertainty" where
  "unreported_certainty Spawn = Free"
| "unreported_certainty Timeout = Unmetered"
| "unreported_certainty CliError = Unmetered"
| "unreported_certainty Unparseable = Unmetered"
| "unreported_certainty PromptUndelivered = Unmetered"
| "unreported_certainty NonZeroExit = UnknownSpend"
| "unreported_certainty WaitFailed = UnknownSpend"
| "unreported_certainty Interrupted = UnknownSpend"
| "unreported_certainty PipeFailure = UnknownSpend"

record ClaudeSpend =
  sp_cost_usd :: "rat option"
  sp_class :: ClaudeFailure

definition ledger_event :: "ClaudeSpend \<Rightarrow> (rat \<times> SpendCertainty \<times> string) option" where
  "ledger_event sp =
     (case sp_cost_usd sp of
        Some cost \<Rightarrow>
          Some (cost, Billed, ''failed_spend ('' @ claude_failure_as_str (sp_class sp) @ '')'')
      | None \<Rightarrow>
          (let certainty = unreported_certainty (sp_class sp)
           in case sp_class sp of
                Spawn \<Rightarrow> None
              | Timeout \<Rightarrow> Some (0, certainty, ''unmetered_timeout'')
              | c \<Rightarrow> Some (0, certainty,
                       ''failed_spend_unreported ('' @ claude_failure_as_str c @ '')'')))"

section \<open>Errors\<close>

datatype PluginFailure =
  UnknownPlugin | Disabled | MissingExport | Trap | MalformedOutput | HostError

fun plugin_failure_as_str :: "PluginFailure \<Rightarrow> string" where
  "plugin_failure_as_str UnknownPlugin = ''unknown_plugin''"
| "plugin_failure_as_str Disabled = ''plugins_disabled''"
| "plugin_failure_as_str MissingExport = ''missing_export''"
| "plugin_failure_as_str Trap = ''trap''"
| "plugin_failure_as_str MalformedOutput = ''malformed_output''"
| "plugin_failure_as_str HostError = ''host_error''"

text \<open>A cause is the name of its type at the raise site and its rendered chain.\<close>

type_synonym cause = "(string \<times> string list) option"

text \<open>
  The driver's errors the store distinguishes: the pool timing out, a database error with the
  result code the driver reports as text, anything else. Each carries its rendered message.
\<close>

datatype sqlx_error =
    PoolTimedOut string
  | Database "string option" string
  | OtherSqlx string

datatype Error =
    Http string "duration option" cause
  | Browser string cause
  | Claude string ClaudeSpend
  | Storage sqlx_error
  | Profile string
  | Transact string
  | Parse string cause
  | Config string cause
  | App string
  | Plugin string PluginFailure string
  | BudgetExhausted string
  | ReplayMiss string
  | BadRequest string
  | SourceDrift string
  | Schema string
  | AwaitingInput json
  | Io string
  | Json string
  | Other string

fun sqlx_text :: "sqlx_error \<Rightarrow> string" where
  "sqlx_text (PoolTimedOut t) = t"
| "sqlx_text (Database c t) = t"
| "sqlx_text (OtherSqlx t) = t"

text \<open>The \<open>Display\<close> of an error; \<open>json_text\<close> is the JSON printer.\<close>

fun error_text :: "(json \<Rightarrow> string) \<Rightarrow> Error \<Rightarrow> string" where
  "error_text json_text (Http m _ _) = ''http engine: '' @ m"
| "error_text json_text (Browser m _) = ''browser engine: '' @ m"
| "error_text json_text (Claude m _) = ''claude engine: '' @ m"
| "error_text json_text (Storage e) = ''storage: '' @ sqlx_text e"
| "error_text json_text (Profile m) = ''profile: '' @ m"
| "error_text json_text (Transact m) = ''transact: '' @ m"
| "error_text json_text (Parse m _) = ''parse: '' @ m"
| "error_text json_text (Config m _) = ''config: '' @ m"
| "error_text json_text (App m) = ''app: '' @ m"
| "error_text json_text (Plugin p k m) =
     ''plugin '' @ [CHR 0x27] @ p @ [CHR 0x27] @ '' ('' @ plugin_failure_as_str k @ ''): '' @ m"
| "error_text json_text (BudgetExhausted m) = ''budget: '' @ m"
| "error_text json_text (ReplayMiss m) = ''vcr replay miss: '' @ m"
| "error_text json_text (BadRequest m) = ''bad request: '' @ m"
| "error_text json_text (SourceDrift m) = ''source drift: '' @ m"
| "error_text json_text (Schema m) = ''schema: '' @ m"
| "error_text json_text (AwaitingInput v) = ''awaiting external input: '' @ json_text v"
| "error_text json_text (Io m) = ''io: '' @ m"
| "error_text json_text (Json m) = ''json: '' @ m"
| "error_text json_text (Other m) = m"

fun cause_value :: "Error \<Rightarrow> cause" where
  "cause_value (Http _ _ c) = c"
| "cause_value (Browser _ c) = c"
| "cause_value (Parse _ c) = c"
| "cause_value (Config _ c) = c"
| "cause_value _ = None"

definition cause_kind :: "Error \<Rightarrow> string option" where
  "cause_kind e = map_option fst (cause_value e)"

fun join_with :: "string \<Rightarrow> string list \<Rightarrow> string" where
  "join_with sep [] = []"
| "join_with sep [x] = x"
| "join_with sep (x # xs) = x @ sep @ join_with sep xs"

definition cause_chain :: "Error \<Rightarrow> string option" where
  "cause_chain e = map_option (\<lambda>c. join_with '': '' (snd c)) (cause_value e)"

fun stated_retry_after :: "Error \<Rightarrow> duration option" where
  "stated_retry_after (Http _ ra _) = ra"
| "stated_retry_after _ = None"

fun plugin_failure :: "Error \<Rightarrow> PluginFailure option" where
  "plugin_failure (Plugin _ k _) = Some k"
| "plugin_failure _ = None"

fun awaited_request :: "Error \<Rightarrow> json option" where
  "awaited_request (AwaitingInput r) = Some r"
| "awaited_request _ = None"

fun claude_spend :: "Error \<Rightarrow> ClaudeSpend option" where
  "claude_spend (Claude _ sp) = Some sp"
| "claude_spend _ = None"

fun is_terminal_for_job :: "Error \<Rightarrow> bool" where
  "is_terminal_for_job (BudgetExhausted _) = True"
| "is_terminal_for_job (Transact _) = True"
| "is_terminal_for_job (BadRequest _) = True"
| "is_terminal_for_job (ReplayMiss _) = True"
| "is_terminal_for_job (SourceDrift _) = True"
| "is_terminal_for_job (Schema _) = True"
| "is_terminal_for_job _ = False"

fun is_router_failure :: "Error \<Rightarrow> bool" where
  "is_router_failure (Config _ _) = True"
| "is_router_failure (Transact _) = True"
| "is_router_failure (ReplayMiss _) = True"
| "is_router_failure (Schema _) = True"
| "is_router_failure (AwaitingInput _) = False"
| "is_router_failure (Plugin _ k _) = (k = UnknownPlugin \<or> k = Disabled \<or> k = MissingExport)"
| "is_router_failure (Http _ _ _) = False"
| "is_router_failure (Browser _ _) = False"
| "is_router_failure (Claude _ _) = False"
| "is_router_failure (Profile _) = False"
| "is_router_failure (Parse _ _) = False"
| "is_router_failure (App _) = False"
| "is_router_failure (SourceDrift _) = False"
| "is_router_failure (BudgetExhausted _) = False"
| "is_router_failure (BadRequest _) = False"
| "is_router_failure (Io _) = False"
| "is_router_failure (Json _) = False"
| "is_router_failure (Other _) = False"
| "is_router_failure (Storage _) = False"

section \<open>Store contention\<close>

text \<open>
  \<open>str::parse::<i32>\<close>: an optional sign, at least one ASCII digit, nothing else, and a value
  in range.
\<close>

definition digit_value :: "char \<Rightarrow> nat option" where
  "digit_value c = (if 48 \<le> (of_char c :: nat) \<and> (of_char c :: nat) \<le> 57
                    then Some (of_char c - 48) else None)"

fun digits_value :: "nat \<Rightarrow> string \<Rightarrow> nat option" where
  "digits_value acc [] = Some acc"
| "digits_value acc (c # cs) =
     (case digit_value c of None \<Rightarrow> None | Some d \<Rightarrow> digits_value (10 * acc + d) cs)"

definition parse_i32 :: "string \<Rightarrow> int option" where
  "parse_i32 s =
     (let neg = (s \<noteq> [] \<and> hd s = CHR ''-'');
          body = (if s \<noteq> [] \<and> (hd s = CHR ''-'' \<or> hd s = CHR ''+'') then tl s else s)
      in if body = [] then None
         else case digits_value 0 body of
                None \<Rightarrow> None
              | Some n \<Rightarrow>
                  (let v = (if neg then - int n else int n)
                   in if - (2 ^ 31) \<le> v \<and> v < 2 ^ 31 then Some v else None))"

definition sqlite_primary_code :: "string option \<Rightarrow> int option" where
  "sqlite_primary_code code =
     (case code of None \<Rightarrow> None | Some s \<Rightarrow> map_option (\<lambda>c. c mod 256) (parse_i32 s))"

fun is_store_contention :: "Error \<Rightarrow> bool" where
  "is_store_contention (Storage (PoolTimedOut _)) = True"
| "is_store_contention (Storage (Database code _)) =
     (sqlite_primary_code code = Some 5 \<or> sqlite_primary_code code = Some 6)"
| "is_store_contention _ = False"

section \<open>Lemmas\<close>

lemma spend_certainty_roundtrip:
  "spend_certainty_parse (spend_certainty_as_str c) = Some c"
  by (cases c) (simp_all add: spend_certainty_parse_def spend_certainty_ALL_def)

lemma contention_is_storage: "is_store_contention e \<Longrightarrow> \<exists>x. e = Storage x"
  by (cases e rule: is_store_contention.cases) auto

lemma stated_is_http: "stated_retry_after e = Some d \<Longrightarrow> \<exists>m c. e = Http m (Some d) c"
  by (cases e) auto

lemma contention_not_router: "is_store_contention e \<Longrightarrow> \<not> is_router_failure e"
  using contention_is_storage by force

lemma stated_not_contention: "stated_retry_after e = Some d \<Longrightarrow> \<not> is_store_contention e"
  using stated_is_http by force

lemma ledger_event_None: "ledger_event sp = None \<longleftrightarrow> sp_cost_usd sp = None \<and> sp_class sp = Spawn"
  by (cases "sp_class sp") (auto simp: ledger_event_def Let_def split: option.splits)

lemma ledger_event_certainty:
  "ledger_event sp = Some (cost, c, d) \<Longrightarrow>
   (c = Billed \<longleftrightarrow> sp_cost_usd sp = Some cost) \<and> (is_uncertain c \<longleftrightarrow> sp_cost_usd sp = None)"
  by (cases "sp_class sp") (auto simp: ledger_event_def Let_def split: option.splits)

end
