(* ===== verification/Requeue.thy ===== *)
theory Requeue
  imports Failure
begin

text \<open>
  Retry timing: the deterministic jitter of \<open>crates/core/src/jitter.rs\<close>, the job ladder and
  the requeue policy of \<open>crates/core/src/storage.rs\<close>, and the HTTP engine's retry sleep of
  \<open>crates/engine-http/src/lib.rs\<close>. The lemmas bound every delay and say which failures earn
  an opinion of their own.
\<close>

section \<open>Deterministic jitter\<close>

definition lcg_scramble :: "64 word \<Rightarrow> 64 word" where
  "lcg_scramble seed = seed * 6364136223846793005 + 1442695040888963407"

text \<open>
  The top 31 bits of the scrambled seed: the numerator of the fraction, whose denominator is
  \<open>2 ^ 31\<close>. Both fit a float's significand, so the quotient is exact.
\<close>

definition lcg_bits :: "64 word \<Rightarrow> nat" where
  "lcg_bits seed = unat (drop_bit 33 (lcg_scramble seed))"

definition lcg_fraction :: "64 word \<Rightarrow> rat" where
  "lcg_fraction seed = min (of_nat (lcg_bits seed) / 2 ^ 31) 1"

lemma lcg_bits_less: "lcg_bits seed < 2 ^ 31"
proof -
  have "unat (lcg_scramble seed) < 2 ^ 64" using unsigned_less [of "lcg_scramble seed", where 'a = nat] by simp
  then have "unat (lcg_scramble seed) div 2 ^ 33 < 2 ^ 31"
    by (simp add: div_less_iff_less_mult)
  then show ?thesis by (simp add: lcg_bits_def drop_bit_eq_div unat_div)
qed

lemma lcg_fraction_eq: "lcg_fraction seed = of_nat (lcg_bits seed) / 2 ^ 31"
proof -
  have "(of_nat (lcg_bits seed) :: rat) < 2 ^ 31"
    using lcg_bits_less [of seed] by (metis of_nat_less_iff of_nat_numeral of_nat_power)
  then show ?thesis by (simp add: lcg_fraction_def)
qed

section \<open>The job ladder\<close>

definition ladder_delay :: "int \<Rightarrow> duration" where
  "ladder_delay attempts =
     from_secs (min (saturating_mul_u64 10 (saturating_pow_u64 2 (as_u32 (max attempts 0)))) 3600)"

datatype Requeue = After duration string | Never string

definition REQUEUE_REASON_LADDER :: string where
  "REQUEUE_REASON_LADDER = ''attempt ladder''"

definition REQUEUE_REASON_STATED :: string where
  "REQUEUE_REASON_STATED = ''server-stated wait''"

definition REQUEUE_REASON_CONTENTION :: string where
  "REQUEUE_REASON_CONTENTION = ''store contention''"

definition REQUEUE_REASON_OURS :: string where
  "REQUEUE_REASON_OURS = ''ours-class failure (no attempt can differ)''"

definition CONTENTION_DELAY :: duration where
  "CONTENTION_DELAY = from_secs 1"

definition requeue_after :: "Error \<Rightarrow> int \<Rightarrow> duration option \<Rightarrow> Requeue" where
  "requeue_after error attempts stated =
     (let ladder = ladder_delay attempts
      in if is_router_failure error then Never REQUEUE_REASON_OURS
         else case stated of
                Some w \<Rightarrow>
                  if w > ladder then After w REQUEUE_REASON_STATED
                  else if is_store_contention error
                       then After CONTENTION_DELAY REQUEUE_REASON_CONTENTION
                       else After ladder REQUEUE_REASON_LADDER
              | None \<Rightarrow>
                  if is_store_contention error
                  then After CONTENTION_DELAY REQUEUE_REASON_CONTENTION
                  else After ladder REQUEUE_REASON_LADDER)"

text \<open>
  What the failure tells the store: a typed error, or a sentence when there is none.
\<close>

datatype FailReason = Typed Error | Text string

fun fail_reason_text :: "(json \<Rightarrow> string) \<Rightarrow> FailReason \<Rightarrow> string" where
  "fail_reason_text json_text (Typed e) = error_text json_text e"
| "fail_reason_text json_text (Text s) = s"

fun fail_reason_error :: "FailReason \<Rightarrow> Error option" where
  "fail_reason_error (Typed e) = Some e"
| "fail_reason_error (Text _) = None"

definition fail_verdict :: "FailReason \<Rightarrow> int \<Rightarrow> Requeue" where
  "fail_verdict reason attempts =
     (case fail_reason_error reason of
        Some e \<Rightarrow> requeue_after e attempts (stated_retry_after e)
      | None \<Rightarrow> After (ladder_delay attempts) REQUEUE_REASON_LADDER)"

section \<open>The jitter of a requeue\<close>

definition requeue_seed :: "uuid \<Rightarrow> int \<Rightarrow> 64 word" where
  "requeue_seed i attempts =
     fold (\<lambda>b a. a * 31 + ucast b) i (word_of_int (max attempts 0))"

text \<open>
  A quarter of the jittered backoff, truncated to whole seconds: the backoff is converted to a
  float, multiplied by the fraction (one rounding) and by \<open>0.25\<close> (exact).
\<close>

definition requeue_jitter :: "64 word \<Rightarrow> nat \<Rightarrow> nat" where
  "requeue_jitter seed backoff_secs =
     f64_round (lcg_bits seed * f64_round backoff_secs) div 2 ^ 33"

text \<open>
  The whole seconds of the delay, cast to \<open>i64\<close>, and the jitter, added to the clock. The
  additions neither overflow nor leave the calendar: \<open>requeue_after\<close> gives at most an hour for
  every wait the engines state (\<open>retry_after_value\<close> caps them at 600 seconds), which
  \<open>requeue_after_at_most_an_hour\<close> below proves.
\<close>

definition requeue_available_at :: "time \<Rightarrow> uuid \<Rightarrow> int \<Rightarrow> duration \<Rightarrow> time" where
  "requeue_available_at now i attempts delay =
     (let backoff_secs = as_secs delay;
          jitter = requeue_jitter (requeue_seed i attempts) backoff_secs
      in now + (u64_as_i64 backoff_secs + int jitter) * micros_per_sec)"

section \<open>The HTTP engine's retry sleep\<close>

text \<open>
  \<open>retry_after_value\<close>: a number of seconds, or an HTTP date. The date parser is the calendar
  library's, a parameter that returns the date's timestamp. \<open>num_seconds\<close> truncates towards
  zero; below it is only used where the difference is positive.
\<close>

definition parse_u64 :: "string \<Rightarrow> nat option" where
  "parse_u64 s =
     (let body = (if s \<noteq> [] \<and> hd s = CHR ''+'' then tl s else s)
      in if body = [] then None
         else case digits_value 0 body of
                None \<Rightarrow> None
              | Some n \<Rightarrow> if n \<le> u64_max then Some n else None)"

definition num_seconds :: "int \<Rightarrow> int" where
  "num_seconds d = (if 0 \<le> d then d div micros_per_sec else - ((- d) div micros_per_sec))"

definition retry_after_value :: "(string \<Rightarrow> time option) \<Rightarrow> string \<Rightarrow> time \<Rightarrow> duration option" where
  "retry_after_value parse_http_date raw now =
     (case parse_u64 raw of
        Some secs \<Rightarrow> Some (from_secs (min secs 600))
      | None \<Rightarrow>
          (case parse_http_date raw of
             None \<Rightarrow> None
           | Some when \<Rightarrow>
               (let secs = num_seconds (when - now)
                in if secs \<le> 0 then Some 0 else Some (from_secs (min (nat secs) 600)))))"

definition http_backoff :: "nat \<Rightarrow> nat \<Rightarrow> duration" where
  "http_backoff attempt base_ms =
     saturating_mul_u64 base_ms (saturating_pow_u64 2 (min (attempt - 1) 20)) * 1000000"

definition retry_floor :: "nat \<Rightarrow> duration option \<Rightarrow> nat \<Rightarrow> duration" where
  "retry_floor attempt retry_after base_ms =
     max (http_backoff attempt base_ms) (case retry_after of None \<Rightarrow> 0 | Some d \<Rightarrow> d)"

section \<open>Bounds\<close>

lemma ladder_delay_secs:
  "as_secs (ladder_delay attempts) = min 3600 (10 * 2 ^ as_u32 (max attempts 0))"
proof -
  let ?n = "as_u32 (max attempts 0)"
  show ?thesis
  proof (cases "?n < 64")
    case True
    then have "(2::nat) ^ ?n \<le> 2 ^ 63" by (intro power_increasing) auto
    then have "(2::nat) ^ ?n \<le> u64_max" by (simp add: u64_max_def)
    then show ?thesis
      by (simp add: ladder_delay_def saturating_pow_u64_eq saturating_mul_u64_def u64_max_def)
  next
    case False
    then have "(2::nat) ^ 64 \<le> 2 ^ ?n" by (intro power_increasing) auto
    then show ?thesis
      by (simp add: ladder_delay_def saturating_pow_u64_eq saturating_mul_u64_def u64_max_def)
  qed
qed

lemma ladder_delay_whole: "ladder_delay attempts = from_secs (as_secs (ladder_delay attempts))"
  by (simp add: ladder_delay_def)

lemma ladder_delay_bounds:
  "from_secs 10 \<le> ladder_delay attempts" "ladder_delay attempts \<le> from_secs 3600"
proof -
  have "10 \<le> as_secs (ladder_delay attempts)" "as_secs (ladder_delay attempts) \<le> 3600"
    by (simp_all add: ladder_delay_secs)
  then show "from_secs 10 \<le> ladder_delay attempts" "ladder_delay attempts \<le> from_secs 3600"
    by (subst ladder_delay_whole, simp)+
qed

lemma ladder_delay_mono:
  assumes "a \<le> b" and "b < 2 ^ 32"
  shows "ladder_delay a \<le> ladder_delay b"
proof -
  have "as_u32 (max a 0) \<le> as_u32 (max b 0)"
    using assms by (simp add: as_u32_def nat_mono)
  then have "(2::nat) ^ as_u32 (max a 0) \<le> 2 ^ as_u32 (max b 0)"
    by (intro power_increasing) auto
  then have "as_secs (ladder_delay a) \<le> as_secs (ladder_delay b)"
    by (simp add: ladder_delay_secs min_le_iff_disj)
  then show ?thesis by (subst (1 2) ladder_delay_whole) simp
qed

lemma requeue_after_Never:
  "(\<exists>r. requeue_after e a st = Never r) \<longleftrightarrow> is_router_failure e"
  by (auto simp: requeue_after_def Let_def split: option.splits)

lemma requeue_after_not_router:
  assumes "requeue_after e a st = After d r"
  shows "\<not> is_router_failure e"
  using assms by (auto simp: requeue_after_def Let_def)

lemma requeue_jitter_quarter:
  assumes "secs < 2 ^ 53"
  shows "4 * requeue_jitter seed secs \<le> secs"
proof -
  let ?k = "lcg_bits seed"
  let ?R = "f64_round (?k * secs)"
  have k: "?k \<le> 2 ^ 31 - 1" using lcg_bits_less [of seed] by linarith
  have "2 ^ 53 * ?R \<le> (2 ^ 53 + 1) * (?k * secs)" by (rule f64_round_upper)
  also have "\<dots> \<le> (2 ^ 53 + 1) * ((2 ^ 31 - 1) * secs)"
    using k by (intro mult_le_mono) auto
  also have "\<dots> \<le> 2 ^ 53 * (2 ^ 31 * secs)" by simp
  finally have "?R \<le> 2 ^ 31 * secs" by simp
  then have "?R div 2 ^ 33 \<le> (2 ^ 31 * secs) div 2 ^ 33" by (rule div_le_mono)
  moreover have "(2 ^ 31 * secs) div 2 ^ 33 = secs div 4"
    using div_mult_mult1 [of "2 ^ 31 :: nat" secs 4] by simp
  ultimately have "requeue_jitter seed secs \<le> secs div 4"
    using assms by (simp add: requeue_jitter_def)
  then show ?thesis by linarith
qed

lemma retry_after_value_capped: "retry_after_value pd raw now = Some d \<Longrightarrow> d \<le> from_secs 600"
  by (auto simp: retry_after_value_def Let_def split: option.splits if_splits)

lemma requeue_after_at_most_an_hour:
  assumes "requeue_after e a stated = After d why"
    and "case stated of None \<Rightarrow> True | Some w \<Rightarrow> w \<le> from_secs 3600"
  shows "as_secs d \<le> 3600"
proof -
  have "as_secs w \<le> 3600" if "w \<le> from_secs 3600" for w
    using div_le_mono [OF that, of nanos_per_sec] by (simp add: as_secs_def from_secs_def nanos_per_sec_def)
  then have "as_secs d \<le> 3600" if "d \<le> from_secs 3600" using that by blast
  moreover have "d \<le> from_secs 3600"
    using assms ladder_delay_bounds(2) [of a]
    by (auto simp: requeue_after_def Let_def CONTENTION_DELAY_def from_secs_def nanos_per_sec_def
        split: option.splits if_splits)
  ultimately show ?thesis .
qed

end
