(* ===== verification/Text.thy ===== *)
theory Text
  imports Requeue
begin

text \<open>
  What the components use of Rust's standard library on text, ordered maps and floats. A
  string is the list of its UTF-8 bytes, so every byte search for an ASCII pattern is the
  search over characters the source asks for, and the byte order is the order of \<open>String\<close>.
  \<open>f64\<close> arithmetic on finite values rounds the exact result to the nearest 53-bit
  significand, ties to even; amounts are dollars and stay far from the ends of the exponent
  range.
\<close>

section \<open>Text\<close>

definition strip_prefix :: "string \<Rightarrow> string \<Rightarrow> string option" where
  "strip_prefix p s = (if take (length p) s = p then Some (drop (length p) s) else None)"

definition strip_suffix :: "string \<Rightarrow> string \<Rightarrow> string option" where
  "strip_suffix p s =
     (if length p \<le> length s \<and> drop (length s - length p) s = p
      then Some (take (length s - length p) s) else None)"

text \<open>The text before and after the first occurrence of a pattern.\<close>

fun split_first :: "string \<Rightarrow> string \<Rightarrow> (string \<times> string) option" where
  "split_first p s =
     (if take (length p) s = p then Some ([], drop (length p) s)
      else case s of
             [] \<Rightarrow> None
           | c # cs \<Rightarrow> map_option (\<lambda>(a, b). (c # a, b)) (split_first p cs))"

declare split_first.simps [simp del]

definition str_contains :: "string \<Rightarrow> string \<Rightarrow> bool" where
  "str_contains p s \<longleftrightarrow> split_first p s \<noteq> None"

fun split_char :: "char \<Rightarrow> string \<Rightarrow> string list" where
  "split_char c [] = [[]]"
| "split_char c (x # xs) =
     (if x = c then [] # split_char c xs
      else case split_char c xs of [] \<Rightarrow> [[x]] | w # ws \<Rightarrow> (x # w) # ws)"

text \<open>The length of the white-space character a text begins with, 0 when it begins with none.\<close>

definition white_space_len :: "nat list \<Rightarrow> nat" where
  "white_space_len b =
     (let b0 = (if length b > 0 then b ! 0 else 0);
          b1 = (if length b > 1 then b ! 1 else 0);
          b2 = (if length b > 2 then b ! 2 else 0)
      in if b0 \<in> {9, 10, 11, 12, 13, 32} then 1
         else if b0 = 0xC2 \<and> b1 \<in> {0x85, 0xA0} then 2
         else if b0 = 0xE1 \<and> b1 = 0x9A \<and> b2 = 0x80 then 3
         else if b0 = 0xE2 \<and> b1 = 0x80 \<and> (0x80 \<le> b2 \<and> b2 \<le> 0x8A \<or> b2 \<in> {0xA8, 0xA9, 0xAF}) then 3
         else if b0 = 0xE2 \<and> b1 = 0x81 \<and> b2 = 0x9F then 3
         else if b0 = 0xE3 \<and> b1 = 0x80 \<and> b2 = 0x80 then 3
         else 0)"

definition utf8 :: "string \<Rightarrow> nat list" where
  "utf8 s = map of_char s"

function trim_start :: "string \<Rightarrow> string" where
  "trim_start s =
     (let n = white_space_len (utf8 s)
      in if s = [] \<or> n = 0 then s else trim_start (drop n s))"
  by pat_completeness auto

termination
  by (relation "measure length") auto

declare trim_start.simps [simp del]

text \<open>The number of bytes of the white-space character a text ends with.\<close>

definition white_space_end :: "string \<Rightarrow> nat" where
  "white_space_end s =
     (let b = utf8 s; n = length b
      in if n > 0 \<and> white_space_len (drop (n - 1) b) = 1 then 1
         else if n > 1 \<and> white_space_len (drop (n - 2) b) = 2 then 2
         else if n > 2 \<and> white_space_len (drop (n - 3) b) = 3 then 3
         else 0)"

function trim_end :: "string \<Rightarrow> string" where
  "trim_end s =
     (let n = white_space_end s
      in if s = [] \<or> n = 0 then s else trim_end (take (length s - n) s))"
  by pat_completeness auto

termination
  by (relation "measure length") auto

declare trim_end.simps [simp del]

definition trim :: "string \<Rightarrow> string" where
  "trim s = trim_end (trim_start s)"

text \<open>An unsigned integer as \<open>Display\<close> prints it.\<close>

fun decimal :: "nat \<Rightarrow> string" where
  "decimal n = (if n < 10 then [char_of (48 + n)] else decimal (n div 10) @ [char_of (48 + n mod 10)])"

declare decimal.simps [simp del]

section \<open>Ordered maps\<close>

text \<open>A \<open>BTreeMap\<close> is the list of its entries in ascending key order.\<close>

fun btree_insert :: "'k::linorder \<Rightarrow> 'v \<Rightarrow> ('k \<times> 'v) list \<Rightarrow> ('k \<times> 'v) list" where
  "btree_insert k v [] = [(k, v)]"
| "btree_insert k v ((k', v') # m) =
     (if k < k' then (k, v) # (k', v') # m
      else if k = k' then (k, v) # m
      else (k', v') # btree_insert k v m)"

definition btree_ok :: "('k::linorder \<times> 'v) list \<Rightarrow> bool" where
  "btree_ok m \<longleftrightarrow> sorted_wrt (<) (map fst m)"

lemma map_of_btree_insert [simp]:
  "btree_ok m \<Longrightarrow> map_of (btree_insert k v m) = (map_of m)(k \<mapsto> v)"
proof (induction k v m rule: btree_insert.induct)
  case (2 k v k' v' m)
  have "k' \<notin> set (map fst m)" and ok: "btree_ok m" using 2(2) by (auto simp: btree_ok_def)
  then show ?case using 2(1) by (auto simp: fun_upd_twist)
qed simp

lemma set_btree_insert [simp]: "fst ` set (btree_insert k v m) = insert k (fst ` set m)"
  by (induction k v m rule: btree_insert.induct) auto

lemma btree_ok_insert [simp]: "btree_ok m \<Longrightarrow> btree_ok (btree_insert k v m)"
proof (induction k v m rule: btree_insert.induct)
  case (2 k v k' v' m)
  have ok: "btree_ok m" and less: "\<forall>x\<in>fst ` set m. k' < x" using 2(2) by (auto simp: btree_ok_def)
  consider "k < k'" | "k = k'" | "k' < k" by fastforce
  then show ?case
  proof cases
    case 3
    then have "btree_ok (btree_insert k v m)" using 2(1) ok by auto
    moreover have "\<forall>x\<in>fst ` set (btree_insert k v m). k' < x" using less 3 by auto
    ultimately show ?thesis using 3 by (auto simp: btree_ok_def)
  qed (use less ok in \<open>auto simp: btree_ok_def\<close>)
qed (simp add: btree_ok_def)

lemma btree_ok_distinct: "btree_ok m \<Longrightarrow> distinct (map fst m)"
  by (simp add: btree_ok_def strict_sorted_iff)

lemma btree_ok_Nil [simp]: "btree_ok []"
  by (simp add: btree_ok_def)

section \<open>Floats\<close>

definition pow2 :: "int \<Rightarrow> rat" where
  "pow2 e = (if 0 \<le> e then 2 ^ nat e else 1 / 2 ^ nat (- e))"

fun bit_length :: "nat \<Rightarrow> nat" where
  "bit_length n = (if n = 0 then 0 else Suc (bit_length (n div 2)))"

declare bit_length.simps [simp del]

definition round_even :: "rat \<Rightarrow> int" where
  "round_even x =
     (let f = \<lfloor>x\<rfloor>; r = x - of_int f
      in if r < 1 / 2 then f else if 1 / 2 < r then f + 1 else if even f then f else f + 1)"

definition f64_ulp_exp :: "rat \<Rightarrow> int" where
  "f64_ulp_exp q =
     (case quotient_of q of (n, d) \<Rightarrow>
        let k = int (bit_length (nat \<bar>n\<bar>)) - int (bit_length (nat d)) - 53
        in if pow2 (k + 53) \<le> \<bar>q\<bar> then k + 1 else k)"

definition f64_of_rat :: "rat \<Rightarrow> rat" where
  "f64_of_rat q =
     (if q = 0 then 0 else of_int (round_even (q / pow2 (f64_ulp_exp q))) * pow2 (f64_ulp_exp q))"

definition f64_add :: "rat \<Rightarrow> rat \<Rightarrow> rat" where
  "f64_add a b = f64_of_rat (a + b)"

definition f64_sub :: "rat \<Rightarrow> rat \<Rightarrow> rat" where
  "f64_sub a b = f64_of_rat (a - b)"

section \<open>JSON accessors\<close>

definition as_f64 :: "json \<Rightarrow> rat option" where
  "as_f64 v =
     (case v of
        JPosInt n \<Rightarrow> Some (of_nat (f64_round n))
      | JNegInt i \<Rightarrow> Some (- of_nat (f64_round (nat (- i))))
      | JFloat r \<Rightarrow> Some r
      | _ \<Rightarrow> None)"

definition as_i64 :: "json \<Rightarrow> int option" where
  "as_i64 v =
     (case v of
        JPosInt n \<Rightarrow> if n < 2 ^ 63 then Some (int n) else None
      | JNegInt i \<Rightarrow> Some i
      | _ \<Rightarrow> None)"

definition as_str :: "json \<Rightarrow> string option" where
  "as_str v = (case v of JString s \<Rightarrow> Some s | _ \<Rightarrow> None)"

definition as_object :: "json \<Rightarrow> (string \<times> json) list option" where
  "as_object v = (case v of JObject obj \<Rightarrow> Some obj | _ \<Rightarrow> None)"

lemma split_first_append:
  "split_first p s = Some (a, b) \<Longrightarrow> s = a @ p @ b"
proof (induction p s arbitrary: a rule: split_first.induct)
  case (1 p s)
  show ?case
  proof (cases "take (length p) s = p")
    case True
    with 1(2) show ?thesis
      by (subst (asm) split_first.simps) (metis append_Nil append_take_drop_id option.inject prod.inject)
  next
    case False
    with 1(2) obtain c cs a' where "s = c # cs" "split_first p cs = Some (a', b)" "a = c # a'"
      by (subst (asm) split_first.simps) (auto split: list.splits)
    with 1(1) [OF False this(1,2)] show ?thesis by simp
  qed
qed

lemma split_first_shorter:
  "split_first p s = Some (a, b) \<Longrightarrow> p \<noteq> [] \<Longrightarrow> length b < length s"
  by (drule split_first_append) simp

section \<open>Trimming twice\<close>

lemma white_space_len_Nil [simp]: "white_space_len [] = 0"
  by (simp add: white_space_len_def)

lemma white_space_len_short:
  "white_space_len [x] = (if x \<in> {9, 10, 11, 12, 13, 32} then 1 else 0)"
  "white_space_len [x, y] =
     (if x \<in> {9, 10, 11, 12, 13, 32} then 1 else if x = 0xC2 \<and> y \<in> {0x85, 0xA0} then 2 else 0)"
  "white_space_len (x # y # z # b) = white_space_len [x, y, z]"
  by (simp_all add: white_space_len_def)

lemma white_space_len_ascii: "x \<in> {9, 10, 11, 12, 13, 32} \<Longrightarrow> white_space_len (x # b) = 1"
  by (simp add: white_space_len_def)

lemma white_space_len_two: "y \<in> {0x85, 0xA0} \<Longrightarrow> white_space_len (0xC2 # y # b) = 2"
  by (simp add: white_space_len_def)

lemma white_space_len_prefix:
  assumes "white_space_len b \<noteq> 0"
  shows "white_space_len (b @ c) = white_space_len b"
proof -
  consider "b = []" | x where "b = [x]" | x y where "b = [x, y]" | x y z b' where "b = x # y # z # b'"
    by (metis list.exhaust)
  then show ?thesis
  proof cases
    case 2
    then show ?thesis using assms white_space_len_ascii [of x] by (auto simp: white_space_len_short(1) split: if_splits)
  next
    case (3 x y)
    show ?thesis
    proof (cases "x \<in> {9, 10, 11, 12, 13, 32}")
      case True
      then show ?thesis using 3 white_space_len_ascii [OF True] by simp
    next
      case False
      then have "x = 0xC2" "y \<in> {0x85, 0xA0}" using assms 3 by (auto simp: white_space_len_short(2) split: if_splits)
      then show ?thesis using 3 white_space_len_two by simp
    qed
  next
    case (4 x y z b')
    have "white_space_len (b @ c) = white_space_len [x, y, z]"
      unfolding 4 append_Cons by (rule white_space_len_short(3))
    moreover have "white_space_len b = white_space_len [x, y, z]" unfolding 4 by (rule white_space_len_short(3))
    ultimately show ?thesis by simp
  qed (use assms in simp)
qed

lemma trim_start_done: "white_space_len (utf8 (trim_start s)) = 0"
proof (induction s rule: trim_start.induct)
  case (1 s)
  then show ?case by (subst trim_start.simps) (auto simp: Let_def utf8_def)
qed

lemma trim_start_id: "white_space_len (utf8 s) = 0 \<Longrightarrow> trim_start s = s"
  by (subst trim_start.simps) simp

lemma trim_end_done: "trim_end s = [] \<or> white_space_end (trim_end s) = 0"
proof (induction s rule: trim_end.induct)
  case (1 s)
  then show ?case by (subst (1 2) trim_end.simps) (auto simp: Let_def)
qed

lemma trim_end_id: "s = [] \<or> white_space_end s = 0 \<Longrightarrow> trim_end s = s"
  by (subst trim_end.simps) auto

lemma trim_end_prefix: "\<exists>r. s = trim_end s @ r"
proof (induction s rule: trim_end.induct)
  case (1 s)
  show ?case
  proof (cases "s = [] \<or> white_space_end s = 0")
    case False
    then obtain r where "take (length s - white_space_end s) s = trim_end (take (length s - white_space_end s) s) @ r"
      using 1 by auto
    then have "s = trim_end (take (length s - white_space_end s) s) @ r @ drop (length s - white_space_end s) s"
      by (metis append.assoc append_take_drop_id)
    moreover have "trim_end s = trim_end (take (length s - white_space_end s) s)"
      using False by (subst trim_end.simps) (simp add: Let_def)
    ultimately show ?thesis by auto
  qed (simp add: trim_end_id)
qed

lemma trim_trim [simp]: "trim (trim s) = trim s"
proof -
  obtain r where r: "trim_start s = trim s @ r" using trim_end_prefix [of "trim_start s"] by (auto simp: trim_def)
  have "white_space_len (utf8 (trim s)) = 0"
  proof (rule ccontr)
    assume "white_space_len (utf8 (trim s)) \<noteq> 0"
    then have "white_space_len (utf8 (trim s) @ utf8 r) \<noteq> 0" using white_space_len_prefix by simp
    moreover have "utf8 (trim s) @ utf8 r = utf8 (trim_start s)" by (simp add: r utf8_def)
    ultimately show False using trim_start_done [of s] by simp
  qed
  then have "trim (trim s) = trim_end (trim s)" by (simp add: trim_def [of "trim s"] trim_start_id)
  also have "\<dots> = trim s" using trim_end_done [of "trim_start s"] by (intro trim_end_id) (simp add: trim_def)
  finally show ?thesis .
qed

end
