(* ===== verification/Job_Store.thy ===== *)
theory Job_Store
  imports Job Text
begin

text \<open>
  The job queue of \<open>crates/core/src/storage.rs\<close>: the store (the \<open>jobs\<close>, \<open>checkpoints\<close>
  and \<open>executors\<close> tables) and one definition per operation, each the SQL statement the source
  issues, with the rows it returns. The clock, the fresh identifier, SQLite's \<open>julianday\<close>
  and the JSON printer and parser are arguments. A write guarded on \<open>(status, attempts)\<close> is
  guarded here by \<open>owns\<close>.
\<close>

section \<open>The store\<close>

record checkpoint_row =
  cp_job_id :: uuid
  cp_state :: string
  cp_attempt :: int
  cp_resume_failures :: int
  cp_updated_at :: time

record executor_row =
  ex_id :: string
  ex_capabilities :: "string list"
  ex_first_seen_at :: time
  ex_last_poll_at :: time
  ex_claimed_total :: int

record store =
  jobs :: "job_row list"
  checkpoints :: "checkpoint_row list"
  executors :: "executor_row list"

definition empty_store :: store where
  "empty_store = \<lparr>jobs = [], checkpoints = [], executors = []\<rparr>"

definition get_job :: "uuid \<Rightarrow> store \<Rightarrow> job_row option" where
  "get_job i s = find (\<lambda>r. j_id r = i) (jobs s)"

definition owns :: "uuid \<Rightarrow> int \<Rightarrow> job_row \<Rightarrow> bool" where
  "owns i attempt r \<longleftrightarrow> j_id r = i \<and> j_status r = Running \<and> j_attempts r = attempt"

definition update_jobs :: "(job_row \<Rightarrow> bool) \<Rightarrow> (job_row \<Rightarrow> job_row) \<Rightarrow> store \<Rightarrow> store" where
  "update_jobs p f s = s\<lparr>jobs := update_where p f (jobs s)\<rparr>"

section \<open>Enqueue\<close>

definition get_by_idempotency_key :: "string \<Rightarrow> store \<Rightarrow> job_row option" where
  "get_by_idempotency_key key s = find (\<lambda>r. j_idempotency_key r = Some key) (jobs s)"

definition new_job_row ::
  "uuid \<Rightarrow> time \<Rightarrow> string \<Rightarrow> EnqueueOptions \<Rightarrow> string option \<Rightarrow> job_row" where
  "new_job_row i now app opts prin =
     \<lparr>j_id = i, j_app = app, j_params = o_params opts, j_status = Queued, j_attempts = 0,
      j_max_attempts = max (o_max_attempts opts) 1, j_priority = o_priority opts,
      j_callback_url = o_callback_url opts, j_callback_secret = o_callback_secret opts,
      j_budget_usd = o_budget_usd opts, j_idempotency_key = o_idempotency_key opts,
      j_schedule_id = o_schedule_id opts, j_trigger_id = o_trigger_id opts,
      j_source_job_id = o_source_job_id opts, j_target_key = o_target_key opts,
      j_result = None, j_error = None, j_requeue_reason = None, j_cause_kind = None,
      j_input_request = None, j_waiting_since = None, j_waiting_expires_at = None,
      j_resumed_input = None, j_executor_id = None, j_heartbeat_at = None,
      j_principal_id = prin, j_workflow_run_id = o_workflow_run_id opts,
      j_workflow_step = o_workflow_step opts, j_root_id = o_root_id opts,
      j_created_at = now, j_available_at = now + u64_as_i64 (o_delay_secs opts) * micros_per_sec,
      j_started_at = None, j_finished_at = None\<rparr>"

text \<open>
  The insert is refused by the primary key and by the unique index on non-null idempotency keys.
\<close>

definition insert_conflict :: "job_row \<Rightarrow> store \<Rightarrow> bool" where
  "insert_conflict r s \<longleftrightarrow>
     (\<exists>x\<in>set (jobs s). j_id x = j_id r) \<or>
     (j_idempotency_key r \<noteq> None \<and> (\<exists>x\<in>set (jobs s). j_idempotency_key x = j_idempotency_key r))"

datatype store_error = UniqueViolation | CheckpointTooLarge nat | DelayPanic

text \<open>The statements from the insert on: a lost race on the key returns the winner.\<close>

definition enqueue_insert ::
  "uuid \<Rightarrow> time \<Rightarrow> string \<Rightarrow> EnqueueOptions \<Rightarrow> string option \<Rightarrow> store
    \<Rightarrow> store \<times> (store_error + job_row \<times> bool)" where
  "enqueue_insert i now app opts prin s =
     (let r = new_job_row i now app opts prin
      in if insert_conflict r s
         then (case o_idempotency_key opts of
                 None \<Rightarrow> (s, Inl UniqueViolation)
               | Some key \<Rightarrow>
                   (case get_by_idempotency_key key s of
                      Some existing \<Rightarrow> (s, Inr (existing, False))
                    | None \<Rightarrow> (s, Inl UniqueViolation)))
         else (s\<lparr>jobs := jobs s @ [r]\<rparr>, Inr (r, True)))"

text \<open>
  What follows the key lookup. The delay is the client's, cast to \<open>i64\<close> and added to the clock
  before the insert is issued; an addition that panics leaves the store as it was
  (\<open>DelayPanic\<close>).
\<close>

definition enqueue_new ::
  "uuid \<Rightarrow> time \<Rightarrow> string \<Rightarrow> EnqueueOptions \<Rightarrow> string option \<Rightarrow> store
    \<Rightarrow> store \<times> (store_error + job_row \<times> bool)" where
  "enqueue_new i now app opts prin s =
     (if chrono_add_panics now (u64_as_i64 (o_delay_secs opts)) then (s, Inl DelayPanic)
      else enqueue_insert i now app opts prin s)"

definition enqueue_dedup_as ::
  "uuid \<Rightarrow> time \<Rightarrow> string \<Rightarrow> EnqueueOptions \<Rightarrow> string option \<Rightarrow> store
    \<Rightarrow> store \<times> (store_error + job_row \<times> bool)" where
  "enqueue_dedup_as i now app opts prin s =
     (case o_idempotency_key opts of
        None \<Rightarrow> enqueue_new i now app opts prin s
      | Some key \<Rightarrow>
          (case get_by_idempotency_key key s of
             Some existing \<Rightarrow> (s, Inr (existing, False))
           | None \<Rightarrow> enqueue_new i now app opts prin s))"

definition enqueue_dedup ::
  "uuid \<Rightarrow> time \<Rightarrow> string \<Rightarrow> EnqueueOptions \<Rightarrow> store \<Rightarrow> store \<times> (store_error + job_row \<times> bool)" where
  "enqueue_dedup i now app opts s = enqueue_dedup_as i now app opts None s"

section \<open>Claim\<close>

definition target_held :: "job_row list \<Rightarrow> job_row \<Rightarrow> bool" where
  "target_held rows r \<longleftrightarrow>
     (case j_target_key r of
        None \<Rightarrow> False
      | Some k \<Rightarrow> (\<exists>x\<in>set rows. j_status x = Running \<and> j_target_key x = Some k))"

definition due :: "time \<Rightarrow> job_row \<Rightarrow> bool" where
  "due now r \<longleftrightarrow> j_status r = Queued \<and> j_available_at r \<le> now"

definition claimable :: "time \<Rightarrow> string list \<Rightarrow> job_row list \<Rightarrow> job_row \<Rightarrow> bool" where
  "claimable now blocked rows r \<longleftrightarrow>
     due now r \<and> j_app r \<notin> set blocked \<and> \<not> target_held rows r"

text \<open>
  The order of a claim. With ageing the key is a SQLite \<open>REAL\<close>: the integer priority is converted
  to a double and every operation rounds to one, so large priorities may tie and the older job
  then goes first. Without ageing the key is the integer column itself, compared exactly.
\<close>

definition effective_priority :: "(time \<Rightarrow> rat) \<Rightarrow> rat \<Rightarrow> time \<Rightarrow> job_row \<Rightarrow> rat" where
  "effective_priority julianday aging_coeff now r =
     (let days = f64_sub (julianday now) (julianday (j_created_at r));
          secs = f64_of_rat (days * 86400);
          aged = f64_of_rat (secs / aging_coeff)
      in f64_add (f64_of_rat (of_int (j_priority r))) aged)"

definition claim_key :: "(time \<Rightarrow> rat) \<Rightarrow> rat \<Rightarrow> time \<Rightarrow> job_row \<Rightarrow> rat \<times> time" where
  "claim_key julianday aging_coeff now r =
     (if aging_coeff > 0
      then (- effective_priority julianday aging_coeff now r, j_created_at r)
      else (- of_int (j_priority r), j_created_at r))"

definition claim_set :: "time \<Rightarrow> job_row \<Rightarrow> job_row" where
  "claim_set now r =
     r\<lparr>j_status := Running, j_attempts := j_attempts r + 1, j_started_at := Some now,
       j_heartbeat_at := Some now\<rparr>"

definition claim_next ::
  "(time \<Rightarrow> rat) \<Rightarrow> string list \<Rightarrow> rat \<Rightarrow> time \<Rightarrow> store \<Rightarrow> store \<times> job_row option" where
  "claim_next julianday blocked aging_coeff now s =
     (case order_limit (claim_key julianday aging_coeff now) 1
             (filter (claimable now blocked (jobs s)) (jobs s)) of
        [] \<Rightarrow> (s, None)
      | r # _ \<Rightarrow> (update_jobs (\<lambda>x. j_id x = j_id r) (claim_set now) s, Some (claim_set now r)))"

definition claim_executor_set :: "time \<Rightarrow> string \<Rightarrow> job_row \<Rightarrow> job_row" where
  "claim_executor_set now executor r = (claim_set now r)\<lparr>j_executor_id := Some executor\<rparr>"

definition claim_next_for_executor ::
  "(time \<Rightarrow> rat) \<Rightarrow> string \<Rightarrow> string list \<Rightarrow> string list \<Rightarrow> rat \<Rightarrow> time \<Rightarrow> store
    \<Rightarrow> store \<times> job_row option" where
  "claim_next_for_executor julianday executor eligible blocked aging_coeff now s =
     (if eligible = [] then (s, None)
      else case order_limit (claim_key julianday aging_coeff now) 1
             (filter (\<lambda>r. j_app r \<in> set eligible \<and> claimable now blocked (jobs s) r) (jobs s)) of
             [] \<Rightarrow> (s, None)
           | r # _ \<Rightarrow> (update_jobs (\<lambda>x. j_id x = j_id r) (claim_executor_set now executor) s,
                       Some (claim_executor_set now executor r)))"

definition job_claimed_by :: "uuid \<Rightarrow> int \<Rightarrow> string \<Rightarrow> store \<Rightarrow> bool" where
  "job_claimed_by i attempt executor s \<longleftrightarrow>
     (\<exists>r\<in>set (jobs s). owns i attempt r \<and> j_executor_id r = Some executor)"

definition heartbeat_set :: "time \<Rightarrow> job_row \<Rightarrow> job_row" where
  "heartbeat_set now r = r\<lparr>j_heartbeat_at := Some now\<rparr>"

definition heartbeat_from :: "time \<Rightarrow> uuid \<Rightarrow> int \<Rightarrow> string \<Rightarrow> store \<Rightarrow> store \<times> bool" where
  "heartbeat_from now i attempt executor s =
     (let p = (\<lambda>r. owns i attempt r \<and> j_executor_id r = Some executor)
      in (update_jobs p (heartbeat_set now) s, rows_affected p (jobs s) > 0))"

definition record_executor_poll :: "time \<Rightarrow> string \<Rightarrow> string list \<Rightarrow> bool \<Rightarrow> store \<Rightarrow> store" where
  "record_executor_poll now i capabilities claimed s =
     (let n = (if claimed then 1 else 0)
      in if \<exists>e\<in>set (executors s). ex_id e = i
         then s\<lparr>executors := update_where (\<lambda>e. ex_id e = i)
                (\<lambda>e. e\<lparr>ex_capabilities := capabilities, ex_last_poll_at := now,
                       ex_claimed_total := ex_claimed_total e + n\<rparr>) (executors s)\<rparr>
         else s\<lparr>executors := executors s @
                [\<lparr>ex_id = i, ex_capabilities = capabilities, ex_first_seen_at = now,
                  ex_last_poll_at = now, ex_claimed_total = n\<rparr>]\<rparr>)"

definition executor_running_counts :: "store \<Rightarrow> (string \<times> nat) list" where
  "executor_running_counts s =
     (let running = filter (\<lambda>r. j_status r = Running \<and> j_executor_id r \<noteq> None) (jobs s)
      in map (\<lambda>a. (a, length (filter (\<lambda>r. j_app r = a) running)))
             (sort (remdups (map j_app running))))"

section \<open>Verdicts\<close>

definition complete_set :: "time \<Rightarrow> json \<Rightarrow> job_row \<Rightarrow> job_row" where
  "complete_set now res r =
     r\<lparr>j_status := Succeeded, j_result := Some res, j_error := None, j_finished_at := Some now\<rparr>"

definition complete :: "time \<Rightarrow> uuid \<Rightarrow> int \<Rightarrow> json \<Rightarrow> store \<Rightarrow> store \<times> bool" where
  "complete now i attempt res s =
     (update_jobs (owns i attempt) (complete_set now res) s,
      rows_affected (owns i attempt) (jobs s) > 0)"

definition coalesce :: "'a option \<Rightarrow> 'a option \<Rightarrow> 'a option" where
  "coalesce a b = (case a of Some x \<Rightarrow> Some x | None \<Rightarrow> b)"

definition failed_set ::
  "time \<Rightarrow> string \<Rightarrow> string option \<Rightarrow> string option \<Rightarrow> job_row \<Rightarrow> job_row" where
  "failed_set now err why kind r =
     r\<lparr>j_status := Failed, j_error := Some err, j_finished_at := Some now,
       j_requeue_reason := coalesce why (j_requeue_reason r),
       j_cause_kind := coalesce kind (j_cause_kind r)\<rparr>"

definition fail_permanently_because ::
  "time \<Rightarrow> uuid \<Rightarrow> int \<Rightarrow> string \<Rightarrow> string option \<Rightarrow> string option \<Rightarrow> store \<Rightarrow> store \<times> bool" where
  "fail_permanently_because now i attempt err why kind s =
     (update_jobs (owns i attempt) (failed_set now err why kind) s,
      rows_affected (owns i attempt) (jobs s) > 0)"

definition fail_permanently :: "time \<Rightarrow> uuid \<Rightarrow> int \<Rightarrow> string \<Rightarrow> store \<Rightarrow> store \<times> bool" where
  "fail_permanently now i attempt err s = fail_permanently_because now i attempt err None None s"

definition requeue_set :: "string \<Rightarrow> time \<Rightarrow> string \<Rightarrow> string option \<Rightarrow> job_row \<Rightarrow> job_row" where
  "requeue_set err available why kind r =
     r\<lparr>j_status := Queued, j_error := Some err, j_available_at := available,
       j_requeue_reason := Some why, j_cause_kind := kind\<rparr>"

text \<open>
  \<open>fail\<close> reads the row, decides, and issues one guarded write. \<open>fail_from\<close> is everything after
  the read, over the row \<open>job\<close> that was read and the store at the time of the write.
\<close>

definition fail_from ::
  "(json \<Rightarrow> string) \<Rightarrow> job_row \<Rightarrow> time \<Rightarrow> uuid \<Rightarrow> int \<Rightarrow> FailReason \<Rightarrow> store
    \<Rightarrow> store \<times> JobStatus option" where
  "fail_from json_text job now i attempt reason s =
     (if j_status job \<noteq> Running \<or> j_attempts job \<noteq> attempt then (s, None)
      else let err = fail_reason_text json_text reason;
               kind = (case fail_reason_error reason of None \<Rightarrow> None | Some e \<Rightarrow> cause_kind e)
           in case fail_verdict reason (j_attempts job) of
                Never why \<Rightarrow>
                  (let (s', ok) = fail_permanently_because now i attempt err (Some why) kind s
                   in (s', if ok then Some Failed else None))
              | After delay why \<Rightarrow>
                  if j_attempts job < j_max_attempts job
                  then (update_jobs (owns i attempt)
                          (requeue_set err (requeue_available_at now i (j_attempts job) delay) why kind) s,
                        if rows_affected (owns i attempt) (jobs s) > 0 then Some Queued else None)
                  else (let (s', ok) = fail_permanently now i attempt err s
                        in (s', if ok then Some Failed else None)))"

definition fail ::
  "(json \<Rightarrow> string) \<Rightarrow> time \<Rightarrow> uuid \<Rightarrow> int \<Rightarrow> FailReason \<Rightarrow> store \<Rightarrow> store \<times> JobStatus option" where
  "fail json_text now i attempt reason s =
     (case get_job i s of
        None \<Rightarrow> (s, None)
      | Some job \<Rightarrow> fail_from json_text job now i attempt reason s)"

definition heartbeat :: "time \<Rightarrow> uuid \<Rightarrow> int \<Rightarrow> store \<Rightarrow> store \<times> bool" where
  "heartbeat now i attempt s =
     (update_jobs (owns i attempt) (heartbeat_set now) s,
      rows_affected (owns i attempt) (jobs s) > 0)"

section \<open>Cancel, reset, wait, resume, retry\<close>

definition cancel_set :: "time \<Rightarrow> job_row \<Rightarrow> job_row" where
  "cancel_set now r = r\<lparr>j_status := Cancelled, j_finished_at := Some now\<rparr>"

definition cancel :: "time \<Rightarrow> uuid \<Rightarrow> store \<Rightarrow> store \<times> string option" where
  "cancel now i s =
     (let p = (\<lambda>r. j_id r = i \<and> (j_status r = Queued \<or> j_status r = Waiting))
      in (update_jobs p (cancel_set now) s, map_option j_app (find p (jobs s))))"

definition cancel_running :: "time \<Rightarrow> uuid \<Rightarrow> int \<Rightarrow> store \<Rightarrow> store \<times> bool" where
  "cancel_running now i attempt s =
     (update_jobs (owns i attempt) (cancel_set now) s,
      rows_affected (owns i attempt) (jobs s) > 0)"

text \<open>The re-queue \<open>reset\<close>, \<open>retry\<close> and \<open>retry_bulk\<close> share: one more attempt is granted.\<close>

definition requeue_fresh :: "time \<Rightarrow> job_row \<Rightarrow> job_row" where
  "requeue_fresh now r =
     r\<lparr>j_status := Queued, j_error := None, j_finished_at := None, j_available_at := now,
       j_max_attempts := max (j_max_attempts r) (j_attempts r + 1)\<rparr>"

definition reset :: "time \<Rightarrow> uuid \<Rightarrow> store \<Rightarrow> store \<times> job_row option" where
  "reset now i s =
     (let p = (\<lambda>r. j_id r = i \<and> j_status r = Running); s' = update_jobs p (requeue_fresh now) s
      in (s', if rows_affected p (jobs s) = 0 then None else get_job i s'))"

definition await_set :: "time \<Rightarrow> json \<Rightarrow> time option \<Rightarrow> job_row \<Rightarrow> job_row" where
  "await_set now request expires_at r =
     r\<lparr>j_status := Waiting, j_input_request := Some request, j_waiting_since := Some now,
       j_waiting_expires_at := expires_at, j_resumed_input := None, j_error := None\<rparr>"

definition await_input ::
  "time \<Rightarrow> uuid \<Rightarrow> int \<Rightarrow> json \<Rightarrow> time option \<Rightarrow> store \<Rightarrow> store \<times> bool" where
  "await_input now i attempt request expires_at s =
     (update_jobs (owns i attempt) (await_set now request expires_at) s,
      rows_affected (owns i attempt) (jobs s) > 0)"

definition resume_set :: "time \<Rightarrow> json \<Rightarrow> job_row \<Rightarrow> job_row" where
  "resume_set now input r =
     (requeue_fresh now r)\<lparr>j_resumed_input := Some input, j_waiting_expires_at := None\<rparr>"

definition resume :: "time \<Rightarrow> uuid \<Rightarrow> json \<Rightarrow> store \<Rightarrow> store \<times> job_row option" where
  "resume now i input s =
     (let p = (\<lambda>r. j_id r = i \<and> j_status r = Waiting); s' = update_jobs p (resume_set now input) s
      in (s', if rows_affected p (jobs s) = 0 then None else get_job i s'))"

definition expired :: "time \<Rightarrow> job_row \<Rightarrow> bool" where
  "expired now r \<longleftrightarrow> j_status r = Waiting \<and>
     (case j_waiting_expires_at r of None \<Rightarrow> False | Some t \<Rightarrow> t \<le> now)"

definition expire_set :: "time \<Rightarrow> string \<Rightarrow> job_row \<Rightarrow> job_row" where
  "expire_set now reason r =
     r\<lparr>j_status := Failed, j_error := Some reason, j_finished_at := Some now\<rparr>"

definition expire_waiting :: "time \<Rightarrow> string \<Rightarrow> int \<Rightarrow> store \<Rightarrow> store \<times> (uuid \<times> string) list" where
  "expire_waiting now reason cap s =
     (let ids = map j_id (order_limit j_waiting_expires_at (nat (max cap 0))
                            (filter (expired now) (jobs s)));
          p = (\<lambda>r. j_id r \<in> set ids)
      in (update_jobs p (expire_set now reason) s,
          map (\<lambda>r. (j_id r, j_app r)) (filter p (jobs s))))"

definition retry_bulk ::
  "time \<Rightarrow> JobStatus \<Rightarrow> string option \<Rightarrow> int \<Rightarrow> store \<Rightarrow> store \<times> (uuid \<times> string) list" where
  "retry_bulk now status app cap s =
     (let ids = map j_id (order_limit j_created_at (nat (max cap 0))
                  (filter (\<lambda>r. j_status r = status \<and> (app = None \<or> app = Some (j_app r))) (jobs s)));
          p = (\<lambda>r. j_id r \<in> set ids)
      in (update_jobs p (requeue_fresh now) s, map (\<lambda>r. (j_id r, j_app r)) (filter p (jobs s))))"

definition retry :: "time \<Rightarrow> uuid \<Rightarrow> store \<Rightarrow> store \<times> job_row option" where
  "retry now i s =
     (let p = (\<lambda>r. j_id r = i \<and> (j_status r = Failed \<or> j_status r = Cancelled));
          s' = update_jobs p (requeue_fresh now) s
      in (s', if rows_affected p (jobs s) = 0 then None else get_job i s'))"

section \<open>Recovery\<close>

definition RECOVERY_SWEEP_LIMIT :: nat where
  "RECOVERY_SWEEP_LIMIT = 1000"

definition RECOVERY_SWEEP_BUDGET :: duration where
  "RECOVERY_SWEEP_BUDGET = from_secs 5"

definition RECOVERY_REASON_BOOT :: string where
  "RECOVERY_REASON_BOOT = ''interrupted at boot (executor gone)''"

definition RECOVERY_REASON_LEASE :: string where
  "RECOVERY_REASON_LEASE = ''lease expired (heartbeat stale)''"

record RecoverySweep =
  sw_requeued :: nat
  sw_failed :: nat
  sw_skipped :: nat
  sw_truncated :: bool
  sw_verdicts :: "(uuid \<times> string \<times> JobStatus) list"

definition empty_sweep :: RecoverySweep where
  "empty_sweep = \<lparr>sw_requeued = 0, sw_failed = 0, sw_skipped = 0, sw_truncated = False,
                  sw_verdicts = []\<rparr>"

definition sweep_count :: "job_row \<Rightarrow> JobStatus option \<Rightarrow> RecoverySweep \<Rightarrow> RecoverySweep" where
  "sweep_count job outcome sw =
     (case outcome of
        Some status \<Rightarrow>
          (let sw' = (if status = Failed then sw\<lparr>sw_failed := sw_failed sw + 1\<rparr>
                      else sw\<lparr>sw_requeued := sw_requeued sw + 1\<rparr>)
           in sw'\<lparr>sw_verdicts := sw_verdicts sw @ [(j_id job, j_app job, status)]\<rparr>)
      | None \<Rightarrow> sw\<lparr>sw_skipped := sw_skipped sw + 1\<rparr>)"

text \<open>
  The loop over the scanned rows. The \<open>n\<close>-th iteration reads the clock (\<open>elapsed n\<close> since the
  sweep began, \<open>now n\<close> for the write); before its verdict other tasks may have acted on the
  store, which \<open>others n\<close> stands for.
\<close>

fun issue_recovery_verdicts ::
  "(json \<Rightarrow> string) \<Rightarrow> (nat \<Rightarrow> duration) \<Rightarrow> (nat \<Rightarrow> time) \<Rightarrow> (nat \<Rightarrow> store \<Rightarrow> store) \<Rightarrow> string
    \<Rightarrow> nat \<Rightarrow> job_row list \<Rightarrow> store \<Rightarrow> RecoverySweep \<Rightarrow> store \<times> RecoverySweep" where
  "issue_recovery_verdicts json_text elapsed now others reason n [] s sw = (s, sw)"
| "issue_recovery_verdicts json_text elapsed now others reason n (job # rows) s sw =
     (if elapsed n \<ge> RECOVERY_SWEEP_BUDGET then (s, sw\<lparr>sw_truncated := True\<rparr>)
      else let (s', outcome) = fail json_text (now n) (j_id job) (j_attempts job) (Text reason) (others n s)
           in issue_recovery_verdicts json_text elapsed now others reason (Suc n) rows s'
                (sweep_count job outcome sw))"

definition recover_stuck_with_reason ::
  "(json \<Rightarrow> string) \<Rightarrow> (nat \<Rightarrow> duration) \<Rightarrow> (nat \<Rightarrow> time) \<Rightarrow> (nat \<Rightarrow> store \<Rightarrow> store) \<Rightarrow> string
    \<Rightarrow> store \<Rightarrow> store \<times> RecoverySweep" where
  "recover_stuck_with_reason json_text elapsed now others reason s =
     (let rows = order_limit (\<lambda>r. (j_started_at r, j_id r)) RECOVERY_SWEEP_LIMIT
                   (filter (\<lambda>r. j_status r = Running) (jobs s));
          (s', sw) = issue_recovery_verdicts json_text elapsed now others reason 0 rows s empty_sweep
      in (s', sw\<lparr>sw_truncated := sw_truncated sw \<or> length rows = RECOVERY_SWEEP_LIMIT\<rparr>))"

definition recover_stuck ::
  "(json \<Rightarrow> string) \<Rightarrow> (nat \<Rightarrow> duration) \<Rightarrow> (nat \<Rightarrow> time) \<Rightarrow> (nat \<Rightarrow> store \<Rightarrow> store)
    \<Rightarrow> store \<Rightarrow> store \<times> RecoverySweep" where
  "recover_stuck json_text elapsed now others s =
     recover_stuck_with_reason json_text elapsed now others RECOVERY_REASON_BOOT s"

definition last_beat :: "job_row \<Rightarrow> time" where
  "last_beat r =
     (case j_heartbeat_at r of
        Some t \<Rightarrow> t
      | None \<Rightarrow> (case j_started_at r of Some t \<Rightarrow> t | None \<Rightarrow> j_created_at r))"

definition reap_stale ::
  "(json \<Rightarrow> string) \<Rightarrow> (nat \<Rightarrow> duration) \<Rightarrow> (nat \<Rightarrow> time) \<Rightarrow> (nat \<Rightarrow> store \<Rightarrow> store) \<Rightarrow> time \<Rightarrow> int
    \<Rightarrow> store \<Rightarrow> store \<times> (uuid \<times> string \<times> JobStatus) list" where
  "reap_stale json_text elapsed now others scan_time stale_secs s =
     (let cutoff = scan_time - stale_secs * micros_per_sec;
          rows = order_limit (\<lambda>r. (last_beat r, j_id r)) RECOVERY_SWEEP_LIMIT
                   (filter (\<lambda>r. j_status r = Running \<and> last_beat r < cutoff) (jobs s));
          (s', sw) = issue_recovery_verdicts json_text elapsed now others RECOVERY_REASON_LEASE 0 rows
                       s empty_sweep
      in (s', sw_verdicts sw))"

definition held_by_target :: "time \<Rightarrow> store \<Rightarrow> nat" where
  "held_by_target now s = length (filter (\<lambda>r. due now r \<and> target_held (jobs s) r) (jobs s))"

section \<open>Checkpoints\<close>

definition MAX_CHECKPOINT_BYTES :: nat where
  "MAX_CHECKPOINT_BYTES = 8 * 1024 * 1024"

definition save_checkpoint ::
  "(json \<Rightarrow> string) \<Rightarrow> time \<Rightarrow> uuid \<Rightarrow> int \<Rightarrow> json \<Rightarrow> store \<Rightarrow> store \<times> (store_error + bool)" where
  "save_checkpoint json_text now i attempt state s =
     (let blob = json_text state
      in if length blob > MAX_CHECKPOINT_BYTES then (s, Inl (CheckpointTooLarge (length blob)))
         else if rows_affected (owns i attempt) (jobs s) = 0 then (s, Inr False)
         else if \<exists>c\<in>set (checkpoints s). cp_job_id c = i
         then (s\<lparr>checkpoints := update_where (\<lambda>c. cp_job_id c = i)
                  (\<lambda>c. c\<lparr>cp_state := blob, cp_attempt := attempt, cp_updated_at := now\<rparr>)
                  (checkpoints s)\<rparr>, Inr True)
         else (s\<lparr>checkpoints := checkpoints s @
                  [\<lparr>cp_job_id = i, cp_state = blob, cp_attempt = attempt, cp_resume_failures = 0,
                    cp_updated_at = now\<rparr>]\<rparr>, Inr True))"

definition load_checkpoint :: "(string \<Rightarrow> json option) \<Rightarrow> uuid \<Rightarrow> store \<Rightarrow> (json \<times> int) option" where
  "load_checkpoint json_parse i s =
     (case find (\<lambda>c. cp_job_id c = i) (checkpoints s) of
        None \<Rightarrow> None
      | Some c \<Rightarrow> map_option (\<lambda>v. (v, cp_resume_failures c)) (json_parse (cp_state c)))"

definition bump_checkpoint_resumes :: "uuid \<Rightarrow> store \<Rightarrow> store \<times> int" where
  "bump_checkpoint_resumes i s =
     (let cs = update_where (\<lambda>c. cp_job_id c = i)
                 (\<lambda>c. c\<lparr>cp_resume_failures := cp_resume_failures c + 1\<rparr>) (checkpoints s)
      in (s\<lparr>checkpoints := cs\<rparr>,
          case find (\<lambda>c. cp_job_id c = i) cs of None \<Rightarrow> 0 | Some c \<Rightarrow> cp_resume_failures c))"

definition clear_checkpoint :: "uuid \<Rightarrow> store \<Rightarrow> store" where
  "clear_checkpoint i s = s\<lparr>checkpoints := filter (\<lambda>c. cp_job_id c \<noteq> i) (checkpoints s)\<rparr>"

end
