(* ===== verification/Job_Queue.thy ===== *)
theory Job_Queue
  imports Job_Store
begin

text \<open>
  The job queue's correctness. \<open>row_update\<close> is the contract every guarded \<open>UPDATE\<close> of the
  jobs table meets; the invariant \<open>store_ok\<close> and the relation \<open>evolves\<close> between an earlier and
  a later table are proved once for it, and each operation's statement is an interpretation.
  \<open>queue_step\<close> is the step relation of the store under all its operations in any order.
\<close>

section \<open>The invariant\<close>

definition row_ok :: "job_row \<Rightarrow> bool" where
  "row_ok r \<longleftrightarrow>
     0 \<le> j_attempts r \<and> j_attempts r \<le> j_max_attempts r \<and> 1 \<le> j_max_attempts r \<and>
     (j_status r = Queued \<longrightarrow> j_attempts r < j_max_attempts r) \<and>
     (j_status r = Running \<longrightarrow> 0 < j_attempts r \<and> j_started_at r \<noteq> None) \<and>
     (j_status r = Waiting \<longrightarrow> j_input_request r \<noteq> None \<and> j_waiting_since r \<noteq> None) \<and>
     (j_finished_at r \<noteq> None \<longleftrightarrow> is_terminal (j_status r))"

definition target_exclusive :: "job_row list \<Rightarrow> bool" where
  "target_exclusive rows \<longleftrightarrow>
     (\<forall>r\<in>set rows. \<forall>r'\<in>set rows.
        j_status r = Running \<longrightarrow> j_status r' = Running \<longrightarrow>
        j_target_key r \<noteq> None \<longrightarrow> j_target_key r = j_target_key r' \<longrightarrow> j_id r = j_id r')"

definition used_keys :: "job_row list \<Rightarrow> string option list" where
  "used_keys rows = filter (\<lambda>k. k \<noteq> None) (map j_idempotency_key rows)"

definition store_ok :: "store \<Rightarrow> bool" where
  "store_ok s \<longleftrightarrow>
     (\<forall>r\<in>set (jobs s). row_ok r) \<and> distinct (map j_id (jobs s)) \<and>
     distinct (used_keys (jobs s)) \<and> target_exclusive (jobs s)"

text \<open>
  What a later table keeps of an earlier row: the row is still there, its attempt number never
  went down, and if it is running under the same attempt then it never stopped running and its
  attempt budget is the same.
\<close>

definition row_evolves :: "job_row \<Rightarrow> job_row \<Rightarrow> bool" where
  "row_evolves r r' \<longleftrightarrow>
     j_id r' = j_id r \<and> j_target_key r' = j_target_key r \<and>
     j_idempotency_key r' = j_idempotency_key r \<and> j_attempts r \<le> j_attempts r' \<and>
     j_max_attempts r \<le> j_max_attempts r' \<and>
     (j_status r' = Running \<and> j_attempts r' = j_attempts r \<longrightarrow>
        j_status r = Running \<and> j_max_attempts r' = j_max_attempts r)"

definition evolves :: "job_row list \<Rightarrow> job_row list \<Rightarrow> bool" where
  "evolves rows rows' \<longleftrightarrow> (\<forall>r\<in>set rows. \<exists>r'\<in>set rows'. row_evolves r r')"

lemma row_evolves_refl: "row_evolves r r"
  by (simp add: row_evolves_def)

lemma row_evolves_trans: "row_evolves a b \<Longrightarrow> row_evolves b c \<Longrightarrow> row_evolves a c"
  by (auto simp: row_evolves_def)

lemma evolves_refl: "evolves rows rows"
  by (auto simp: evolves_def intro: row_evolves_refl)

lemma evolves_trans: "evolves a b \<Longrightarrow> evolves b c \<Longrightarrow> evolves a c"
  unfolding evolves_def by (meson row_evolves_trans)

lemma jobs_update_jobs [simp]: "jobs (update_jobs p f s) = update_where p f (jobs s)"
  by (simp add: update_jobs_def)

lemma checkpoints_update_jobs [simp]: "checkpoints (update_jobs p f s) = checkpoints s"
  by (simp add: update_jobs_def)

lemma store_ok_jobs: "jobs s' = jobs s \<Longrightarrow> store_ok s' = store_ok s"
  by (simp add: store_ok_def)

section \<open>The contract of a guarded update\<close>

locale row_update =
  fixes p :: "job_row \<Rightarrow> bool" and f :: "job_row \<Rightarrow> job_row"
  assumes keeps: "p r \<Longrightarrow> j_id (f r) = j_id r \<and> j_idempotency_key (f r) = j_idempotency_key r \<and>
                    j_target_key (f r) = j_target_key r \<and> j_attempts (f r) = j_attempts r"
    and max_up: "p r \<Longrightarrow> j_max_attempts r \<le> j_max_attempts (f r)"
    and no_start: "p r \<Longrightarrow> j_status (f r) = Running \<Longrightarrow>
                    j_status r = Running \<and> j_max_attempts (f r) = j_max_attempts r"
    and ok: "p r \<Longrightarrow> row_ok r \<Longrightarrow> row_ok (f r)"
begin

lemma row: "row_evolves r (if p r then f r else r)"
  using keeps [of r] no_start [of r] max_up [of r]
  by (auto simp: row_evolves_def)

lemma update_evolves: "evolves (jobs s) (jobs (update_jobs p f s))"
  unfolding evolves_def
proof (intro ballI)
  fix r assume "r \<in> set (jobs s)"
  then have "(if p r then f r else r) \<in> set (update_where p f (jobs s))"
    unfolding set_update_where by (rule imageI)
  then show "\<exists>r'\<in>set (jobs (update_jobs p f s)). row_evolves r r'"
    using row [of r] by (metis jobs_update_jobs)
qed

lemma ids: "map j_id (update_where p f rows) = map j_id rows"
  using keeps by (intro map_update_where_same) simp

lemma keys: "used_keys (update_where p f rows) = used_keys rows"
  using map_update_where_same [of rows p j_idempotency_key f] keeps by (simp add: used_keys_def)

lemma update_ok:
  assumes "store_ok s"
  shows "store_ok (update_jobs p f s)"
proof -
  let ?g = "\<lambda>r. if p r then f r else r"
  have run: "j_status r = Running \<and> j_target_key (?g r) = j_target_key r \<and> j_id (?g r) = j_id r"
    if "j_status (?g r) = Running" for r
    using that keeps [of r] no_start [of r] by (auto split: if_splits)
  have "target_exclusive (update_where p f (jobs s))"
    unfolding target_exclusive_def
  proof (intro ballI impI)
    fix x y
    assume xy: "x \<in> set (update_where p f (jobs s))" "y \<in> set (update_where p f (jobs s))"
      and hyp: "j_status x = Running" "j_status y = Running" "j_target_key x \<noteq> None"
        "j_target_key x = j_target_key y"
    from xy obtain r r' where r: "r \<in> set (jobs s)" "x = ?g r" and r': "r' \<in> set (jobs s)" "y = ?g r'"
      unfolding set_update_where by blast
    have "j_id r = j_id r'"
      using assms r(1) r'(1) hyp run [of r] run [of r']
      unfolding store_ok_def target_exclusive_def r(2) r'(2) by metis
    then show "j_id x = j_id y"
      using run [of r] run [of r'] hyp unfolding r(2) r'(2) by simp
  qed
  moreover have "\<forall>r\<in>set (update_where p f (jobs s)). row_ok r"
    using assms ok by (intro ball_update_where) (auto simp: store_ok_def)
  ultimately show ?thesis
    using assms by (simp add: store_ok_def ids keys)
qed

end

lemmas set_defs = complete_set_def failed_set_def requeue_set_def heartbeat_set_def cancel_set_def
  requeue_fresh_def await_set_def resume_set_def expire_set_def

interpretation complete_u: row_update "owns i a" "complete_set now res" for i a now res
  by unfold_locales (auto simp: owns_def set_defs row_ok_def)

interpretation failed_u: row_update "owns i a" "failed_set now err why kind" for i a now err why kind
  by unfold_locales (auto simp: owns_def set_defs row_ok_def)

interpretation requeue_u:
  row_update "\<lambda>r. owns i a r \<and> a < j_max_attempts r" "requeue_set err av why kind"
  for i a err av why kind
  by unfold_locales (auto simp: owns_def set_defs row_ok_def)

interpretation heartbeat_u: row_update "owns i a" "heartbeat_set now" for i a now
  by unfold_locales (auto simp: owns_def set_defs row_ok_def)

interpretation heartbeat_from_u:
  row_update "\<lambda>r. owns i a r \<and> j_executor_id r = ex" "heartbeat_set now" for i a ex now
  by unfold_locales (auto simp: owns_def set_defs row_ok_def)

interpretation cancel_u:
  row_update "\<lambda>r. j_id r = i \<and> (j_status r = Queued \<or> j_status r = Waiting)" "cancel_set now"
  for i now
  by unfold_locales (auto simp: set_defs row_ok_def)

interpretation cancel_running_u: row_update "owns i a" "cancel_set now" for i a now
  by unfold_locales (auto simp: owns_def set_defs row_ok_def)

interpretation await_u: row_update "owns i a" "await_set now req ex" for i a now req ex
  by unfold_locales (auto simp: owns_def set_defs row_ok_def)

interpretation fresh_u: row_update p "requeue_fresh now" for p now
  by unfold_locales (auto simp: set_defs row_ok_def)

interpretation resume_u:
  row_update "\<lambda>r. j_id r = i \<and> j_status r = Waiting" "resume_set now input" for i now input
  by unfold_locales (auto simp: set_defs row_ok_def)

interpretation expire_u: row_update p "expire_set now reason" for p now reason
  by unfold_locales (auto simp: set_defs row_ok_def)

section \<open>The contract of a claim\<close>

locale row_start =
  fixes g :: "job_row \<Rightarrow> job_row"
  assumes start_keeps: "j_id (g r) = j_id r \<and> j_idempotency_key (g r) = j_idempotency_key r \<and>
                    j_target_key (g r) = j_target_key r \<and> j_max_attempts (g r) = j_max_attempts r \<and>
                    j_finished_at (g r) = j_finished_at r"
    and start_runs: "j_status (g r) = Running \<and> j_started_at (g r) \<noteq> None"
    and start_counts: "j_attempts (g r) = j_attempts r + 1"
begin

lemma start_row_ok: "row_ok r \<Longrightarrow> j_status r = Queued \<Longrightarrow> row_ok (g r)"
  using start_keeps [of r] start_runs [of r] start_counts [of r] by (auto simp: row_ok_def)

lemma start_evolves: "evolves (jobs s) (jobs (update_jobs (\<lambda>x. j_id x = i) g s))"
  unfolding evolves_def
proof (intro ballI)
  fix r assume "r \<in> set (jobs s)"
  then have "(if j_id r = i then g r else r) \<in> set (update_where (\<lambda>x. j_id x = i) g (jobs s))"
    unfolding set_update_where by (rule imageI)
  moreover have "row_evolves r (if j_id r = i then g r else r)"
    using start_keeps [of r] start_counts [of r] by (auto simp: row_evolves_def)
  ultimately show "\<exists>r'\<in>set (jobs (update_jobs (\<lambda>x. j_id x = i) g s)). row_evolves r r'"
    by (metis jobs_update_jobs)
qed

lemma start_exclusive:
  assumes s: "store_ok s" and r: "r \<in> set (jobs s)" and free: "\<not> target_held (jobs s) r"
  shows "target_exclusive (update_where (\<lambda>x. j_id x = j_id r) g (jobs s))"
  unfolding target_exclusive_def
proof (intro ballI impI)
  let ?h = "\<lambda>x. if j_id x = j_id r then g x else x"
  fix x y
  assume xy: "x \<in> set (update_where (\<lambda>x. j_id x = j_id r) g (jobs s))"
      "y \<in> set (update_where (\<lambda>x. j_id x = j_id r) g (jobs s))"
    and hyp: "j_status x = Running" "j_status y = Running" "j_target_key x \<noteq> None"
      "j_target_key x = j_target_key y"
  from xy obtain a b where a: "a \<in> set (jobs s)" "x = ?h a" and b: "b \<in> set (jobs s)" "y = ?h b"
    unfolding set_update_where by blast
  have same: "c = r" if "c \<in> set (jobs s)" "j_id c = j_id r" for c
    using distinct_key_eq [of j_id "jobs s" c r] s that r by (simp add: store_ok_def)
  have ids: "j_id (?h c) = j_id c" "j_target_key (?h c) = j_target_key c" for c
    using start_keeps [of c] by auto
  have held: "\<not> (j_status c = Running \<and> j_target_key c = j_target_key r)"
    if "c \<in> set (jobs s)" "j_target_key c \<noteq> None" for c
    using free that by (auto simp: target_held_def split: option.splits)
  have keys: "j_target_key a \<noteq> None" "j_target_key a = j_target_key b"
    using hyp ids by (simp_all add: a(2) b(2))
  have "j_id a = j_id b"
  proof (cases "j_id a = j_id r \<or> j_id b = j_id r")
    case True
    then have "a = r \<or> b = r" using same a(1) b(1) by blast
    then show ?thesis
      using held [OF a(1)] held [OF b(1)] a(2) b(2) hyp(1,2) keys by (auto split: if_splits)
  next
    case False
    then have "x = a" "y = b" using a(2) b(2) by simp_all
    then show ?thesis
      using s a(1) b(1) hyp unfolding store_ok_def target_exclusive_def by blast
  qed
  then show "j_id x = j_id y" using start_keeps [of a] start_keeps [of b] by (simp add: a(2) b(2))
qed

lemma start_ok:
  assumes "store_ok s" "r \<in> set (jobs s)" "j_status r = Queued" "\<not> target_held (jobs s) r"
  shows "store_ok (update_jobs (\<lambda>x. j_id x = j_id r) g s)"
proof -
  have "x = r" if "x \<in> set (jobs s)" "j_id x = j_id r" for x
    using distinct_key_eq [of j_id "jobs s" x r] assms(1,2) that by (simp add: store_ok_def)
  then have "\<forall>x\<in>set (update_where (\<lambda>x. j_id x = j_id r) g (jobs s)). row_ok x"
    using assms start_row_ok by (intro ball_update_where) (auto simp: store_ok_def)
  moreover have "map j_id (update_where (\<lambda>x. j_id x = j_id r) g (jobs s)) = map j_id (jobs s)"
    using start_keeps by (intro map_update_where_same) simp
  moreover have "used_keys (update_where (\<lambda>x. j_id x = j_id r) g (jobs s)) = used_keys (jobs s)"
    using map_update_where_same [of "jobs s" _ j_idempotency_key g] start_keeps
    by (simp add: used_keys_def)
  ultimately show ?thesis
    using assms start_exclusive [of s r] by (simp add: store_ok_def)
qed

end

interpretation claim_u: row_start "claim_set now" for now
  by unfold_locales (simp_all add: claim_set_def)

interpretation claim_executor_u: row_start "claim_executor_set now ex" for now ex
  by unfold_locales (simp_all add: claim_executor_set_def claim_set_def)

text \<open>Which row a claim picks, for the local and the executor's claim alike.\<close>

lemma order_limit_1_cases:
  obtains "order_limit k 1 rows = []" "rows = []"
  | r where "order_limit k 1 rows = [r]" "r \<in> set rows" "\<forall>x\<in>set rows. k r \<le> k x"
proof (cases "order_limit k 1 rows")
  case Nil
  then show ?thesis using order_limit_Nil [of k 1 rows] that(1) by simp
next
  case (Cons r rs)
  have "length (order_limit k 1 rows) \<le> 1" by (simp add: order_limit_def)
  then have "rs = []" using Cons by simp
  moreover have "r \<in> set rows" using set_order_limit [of k 1 rows] Cons by auto
  moreover have "\<forall>x\<in>set rows. k r \<le> k x" using order_limit_1_best [OF Cons] by blast
  ultimately show ?thesis using that(2) Cons by blast
qed

lemma claim_next_cases:
  obtains "claim_next jd blocked coeff now s = (s, None)"
      "\<forall>x\<in>set (jobs s). \<not> claimable now blocked (jobs s) x"
  | r where "claim_next jd blocked coeff now s =
        (update_jobs (\<lambda>x. j_id x = j_id r) (claim_set now) s, Some (claim_set now r))"
      "r \<in> set (jobs s)" "claimable now blocked (jobs s) r"
      "\<forall>x\<in>set (jobs s). claimable now blocked (jobs s) x \<longrightarrow>
         claim_key jd coeff now r \<le> claim_key jd coeff now x"
  by (rule order_limit_1_cases [of "claim_key jd coeff now" "filter (claimable now blocked (jobs s)) (jobs s)"])
     (auto simp: claim_next_def filter_empty_conv)

lemma claim_next_for_executor_cases:
  obtains "claim_next_for_executor jd ex eligible blocked coeff now s = (s, None)"
  | r where "claim_next_for_executor jd ex eligible blocked coeff now s =
        (update_jobs (\<lambda>x. j_id x = j_id r) (claim_executor_set now ex) s, Some (claim_executor_set now ex r))"
      "r \<in> set (jobs s)" "j_app r \<in> set eligible" "claimable now blocked (jobs s) r"
proof (cases "eligible = []")
  case True
  then show ?thesis using that(1) by (simp add: claim_next_for_executor_def)
next
  case False
  show ?thesis
    by (rule order_limit_1_cases [of "claim_key jd coeff now"
          "filter (\<lambda>r. j_app r \<in> set eligible \<and> claimable now blocked (jobs s) r) (jobs s)"])
       (use False that in \<open>auto simp: claim_next_for_executor_def\<close>)
qed

section \<open>Steps\<close>

text \<open>
  One step is one operation of the store by any task, with any arguments. The sweeps are
  sequences of the \<open>fail\<close> steps below.
\<close>

inductive queue_step :: "store \<Rightarrow> store \<Rightarrow> bool" where
  enqueue: "queue_step s (fst (enqueue_dedup_as i now app opts prin s))"
| enqueue_race: "queue_step s (fst (enqueue_insert i now app opts prin s))"
| claim: "queue_step s (fst (claim_next jd blocked coeff now s))"
| claim_executor: "queue_step s (fst (claim_next_for_executor jd ex eligible blocked coeff now s))"
| complete: "queue_step s (fst (complete now i a res s))"
| fail: "queue_step s (fst (fail jt now i a reason s))"
| fail_permanently: "queue_step s (fst (fail_permanently now i a err s))"
| heartbeat: "queue_step s (fst (heartbeat now i a s))"
| heartbeat_from: "queue_step s (fst (heartbeat_from now i a ex s))"
| cancel: "queue_step s (fst (cancel now i s))"
| cancel_running: "queue_step s (fst (cancel_running now i a s))"
| reset: "queue_step s (fst (reset now i s))"
| await: "queue_step s (fst (await_input now i a request expires s))"
| resume: "queue_step s (fst (resume now i input s))"
| expire: "queue_step s (fst (expire_waiting now reason_text cap s))"
| retry: "queue_step s (fst (retry now i s))"
| retry_bulk: "queue_step s (fst (retry_bulk now status app_filter cap s))"
| poll: "queue_step s (record_executor_poll now ex caps claimed s)"
| save_checkpoint: "queue_step s (fst (save_checkpoint jt now i a state s))"
| bump_checkpoint: "queue_step s (fst (bump_checkpoint_resumes i s))"
| clear_checkpoint: "queue_step s (clear_checkpoint i s)"

definition queue_reachable :: "store \<Rightarrow> bool" where
  "queue_reachable s \<longleftrightarrow> queue_step\<^sup>*\<^sup>* empty_store s"

lemma store_ok_empty: "store_ok empty_store"
  by (simp add: store_ok_def empty_store_def used_keys_def target_exclusive_def)

lemma jobs_append_ok:
  assumes "store_ok s" and "\<not> insert_conflict (new_job_row i now app opts prin) s"
  shows "store_ok (s\<lparr>jobs := jobs s @ [new_job_row i now app opts prin]\<rparr>)"
proof -
  let ?r = "new_job_row i now app opts prin"
  have "row_ok ?r" by (simp add: row_ok_def new_job_row_def max_def)
  moreover have "j_status ?r = Queued" by (simp add: new_job_row_def)
  moreover have "j_id ?r \<notin> j_id ` set (jobs s)"
    using assms(2) by (auto simp: insert_conflict_def)
  moreover have "j_idempotency_key ?r \<noteq> None \<longrightarrow> j_idempotency_key ?r \<notin> j_idempotency_key ` set (jobs s)"
    using assms(2) by (auto simp: insert_conflict_def)
  ultimately show ?thesis
    using assms(1) by (auto simp: store_ok_def used_keys_def target_exclusive_def)
qed

lemma evolves_append: "evolves rows (rows @ xs)"
  by (auto simp: evolves_def intro: row_evolves_refl)

lemma enqueue_insert_ok:
  assumes "store_ok s"
  shows "store_ok (fst (enqueue_insert i now app opts prin s))
    \<and> evolves (jobs s) (jobs (fst (enqueue_insert i now app opts prin s)))"
  using jobs_append_ok [OF assms]
  by (auto simp: enqueue_insert_def Let_def evolves_refl evolves_append assms split: option.splits)

lemma enqueue_new_ok:
  assumes "store_ok s"
  shows "store_ok (fst (enqueue_new i now app opts prin s))
    \<and> evolves (jobs s) (jobs (fst (enqueue_new i now app opts prin s)))"
  using enqueue_insert_ok [OF assms] by (simp add: enqueue_new_def evolves_refl assms)

lemma enqueue_dedup_as_cases:
  "enqueue_dedup_as i now app opts prin s = enqueue_new i now app opts prin s \<or>
   (\<exists>r\<in>set (jobs s). enqueue_dedup_as i now app opts prin s = (s, Inr (r, False))
      \<and> j_idempotency_key r = o_idempotency_key opts \<and> o_idempotency_key opts \<noteq> None)"
  by (auto simp: enqueue_dedup_as_def get_by_idempotency_key_def dest: find_Some_mem
      split: option.splits)

lemma get_job_Some: "get_job i s = Some r \<Longrightarrow> r \<in> set (jobs s) \<and> j_id r = i"
  by (auto simp: get_job_def dest: find_Some_mem)

lemma get_job_iff:
  assumes "store_ok s"
  shows "get_job i s = Some r \<longleftrightarrow> r \<in> set (jobs s) \<and> j_id r = i"
proof
  assume "r \<in> set (jobs s) \<and> j_id r = i"
  then show "get_job i s = Some r"
    using find_distinct_key [of j_id "jobs s" r] assms by (auto simp: get_job_def store_ok_def)
qed (rule get_job_Some)

lemma owner_unique:
  assumes "store_ok s" "r \<in> set (jobs s)" "j_id r = i" "r' \<in> set (jobs s)" "owns i a r'"
  shows "r' = r"
  using distinct_key_eq [of j_id "jobs s" r' r] assms by (auto simp: store_ok_def owns_def)

lemma update_jobs_cong:
  "(\<And>r. r \<in> set (jobs s) \<Longrightarrow> p r = q r) \<Longrightarrow> update_jobs p f s = update_jobs q f s"
  by (auto simp: update_jobs_def update_where_def)

lemma fail_requeue_guard:
  assumes "store_ok s" "r \<in> set (jobs s)" "j_id r = i" "a < j_max_attempts r"
  shows "update_jobs (owns i a) f s = update_jobs (\<lambda>x. owns i a x \<and> a < j_max_attempts x) f s"
  using owner_unique [OF assms(1-3)] assms(4) by (intro update_jobs_cong) blast

lemma fail_from_cases:
  obtains (stale) "fail_from jt job now i a reason s = (s, None)" "j_status job \<noteq> Running \<or> j_attempts job \<noteq> a"
  | (failed) err why kind where "j_status job = Running" "j_attempts job = a"
      "fail_from jt job now i a reason s = (update_jobs (owns i a) (failed_set now err why kind) s,
         if rows_affected (owns i a) (jobs s) > 0 then Some Failed else None)"
  | (requeued) err av why kind where "j_status job = Running" "j_attempts job = a"
      "a < j_max_attempts job"
      "fail_from jt job now i a reason s = (update_jobs (owns i a) (requeue_set err av why kind) s,
         if rows_affected (owns i a) (jobs s) > 0 then Some Queued else None)"
proof (cases "j_status job = Running \<and> j_attempts job = a")
  case False
  then show ?thesis using stale by (simp add: fail_from_def)
next
  case True
  show ?thesis
  proof (cases "fail_verdict reason a")
    case (Never why)
    with True show ?thesis
      using failed by (simp add: fail_from_def fail_permanently_because_def Let_def)
  next
    case (After delay why)
    with True show ?thesis
      using failed requeued
      by (cases "a < j_max_attempts job")
         (simp_all add: fail_from_def fail_permanently_def fail_permanently_because_def Let_def)
  qed
qed

lemma fail_ok:
  assumes s: "store_ok s"
  shows "store_ok (fst (fail jt now i a reason s)) \<and> evolves (jobs s) (jobs (fst (fail jt now i a reason s)))"
proof (cases "get_job i s")
  case None
  then show ?thesis by (simp add: fail_def s evolves_refl)
next
  case (Some job)
  then have job: "job \<in> set (jobs s)" "j_id job = i" using get_job_Some by auto
  show ?thesis
  proof (cases rule: fail_from_cases [of jt job now i a reason s])
    case stale
    then show ?thesis by (simp add: fail_def Some s evolves_refl)
  next
    case (failed err why kind)
    then show ?thesis
      by (simp add: fail_def Some failed_u.update_ok [OF s] failed_u.update_evolves [simplified])
  next
    case (requeued err av why kind)
    show ?thesis
      unfolding fail_def Some option.case requeued(4) fst_conv fail_requeue_guard [OF s job requeued(3)]
      using requeue_u.update_ok [OF s] requeue_u.update_evolves by blast
  qed
qed

lemma save_checkpoint_jobs [simp]: "jobs (fst (save_checkpoint jt now i a state s)) = jobs s"
  by (auto simp: save_checkpoint_def Let_def)

lemma record_executor_poll_jobs [simp]: "jobs (record_executor_poll now ex caps c s) = jobs s"
  by (auto simp: record_executor_poll_def Let_def)

lemma bump_checkpoint_jobs [simp]: "jobs (fst (bump_checkpoint_resumes i s)) = jobs s"
  by (simp add: bump_checkpoint_resumes_def Let_def)

lemma clear_checkpoint_jobs [simp]: "jobs (clear_checkpoint i s) = jobs s"
  by (simp add: clear_checkpoint_def)

lemmas op_defs = complete_def fail_permanently_def fail_permanently_because_def heartbeat_def
  heartbeat_from_def cancel_def cancel_running_def reset_def await_input_def resume_def
  expire_waiting_def retry_def retry_bulk_def

lemma claim_next_ok:
  assumes "store_ok s"
  shows "store_ok (fst (claim_next jd blocked coeff now s)) \<and>
    evolves (jobs s) (jobs (fst (claim_next jd blocked coeff now s)))"
  by (rule claim_next_cases [of jd blocked coeff now s])
     (auto simp: assms evolves_refl claimable_def due_def
       intro!: claim_u.start_ok claim_u.start_evolves [simplified])

lemma claim_next_for_executor_ok:
  assumes "store_ok s"
  shows "store_ok (fst (claim_next_for_executor jd ex eligible blocked coeff now s)) \<and>
    evolves (jobs s) (jobs (fst (claim_next_for_executor jd ex eligible blocked coeff now s)))"
  by (rule claim_next_for_executor_cases [of jd ex eligible blocked coeff now s])
     (auto simp: assms evolves_refl claimable_def due_def
       intro!: claim_executor_u.start_ok claim_executor_u.start_evolves [simplified])

lemma queue_step_ok:
  assumes "queue_step s s'" "store_ok s"
  shows "store_ok s' \<and> evolves (jobs s) (jobs s')"
  using assms
proof (induction rule: queue_step.induct)
  case (enqueue s i now app opts prin)
  then show ?case
    using enqueue_dedup_as_cases [of i now app opts prin s] enqueue_new_ok [of s i now app opts prin]
    by (auto simp: evolves_refl)
next
  case (enqueue_race s i now app opts prin)
  then show ?case by (rule enqueue_insert_ok)
next
  case (claim s jd blocked coeff now)
  then show ?case by (rule claim_next_ok)
next
  case (claim_executor s jd ex eligible blocked coeff now)
  then show ?case by (rule claim_next_for_executor_ok)
next
  case (fail s jt now i a reason)
  then show ?case by (rule fail_ok)
next
  case (complete s now i a res)
  then show ?case by (metis complete_def complete_u.update_evolves complete_u.update_ok fst_conv)
next
  case (fail_permanently s now i a err)
  then show ?case
    by (metis fail_permanently_def fail_permanently_because_def failed_u.update_evolves
        failed_u.update_ok fst_conv)
next
  case (heartbeat s now i a)
  then show ?case by (metis heartbeat_def heartbeat_u.update_evolves heartbeat_u.update_ok fst_conv)
next
  case (heartbeat_from s now i a ex)
  then show ?case
    by (simp add: heartbeat_from_def Let_def heartbeat_from_u.update_ok
        heartbeat_from_u.update_evolves [simplified])
next
  case (cancel s now i)
  then show ?case
    by (simp add: cancel_def Let_def cancel_u.update_ok cancel_u.update_evolves [simplified])
next
  case (cancel_running s now i a)
  then show ?case
    by (simp add: cancel_running_def cancel_running_u.update_ok
        cancel_running_u.update_evolves [simplified])
next
  case (reset s now i)
  then show ?case
    by (simp add: reset_def Let_def fresh_u.update_ok fresh_u.update_evolves [simplified])
next
  case (await s now i a request expires)
  then show ?case by (simp add: await_input_def await_u.update_ok await_u.update_evolves [simplified])
next
  case (resume s now i input)
  then show ?case
    by (simp add: resume_def Let_def resume_u.update_ok resume_u.update_evolves [simplified])
next
  case (expire s now reason_text cap)
  then show ?case
    by (simp add: expire_waiting_def Let_def expire_u.update_ok expire_u.update_evolves [simplified])
next
  case (retry s now i)
  then show ?case
    by (simp add: retry_def Let_def fresh_u.update_ok fresh_u.update_evolves [simplified])
next
  case (retry_bulk s now status app_filter cap)
  then show ?case
    by (simp add: retry_bulk_def Let_def fresh_u.update_ok fresh_u.update_evolves [simplified])
qed (simp_all add: evolves_refl store_ok_def)

lemma queue_steps_ok:
  assumes "queue_step\<^sup>*\<^sup>* s s'" "store_ok s"
  shows "store_ok s' \<and> evolves (jobs s) (jobs s')"
  using assms
proof (induction rule: rtranclp_induct)
  case base
  then show ?case by (simp add: evolves_refl)
next
  case (step y z)
  then show ?case using queue_step_ok evolves_trans by blast
qed

lemma reachable_ok: "queue_reachable s \<Longrightarrow> store_ok s"
  using queue_steps_ok store_ok_empty by (auto simp: queue_reachable_def)

end
