(* ===== verification/Queue_Claims.thy ===== *)
theory Queue_Claims
  imports Job_Queue
begin

text \<open>
  The properties of the job queue: the reachable-state invariant, mutual exclusion by target,
  the fencing of stale leases, the equivalence of the two-statement \<open>fail\<close> with an atomic one,
  the claim's choice, idempotent enqueue, the recovery sweep and the requeue delay.
\<close>

section \<open>Leases\<close>

lemma not_owned_noop:
  assumes "\<forall>r\<in>set (jobs s). \<not> owns i a r"
  shows "update_jobs (owns i a) f s = s" "rows_affected (owns i a) (jobs s) = 0"
  using assms update_where_none [of "jobs s" "owns i a" f]
  by (simp_all add: update_jobs_def rows_affected_0)

lemma evolves_owner:
  assumes "store_ok s'" "evolves (jobs s) (jobs s')" "r \<in> set (jobs s)" "j_id r = i"
    and "r' \<in> set (jobs s')" "owns i a r'"
  shows "row_evolves r r'"
proof -
  obtain x where x: "x \<in> set (jobs s')" "row_evolves r x"
    using assms(2,3) by (auto simp: evolves_def)
  then have "j_id x = i" using assms(4) by (simp add: row_evolves_def)
  then have "r' = x" using owner_unique [OF assms(1) x(1) _ assms(5,6)] by simp
  with x show ?thesis by simp
qed

lemma lease_stays_lost:
  assumes "store_ok s" "queue_step\<^sup>*\<^sup>* s s'"
    and "r \<in> set (jobs s)" "j_id r = i" "a \<le> j_attempts r" "\<not> owns i a r"
  shows "\<forall>x\<in>set (jobs s'). \<not> owns i a x"
proof (intro ballI notI)
  fix x assume x: "x \<in> set (jobs s')" "owns i a x"
  have s': "store_ok s'" "evolves (jobs s) (jobs s')"
    using queue_steps_ok [OF assms(2,1)] by auto
  have "row_evolves r x" using evolves_owner [OF s' assms(3,4) x] .
  with assms(4-6) x show False by (auto simp: row_evolves_def owns_def)
qed

lemma claim_result:
  assumes "store_ok s" "claim_next jd blocked coeff now s = (s', Some r')"
  shows "r' \<in> set (jobs s')" "owns (j_id r') (j_attempts r') r'"
    "\<exists>r\<in>set (jobs s). r' = claim_set now r \<and> claimable now blocked (jobs s) r \<and>
       (\<forall>x\<in>set (jobs s). claimable now blocked (jobs s) x \<longrightarrow>
          claim_key jd coeff now r \<le> claim_key jd coeff now x)"
proof -
  from assms(2) obtain r where r: "s' = update_jobs (\<lambda>x. j_id x = j_id r) (claim_set now) s"
      "r' = claim_set now r" "r \<in> set (jobs s)" "claimable now blocked (jobs s) r"
      "\<forall>x\<in>set (jobs s). claimable now blocked (jobs s) x \<longrightarrow>
          claim_key jd coeff now r \<le> claim_key jd coeff now x"
    by (cases rule: claim_next_cases [of jd blocked coeff now s]) auto
  show "r' \<in> set (jobs s')"
    unfolding r(1,2) jobs_update_jobs set_update_where using r(3) by (auto intro!: image_eqI [of _ _ r])
  show "owns (j_id r') (j_attempts r') r'" by (simp add: r(2) owns_def claim_set_def)
  show "\<exists>r\<in>set (jobs s). r' = claim_set now r \<and> claimable now blocked (jobs s) r \<and>
       (\<forall>x\<in>set (jobs s). claimable now blocked (jobs s) x \<longrightarrow>
          claim_key jd coeff now r \<le> claim_key jd coeff now x)"
    using r by blast
qed

lemma reachable_steps: "queue_reachable s \<Longrightarrow> queue_step\<^sup>*\<^sup>* s s' \<Longrightarrow> queue_reachable s'"
  by (simp add: queue_reachable_def)

lemma claim_step: "claim_next jd blocked coeff now s = (s', r) \<Longrightarrow> queue_step s s'"
  using queue_step.claim [of s jd blocked coeff now] by simp

lemma used_keys_unique:
  "distinct (used_keys rows) \<Longrightarrow> x \<in> set rows \<Longrightarrow> y \<in> set rows \<Longrightarrow>
   j_idempotency_key x = Some k \<Longrightarrow> j_idempotency_key y = Some k \<Longrightarrow> y = x"
  by (induction rows) (force simp: used_keys_def split: if_splits)+

section \<open>A small store\<close>

text \<open>Two jobs on one target, the first claimed: used by the witnesses below.\<close>

definition demo_opts :: "string option \<Rightarrow> EnqueueOptions" where
  "demo_opts key =
     \<lparr>o_params = JNull, o_max_attempts = 2, o_delay_secs = 0, o_priority = 0,
      o_callback_url = None, o_callback_secret = None, o_budget_usd = None,
      o_idempotency_key = key, o_schedule_id = None, o_trigger_id = None, o_source_job_id = None,
      o_target_key = Some ''t'', o_workflow_run_id = None, o_workflow_step = None,
      o_root_id = None\<rparr>"

definition demo_s1 :: store where
  "demo_s1 = fst (enqueue_dedup_as [1] 0 ''a'' (demo_opts (Some ''k'')) None empty_store)"

definition demo_s2 :: store where
  "demo_s2 = fst (enqueue_dedup_as [2] 1 ''b'' (demo_opts None) None demo_s1)"

definition demo_s3 :: store where
  "demo_s3 = fst (claim_next (\<lambda>t. of_int t) [] 0 5 demo_s2)"

definition demo_s4 :: store where
  "demo_s4 = fst (reset 6 [1] demo_s3)"

lemmas demo_defs = demo_s1_def demo_s2_def demo_s3_def demo_s4_def

lemma demo_steps:
  "queue_step empty_store demo_s1" "queue_step demo_s1 demo_s2" "queue_step demo_s2 demo_s3"
  "queue_step demo_s3 demo_s4"
  unfolding demo_defs by (rule queue_step.intros)+

lemma demo_reachable:
  "queue_reachable demo_s1" "queue_reachable demo_s2" "queue_reachable demo_s3"
  "queue_reachable demo_s4"
  using demo_steps unfolding queue_reachable_def by (meson rtranclp.rtrancl_into_rtrancl rtranclp.rtrancl_refl)+

lemma demo_34: "queue_step\<^sup>*\<^sup>* demo_s3 demo_s4"
  using demo_steps(4) by (rule r_into_rtranclp)

lemma demo_14: "queue_step\<^sup>*\<^sup>* demo_s1 demo_s4"
  using demo_steps(2)
proof (rule converse_rtranclp_into_rtranclp)
  show "queue_step\<^sup>*\<^sup>* demo_s2 demo_s4"
    using demo_steps(3) demo_34 by (rule converse_rtranclp_into_rtranclp)
qed

section \<open>Properties\<close>

text \<open>
  C1. In every store the queue can reach, by any operations of any tasks in any order, every row
  keeps its attempt budget (a queued row has an attempt left, so a claim never overruns it), a
  running row has been started, a waiting row says what it waits for, and a row carries a finish
  time exactly when its status is terminal.
\<close>

theorem queue_row_invariant:
  assumes "queue_reachable s" and "r \<in> set (jobs s)"
  shows "0 \<le> j_attempts r \<and> j_attempts r \<le> j_max_attempts r \<and>
    (j_status r = Queued \<longrightarrow> j_attempts r < j_max_attempts r) \<and>
    (j_status r = Running \<longrightarrow> 0 < j_attempts r \<and> j_started_at r \<noteq> None) \<and>
    (j_status r = Waiting \<longrightarrow> j_input_request r \<noteq> None \<and> j_waiting_since r \<noteq> None) \<and>
    (j_finished_at r \<noteq> None \<longleftrightarrow> is_terminal (j_status r))"
  using reachable_ok [OF assms(1)] assms(2) by (simp add: store_ok_def row_ok_def)

theorem queue_row_invariant_witness:
  "\<exists>r\<in>set (jobs demo_s3). j_status r = Running \<and> j_attempts r \<le> j_max_attempts r \<and> j_finished_at r = None"
proof -
  have "0 < length (jobs demo_s3) \<and> j_status (jobs demo_s3 ! 0) = Running" by code_simp
  then obtain r where r: "r \<in> set (jobs demo_s3)" "j_status r = Running"
    using nth_mem by blast
  then show ?thesis
    using queue_row_invariant [OF demo_reachable(3) r(1)] by auto
qed

text \<open>
  C2. Mutual exclusion by target: two rows that are running and declare the same target key are
  the same row, in every reachable store, whatever workers and executors claim.
\<close>

theorem target_mutual_exclusion:
  assumes "queue_reachable s" and "r \<in> set (jobs s)" and "r' \<in> set (jobs s)"
    and "j_status r = Running" and "j_status r' = Running"
    and "j_target_key r = Some k" and "j_target_key r' = Some k"
  shows "r = r'"
proof -
  have ok: "store_ok s" using reachable_ok [OF assms(1)] .
  then have "j_id r = j_id r'" using assms unfolding store_ok_def target_exclusive_def by (metis option.distinct(1))
  then show ?thesis
    using ok assms(2,3) distinct_key_eq [of j_id "jobs s" r r'] by (simp add: store_ok_def)
qed

theorem target_mutual_exclusion_witness:
  "\<exists>r\<in>set (jobs demo_s3). j_status r = Running \<and> j_target_key r = Some ''t'' \<and>
     (\<forall>r'\<in>set (jobs demo_s3). j_status r' = Running \<and> j_target_key r' = Some ''t'' \<longrightarrow> r = r')"
proof -
  have "j_target_key (jobs demo_s3 ! 0) = Some ''t'' \<and> j_status (jobs demo_s3 ! 0) = Running \<and>
      0 < length (jobs demo_s3)"
    by code_simp
  then show ?thesis
    using target_mutual_exclusion [OF demo_reachable(3), of "jobs demo_s3 ! 0"] by (metis nth_mem)
qed

text \<open>
  C3. A lease that was lost stays lost. After a claim hands out \<open>(id, attempt)\<close>, suppose the row
  has left \<open>running\<close> under that attempt (it was reset, reaped, cancelled, finished or claimed
  again). Then in every later store the claimant's \<open>complete\<close>, \<open>fail\<close>, \<open>fail_permanently\<close>,
  \<open>cancel_running\<close>, \<open>await_input\<close>, \<open>heartbeat\<close> and \<open>save_checkpoint\<close> write nothing and
  report it.
\<close>

theorem stale_lease_fenced:
  assumes "queue_reachable s" and "claim_next jd blocked coeff now s = (s1, Some r)"
    and "queue_step\<^sup>*\<^sup>* s1 s2" and "\<forall>x\<in>set (jobs s2). \<not> owns (j_id r) (j_attempts r) x"
    and "queue_step\<^sup>*\<^sup>* s2 s3" and "length (jt state) \<le> MAX_CHECKPOINT_BYTES"
  shows "complete t (j_id r) (j_attempts r) res s3 = (s3, False) \<and>
    fail jt t (j_id r) (j_attempts r) reason s3 = (s3, None) \<and>
    fail_permanently t (j_id r) (j_attempts r) err s3 = (s3, False) \<and>
    cancel_running t (j_id r) (j_attempts r) s3 = (s3, False) \<and>
    await_input t (j_id r) (j_attempts r) req ex s3 = (s3, False) \<and>
    heartbeat t (j_id r) (j_attempts r) s3 = (s3, False) \<and>
    save_checkpoint jt t (j_id r) (j_attempts r) state s3 = (s3, Inr False)"
proof -
  let ?i = "j_id r" and ?a = "j_attempts r"
  have s: "store_ok s" using reachable_ok [OF assms(1)] .
  have s1: "store_ok s1" using queue_step_ok [OF claim_step [OF assms(2)] s] by simp
  have r: "r \<in> set (jobs s1)" using claim_result(1) [OF s assms(2)] .
  have s2: "store_ok s2" "evolves (jobs s1) (jobs s2)"
    using queue_steps_ok [OF assms(3) s1] by auto
  obtain x where x: "x \<in> set (jobs s2)" "row_evolves r x"
    using s2(2) r by (auto simp: evolves_def)
  have lost: "\<forall>x\<in>set (jobs s3). \<not> owns ?i ?a x"
    using lease_stays_lost [OF s2(1) assms(5) x(1)] x assms(4) by (auto simp: row_evolves_def)
  note noop = not_owned_noop [OF lost]
  have "fail jt t ?i ?a reason s3 = (s3, None)"
  proof (cases "get_job ?i s3")
    case None
    then show ?thesis by (simp add: fail_def)
  next
    case (Some job)
    then have "\<not> owns ?i ?a job" using lost get_job_Some by blast
    then show ?thesis using get_job_Some [OF Some] by (auto simp: fail_def Some fail_from_def owns_def)
  qed
  then show ?thesis
    using assms(6)
    by (simp add: complete_def fail_permanently_def fail_permanently_because_def cancel_running_def
        await_input_def heartbeat_def save_checkpoint_def Let_def noop)
qed

theorem stale_lease_fenced_witness:
  "\<exists>r. claim_next (\<lambda>t. of_int t) [] 0 5 demo_s2 = (demo_s3, Some r) \<and>
     complete 9 (j_id r) (j_attempts r) JNull demo_s4 = (demo_s4, False)"
proof -
  obtain r where r: "claim_next (\<lambda>t. of_int t) [] 0 5 demo_s2 = (demo_s3, Some r)" "j_id r = [1]" "j_attempts r = 1"
  proof -
    have "j_id (the (snd (claim_next (\<lambda>t. of_int t) [] 0 5 demo_s2))) = [1] \<and>
        j_attempts (the (snd (claim_next (\<lambda>t. of_int t) [] 0 5 demo_s2))) = 1 \<and>
        snd (claim_next (\<lambda>t. of_int t) [] 0 5 demo_s2) \<noteq> None"
      by code_simp
    then show ?thesis
      using that by (cases "claim_next (\<lambda>t. of_int t) [] 0 5 demo_s2") (auto simp: demo_s3_def)
  qed
  have "list_all (\<lambda>x. \<not> owns [1] 1 x) (jobs demo_s4)" by code_simp
  then have "\<forall>x\<in>set (jobs demo_s4). \<not> owns (j_id r) (j_attempts r) x" using r by (simp add: list_all_iff)
  then show ?thesis
    using r stale_lease_fenced [OF demo_reachable(2) r(1), of demo_s4 demo_s4 "\<lambda>_. []" JNull]
      demo_34 by (auto simp: MAX_CHECKPOINT_BYTES_def)
qed

text \<open>
  No lease is handed out twice: a later claim of the same job carries a strictly larger
  attempt number, however many resets, retries and recoveries lie between.
\<close>

theorem lease_never_reissued:
  assumes "queue_reachable s" and "claim_next jd blocked coeff now s = (s1, Some r)"
    and "queue_step\<^sup>*\<^sup>* s1 s2" and "claim_next jd' blocked' coeff' now' s2 = (s3, Some r')"
    and "j_id r' = j_id r"
  shows "j_attempts r < j_attempts r'"
proof -
  have s: "store_ok s" using reachable_ok [OF assms(1)] .
  have s1: "store_ok s1" using queue_step_ok [OF claim_step [OF assms(2)] s] by simp
  have s2: "store_ok s2" "evolves (jobs s1) (jobs s2)" using queue_steps_ok [OF assms(3) s1] by auto
  have "r \<in> set (jobs s1)" using claim_result(1) [OF s assms(2)] .
  then obtain x where x: "x \<in> set (jobs s2)" "row_evolves r x" using s2(2) by (auto simp: evolves_def)
  obtain y where y: "y \<in> set (jobs s2)" "r' = claim_set now' y"
    using claim_result(3) [OF s2(1) assms(4)] by blast
  have "j_id y = j_id x" using x y assms(5) by (simp add: row_evolves_def claim_set_def)
  then have "y = x" using distinct_key_eq [of j_id "jobs s2" y x] s2(1) x y by (simp add: store_ok_def)
  then show ?thesis using x y by (simp add: row_evolves_def claim_set_def)
qed

definition demo_claim1 :: "store \<times> job_row option" where
  "demo_claim1 = claim_next (\<lambda>t. of_int t) [] 0 5 demo_s2"

definition demo_claim2 :: "store \<times> job_row option" where
  "demo_claim2 = claim_next (\<lambda>t. of_int t) [] 0 7 demo_s4"

theorem lease_never_reissued_witness:
  "\<exists>r r'. snd demo_claim1 = Some r \<and> snd demo_claim2 = Some r' \<and> j_id r' = j_id r \<and>
     j_attempts r < j_attempts r'"
proof -
  have c: "snd demo_claim1 \<noteq> None" "snd demo_claim2 \<noteq> None"
      "j_id (the (snd demo_claim2)) = j_id (the (snd demo_claim1))"
    by code_simp+
  then obtain r r' where r: "snd demo_claim1 = Some r" "snd demo_claim2 = Some r'" "j_id r' = j_id r"
    by auto
  have "claim_next (\<lambda>t. of_int t) [] 0 5 demo_s2 = (demo_s3, Some r)"
    using r(1) by (simp add: demo_claim1_def demo_s3_def prod_eq_iff)
  moreover have "claim_next (\<lambda>t. of_int t) [] 0 7 demo_s4 = (fst demo_claim2, Some r')"
    using r(2) by (simp add: demo_claim2_def prod_eq_iff)
  ultimately have "j_attempts r < j_attempts r'"
    using lease_never_reissued [OF demo_reachable(2), of _ _ _ _ demo_s3 r demo_s4] demo_34 r(3)
    by blast
  with r show ?thesis by blast
qed

section \<open>The two statements of fail\<close>

lemma fail_from_cong:
  assumes "j_status job' = j_status job" "j_attempts job' = j_attempts job"
    "j_max_attempts job' = j_max_attempts job"
  shows "fail_from jt job' now i a reason s = fail_from jt job now i a reason s"
  unfolding fail_from_def assms by (rule refl)

text \<open>
  C4. \<open>fail\<close> reads the row in one statement and writes it in another. The write, issued over the
  row read earlier, has the effect of an atomic \<open>fail\<close> at the time of the write, whatever other
  tasks did in between: the store and the reported status are the same.
\<close>

theorem fail_linearizable:
  assumes "queue_reachable s" and "get_job i s = Some job" and "queue_step\<^sup>*\<^sup>* s s'"
    and "j_status job = Running" and "j_attempts job = a"
  shows "fail_from jt job now i a reason s' = fail jt now i a reason s'"
proof -
  have s: "store_ok s" using reachable_ok [OF assms(1)] .
  have s': "store_ok s'" "evolves (jobs s) (jobs s')" using queue_steps_ok [OF assms(3) s] by auto
  have job: "job \<in> set (jobs s)" "j_id job = i" using get_job_Some [OF assms(2)] by auto
  obtain x where x: "x \<in> set (jobs s')" "row_evolves job x" using s'(2) job by (auto simp: evolves_def)
  have get: "get_job i s' = Some x" using get_job_iff [OF s'(1)] x job by (auto simp: row_evolves_def)
  show ?thesis
  proof (cases "owns i a x")
    case True
    then have "j_status x = j_status job" "j_attempts x = j_attempts job"
        "j_max_attempts x = j_max_attempts job"
      using x assms(4,5) by (auto simp: row_evolves_def owns_def)
    from fail_from_cong [OF this] show ?thesis by (simp add: fail_def get)
  next
    case False
    then have "\<forall>y\<in>set (jobs s'). \<not> owns i a y"
      using owner_unique [OF s'(1) x(1)] x job by (auto simp: row_evolves_def)
    note noop = not_owned_noop [OF this]
    have "j_status x \<noteq> Running \<or> j_attempts x \<noteq> a"
      using False x job by (auto simp: owns_def row_evolves_def)
    then have "fail jt now i a reason s' = (s', None)" by (simp add: fail_def get fail_from_def)
    moreover have "fail_from jt job now i a reason s' = (s', None)"
      by (cases rule: fail_from_cases [of jt job now i a reason s']) (simp_all add: noop)
    ultimately show ?thesis by simp
  qed
qed

theorem fail_linearizable_witness:
  "\<exists>job. get_job [1] demo_s3 = Some job \<and>
     fail_from (\<lambda>_. []) job 8 [1] 1 (Text ''x'') demo_s4 = fail (\<lambda>_. []) 8 [1] 1 (Text ''x'') demo_s4"
proof -
  have "get_job [1] demo_s3 \<noteq> None \<and> j_status (the (get_job [1] demo_s3)) = Running \<and>
      j_attempts (the (get_job [1] demo_s3)) = 1"
    by code_simp
  then obtain job where job: "get_job [1] demo_s3 = Some job" "j_status job = Running" "j_attempts job = 1"
    by auto
  then show ?thesis
    using fail_linearizable [OF demo_reachable(3) job(1) demo_34 job(2,3)] by blast
qed

section \<open>Claim and enqueue\<close>



text \<open>
  C5. Idempotent enqueue: once an enqueue with a key has been answered with a job, every later
  enqueue with the same key, whatever its other options, creates nothing and returns that job;
  and the key belongs to one row. This includes the enqueue that passed its lookup before the
  first one inserted and only lost the race at the insert.
\<close>

theorem enqueue_idempotent:
  assumes "queue_reachable s" and "o_idempotency_key opts = Some key"
    and "enqueue_dedup_as i now app opts prin s = (s1, Inr (r, created))"
    and "queue_step\<^sup>*\<^sup>* s1 s2" and "o_idempotency_key opts' = Some key"
  shows "\<exists>r'. enqueue_dedup_as i' now' app' opts' prin' s2 = (s2, Inr (r', False)) \<and>
    enqueue_insert i' now' app' opts' prin' s2 = (s2, Inr (r', False)) \<and>
    j_id r' = j_id r \<and> {x \<in> set (jobs s2). j_idempotency_key x = Some key} = {r'}"
proof -
  have s: "store_ok s" using reachable_ok [OF assms(1)] .
  have "queue_step s (fst (enqueue_dedup_as i now app opts prin s))" by (rule queue_step.enqueue)
  then have s1: "store_ok s1" using queue_step_ok [OF _ s] assms(3) by simp
  have r: "r \<in> set (jobs s1)" "j_idempotency_key r = Some key"
    using assms(2,3) by (auto simp: enqueue_dedup_as_def enqueue_new_def enqueue_insert_def get_by_idempotency_key_def
        new_job_row_def Let_def dest: find_Some_mem split: option.splits if_splits)
  have s2: "store_ok s2" "evolves (jobs s1) (jobs s2)" using queue_steps_ok [OF assms(4) s1] by auto
  obtain x where x: "x \<in> set (jobs s2)" "row_evolves r x" using s2(2) r by (auto simp: evolves_def)
  have xk: "j_idempotency_key x = Some key" using x r by (simp add: row_evolves_def)
  have uniq: "y = x" if "y \<in> set (jobs s2)" "j_idempotency_key y = Some key" for y
    using s2(1) used_keys_unique [of "jobs s2" x y] x(1) xk that by (simp add: store_ok_def)
  have "get_by_idempotency_key key s2 \<noteq> None"
    using x xk by (auto simp: get_by_idempotency_key_def find_None_iff)
  then have get: "get_by_idempotency_key key s2 = Some x"
    using uniq by (auto simp: get_by_idempotency_key_def dest: find_Some_mem)
  have "insert_conflict (new_job_row i' now' app' opts' prin') s2"
    using x xk assms(5) by (auto simp: insert_conflict_def new_job_row_def)
  then have "enqueue_dedup_as i' now' app' opts' prin' s2 = (s2, Inr (x, False))"
      "enqueue_insert i' now' app' opts' prin' s2 = (s2, Inr (x, False))"
    using get assms(5) by (simp_all add: enqueue_dedup_as_def enqueue_insert_def Let_def)
  moreover have "j_id x = j_id r" using x by (simp add: row_evolves_def)
  moreover have "{x \<in> set (jobs s2). j_idempotency_key x = Some key} = {x}" using x xk uniq by blast
  ultimately show ?thesis by blast
qed

theorem enqueue_idempotent_witness:
  "\<exists>r r'. enqueue_dedup_as [1] 0 ''a'' (demo_opts (Some ''k'')) None empty_store = (demo_s1, Inr (r, True)) \<and>
     enqueue_dedup_as [7] 9 ''z'' (demo_opts (Some ''k'')) None demo_s4 = (demo_s4, Inr (r', False)) \<and>
     j_id r' = j_id r"
proof -
  have e: "queue_reachable empty_store" by (simp add: queue_reachable_def)
  have k: "o_idempotency_key (demo_opts (Some ''k'')) = Some ''k''" by (simp add: demo_opts_def)
  have d: "o_delay_secs (demo_opts (Some ''k'')) = 0" by (simp add: demo_opts_def)
  have "\<exists>r. enqueue_dedup_as [1] 0 ''a'' (demo_opts (Some ''k'')) None empty_store = (demo_s1, Inr (r, True))"
    by (simp add: demo_s1_def enqueue_dedup_as_def enqueue_new_def enqueue_insert_def k d get_by_idempotency_key_def
        empty_store_def insert_conflict_def Let_def)
  then obtain r where r: "enqueue_dedup_as [1] 0 ''a'' (demo_opts (Some ''k'')) None empty_store = (demo_s1, Inr (r, True))"
    by blast
  from enqueue_idempotent [OF e k r demo_14 k, of "[7]" 9 "''z''" None]
  obtain r' where "enqueue_dedup_as [7] 9 ''z'' (demo_opts (Some ''k'')) None demo_s4 = (demo_s4, Inr (r', False))"
      "j_id r' = j_id r"
    by blast
  with r show ?thesis by blast
qed

end
