(* ===== verification/Queue_Recovery.thy ===== *)
theory Queue_Recovery
  imports Queue_Claims
begin

text \<open>
  The effect of a failure on its row, the recovery sweep as a whole, and the wait-and-resume
  cycle of a parked job.
\<close>

section \<open>What fail does to the row it owns\<close>

lemma owns_by_id:
  assumes "store_ok s" "r \<in> set (jobs s)" "owns (j_id r) a r"
  shows "update_jobs (owns (j_id r) a) f s = update_jobs (\<lambda>x. j_id x = j_id r) f s"
    "rows_affected (owns (j_id r) a) (jobs s) > 0"
proof -
  have "owns (j_id r) a x = (j_id x = j_id r)" if "x \<in> set (jobs s)" for x
    using distinct_key_eq [of j_id "jobs s" x r] assms that by (auto simp: store_ok_def owns_def)
  then show "update_jobs (owns (j_id r) a) f s = update_jobs (\<lambda>x. j_id x = j_id r) f s"
    by (rule update_jobs_cong)
  show "rows_affected (owns (j_id r) a) (jobs s) > 0"
    using assms(2,3) by (auto simp: rows_affected_pos)
qed

lemma get_after_update:
  assumes "store_ok s" "r \<in> set (jobs s)" "\<And>x. j_id (f x) = j_id x"
  shows "get_job (j_id r) (update_jobs (\<lambda>x. j_id x = j_id r) f s) = Some (f r)"
proof -
  have "find (\<lambda>x. j_id x = j_id r) (jobs s) = Some r"
    using find_distinct_key [of j_id "jobs s" r] assms(1,2) by (simp add: store_ok_def)
  then show ?thesis
    using assms(3) by (simp add: get_job_def find_update_where_same)
qed

lemma fail_owner:
  assumes "store_ok s" "r \<in> set (jobs s)" "j_status r = Running"
  shows "fail jt now (j_id r) (j_attempts r) reason s = fail_from jt r now (j_id r) (j_attempts r) reason s"
  using get_job_iff [OF assms(1), of "j_id r" r] assms(2) by (simp add: fail_def)

definition verdict_set :: "time \<Rightarrow> string \<Rightarrow> job_row \<Rightarrow> job_row" where
  "verdict_set now reason r =
     (if j_attempts r < j_max_attempts r
      then requeue_set reason (requeue_available_at now (j_id r) (j_attempts r) (ladder_delay (j_attempts r)))
             REQUEUE_REASON_LADDER None r
      else failed_set now reason None None r)"

lemma verdict_set_id [simp]: "j_id (verdict_set now reason r) = j_id r"
  by (simp add: verdict_set_def requeue_set_def failed_set_def)

lemma fail_text:
  assumes s: "store_ok s" and r: "r \<in> set (jobs s)" "j_status r = Running"
  shows "fail jt now (j_id r) (j_attempts r) (Text reason) s =
    (update_jobs (\<lambda>x. j_id x = j_id r) (verdict_set now reason) s,
     Some (if j_attempts r < j_max_attempts r then Queued else Failed))"
proof -
  have own: "owns (j_id r) (j_attempts r) r" using r(2) by (simp add: owns_def)
  note by_id = owns_by_id [OF s r(1) own]
  have same: "x = r" if "x \<in> set (jobs s)" "j_id x = j_id r" for x
    using distinct_key_eq [of j_id "jobs s" x r] s r(1) that by (simp add: store_ok_def)
  have eq: "update_jobs (\<lambda>x. j_id x = j_id r) f s = update_jobs (\<lambda>x. j_id x = j_id r) g s"
    if "f r = g r" for f g
  proof -
    have "update_where (\<lambda>x. j_id x = j_id r) f (jobs s) = update_where (\<lambda>x. j_id x = j_id r) g (jobs s)"
      unfolding update_where_def by (rule map_cong) (use same that in auto)
    then show ?thesis by (simp add: update_jobs_def)
  qed
  show ?thesis
    unfolding fail_owner [OF s r]
    by (cases "j_attempts r < j_max_attempts r")
       (auto simp: fail_from_def r(2) fail_verdict_def fail_permanently_def Let_def
         fail_permanently_because_def by_id verdict_set_def intro!: eq)
qed

section \<open>Sweeps\<close>

lemma verdict_running:
  "x \<in> set (jobs (update_jobs (\<lambda>x. j_id x = i) (verdict_set now reason) s)) \<Longrightarrow> j_status x = Running \<Longrightarrow>
   x \<in> set (jobs s) \<and> j_id x \<noteq> i"
  by (auto simp: set_update_where verdict_set_def requeue_set_def failed_set_def split: if_splits)

lemma sweep_alone:
  assumes "store_ok s" "\<And>r. r \<in> set rows \<Longrightarrow> r \<in> set (jobs s) \<and> j_status r = Running"
    and "distinct (map j_id rows)" "\<And>n. elapsed n < RECOVERY_SWEEP_BUDGET"
    and "issue_recovery_verdicts jt elapsed now (\<lambda>_ s. s) reason n rows s sw = (s', sw')"
  shows "sw_requeued sw' + sw_failed sw' = sw_requeued sw + sw_failed sw + length rows"
    "sw_skipped sw' = sw_skipped sw" "sw_truncated sw' = sw_truncated sw"
    "map fst (sw_verdicts sw') = map fst (sw_verdicts sw) @ map j_id rows"
    "\<forall>x\<in>set (jobs s'). j_status x = Running \<longrightarrow> x \<in> set (jobs s) \<and> j_id x \<notin> j_id ` set rows"
proof -
  have "sw_requeued sw' + sw_failed sw' = sw_requeued sw + sw_failed sw + length rows \<and>
    sw_skipped sw' = sw_skipped sw \<and> sw_truncated sw' = sw_truncated sw \<and>
    map fst (sw_verdicts sw') = map fst (sw_verdicts sw) @ map j_id rows \<and>
    (\<forall>x\<in>set (jobs s'). j_status x = Running \<longrightarrow> x \<in> set (jobs s) \<and> j_id x \<notin> j_id ` set rows)"
    using assms(1-3,5)
  proof (induction rows arbitrary: n s sw)
    case Nil
    then show ?case by simp
  next
    case (Cons r rows)
    let ?s1 = "update_jobs (\<lambda>x. j_id x = j_id r) (verdict_set (now n) reason) s"
    let ?sw1 = "sweep_count r (Some (if j_attempts r < j_max_attempts r then Queued else Failed)) sw"
    have r: "r \<in> set (jobs s)" "j_status r = Running" using Cons.prems(2) by auto
    have f: "fail jt (now n) (j_id r) (j_attempts r) (Text reason) s =
        (?s1, Some (if j_attempts r < j_max_attempts r then Queued else Failed))"
      by (rule fail_text [OF Cons.prems(1) r])
    have s1: "store_ok ?s1"
      using fail_ok [OF Cons.prems(1), of jt "now n" "j_id r" "j_attempts r" "Text reason"] f by simp
    have rest: "x \<in> set (jobs ?s1) \<and> j_status x = Running" if "x \<in> set rows" for x
    proof -
      have x: "x \<in> set (jobs s)" "j_status x = Running" "j_id x \<noteq> j_id r"
        using Cons.prems(2,3) that by (auto simp: image_iff)
      then show ?thesis
        unfolding jobs_update_jobs set_update_where by (auto intro!: image_eqI [of _ _ x])
    qed
    have run: "issue_recovery_verdicts jt elapsed now (\<lambda>_ s. s) reason (Suc n) rows ?s1 ?sw1 = (s', sw')"
      using Cons.prems(4) assms(4) [of n] by (simp add: f)
    have d: "distinct (map j_id rows)" using Cons.prems(3) by simp
    note IH = Cons.IH [OF s1 rest d run]
    have "sw_requeued ?sw1 + sw_failed ?sw1 = Suc (sw_requeued sw + sw_failed sw)"
        "sw_skipped ?sw1 = sw_skipped sw" "sw_truncated ?sw1 = sw_truncated sw"
        "map fst (sw_verdicts ?sw1) = map fst (sw_verdicts sw) @ [j_id r]"
      by (simp_all add: sweep_count_def Let_def)
    moreover have "\<forall>x\<in>set (jobs s'). j_status x = Running \<longrightarrow>
        x \<in> set (jobs s) \<and> j_id x \<notin> j_id ` set (r # rows)"
      using IH verdict_running [of _ "j_id r" "now n" reason s] by auto
    ultimately show ?case using IH by simp
  qed
  then show "sw_requeued sw' + sw_failed sw' = sw_requeued sw + sw_failed sw + length rows"
    "sw_skipped sw' = sw_skipped sw" "sw_truncated sw' = sw_truncated sw"
    "map fst (sw_verdicts sw') = map fst (sw_verdicts sw) @ map j_id rows"
    "\<forall>x\<in>set (jobs s'). j_status x = Running \<longrightarrow> x \<in> set (jobs s) \<and> j_id x \<notin> j_id ` set rows"
    by blast+
qed

lemma sweep_accounting:
  assumes "issue_recovery_verdicts jt elapsed now others reason n rows s sw = (s', sw')"
  shows "sw_requeued sw' + sw_failed sw' + sw_skipped sw' \<le>
           sw_requeued sw + sw_failed sw + sw_skipped sw + length rows"
    "\<not> sw_truncated sw' \<Longrightarrow> sw_requeued sw' + sw_failed sw' + sw_skipped sw' =
           sw_requeued sw + sw_failed sw + sw_skipped sw + length rows"
    "length (sw_verdicts sw') + sw_requeued sw + sw_failed sw =
       length (sw_verdicts sw) + sw_requeued sw' + sw_failed sw'"
proof -
  have count: "sw_requeued (sweep_count r out w) + sw_failed (sweep_count r out w) + sw_skipped (sweep_count r out w)
      = Suc (sw_requeued w + sw_failed w + sw_skipped w) \<and>
      length (sw_verdicts (sweep_count r out w)) + sw_requeued w + sw_failed w =
      length (sw_verdicts w) + sw_requeued (sweep_count r out w) + sw_failed (sweep_count r out w)" for r out w
    by (cases out) (simp_all add: sweep_count_def Let_def)
  have "sw_requeued sw' + sw_failed sw' + sw_skipped sw' \<le>
           sw_requeued sw + sw_failed sw + sw_skipped sw + length rows \<and>
    (\<not> sw_truncated sw' \<longrightarrow> sw_requeued sw' + sw_failed sw' + sw_skipped sw' =
           sw_requeued sw + sw_failed sw + sw_skipped sw + length rows) \<and>
    length (sw_verdicts sw') + sw_requeued sw + sw_failed sw =
       length (sw_verdicts sw) + sw_requeued sw' + sw_failed sw'"
    using assms
  proof (induction rows arbitrary: n s sw)
    case (Cons r rows)
    obtain s1 out where f: "fail jt (now n) (j_id r) (j_attempts r) (Text reason) (others n s) = (s1, out)"
      by (rule prod.exhaust)
    show ?case
    proof (cases "elapsed n \<ge> RECOVERY_SWEEP_BUDGET")
      case True
      then show ?thesis using Cons.prems by auto
    next
      case False
      then have "issue_recovery_verdicts jt elapsed now others reason (Suc n) rows s1 (sweep_count r out sw) = (s', sw')"
        using Cons.prems f by simp
      from Cons.IH [OF this] show ?thesis using count [of r out sw] by simp
    qed
  qed simp
  then show "sw_requeued sw' + sw_failed sw' + sw_skipped sw' \<le>
           sw_requeued sw + sw_failed sw + sw_skipped sw + length rows"
    "\<not> sw_truncated sw' \<Longrightarrow> sw_requeued sw' + sw_failed sw' + sw_skipped sw' =
           sw_requeued sw + sw_failed sw + sw_skipped sw + length rows"
    "length (sw_verdicts sw') + sw_requeued sw + sw_failed sw =
       length (sw_verdicts sw) + sw_requeued sw' + sw_failed sw'"
    by auto
qed



section \<open>The delay of a requeue\<close>

text \<open>
  A failure of a running job that has an attempt left and is not pumper's own re-queues it:
  whenever the policy answers a delay of at most an hour, which is every delay it gives to waits
  of at most an hour, the job is queued again with the policy's reason, due no sooner than the
  whole seconds of that delay (a fraction of a second is dropped) and no later than those and a
  quarter. The attempt number and budget are unchanged.
\<close>

theorem fail_requeue_delay:
  assumes "queue_reachable s" and "get_job i s = Some r" and "j_status r = Running"
    and "j_attempts r < j_max_attempts r" and "fail_verdict reason (j_attempts r) = After delay why"
    and "as_secs delay \<le> 3600"
    and "fail jt now i (j_attempts r) reason s = (s', out)"
  shows "out = Some Queued \<and> (\<exists>r'. get_job i s' = Some r' \<and> j_status r' = Queued \<and>
    j_attempts r' = j_attempts r \<and> j_max_attempts r' = j_max_attempts r \<and>
    j_requeue_reason r' = Some why \<and>
    now + int (as_secs delay) * micros_per_sec \<le> j_available_at r' \<and>
    4 * (j_available_at r' - now) \<le> 5 * int (as_secs delay) * micros_per_sec)"
proof -
  have s: "store_ok s" using reachable_ok [OF assms(1)] .
  have r: "r \<in> set (jobs s)" "j_id r = i" using get_job_Some [OF assms(2)] by auto
  define av where "av = requeue_available_at now i (j_attempts r) delay"
  define f where "f = requeue_set (fail_reason_text jt reason) av why
       (case fail_reason_error reason of None \<Rightarrow> None | Some e \<Rightarrow> cause_kind e)"
  have own: "owns (j_id r) (j_attempts r) r" using assms(3) by (simp add: owns_def)
  note by_id = owns_by_id [OF s r(1) own]
  have "fail jt now i (j_attempts r) reason s = (update_jobs (\<lambda>x. j_id x = j_id r) f s, Some Queued)"
    using assms(3-5) by_id
    by (simp add: fail_def assms(2) [folded r(2)] fail_from_def r(2) [symmetric] f_def av_def Let_def)
  then have out: "out = Some Queued" "s' = update_jobs (\<lambda>x. j_id x = j_id r) f s"
    using assms(7) by auto
  have get: "get_job i s' = Some (f r)"
    using get_after_update [OF s r(1), of f] by (simp add: out(2) r(2) f_def requeue_set_def)
  let ?b = "as_secs delay" and ?j = "requeue_jitter (requeue_seed i (j_attempts r)) (as_secs delay)"
  have "av = now + (int ?b + int ?j) * micros_per_sec"
    using assms(6) by (simp add: av_def requeue_available_at_def Let_def u64_as_i64_small)
  moreover have "?b < 2 ^ 53" using assms(6) by simp
  then have "4 * int ?j \<le> int ?b" using requeue_jitter_quarter [of ?b "requeue_seed i (j_attempts r)"] by linarith
  ultimately have "now + int ?b * micros_per_sec \<le> av" "4 * (av - now) \<le> 5 * int ?b * micros_per_sec"
    by (simp_all add: micros_per_sec_def)
  then show ?thesis by (simp add: out(1) get f_def requeue_set_def)
qed

theorem fail_requeue_delay_witness:
  "\<exists>r. get_job [1] demo_s3 = Some r \<and> snd (fail (\<lambda>_. []) 9 [1] 1 (Text ''x'') demo_s3) = Some Queued"
proof -
  have "get_job [1] demo_s3 \<noteq> None \<and> j_status (the (get_job [1] demo_s3)) = Running \<and>
      j_attempts (the (get_job [1] demo_s3)) = 1 \<and> j_max_attempts (the (get_job [1] demo_s3)) = 2"
    by code_simp
  then obtain r where r: "get_job [1] demo_s3 = Some r" "j_status r = Running" "j_attempts r = 1"
      "j_max_attempts r = 2" by auto
  have "as_secs (ladder_delay 1) \<le> 3600"
    using ladder_delay_secs [of 1] by simp
  then show ?thesis
    using fail_requeue_delay [OF demo_reachable(3) r(1,2), of "Text ''x''" _ _ "\<lambda>_. []" 9] r
    by (cases "fail (\<lambda>_. []) 9 [1] 1 (Text ''x'') demo_s3") (auto simp: fail_verdict_def)
qed

section \<open>Waiting and resuming\<close>

text \<open>
  Parking costs no attempt and the answer arrives once: a running job that asks for input
  becomes waiting with its request recorded and its attempts and budget unchanged; the resume
  that answers it re-queues it with the input stored, due at once, with an attempt left; and a
  second resume, or an expiry sweep after the first, changes nothing.
\<close>

theorem park_resume:
  assumes "queue_reachable s" and "get_job i s = Some r" and "j_status r = Running"
    and "await_input t i (j_attempts r) request expires s = (s1, parked)"
    and "resume t' i input s1 = (s2, answered)"
  shows "parked \<and> (\<exists>w r'. get_job i s1 = Some w \<and> j_status w = Waiting \<and>
      j_input_request w = Some request \<and> j_attempts w = j_attempts r \<and>
      j_max_attempts w = j_max_attempts r \<and> j_finished_at w = None \<and>
      answered = Some r' \<and> get_job i s2 = Some r' \<and> j_status r' = Queued \<and>
      j_resumed_input r' = Some input \<and> j_attempts r' = j_attempts r \<and>
      j_attempts r' < j_max_attempts r' \<and> j_available_at r' = t') \<and>
    resume t'' i input' s2 = (s2, None) \<and>
    get_job i (fst (expire_waiting t'' why cap s2)) = get_job i s2"
proof -
  have s: "store_ok s" using reachable_ok [OF assms(1)] .
  have r: "r \<in> set (jobs s)" "j_id r = i" using get_job_Some [OF assms(2)] by auto
  let ?w = "await_set t request expires r"
  have own: "owns (j_id r) (j_attempts r) r" using assms(3) by (simp add: owns_def)
  note by_id = owns_by_id [OF s r(1) own]
  have s1: "s1 = update_jobs (\<lambda>x. j_id x = j_id r) (await_set t request expires) s" "parked"
    using assms(4) by_id by (auto simp: await_input_def r(2))
  have w: "get_job i s1 = Some ?w"
    using get_after_update [OF s r(1), of "await_set t request expires"]
    by (simp add: s1(1) r(2) await_set_def)
  have ok1: "store_ok s1"
    using queue_step_ok [OF queue_step.await s, of t i "j_attempts r" request expires] assms(4) by simp
  have wmem: "?w \<in> set (jobs s1)" "j_id ?w = i" using get_job_Some [OF w] by auto
  have wait: "(j_id x = i \<and> j_status x = Waiting) = (j_id x = j_id ?w)" if "x \<in> set (jobs s1)" for x
  proof -
    have "x = ?w" if "j_id x = i"
      using distinct_key_eq [of j_id "jobs s1" x ?w] ok1 \<open>x \<in> set (jobs s1)\<close> wmem that by (simp add: store_ok_def)
    then show ?thesis using wmem(2) by (auto simp: await_set_def)
  qed
  let ?q = "resume_set t' input ?w"
  have pos: "rows_affected (\<lambda>x. j_id x = i \<and> j_status x = Waiting) (jobs s1) \<noteq> 0"
    using wmem(2) bexI [OF _ wmem(1), of "\<lambda>x. j_id x = i \<and> j_status x = Waiting"]
    by (auto simp: rows_affected_0 await_set_def)
  have "update_jobs (\<lambda>x. j_id x = i \<and> j_status x = Waiting) (resume_set t' input) s1 =
      update_jobs (\<lambda>x. j_id x = j_id ?w) (resume_set t' input) s1"
    by (rule update_jobs_cong) (rule wait)
  then have s2: "s2 = update_jobs (\<lambda>x. j_id x = j_id ?w) (resume_set t' input) s1" "answered = get_job i s2"
    using assms(5) pos by (auto simp: resume_def Let_def)
  have q: "get_job i s2 = Some ?q"
    using get_after_update [OF ok1 wmem(1), of "resume_set t' input"]
    by (simp add: s2(1) wmem(2) resume_set_def requeue_fresh_def)
  have ok2: "store_ok s2"
    using queue_step_ok [OF queue_step.resume ok1, of t' i input] assms(5) by simp
  have qst: "j_status ?q = Queued" by (simp add: resume_set_def requeue_fresh_def)
  have one: "x = ?q" if "x \<in> set (jobs s2)" "j_id x = i" for x
    using get_job_iff [OF ok2, of i x] that q by simp
  have again: "resume t'' i input' s2 = (s2, None)"
  proof -
    have none: "\<not> (j_id x = i \<and> j_status x = Waiting)" if "x \<in> set (jobs s2)" for x
      using one [OF that] qst by auto
    then have "rows_affected (\<lambda>x. j_id x = i \<and> j_status x = Waiting) (jobs s2) = 0"
      by (simp add: rows_affected_0)
    with none show ?thesis
      by (simp add: resume_def Let_def update_jobs_def update_where_none)
  qed
  have exp: "get_job i (fst (expire_waiting t'' why cap s2)) = get_job i s2"
  proof -
    let ?ids = "map j_id (order_limit j_waiting_expires_at (nat (max cap 0)) (filter (expired t'') (jobs s2)))"
    have "x \<noteq> i" if "x \<in> set ?ids" for x
      using that one set_order_limit [of j_waiting_expires_at "nat (max cap 0)" "filter (expired t'') (jobs s2)"] qst
      by (auto simp: expired_def)
    then have "i \<notin> set ?ids" by blast
    then show ?thesis
      using find_update_where_same [of "jobs s2" "\<lambda>x. j_id x \<in> set ?ids" "\<lambda>x. j_id x = i" "expire_set t'' why"] q
      by (simp add: expire_waiting_def Let_def get_job_def expire_set_def)
        (metis (mono_tags, lifting) find_Some_mem)
  qed
  have "j_finished_at ?w = None"
    using ok1 wmem by (auto simp: store_ok_def row_ok_def await_set_def)
  then show ?thesis
    using s1(2) w q s2(2) again exp by (simp add: await_set_def resume_set_def requeue_fresh_def max_def)
qed

theorem park_resume_witness:
  "\<exists>r'. get_job [1] (fst (resume 9 [1] JNull (fst (await_input 8 [1] 1 JNull None demo_s3)))) = Some r' \<and>
     j_status r' = Queued \<and> j_attempts r' < j_max_attempts r'"
proof -
  have "get_job [1] demo_s3 \<noteq> None \<and> j_status (the (get_job [1] demo_s3)) = Running \<and>
      j_attempts (the (get_job [1] demo_s3)) = 1"
    by code_simp
  then obtain r where r: "get_job [1] demo_s3 = Some r" "j_status r = Running" "j_attempts r = 1"
    by auto
  obtain s1 parked where a: "await_input 8 [1] (j_attempts r) JNull None demo_s3 = (s1, parked)"
    by (rule prod.exhaust)
  obtain s2 ans where b: "resume 9 [1] JNull s1 = (s2, ans)" by (rule prod.exhaust)
  obtain r' where "get_job [1] s2 = Some r'" "j_status r' = Queued" "j_attempts r' < j_max_attempts r'"
    using park_resume [OF demo_reachable(3) r(1,2) a b, where t'' = 0 and input' = JNull and
        why = "[]" and cap = 0] by auto
  then show ?thesis using a b r(3) by simp
qed

end
