(* ===== verification/Simhash.thy ===== *)
theory Simhash
  imports Prelude
begin

text \<open>
  SimHash fingerprints and the banded near-duplicate index (\<open>crates/core/src/simhash.rs\<close>), the
  crawler's wrapper of it (\<open>SimHashIndex\<close> of \<open>crawl.rs\<close>) and the dataset store's
  \<open>banded_duplicate_pairs\<close> (\<open>datasets.rs\<close>). Their lemmas are in
  \<open>Near_Dup\<close>. Text is the list of its UTF-8 bytes; \<open>char\<close> is such a byte.
\<close>

section \<open>Fingerprints\<close>

definition FNV_OFFSET :: "64 word" where
  "FNV_OFFSET = 0xcbf29ce484222325"

definition FNV_PRIME :: "64 word" where
  "FNV_PRIME = 0x100000001b3"

definition fnv_byte :: "64 word \<Rightarrow> char \<Rightarrow> 64 word" where
  "fnv_byte hash byte = (hash XOR of_char byte) * FNV_PRIME"

definition splitmix_final :: "64 word \<Rightarrow> 64 word" where
  "splitmix_final hash0 =
     (let hash1 = (hash0 XOR drop_bit 30 hash0) * 0xbf58476d1ce4e5b9;
          hash2 = (hash1 XOR drop_bit 27 hash1) * 0x94d049bb133111eb
      in hash2 XOR drop_bit 31 hash2)"

definition hash_token :: "string \<Rightarrow> 64 word" where
  "hash_token token = splitmix_final (foldl fnv_byte FNV_OFFSET token)"

definition vote :: "64 word \<Rightarrow> 32 word list \<Rightarrow> 32 word list" where
  "vote h bits = map (\<lambda>i. if bit h i then bits ! i + 1 else bits ! i - 1) [0..<64]"

definition simhash_tokens :: "64 word list \<Rightarrow> 64 word" where
  "simhash_tokens tokens =
     (if tokens = [] then 0
      else let bits = foldl (\<lambda>bits h. vote h bits) (replicate 64 0) tokens
           in foldl (\<lambda>out i. if 0 < sint (bits ! i) then out OR push_bit i 1 else out)
                0 [0..<64])"

definition count_ones :: "64 word \<Rightarrow> nat" where
  "count_ones w = length (filter (bit w) [0..<64])"

definition hamming :: "64 word \<Rightarrow> 64 word \<Rightarrow> nat" where
  "hamming a b = count_ones (a XOR b)"

definition drift :: "64 word \<Rightarrow> 64 word \<Rightarrow> rat" where
  "drift a b = of_nat (hamming a b) / 64"

definition byte_in :: "nat \<Rightarrow> nat \<Rightarrow> char \<Rightarrow> bool" where
  "byte_in lo hi c = (let b = of_char c in lo \<le> b \<and> b \<le> (hi :: nat))"

definition is_ascii_alphabetic :: "char \<Rightarrow> bool" where
  "is_ascii_alphabetic c = (byte_in 0x41 0x5A c \<or> byte_in 0x61 0x7A c)"

definition is_ascii_digit :: "char \<Rightarrow> bool" where
  "is_ascii_digit = byte_in 0x30 0x39"

definition is_ascii_hexdigit :: "char \<Rightarrow> bool" where
  "is_ascii_hexdigit c = (is_ascii_digit c \<or> byte_in 0x41 0x46 c \<or> byte_in 0x61 0x66 c)"

text \<open>
  \<open>rfind\<close> of a separator: the text before the last one and the text after it.
\<close>

definition rsplit_sep :: "string \<Rightarrow> (string \<times> string) option" where
  "rsplit_sep s =
     (let digest = rev (takeWhile (\<lambda>c. c \<notin> {CHR ''-'', CHR ''_''}) (rev s))
      in if digest = s then None else Some (take (length s - length digest - 1) s, digest))"

definition build_hash_stem :: "string \<Rightarrow> string option" where
  "build_hash_stem cls =
     (case rsplit_sep cls of
        None \<Rightarrow> None
      | Some (stem, digest) \<Rightarrow>
          if stem \<noteq> [] \<and> list_all is_ascii_alphabetic stem \<and> 6 \<le> length digest
             \<and> list_all is_ascii_hexdigit digest \<and> list_ex is_ascii_digit digest
          then Some stem else None)"

text \<open>
  The shape token of one element, from its tag name, its classes in source order and whether it
  has an id; the document fingerprint folds them in pre-order.
\<close>

definition class_part :: "string \<Rightarrow> string" where
  "class_part cls = (case build_hash_stem cls of Some stem \<Rightarrow> stem @ ''-#'' | None \<Rightarrow> cls) @ ''.''"

definition dom_token :: "string \<times> string list \<times> bool \<Rightarrow> string" where
  "dom_token el =
     (case el of (name, classes, has_id) \<Rightarrow>
        name @ ''|'' @ concat (map class_part (sort classes)) @ ''|''
        @ (if has_id then ''#'' else ''''))"

definition dom_simhash :: "(string \<times> string list \<times> bool) list \<Rightarrow> 64 word" where
  "dom_simhash elements = simhash_tokens (map (\<lambda>el. hash_token (dom_token el)) elements)"

section \<open>The banded index\<close>

definition MIN_BAND_BITS :: nat where
  "MIN_BAND_BITS = 10"

definition band_mask :: "nat \<Rightarrow> 64 word" where
  "band_mask width = (if width = 64 then -1 else push_bit width 1 - 1)"

function band_segs :: "nat \<Rightarrow> nat \<Rightarrow> nat \<Rightarrow> nat \<Rightarrow> nat \<Rightarrow> (nat \<times> 64 word) list" where
  "band_segs bands base rem i shift =
     (if i < bands then
        let width = base + (if i < rem then 1 else 0)
        in (shift, band_mask width) # band_segs bands base rem (Suc i) (shift + width)
      else [])"
  by pat_completeness auto

termination
  by (relation "measure (\<lambda>(bands, base, rem, i, shift). bands - i)") auto

declare band_segs.simps [simp del]

text \<open>
  The number of bands is computed in \<open>u32\<close>, where \<open>distance + 1\<close> wraps at the maximum in a
  release build (a debug build panics there).
\<close>

definition band_count :: "32 word \<Rightarrow> nat" where
  "band_count distance = min 64 (max 1 (unat (distance + 1)))"

definition band_widths :: "32 word \<Rightarrow> (nat \<times> 64 word) list" where
  "band_widths distance =
     (let bands = band_count distance
      in if 64 div bands < MIN_BAND_BITS then []
         else band_segs bands (64 div bands) (64 mod bands) 0 0)"

record 'a BandedIndex =
  bi_distance :: "32 word"
  bi_segs :: "(nat \<times> 64 word) list"
  bi_buckets :: "(64 word \<rightharpoonup> nat list) list"
  bi_entries :: "(64 word \<times> 'a) list"

definition banded_new :: "32 word \<Rightarrow> 'a BandedIndex" where
  "banded_new distance =
     (let segs = band_widths distance
      in \<lparr>bi_distance = distance, bi_segs = segs,
          bi_buckets = replicate (length segs) (\<lambda>_. None), bi_entries = []\<rparr>)"

definition is_banded :: "'a BandedIndex \<Rightarrow> bool" where
  "is_banded ix \<longleftrightarrow> bi_segs ix \<noteq> []"

definition band_of :: "64 word \<Rightarrow> nat \<times> 64 word \<Rightarrow> 64 word" where
  "band_of hash seg = (case seg of (shift, msk) \<Rightarrow> drop_bit shift hash AND msk)"

definition bucket_push :: "(64 word \<rightharpoonup> nat list) \<Rightarrow> 64 word \<Rightarrow> nat \<Rightarrow> (64 word \<rightharpoonup> nat list)" where
  "bucket_push bucket band slot =
     bucket(band \<mapsto> (case bucket band of None \<Rightarrow> [] | Some slots \<Rightarrow> slots) @ [slot])"

definition banded_insert :: "64 word \<Rightarrow> 'a \<Rightarrow> 'a BandedIndex \<Rightarrow> 'a BandedIndex" where
  "banded_insert hash payload ix =
     ix\<lparr>bi_buckets := map2 (\<lambda>seg bucket. bucket_push bucket (band_of hash seg) (length (bi_entries ix)))
                         (bi_segs ix) (bi_buckets ix),
        bi_entries := bi_entries ix @ [(hash, payload)]\<rparr>"

definition near :: "'a BandedIndex \<Rightarrow> 64 word \<Rightarrow> 64 word \<Rightarrow> bool" where
  "near ix h hash \<longleftrightarrow> hamming h hash \<le> unat (bi_distance ix)"

text \<open>The bucket a query reads in each band, the absent ones empty.\<close>

definition query_buckets :: "'a BandedIndex \<Rightarrow> 64 word \<Rightarrow> nat list list" where
  "query_buckets ix hash =
     map2 (\<lambda>seg bucket. case bucket (band_of hash seg) of None \<Rightarrow> [] | Some slots \<Rightarrow> slots)
       (bi_segs ix) (bi_buckets ix)"

definition is_near_dup :: "'a BandedIndex \<Rightarrow> 64 word \<Rightarrow> bool" where
  "is_near_dup ix hash =
     (if \<not> is_banded ix then list_ex (\<lambda>(h, _). near ix h hash) (bi_entries ix)
      else list_ex (list_ex (\<lambda>s. near ix (fst (bi_entries ix ! s)) hash)) (query_buckets ix hash))"

text \<open>
  The visitor is a closure over a state \<open>'s\<close>: it returns whether the walk goes on, and its state.
\<close>

primrec visit_slots ::
  "'a BandedIndex \<Rightarrow> 64 word \<Rightarrow> (nat \<Rightarrow> 'a \<Rightarrow> 's \<Rightarrow> bool \<times> 's) \<Rightarrow> nat list \<Rightarrow> 's \<Rightarrow> 's" where
  "visit_slots ix hash visit [] s = s"
| "visit_slots ix hash visit (slot # slots) s =
     (if near ix (fst (bi_entries ix ! slot)) hash then
        (case visit slot (snd (bi_entries ix ! slot)) s of
           (go, s') \<Rightarrow> if go then visit_slots ix hash visit slots s' else s')
      else visit_slots ix hash visit slots s)"

definition usize_MAX :: nat where
  "usize_MAX = 2 ^ 64 - 1"

definition cursors_min :: "nat list list \<Rightarrow> nat" where
  "cursors_min cursors =
     foldl (\<lambda>m cursor. case cursor of [] \<Rightarrow> m | slot # _ \<Rightarrow> min m slot) usize_MAX cursors"

lemma foldl_min_le:
  "foldl (\<lambda>m cursor. case cursor of [] \<Rightarrow> m | slot # _ \<Rightarrow> min m slot) (m0::nat) cursors \<le> m0"
proof (induction cursors arbitrary: m0)
  case (Cons c cs)
  have "foldl (\<lambda>m cursor. case cursor of [] \<Rightarrow> m | slot # _ \<Rightarrow> min m slot)
          (case c of [] \<Rightarrow> m0 | slot # _ \<Rightarrow> min m0 slot) cs
        \<le> (case c of [] \<Rightarrow> m0 | slot # _ \<Rightarrow> min m0 slot)"
    by (rule Cons)
  also have "\<dots> \<le> m0" by (cases c) auto
  finally show ?case by simp
qed simp

lemma foldl_min_attained:
  "foldl (\<lambda>m cursor. case cursor of [] \<Rightarrow> m | slot # _ \<Rightarrow> min m slot) (m0::nat) cursors = m \<Longrightarrow>
   m \<noteq> m0 \<Longrightarrow> \<exists>rest. m # rest \<in> set cursors"
proof (induction cursors arbitrary: m0)
  case (Cons c cs)
  show ?case
  proof (cases "m = (case c of [] \<Rightarrow> m0 | slot # _ \<Rightarrow> min m0 slot)")
    case True
    with Cons.prems(2) show ?thesis by (cases c) (auto simp: min_def split: if_splits)
  next
    case False
    with Cons.IH Cons.prems(1) show ?thesis by auto
  qed
qed simp

lemma sum_list_length_dropWhile:
  "m # rest \<in> set cursors \<Longrightarrow>
   sum_list (map (\<lambda>c. length (dropWhile (\<lambda>x. x = m) c)) cursors) < sum_list (map length cursors)"
proof (induction cursors)
  case (Cons c cs)
  have le: "sum_list (map (\<lambda>c. length (dropWhile (\<lambda>x. x = m) c)) cs) \<le> sum_list (map length cs)"
    by (rule sum_list_mono) (simp add: length_dropWhile_le)
  show ?case
  proof (cases "m # rest = c")
    case True
    have "length (dropWhile (\<lambda>x. x = m) rest) \<le> length rest" by (rule length_dropWhile_le)
    then have "length (dropWhile (\<lambda>x. x = m) c) < length c" using True by auto
    then show ?thesis using le by simp
  next
    case False
    then have "m # rest \<in> set cs" using Cons.prems by simp
    from Cons.IH [OF this] show ?thesis
      using length_dropWhile_le [of "\<lambda>x. x = m" c] by simp
  qed
qed simp

lemma merge_shrinks:
  assumes "cursors_min cursors \<noteq> usize_MAX"
  shows "sum_list (map (length \<circ> dropWhile (\<lambda>x. x = cursors_min cursors)) cursors)
         < sum_list (map length cursors)"
proof -
  from assms obtain rest where "cursors_min cursors # rest \<in> set cursors"
    unfolding cursors_min_def using foldl_min_attained [of usize_MAX cursors] by blast
  from sum_list_length_dropWhile [OF this] show ?thesis by (simp add: comp_def)
qed

function merge_visit ::
  "'a BandedIndex \<Rightarrow> 64 word \<Rightarrow> (nat \<Rightarrow> 'a \<Rightarrow> 's \<Rightarrow> bool \<times> 's) \<Rightarrow> nat list list \<Rightarrow> 's \<Rightarrow> 's" where
  "merge_visit ix hash visit cursors s =
     (let nxt = cursors_min cursors
      in if nxt = usize_MAX then s
         else let cursors' = map (dropWhile (\<lambda>x. x = nxt)) cursors
              in if near ix (fst (bi_entries ix ! nxt)) hash then
                   (case visit nxt (snd (bi_entries ix ! nxt)) s of
                      (go, s') \<Rightarrow> if go then merge_visit ix hash visit cursors' s' else s')
                 else merge_visit ix hash visit cursors' s)"
  by pat_completeness auto

termination
proof (relation "measure (\<lambda>(ix, hash, visit, cursors, s). sum_list (map length cursors))")
  show "wf (measure (\<lambda>(ix, hash, visit, cursors, s). sum_list (map length cursors)))" by simp
qed (simp_all add: merge_shrinks)

declare merge_visit.simps [simp del]

text \<open>
  \<open>partition_point\<close> on an ascending bucket skips the slots up to \<open>after\<close>; a bucket with nothing
  left gives no cursor.
\<close>

definition bucket_cursors :: "nat \<Rightarrow> nat list list \<Rightarrow> nat list list" where
  "bucket_cursors after buckets =
     filter (\<lambda>c. c \<noteq> []) (map (dropWhile (\<lambda>slot. slot \<le> after)) buckets)"

text \<open>
  The unbanded walk starts at \<open>after + 1\<close>, which in a release build wraps at the last \<open>usize\<close>
  (a debug build panics there).
\<close>

definition for_each_neighbor_after ::
  "'a BandedIndex \<Rightarrow> 64 word \<Rightarrow> nat \<Rightarrow> (nat \<Rightarrow> 'a \<Rightarrow> 's \<Rightarrow> bool \<times> 's) \<Rightarrow> 's \<Rightarrow> 's" where
  "for_each_neighbor_after ix hash after visit s =
     (if \<not> is_banded ix then visit_slots ix hash visit [(after + 1) mod 2 ^ 64..<length (bi_entries ix)] s
      else merge_visit ix hash visit (bucket_cursors after (query_buckets ix hash)) s)"

definition neighbors :: "'a BandedIndex \<Rightarrow> 64 word \<Rightarrow> (nat \<times> 'a) list" where
  "neighbors ix hash =
     (if \<not> is_banded ix then
        map (\<lambda>(slot, _, payload). (slot, payload))
          (filter (\<lambda>(_, h, _). near ix h hash) (enumerate 0 (bi_entries ix)))
      else map (\<lambda>s. (s, snd (bi_entries ix ! s)))
             (filter (\<lambda>s. near ix (fst (bi_entries ix ! s)) hash)
               (remdups_adj (sort (concat (query_buckets ix hash))))))"

definition banded_hashes :: "'a BandedIndex \<Rightarrow> 64 word list" where
  "banded_hashes ix = map fst (bi_entries ix)"

text \<open>The crawler's wrapper.\<close>

record SimHashIndex =
  inner :: "unit BandedIndex"
  all_hashes :: "64 word list"

definition simhash_index_new :: "32 word \<Rightarrow> SimHashIndex" where
  "simhash_index_new distance = \<lparr>inner = banded_new distance, all_hashes = []\<rparr>"

definition simhash_index_insert :: "64 word \<Rightarrow> SimHashIndex \<Rightarrow> SimHashIndex" where
  "simhash_index_insert hash idx =
     idx\<lparr>inner := banded_insert hash () (inner idx), all_hashes := all_hashes idx @ [hash]\<rparr>"

definition from_hashes :: "32 word \<Rightarrow> 64 word list \<Rightarrow> SimHashIndex" where
  "from_hashes distance hashes =
     foldl (\<lambda>idx h. simhash_index_insert h idx) (simhash_index_new distance) hashes"

definition simhash_index_is_near_dup :: "SimHashIndex \<Rightarrow> 64 word \<Rightarrow> bool" where
  "simhash_index_is_near_dup idx hash = is_near_dup (inner idx) hash"

section \<open>Duplicate pairs of a dataset\<close>

definition MAX_DUP_PAIRS :: nat where
  "MAX_DUP_PAIRS = 10000"

record DupPair =
  dup_a :: string
  dup_b :: string
  dup_distance :: nat

fun index_rows ::
  "nat \<Rightarrow> (string \<times> 64 word) list \<Rightarrow> nat BandedIndex \<Rightarrow> nat option list
   \<Rightarrow> nat BandedIndex \<times> nat option list" where
  "index_rows i [] index slot_of_row = (index, slot_of_row)"
| "index_rows i ((_, sim) # rows) index slot_of_row =
     (if sim = 0 then index_rows (Suc i) rows index (slot_of_row @ [None])
      else index_rows (Suc i) rows (banded_insert sim i index)
             (slot_of_row @ [Some (length (bi_entries index))]))"

definition push_pair ::
  "(string \<times> 64 word) list \<Rightarrow> string \<times> 64 word \<Rightarrow> nat \<Rightarrow> nat \<Rightarrow> DupPair list \<Rightarrow> bool \<times> DupPair list" where
  "push_pair rows row slot j pairs =
     (let pairs' = pairs @ [\<lparr>dup_a = fst row, dup_b = fst (rows ! j),
                              dup_distance = hamming (snd row) (snd (rows ! j))\<rparr>]
      in (length pairs' < MAX_DUP_PAIRS, pairs'))"

fun walk_rows ::
  "(string \<times> 64 word) list \<Rightarrow> nat BandedIndex \<Rightarrow> nat option list \<Rightarrow> nat list \<Rightarrow> DupPair list
   \<Rightarrow> DupPair list" where
  "walk_rows rows index slot_of_row [] pairs = pairs"
| "walk_rows rows index slot_of_row (i # is) pairs =
     (case slot_of_row ! i of
        None \<Rightarrow> walk_rows rows index slot_of_row is pairs
      | Some slot \<Rightarrow>
          let pairs' = for_each_neighbor_after index (snd (rows ! i)) slot
                         (push_pair rows (rows ! i)) pairs
          in if MAX_DUP_PAIRS \<le> length pairs' then pairs'
             else walk_rows rows index slot_of_row is pairs')"

definition banded_duplicate_pairs :: "(string \<times> 64 word) list \<Rightarrow> 32 word \<Rightarrow> DupPair list" where
  "banded_duplicate_pairs rows max_distance =
     (case index_rows 0 rows (banded_new max_distance) [] of
        (index, slot_of_row) \<Rightarrow>
          sort_key dup_distance (walk_rows rows index slot_of_row [0..<length rows] []))"

end
