(* ===== verification/Near_Dup.thy ===== *)
theory Near_Dup
  imports Simhash
begin

text \<open>
  The near-duplicate index decides as a linear scan does, for every distance a \<open>u32\<close> below its
  maximum can hold: the pigeonhole over the bands, the invariant that each bucket lists the slots
  with its band value, the merge that shows the visitor each neighbour once and in insertion
  order, the interface the crawler relies on, and the dataset store's pair list as the all-pairs
  scan with its cap. The fingerprint is the bitwise majority of its tokens.
\<close>

section \<open>The votes\<close>

lemma nth_vote: "i < 64 \<Longrightarrow> vote h bits ! i = (if bit h i then bits ! i + 1 else bits ! i - 1)"
  by (simp add: vote_def)

lemma votes_count:
  fixes bits :: "32 word list"
  assumes "i < 64"
  shows "foldl (\<lambda>bits h. vote h bits) bits tokens ! i
         = bits ! i + word_of_int (2 * int (length (filter (\<lambda>h. bit h i) tokens)) - int (length tokens))"
proof (induction tokens arbitrary: bits)
  case (Cons h tokens)
  then show ?case
    using assms by (simp add: nth_vote wi_hom_syms algebra_simps)
qed simp

lemma sint_votes:
  assumes "i < 64" "length tokens < 2 ^ 31"
  shows "sint (foldl (\<lambda>bits h. vote h bits) (replicate 64 (0 :: 32 word)) tokens ! i)
         = 2 * int (length (filter (\<lambda>h. bit h i) tokens)) - int (length tokens)"
proof -
  let ?c = "length (filter (\<lambda>h. bit h i) tokens)"
  have le: "?c \<le> length tokens" by simp
  have "sint (word_of_int (2 * int ?c - int (length tokens)) :: 32 word) = 2 * int ?c - int (length tokens)"
    unfolding sint_sbintrunc'
  proof (rule signed_take_bit_int_eq_self)
    show "- (2 ^ (LENGTH(32) - 1)) \<le> 2 * int ?c - int (length tokens)" using assms(2) by simp
    have "int ?c \<le> int (length tokens)" using le by (simp only: of_nat_le_iff)
    moreover have "int (length tokens) < 2 ^ (LENGTH(32) - 1)" using assms(2) by simp
    ultimately show "2 * int ?c - int (length tokens) < 2 ^ (LENGTH(32) - 1)" by linarith
  qed
  then show ?thesis using assms(1) by (simp add: votes_count)
qed

lemma bit_or_fold:
  "bit (foldl (\<lambda>out i. if P i then out OR push_bit i 1 else out) (w :: 64 word) is) n
   \<longleftrightarrow> bit w n \<or> (n < 64 \<and> n \<in> set is \<and> P n)"
proof (induction "is" arbitrary: w)
  case (Cons i "is")
  have "bit (w OR push_bit i 1) n \<longleftrightarrow> bit w n \<or> n < 64 \<and> n = i"
    by (auto simp: bit_or_iff bit_exp_iff)
  with Cons.IH show ?case by (cases "P i") auto
qed simp

lemma bit_simhash_tokens:
  assumes "length tokens < 2 ^ 31"
  shows "bit (simhash_tokens tokens) i
         \<longleftrightarrow> i < 64 \<and> length tokens < 2 * length (filter (\<lambda>h. bit h i) tokens)"
  using sint_votes [OF _ assms, of i] by (auto simp: simhash_tokens_def bit_or_fold)

section \<open>Bands\<close>

lemma band_mask_eq: "w \<le> 64 \<Longrightarrow> band_mask w = mask w"
proof -
  have "(mask 64 :: 64 word) = - 1" using mask_full [where 'a = 64] by simp
  then show "w \<le> 64 \<Longrightarrow> band_mask w = mask w"
    by (simp add: band_mask_def mask_eq_exp_minus_1)
qed

lemma hamming_card: "hamming a b = card {n. n < 64 \<and> bit a n \<noteq> bit b n}"
proof -
  have "hamming a b = card (set (filter (bit (a XOR b)) [0..<64]))"
    unfolding hamming_def count_ones_def
    by (rule distinct_card [symmetric]) simp
  also have "set (filter (bit (a XOR b)) [0..<64]) = {n. n < 64 \<and> bit a n \<noteq> bit b n}"
    by (auto simp: bit_xor_iff)
  finally show ?thesis .
qed

lemma hamming_commute: "hamming a b = hamming b a"
  by (simp add: hamming_def xor.commute)

lemma hamming_le_64: "hamming a b \<le> 64"
  unfolding hamming_def count_ones_def
  using length_filter_le [of "bit (a XOR b)" "[0..<64]"] by simp

lemma hamming_eq_0: "hamming a b = 0 \<longleftrightarrow> a = b"
proof
  assume "hamming a b = 0"
  then have "{n. n < 64 \<and> bit a n \<noteq> bit b n} = {}" by (simp add: hamming_card)
  then show "a = b" by (intro bit_eqI) auto
qed (simp add: hamming_card)

lemma hamming_triangle: "hamming a c \<le> hamming a b + hamming b c"
proof -
  let ?D = "\<lambda>x y. {n. n < 64 \<and> bit (x :: 64 word) n \<noteq> bit y n}"
  have "card (?D a c) \<le> card (?D a b \<union> ?D b c)" by (rule card_mono) auto
  also have "\<dots> \<le> card (?D a b) + card (?D b c)" by (rule card_Un_le)
  finally show ?thesis by (simp add: hamming_card)
qed

text \<open>Contiguous bands of the given widths.\<close>

primrec segs_of :: "nat \<Rightarrow> nat list \<Rightarrow> (nat \<times> 64 word) list" where
  "segs_of shift [] = []"
| "segs_of shift (w # ws) = (shift, band_mask w) # segs_of (shift + w) ws"

lemma length_segs_of [simp]: "length (segs_of shift ws) = length ws"
  by (induction ws arbitrary: shift) auto

lemma band_segs_contiguous:
  "\<exists>ws. band_segs bands base rem i shift = segs_of shift ws \<and> length ws = bands - i
        \<and> (\<forall>w\<in>set ws. w \<le> base + (if 0 < rem then 1 else 0))"
proof (induction bands base rem i shift rule: band_segs.induct)
  case (1 bands base rem i shift)
  show ?case
  proof (cases "i < bands")
    case True
    let ?w = "base + (if i < rem then 1 else 0)"
    from 1 [OF True refl] obtain ws where
      ws: "band_segs bands base rem (Suc i) (shift + ?w) = segs_of (shift + ?w) ws"
        "length ws = bands - Suc i" "\<forall>w\<in>set ws. w \<le> base + (if 0 < rem then 1 else 0)"
      by auto
    have "band_segs bands base rem i shift = segs_of shift (?w # ws)"
      using True ws(1) by (subst band_segs.simps) (simp add: Let_def)
    moreover have "length (?w # ws) = bands - i" using True ws(2) by simp
    moreover have "\<forall>w\<in>set (?w # ws). w \<le> base + (if 0 < rem then 1 else 0)" using ws(3) by auto
    ultimately show ?thesis by blast
  next
    case False
    then have "band_segs bands base rem i shift = segs_of shift []" by (simp add: band_segs.simps)
    moreover have "length ([] :: nat list) = bands - i" using False by simp
    ultimately show ?thesis by (metis empty_iff empty_set)
  qed
qed

lemma band_differs:
  assumes "w \<le> 64" "band_of a (shift, band_mask w) \<noteq> band_of b (shift, band_mask w)"
  shows "\<exists>n. shift \<le> n \<and> n < shift + w \<and> n < 64 \<and> bit a n \<noteq> bit b n"
proof -
  from assms obtain k where "k < 64"
    "bit (band_of a (shift, band_mask w)) k \<noteq> bit (band_of b (shift, band_mask w)) k"
    using bit_word_eqI [of "band_of a (shift, band_mask w)" "band_of b (shift, band_mask w)"] by auto
  then have "k < w" "bit a (shift + k) \<noteq> bit b (shift + k)"
    using assms(1) by (auto simp: band_of_def band_mask_eq bit_and_iff bit_drop_bit_eq bit_mask_iff)
  moreover from this(2) have "shift + k < 64"
    using bit_imp_le_length [of a] bit_imp_le_length [of b] by fastforce
  ultimately show ?thesis by (intro exI [of _ "shift + k"]) auto
qed

text \<open>The pigeonhole: each band that differs holds a differing bit of its own.\<close>

lemma differing_bands_le:
  assumes "\<forall>w\<in>set ws. w \<le> 64"
  shows "length (filter (\<lambda>seg. band_of a seg \<noteq> band_of b seg) (segs_of shift ws))
         \<le> card {n. shift \<le> n \<and> n < 64 \<and> bit a n \<noteq> bit b n}"
  using assms
proof (induction ws arbitrary: shift)
  case (Cons w ws)
  let ?D = "\<lambda>from. {n. from \<le> n \<and> n < 64 \<and> bit a n \<noteq> bit b n}"
  from Cons have IH: "length (filter (\<lambda>seg. band_of a seg \<noteq> band_of b seg) (segs_of (shift + w) ws))
      \<le> card (?D (shift + w))" by simp
  have sub: "?D (shift + w) \<subseteq> ?D shift" by auto
  show ?case
  proof (cases "band_of a (shift, band_mask w) = band_of b (shift, band_mask w)")
    case True
    with IH card_mono [OF _ sub] show ?thesis by simp
  next
    case False
    from Cons.prems have "w \<le> 64" by simp
    from band_differs [OF this False]
    obtain n where n: "shift \<le> n" "n < shift + w" "n < 64" "bit a n \<noteq> bit b n" by blast
    then have "insert n (?D (shift + w)) \<subseteq> ?D shift" "n \<notin> ?D (shift + w)" by auto
    then have "Suc (card (?D (shift + w))) \<le> card (?D shift)"
      by (metis (no_types, lifting) card_insert_disjoint card_mono finite_nat_set_iff_bounded
          finite_subset mem_Collect_eq)
    with False IH show ?thesis by simp
  qed
qed simp

lemma shared_band:
  assumes "\<forall>w\<in>set ws. w \<le> 64" "hamming a b < length ws"
  shows "\<exists>seg\<in>set (segs_of 0 ws). band_of a seg = band_of b seg"
proof (rule ccontr)
  assume "\<not> ?thesis"
  then have "filter (\<lambda>seg. band_of a seg \<noteq> band_of b seg) (segs_of 0 ws) = segs_of 0 ws"
    by (simp add: filter_id_conv)
  with differing_bands_le [OF assms(1), of a b 0] have "length ws \<le> hamming a b"
    by (simp add: hamming_card)
  with assms(2) show False by simp
qed

lemma band_widths_cases:
  assumes "distance \<noteq> - 1"
  obtains "band_widths distance = []"
  | ws where "band_widths distance = segs_of 0 ws" "length ws = unat distance + 1"
      "\<forall>w\<in>set ws. w \<le> 64"
proof (cases "64 div band_count distance < MIN_BAND_BITS")
  case True
  then have "band_widths distance = []" by (simp add: band_widths_def)
  then show ?thesis by (rule that(1))
next
  case False
  let ?n = "band_count distance"
  have pos: "1 \<le> ?n" by (simp add: band_count_def)
  have "?n < 64"
  proof (rule ccontr)
    assume "\<not> ?n < 64"
    then have "64 div ?n \<le> 1" by (simp add: div_le_mono band_count_def)
    with False show False by (simp add: MIN_BAND_BITS_def)
  qed
  moreover have "unat (distance + 1) = unat distance + 1"
    using assms unatSuc [of distance] by (simp add: add.commute eq_neg_iff_add_eq_0)
  ultimately have n: "?n = unat distance + 1" by (auto simp: band_count_def)
  from band_segs_contiguous [of ?n "64 div ?n" "64 mod ?n" 0 0] obtain ws where
    ws: "band_segs ?n (64 div ?n) (64 mod ?n) 0 0 = segs_of 0 ws" "length ws = ?n"
      "\<forall>w\<in>set ws. w \<le> 64 div ?n + (if 0 < 64 mod ?n then 1 else 0)" by auto
  have "64 div ?n + (if 0 < 64 mod ?n then 1 else 0) \<le> 64"
  proof (cases "?n = 1")
    case False
    then have "2 \<le> ?n" using pos by simp
    then have "64 div ?n \<le> 64 div 2" by (rule div_le_mono2 [rotated]) simp
    then show ?thesis by simp
  qed simp
  with ws(3) have "\<forall>w\<in>set ws. w \<le> 64" by fastforce
  moreover have "band_widths distance = segs_of 0 ws"
    using False ws(1) by (simp add: band_widths_def Let_def)
  ultimately show ?thesis using ws(2) n that(2) by simp
qed


section \<open>The index agrees with its entries\<close>

text \<open>
  Every bucket lists, in ascending order, exactly the slots whose entry has that band value.
\<close>

definition bucket_list :: "(64 word \<rightharpoonup> nat list) \<Rightarrow> 64 word \<Rightarrow> nat list" where
  "bucket_list bucket band = (case bucket band of None \<Rightarrow> [] | Some slots \<Rightarrow> slots)"

definition index_ok :: "'a BandedIndex \<Rightarrow> bool" where
  "index_ok ix \<longleftrightarrow>
     bi_segs ix = band_widths (bi_distance ix)
     \<and> length (bi_buckets ix) = length (bi_segs ix)
     \<and> (\<forall>i < length (bi_segs ix). \<forall>band.
          bucket_list (bi_buckets ix ! i) band
          = filter (\<lambda>s. band_of (fst (bi_entries ix ! s)) (bi_segs ix ! i) = band)
              [0..<length (bi_entries ix)])"

lemma bucket_list_push:
  "bucket_list (bucket_push bucket b slot) band
   = bucket_list bucket band @ (if band = b then [slot] else [])"
  by (simp add: bucket_list_def bucket_push_def)

lemma filter_nth_append:
  "filter (\<lambda>s. P (f ((xs @ [x]) ! s))) [0..<length (xs @ [x])]
   = filter (\<lambda>s. P (f (xs ! s))) [0..<length xs] @ (if P (f x) then [length xs] else [])"
  by (auto simp: nth_append intro!: filter_cong)

lemma index_ok_new: "index_ok (banded_new distance)"
  by (simp add: index_ok_def banded_new_def Let_def bucket_list_def)

lemma index_ok_insert:
  assumes "index_ok ix"
  shows "index_ok (banded_insert hash payload ix)"
proof -
  let ?n = "length (bi_entries ix)"
  have len: "length (bi_buckets ix) = length (bi_segs ix)" using assms by (simp add: index_ok_def)
  have "bucket_list (bi_buckets (banded_insert hash payload ix) ! i) band
        = filter (\<lambda>s. band_of (fst ((bi_entries ix @ [(hash, payload)]) ! s)) (bi_segs ix ! i) = band)
            [0..<length (bi_entries ix @ [(hash, payload)])]"
    if i: "i < length (bi_segs ix)" for i band
  proof -
    have "bucket_list (bi_buckets (banded_insert hash payload ix) ! i) band
          = bucket_list (bi_buckets ix ! i) band
            @ (if band = band_of hash (bi_segs ix ! i) then [?n] else [])"
      using i len by (simp add: banded_insert_def bucket_list_push)
    also have "bucket_list (bi_buckets ix ! i) band
        = filter (\<lambda>s. band_of (fst (bi_entries ix ! s)) (bi_segs ix ! i) = band) [0..<?n]"
      using assms i by (simp add: index_ok_def)
    finally show ?thesis
      unfolding filter_nth_append [of "\<lambda>h. band_of h (bi_segs ix ! i) = band" fst] by auto
  qed
  then show ?thesis using assms len by (simp add: index_ok_def banded_insert_def)
qed

lemma query_buckets_nth:
  assumes "index_ok ix" "i < length (bi_segs ix)"
  shows "query_buckets ix hash ! i
         = filter (\<lambda>s. band_of (fst (bi_entries ix ! s)) (bi_segs ix ! i) = band_of hash (bi_segs ix ! i))
             [0..<length (bi_entries ix)]"
  using assms unfolding index_ok_def query_buckets_def
  by (simp add: bucket_list_def [symmetric])

lemma length_query_buckets:
  "index_ok ix \<Longrightarrow> length (query_buckets ix hash) = length (bi_segs ix)"
  by (simp add: index_ok_def query_buckets_def)

lemma query_bucketE:
  assumes "index_ok ix" "slots \<in> set (query_buckets ix hash)"
  obtains seg where "seg \<in> set (bi_segs ix)"
    "slots = filter (\<lambda>s. band_of (fst (bi_entries ix ! s)) seg = band_of hash seg)
               [0..<length (bi_entries ix)]"
proof -
  from assms(2) obtain i where "i < length (query_buckets ix hash)" "slots = query_buckets ix hash ! i"
    by (auto simp: in_set_conv_nth)
  then have "i < length (bi_segs ix)" using length_query_buckets [OF assms(1)] by simp
  with query_buckets_nth [OF assms(1) this] \<open>slots = query_buckets ix hash ! i\<close> that show ?thesis
    by (metis nth_mem)
qed

lemma query_bucketI:
  assumes "index_ok ix" "seg \<in> set (bi_segs ix)"
  shows "filter (\<lambda>s. band_of (fst (bi_entries ix ! s)) seg = band_of hash seg)
           [0..<length (bi_entries ix)] \<in> set (query_buckets ix hash)"
proof -
  from assms(2) obtain i where "i < length (bi_segs ix)" "seg = bi_segs ix ! i"
    by (auto simp: in_set_conv_nth)
  with query_buckets_nth [OF assms(1) this(1)] length_query_buckets [OF assms(1)] show ?thesis
    by (metis nth_mem)
qed

lemma bucket_slots_bounded:
  "index_ok ix \<Longrightarrow> slots \<in> set (query_buckets ix hash) \<Longrightarrow> s \<in> set slots \<Longrightarrow> s < length (bi_entries ix)"
  by (erule query_bucketE) auto

lemma bucket_slots_sorted:
  "index_ok ix \<Longrightarrow> slots \<in> set (query_buckets ix hash) \<Longrightarrow> sorted_wrt (<) slots"
  by (erule query_bucketE) (auto intro: sorted_wrt_filter)

text \<open>No neighbour is missing from the buckets of a query.\<close>

lemma near_slot_in_bucket:
  assumes "index_ok ix" "is_banded ix" "bi_distance ix \<noteq> - 1"
    and "s < length (bi_entries ix)" "near ix (fst (bi_entries ix ! s)) hash"
  shows "\<exists>slots\<in>set (query_buckets ix hash). s \<in> set slots"
  using assms(3)
proof (cases rule: band_widths_cases)
  case 1
  with assms(1,2) show ?thesis by (simp add: index_ok_def is_banded_def)
next
  case (2 ws)
  have segs: "bi_segs ix = segs_of 0 ws" using assms(1) 2(1) by (simp add: index_ok_def)
  have "hamming (fst (bi_entries ix ! s)) hash < length ws"
    using assms(5) 2(2) by (simp add: near_def)
  from shared_band [OF 2(3) this] obtain seg where
    seg: "seg \<in> set (bi_segs ix)" "band_of (fst (bi_entries ix ! s)) seg = band_of hash seg"
    unfolding segs by blast
  show ?thesis
    by (rule bexI [OF _ query_bucketI [OF assms(1) seg(1), of hash]]) (simp add: assms(4) seg(2))
qed

lemma near_slots_iff:
  assumes "index_ok ix" "is_banded ix" "bi_distance ix \<noteq> - 1"
  shows "(\<exists>slots\<in>set (query_buckets ix hash). s \<in> set slots) \<and> near ix (fst (bi_entries ix ! s)) hash
         \<longleftrightarrow> s < length (bi_entries ix) \<and> near ix (fst (bi_entries ix ! s)) hash"
  using near_slot_in_bucket [OF assms] bucket_slots_bounded [OF assms(1)] by blast

lemma is_near_dup_scan:
  assumes "index_ok ix" "bi_distance ix \<noteq> - 1"
  shows "is_near_dup ix hash \<longleftrightarrow> (\<exists>(h, payload)\<in>set (bi_entries ix). hamming h hash \<le> unat (bi_distance ix))"
proof (cases "is_banded ix")
  case False
  then show ?thesis by (auto simp: is_near_dup_def near_def list_ex_iff)
next
  case True
  have "is_near_dup ix hash
        \<longleftrightarrow> (\<exists>slots\<in>set (query_buckets ix hash). \<exists>s\<in>set slots. near ix (fst (bi_entries ix ! s)) hash)"
    using True by (simp add: is_near_dup_def list_ex_iff)
  also have "\<dots> \<longleftrightarrow> (\<exists>s < length (bi_entries ix). near ix (fst (bi_entries ix ! s)) hash)"
  proof (intro iffI; elim bexE exE conjE)
    fix slots s
    assume "slots \<in> set (query_buckets ix hash)" "s \<in> set slots" "near ix (fst (bi_entries ix ! s)) hash"
    then show "\<exists>s < length (bi_entries ix). near ix (fst (bi_entries ix ! s)) hash"
      using bucket_slots_bounded [OF assms(1)] by blast
  next
    fix s
    assume "s < length (bi_entries ix)" "near ix (fst (bi_entries ix ! s)) hash"
    then show "\<exists>slots\<in>set (query_buckets ix hash). \<exists>s\<in>set slots. near ix (fst (bi_entries ix ! s)) hash"
      using near_slot_in_bucket [OF assms(1) True assms(2)] by blast
  qed
  also have "\<dots> \<longleftrightarrow> (\<exists>(h, payload)\<in>set (bi_entries ix). hamming h hash \<le> unat (bi_distance ix))"
    using list_ex_length [of "\<lambda>e. near ix (fst e) hash" "bi_entries ix"]
    by (simp add: near_def list_ex_iff case_prod_beta)
  finally show ?thesis .
qed

section \<open>The merge visits the neighbours in order\<close>

lemma cursors_min_le:
  assumes "\<forall>c\<in>set cursors. sorted_wrt (<) c" "c \<in> set cursors" "x \<in> set c"
  shows "cursors_min cursors \<le> x"
proof -
  let ?f = "\<lambda>m cursor. case cursor of [] \<Rightarrow> m | slot # _ \<Rightarrow> min m (slot::nat)"
  have "foldl ?f m0 cursors \<le> x" for m0
    using assms
  proof (induction cursors arbitrary: m0)
    case (Cons d cursors)
    show ?case
    proof (cases "c = d")
      case True
      have "foldl ?f (?f m0 d) cursors \<le> ?f m0 d" by (rule foldl_min_le)
      also have "\<dots> \<le> x" using True Cons.prems by (cases d) (auto simp: min_def)
      finally show ?thesis by simp
    next
      case False
      with Cons show ?thesis by auto
    qed
  qed simp
  then show ?thesis by (simp add: cursors_min_def)
qed

lemma cursors_min_in:
  assumes "cursors_min cursors \<noteq> usize_MAX"
  shows "cursors_min cursors \<in> \<Union>(set ` set cursors)"
  using foldl_min_attained [of usize_MAX cursors "cursors_min cursors"] assms
  by (fastforce simp: cursors_min_def)

lemma dropWhile_strict:
  fixes c :: "nat list"
  assumes "sorted_wrt (<) c" "\<forall>x\<in>set c. m \<le> x"
  shows "set (dropWhile (\<lambda>x. x = m) c) = set c - {m}" "sorted_wrt (<) (dropWhile (\<lambda>x. x = m) c)"
proof -
  show "set (dropWhile (\<lambda>x. x = m) c) = set c - {m}"
  proof (cases c)
    case (Cons y ys)
    then have "\<forall>x\<in>set ys. x \<noteq> m" using assms by (auto dest!: bspec)
    then have "dropWhile (\<lambda>x. x = m) ys = ys" by (cases ys) auto
    with Cons \<open>\<forall>x\<in>set ys. x \<noteq> m\<close> show ?thesis by auto
  qed simp
  show "sorted_wrt (<) (dropWhile (\<lambda>x. x = m) c)"
    using assms(1) by (rule sorted_wrt_dropWhile)
qed

lemma merge_visit_sorted:
  assumes "\<forall>c\<in>set cursors. sorted_wrt (<) c" "\<forall>c\<in>set cursors. \<forall>x\<in>set c. x < usize_MAX"
  shows "merge_visit ix hash visit cursors s
         = visit_slots ix hash visit (sorted_list_of_set (\<Union>(set ` set cursors))) s"
  using assms
proof (induction ix hash visit cursors s rule: merge_visit.induct)
  case (1 ix hash visit cursors s)
  let ?m = "cursors_min cursors" and ?U = "\<Union>(set ` set cursors)"
  let ?cs = "map (dropWhile (\<lambda>x. x = ?m)) cursors"
  have le: "?m \<le> x" if "c \<in> set cursors" "x \<in> set c" for c x
    using cursors_min_le [OF "1.prems"(1) that] .
  show ?case
  proof (cases "?m = usize_MAX")
    case True
    have empty: "?U = {}"
    proof (rule ccontr)
      assume "?U \<noteq> {}"
      then obtain c x where "c \<in> set cursors" "x \<in> set c" by blast
      with le [OF this] "1.prems"(2) True show False by (metis leD)
    qed
    show ?thesis unfolding empty by (subst merge_visit.simps) (simp add: True)
  next
    case False
    have fin: "finite ?U" by simp
    have mem: "?m \<in> ?U" by (rule cursors_min_in [OF False])
    have min: "Min ?U = ?m" using le mem by (intro Min_eqI) auto
    have step: "sorted_list_of_set ?U = ?m # sorted_list_of_set (?U - {?m})"
    proof -
      have "?U \<noteq> {}" using mem by blast
      from sorted_list_of_set_nonempty [OF fin this] show ?thesis unfolding min .
    qed
    have strict: "sorted_wrt (<) c" "\<forall>x\<in>set c. ?m \<le> x" if "c \<in> set cursors" for c
      using that "1.prems"(1) le by auto
    have U: "\<Union>(set ` set ?cs) = ?U - {?m}"
      using dropWhile_strict(1) [OF strict] by auto
    have s': "\<forall>c\<in>set ?cs. sorted_wrt (<) c" using dropWhile_strict(2) [OF strict] by auto
    have b': "\<forall>c\<in>set ?cs. \<forall>x\<in>set c. x < usize_MAX"
      using "1.prems"(2) set_dropWhileD by fastforce
    show ?thesis
    proof (cases "near ix (fst (bi_entries ix ! ?m)) hash")
      case True
      obtain go s1 where v: "visit ?m (snd (bi_entries ix ! ?m)) s = (go, s1)"
        by (rule prod.exhaust)
      have IH: "go \<Longrightarrow> merge_visit ix hash visit ?cs s1
            = visit_slots ix hash visit (sorted_list_of_set (?U - {?m})) s1"
        using "1.IH"(1) [OF refl False refl True v [symmetric] _ s' b'] unfolding U .
      show ?thesis using True False v IH
        by (subst merge_visit.simps) (simp add: step)
    next
      case far: False
      have IH: "merge_visit ix hash visit ?cs s
            = visit_slots ix hash visit (sorted_list_of_set (?U - {?m})) s"
        using "1.IH"(2) [OF refl False refl far s' b'] unfolding U .
      show ?thesis using far False IH
        by (subst merge_visit.simps) (simp add: step)
    qed
  qed
qed

lemma visit_slots_filter:
  "visit_slots ix hash visit slots s
   = visit_slots ix hash visit (filter (\<lambda>i. near ix (fst (bi_entries ix ! i)) hash) slots) s"
  by (induction slots arbitrary: s) (auto split: prod.splits)

lemma strict_sorted_filter_upt:
  assumes "sorted_wrt (<) xs" "set xs = {i. a \<le> i \<and> i < (n::nat) \<and> P i}"
  shows "xs = filter P [a..<n]"
proof (rule strict_sorted_equal [OF _ assms(1)])
  show "sorted_wrt (<) (filter P [a..<n])" by (rule sorted_wrt_filter) simp
  show "set xs = set (filter P [a..<n])" unfolding assms(2) by auto
qed

lemma dropWhile_le_strict:
  fixes c :: "nat list"
  assumes "sorted_wrt (<) c"
  shows "set (dropWhile (\<lambda>x. x \<le> a) c) = {x \<in> set c. a < x}"
  using assms by (induction c) auto

text \<open>
  The walk over the buckets is the walk over all later slots: same visits, same order, same stop.
\<close>

lemma for_each_neighbor_after_scan:
  assumes "index_ok ix" "bi_distance ix \<noteq> - 1" "length (bi_entries ix) \<le> usize_MAX"
    and "after < usize_MAX"
  shows "for_each_neighbor_after ix hash after visit s
         = visit_slots ix hash visit [Suc after..<length (bi_entries ix)] s"
proof (cases "is_banded ix")
  case False
  then show ?thesis using assms(4) by (simp add: for_each_neighbor_after_def usize_MAX_def)
next
  case True
  let ?q = "query_buckets ix hash" and ?n = "length (bi_entries ix)"
  let ?cs = "bucket_cursors after ?q" and ?near = "\<lambda>i. near ix (fst (bi_entries ix ! i)) hash"
  have sorted: "sorted_wrt (<) c" if "c \<in> set ?cs" for c
    using that bucket_slots_sorted [OF assms(1)]
    by (auto simp: bucket_cursors_def intro: sorted_wrt_dropWhile)
  have bound: "x < usize_MAX" if "c \<in> set ?cs" "x \<in> set c" for c x
    using that bucket_slots_bounded [OF assms(1)] assms(3)
    by (fastforce simp: bucket_cursors_def dest!: set_dropWhileD)
  have U: "\<Union>(set ` set ?cs) = {x. \<exists>c\<in>set ?q. x \<in> set c \<and> after < x}"
  proof -
    have "\<Union>(set ` set ?cs) = (\<Union>c\<in>set ?q. set (dropWhile (\<lambda>slot. slot \<le> after) c))"
      by (auto simp: bucket_cursors_def)
    also have "\<dots> = (\<Union>c\<in>set ?q. {x \<in> set c. after < x})"
      using dropWhile_le_strict [OF bucket_slots_sorted [OF assms(1)]] by simp
    finally show ?thesis by blast
  qed
  have finU: "finite (\<Union>(set ` set ?cs))" by simp
  have "merge_visit ix hash visit ?cs s
        = visit_slots ix hash visit (sorted_list_of_set (\<Union>(set ` set ?cs))) s"
    using sorted bound by (intro merge_visit_sorted) auto
  also have "\<dots> = visit_slots ix hash visit (filter ?near (sorted_list_of_set (\<Union>(set ` set ?cs)))) s"
    by (rule visit_slots_filter)
  also have "filter ?near (sorted_list_of_set (\<Union>(set ` set ?cs))) = filter ?near [Suc after..<?n]"
  proof (rule strict_sorted_filter_upt)
    show "sorted_wrt (<) (filter ?near (sorted_list_of_set (\<Union>(set ` set ?cs))))"
      by (rule sorted_wrt_filter) simp
    show "set (filter ?near (sorted_list_of_set (\<Union>(set ` set ?cs))))
          = {i. Suc after \<le> i \<and> i < ?n \<and> ?near i}"
    proof (rule set_eqI)
      fix i
      have "i \<in> set (filter ?near (sorted_list_of_set (\<Union>(set ` set ?cs))))
            \<longleftrightarrow> after < i \<and> ((\<exists>c\<in>set ?q. i \<in> set c) \<and> ?near i)"
        by (simp add: U [simplified] set_sorted_list_of_set [OF finU] conj_ac)
      then show "i \<in> set (filter ?near (sorted_list_of_set (\<Union>(set ` set ?cs))))
            \<longleftrightarrow> i \<in> {i. Suc after \<le> i \<and> i < ?n \<and> ?near i}"
        unfolding near_slots_iff [OF assms(1) True assms(2)] by (simp add: Suc_le_eq)
    qed
  qed
  also have "visit_slots ix hash visit (filter ?near [Suc after..<?n]) s
             = visit_slots ix hash visit [Suc after..<?n] s"
    by (rule visit_slots_filter [symmetric])
  finally show ?thesis using True by (simp add: for_each_neighbor_after_def)
qed

lemma sorted_wrt_remdups_adj:
  "sorted xs \<Longrightarrow> sorted_wrt (<) (remdups_adj (xs :: nat list))"
  by (induction xs rule: remdups_adj.induct) (auto simp: less_le)

lemma neighbors_scan:
  assumes "index_ok ix" "bi_distance ix \<noteq> - 1"
  shows "neighbors ix hash
         = map (\<lambda>s. (s, snd (bi_entries ix ! s)))
             (filter (\<lambda>s. near ix (fst (bi_entries ix ! s)) hash) [0..<length (bi_entries ix)])"
proof (cases "is_banded ix")
  case False
  have e: "enumerate 0 (bi_entries ix) = map (\<lambda>s. (s, bi_entries ix ! s)) [0..<length (bi_entries ix)]"
    by (rule nth_equalityI) (auto simp: nth_enumerate_eq)
  show ?thesis using False
    by (simp add: neighbors_def e filter_map comp_def case_prod_unfold)
next
  case True
  let ?near = "\<lambda>s. near ix (fst (bi_entries ix ! s)) hash"
  have "filter ?near (remdups_adj (sort (concat (query_buckets ix hash))))
        = filter ?near [0..<length (bi_entries ix)]"
  proof (rule strict_sorted_filter_upt)
    show "sorted_wrt (<) (filter ?near (remdups_adj (sort (concat (query_buckets ix hash)))))"
      by (intro sorted_wrt_filter sorted_wrt_remdups_adj) simp
    show "set (filter ?near (remdups_adj (sort (concat (query_buckets ix hash)))))
          = {i. 0 \<le> i \<and> i < length (bi_entries ix) \<and> ?near i}"
      using near_slots_iff [OF assms(1) True assms(2), of hash] by (simp add: set_eq_iff conj_ac)
  qed
  then show ?thesis using True by (simp add: neighbors_def)
qed

section \<open>Duplicate pairs\<close>

text \<open>The all-pairs scan, in the order of the earlier and then the later row.\<close>

definition mk_pair :: "string \<times> 64 word \<Rightarrow> string \<times> 64 word \<Rightarrow> DupPair" where
  "mk_pair a b = \<lparr>dup_a = fst a, dup_b = fst b, dup_distance = hamming (snd a) (snd b)\<rparr>"

definition row_pairs :: "(string \<times> 64 word) list \<Rightarrow> 32 word \<Rightarrow> nat \<Rightarrow> DupPair list" where
  "row_pairs rows d i =
     (if snd (rows ! i) = 0 then []
      else map (\<lambda>j. mk_pair (rows ! i) (rows ! j))
             (filter (\<lambda>j. hamming (snd (rows ! j)) (snd (rows ! i)) \<le> unat d)
               (filter (\<lambda>j. snd (rows ! j) \<noteq> 0) [Suc i..<length rows])))"

definition all_pairs :: "(string \<times> 64 word) list \<Rightarrow> 32 word \<Rightarrow> DupPair list" where
  "all_pairs rows d = concat (map (row_pairs rows d) [0..<length rows])"

definition indexed :: "(string \<times> 64 word) list \<Rightarrow> nat list" where
  "indexed rows = filter (\<lambda>k. snd (rows ! k) \<noteq> 0) [0..<length rows]"

definition index_entries :: "(string \<times> 64 word) list \<Rightarrow> (64 word \<times> nat) list" where
  "index_entries rows = map (\<lambda>k. (snd (rows ! k), k)) (indexed rows)"

definition index_slots :: "(string \<times> 64 word) list \<Rightarrow> nat option list" where
  "index_slots rows =
     map (\<lambda>k. if snd (rows ! k) = 0 then None
              else Some (length (filter (\<lambda>j. snd (rows ! j) \<noteq> 0) [0..<k]))) [0..<length rows]"

lemma indexed_snoc:
  "indexed (rows @ [r]) = indexed rows @ (if snd r = 0 then [] else [length rows])"
  by (auto simp: indexed_def nth_append intro!: filter_cong)

lemma index_entries_snoc:
  "index_entries (rows @ [r]) = index_entries rows @ (if snd r = 0 then [] else [(snd r, length rows)])"
proof -
  have "map (\<lambda>k. (snd ((rows @ [r]) ! k), k)) (indexed rows) = map (\<lambda>k. (snd (rows ! k), k)) (indexed rows)"
    by (auto simp: indexed_def nth_append)
  then show ?thesis by (simp add: index_entries_def indexed_snoc)
qed

lemma index_slots_snoc:
  "index_slots (rows @ [r])
   = index_slots rows @ [if snd r = 0 then None else Some (length (index_entries rows))]"
proof -
  have eq: "filter (\<lambda>j. snd ((rows @ [r]) ! j) \<noteq> 0) [0..<k] = filter (\<lambda>j. snd (rows ! j) \<noteq> 0) [0..<k]"
    if "k \<le> length rows" for k
    using that by (intro filter_cong) (auto simp: nth_append)
  have "map (\<lambda>k. if snd ((rows @ [r]) ! k) = 0 then None
            else Some (length (filter (\<lambda>j. snd ((rows @ [r]) ! j) \<noteq> 0) [0..<k]))) [0..<length rows]
        = index_slots rows"
    unfolding index_slots_def by (intro map_cong refl) (simp add: eq, simp add: nth_append)
  moreover have "length (index_entries rows) = length (filter (\<lambda>j. snd ((rows @ [r]) ! j) \<noteq> 0) [0..<length rows])"
    by (simp only: eq [OF order_refl] index_entries_def indexed_def length_map)
  ultimately show ?thesis
    by (simp only: index_slots_def length_append list.size upt_Suc_append map_append list.map
        nth_append_length le0 One_nat_def add_Suc_right add_0_right)
qed

lemma index_rows_eq:
  assumes "index_ok ix" "bi_entries ix = index_entries pre"
  shows "\<exists>ix'. index_rows (length pre) rows ix (index_slots pre) = (ix', index_slots (pre @ rows))
           \<and> index_ok ix' \<and> bi_distance ix' = bi_distance ix
           \<and> bi_entries ix' = index_entries (pre @ rows)"
  using assms
proof (induction rows arbitrary: ix pre)
  case (Cons r rows)
  obtain key sim where r: "r = (key, sim)" by (rule prod.exhaust)
  show ?case
  proof (cases "sim = 0")
    case True
    then have "bi_entries ix = index_entries (pre @ [r])"
      using Cons.prems(2) by (simp add: index_entries_snoc r)
    from Cons.IH [OF Cons.prems(1) this] True show ?thesis
      by (simp add: r index_slots_snoc)
  next
    case False
    have ok: "index_ok (banded_insert sim (length pre) ix)" by (rule index_ok_insert [OF Cons.prems(1)])
    have "bi_entries (banded_insert sim (length pre) ix) = index_entries (pre @ [r])"
      using Cons.prems(2) False by (simp add: index_entries_snoc r banded_insert_def)
    from Cons.IH [OF ok this] False Cons.prems(2) show ?thesis
      by (simp add: r index_slots_snoc) (simp add: banded_insert_def)
  qed
qed simp

lemma visit_push_pairs:
  assumes "length pairs < MAX_DUP_PAIRS"
  shows "visit_slots ix hash (push_pair rows row) slots pairs
         = take MAX_DUP_PAIRS (pairs @ map (\<lambda>s. mk_pair row (rows ! snd (bi_entries ix ! s)))
             (filter (\<lambda>s. near ix (fst (bi_entries ix ! s)) hash) slots))"
  using assms
proof (induction slots arbitrary: pairs)
  case (Cons slot slots)
  show ?case
  proof (cases "near ix (fst (bi_entries ix ! slot)) hash")
    case True
    let ?p = "pairs @ [mk_pair row (rows ! snd (bi_entries ix ! slot))]"
    have v: "push_pair rows row slot (snd (bi_entries ix ! slot)) pairs
             = (length ?p < MAX_DUP_PAIRS, ?p)"
      by (simp add: push_pair_def mk_pair_def Let_def)
    show ?thesis
    proof (cases "length ?p < MAX_DUP_PAIRS")
      case go: True
      from Cons.IH [OF go] go True show ?thesis by (simp add: v)
    next
      case False
      with Cons.prems have "MAX_DUP_PAIRS - length pairs = Suc 0" by simp
      with True False show ?thesis by (simp add: v)
    qed
  next
    case False
    with Cons show ?thesis by simp
  qed
qed simp

lemma map_filter_nth_drop:
  "map (\<lambda>s. g (xs ! s)) (filter (\<lambda>s. P (xs ! s)) [a..<length xs]) = map g (filter P (drop a xs))"
proof -
  have "drop a xs = map ((!) xs) [a..<length xs]"
    by (metis add_0 drop_map drop_upt map_nth)
  then show ?thesis by (simp add: filter_map comp_def)
qed

lemma drop_indexed:
  assumes "i < length rows" "snd (rows ! i) \<noteq> 0"
  shows "drop (Suc (length (filter (\<lambda>j. snd (rows ! j) \<noteq> 0) [0..<i]))) (indexed rows)
         = filter (\<lambda>j. snd (rows ! j) \<noteq> 0) [Suc i..<length rows]"
proof -
  have "[0..<length rows] = [0..<i] @ i # [Suc i..<length rows]"
    using assms(1) by (metis add_0 le_add1 less_imp_le_nat upt_add_eq_append upt_conv_Cons le_add_diff_inverse)
  then show ?thesis using assms(2) by (simp add: indexed_def)
qed

lemma row_walk:
  assumes "index_ok ix" "bi_distance ix = d" "d \<noteq> - 1" "bi_entries ix = index_entries rows"
    and "length rows \<le> usize_MAX" "i < length rows" "length pairs < MAX_DUP_PAIRS"
    and "snd (rows ! i) \<noteq> 0"
  shows "for_each_neighbor_after ix (snd (rows ! i))
           (length (filter (\<lambda>j. snd (rows ! j) \<noteq> 0) [0..<i])) (push_pair rows (rows ! i)) pairs
         = take MAX_DUP_PAIRS (pairs @ row_pairs rows d i)"
proof -
  let ?slot = "length (filter (\<lambda>j. snd (rows ! j) \<noteq> 0) [0..<i])"
  let ?h = "snd (rows ! i)"
  have len: "length (bi_entries ix) \<le> usize_MAX"
    using assms(5) length_filter_le [of "\<lambda>k. snd (rows ! k) \<noteq> 0" "[0..<length rows]"]
    unfolding assms(4) by (simp add: index_entries_def indexed_def)
  have slot: "?slot < usize_MAX"
    using assms(5,6) length_filter_le [of "\<lambda>j. snd (rows ! j) \<noteq> 0" "[0..<i]"] by simp
  have "for_each_neighbor_after ix ?h ?slot (push_pair rows (rows ! i)) pairs
        = visit_slots ix ?h (push_pair rows (rows ! i)) [Suc ?slot..<length (bi_entries ix)] pairs"
    using assms(1-3) len slot by (intro for_each_neighbor_after_scan) auto
  also have "\<dots> = take MAX_DUP_PAIRS (pairs @ map (\<lambda>s. mk_pair (rows ! i) (rows ! snd (bi_entries ix ! s)))
      (filter (\<lambda>s. near ix (fst (bi_entries ix ! s)) ?h) [Suc ?slot..<length (bi_entries ix)]))"
    by (rule visit_push_pairs [OF assms(7)])
  also have "map (\<lambda>s. mk_pair (rows ! i) (rows ! snd (bi_entries ix ! s)))
      (filter (\<lambda>s. near ix (fst (bi_entries ix ! s)) ?h) [Suc ?slot..<length (bi_entries ix)])
      = map (\<lambda>e. mk_pair (rows ! i) (rows ! snd e))
          (filter (\<lambda>e. near ix (fst e) ?h) (drop (Suc ?slot) (bi_entries ix)))"
    by (rule map_filter_nth_drop)
  also have "\<dots> = row_pairs rows d i"
    using assms(2,8) drop_indexed [OF assms(6,8)]
    unfolding assms(4) index_entries_def
    by (simp add: drop_map filter_map comp_def row_pairs_def near_def)
  finally show ?thesis .
qed

lemma walk_rows_eq:
  assumes "index_ok ix" "bi_distance ix = d" "d \<noteq> - 1" "bi_entries ix = index_entries rows"
    and "length rows \<le> usize_MAX" "\<forall>i\<in>set is. i < length rows" "length pairs < MAX_DUP_PAIRS"
  shows "walk_rows rows ix (index_slots rows) is pairs
         = take MAX_DUP_PAIRS (pairs @ concat (map (row_pairs rows d) is))"
  using assms(6,7)
proof (induction "is" arbitrary: pairs)
  case (Cons i "is")
  then have i: "i < length rows" by simp
  show ?case
  proof (cases "snd (rows ! i) = 0")
    case True
    with Cons i show ?thesis by (simp add: index_slots_def row_pairs_def)
  next
    case False
    let ?p = "pairs @ row_pairs rows d i"
    have nth: "index_slots rows ! i = Some (length (filter (\<lambda>j. snd (rows ! j) \<noteq> 0) [0..<i]))"
      using i False by (simp add: index_slots_def)
    have w: "walk_rows rows ix (index_slots rows) (i # is) pairs
          = (if MAX_DUP_PAIRS \<le> length (take MAX_DUP_PAIRS ?p) then take MAX_DUP_PAIRS ?p
             else walk_rows rows ix (index_slots rows) is (take MAX_DUP_PAIRS ?p))"
      unfolding walk_rows.simps nth option.case Let_def row_walk [OF assms(1-5) i Cons.prems(2) False]
      by (rule refl)
    show ?thesis
    proof (cases "MAX_DUP_PAIRS \<le> length ?p")
      case True
      then have full: "MAX_DUP_PAIRS \<le> length (take MAX_DUP_PAIRS ?p)" by (subst length_take) simp
      have "take MAX_DUP_PAIRS (?p @ concat (map (row_pairs rows d) is)) = take MAX_DUP_PAIRS ?p"
        using True by simp
      then show ?thesis unfolding w by (simp only: full if_True list.map concat.simps append_assoc)
    next
      case False
      then have "take MAX_DUP_PAIRS ?p = ?p" "length ?p < MAX_DUP_PAIRS" by auto
      with Cons.IH [of ?p] Cons.prems(1) False show ?thesis unfolding w by simp
    qed
  qed
qed simp

lemma banded_duplicate_pairs_eq:
  assumes "max_distance \<noteq> - 1" "length rows \<le> usize_MAX"
  shows "banded_duplicate_pairs rows max_distance
         = sort_key dup_distance (take MAX_DUP_PAIRS (all_pairs rows max_distance))"
proof -
  have new: "index_ok (banded_new max_distance)" "bi_distance (banded_new max_distance) = max_distance"
    "bi_entries (banded_new max_distance :: nat BandedIndex) = index_entries []"
    by (simp_all add: index_ok_new) (simp_all add: banded_new_def Let_def index_entries_def indexed_def)
  from index_rows_eq [OF new(1,3), of rows] new(2)
  obtain ix' where ix': "index_rows 0 rows (banded_new max_distance) [] = (ix', index_slots rows)"
    "index_ok ix'" "bi_distance ix' = max_distance" "bi_entries ix' = index_entries rows"
    by (auto simp: index_slots_def)
  have "walk_rows rows ix' (index_slots rows) [0..<length rows] []
        = take MAX_DUP_PAIRS ([] @ concat (map (row_pairs rows max_distance) [0..<length rows]))"
    by (rule walk_rows_eq [OF ix'(2,3) assms(1) ix'(4) assms(2)]) (auto simp: MAX_DUP_PAIRS_def)
  then show ?thesis by (simp add: banded_duplicate_pairs_def ix'(1) all_pairs_def)
qed

section \<open>The interface the callers use\<close>

text \<open>
  What a near-duplicate index promises its callers: a new index answers no, and an insertion adds
  exactly the queries within the distance of the inserted hash.
\<close>

locale near_dup_index =
  fixes ok :: "32 word \<Rightarrow> 'ix \<Rightarrow> bool"
    and new :: "32 word \<Rightarrow> 'ix"
    and ins :: "64 word \<Rightarrow> 'ix \<Rightarrow> 'ix"
    and query :: "'ix \<Rightarrow> 64 word \<Rightarrow> bool"
  assumes new_ok: "d \<noteq> - 1 \<Longrightarrow> ok d (new d)"
    and ins_ok: "ok d ix \<Longrightarrow> ok d (ins h ix)"
    and query_new: "d \<noteq> - 1 \<Longrightarrow> \<not> query (new d) q"
    and query_ins: "ok d ix \<Longrightarrow> query (ins h ix) q \<longleftrightarrow> query ix q \<or> hamming h q \<le> unat d"
begin

lemma query_foldl:
  "ok d ix \<Longrightarrow> query (foldl (\<lambda>ix h. ins h ix) ix hs) q
   \<longleftrightarrow> query ix q \<or> (\<exists>h\<in>set hs. hamming h q \<le> unat d)"
  by (induction hs arbitrary: ix) (auto simp: ins_ok query_ins)

lemma query_built:
  "d \<noteq> - 1 \<Longrightarrow> query (foldl (\<lambda>ix h. ins h ix) (new d) hs) q
   \<longleftrightarrow> (\<exists>h\<in>set hs. hamming h q \<le> unat d)"
  by (simp add: query_foldl [OF new_ok] query_new)

end

definition usable_index :: "32 word \<Rightarrow> 'a BandedIndex \<Rightarrow> bool" where
  "usable_index d ix \<longleftrightarrow> index_ok ix \<and> bi_distance ix = d \<and> d \<noteq> - 1"

lemma bi_new [simp]: "bi_entries (banded_new d) = []" "bi_distance (banded_new d) = d"
  by (simp_all add: banded_new_def Let_def)

lemma bi_insert [simp]:
  "bi_entries (banded_insert h p ix) = bi_entries ix @ [(h, p)]"
  "bi_distance (banded_insert h p ix) = bi_distance ix"
  by (simp_all add: banded_insert_def)

lemma usable_new: "d \<noteq> - 1 \<Longrightarrow> usable_index d (banded_new d)"
  by (simp add: usable_index_def index_ok_new)

lemma usable_insert: "usable_index d ix \<Longrightarrow> usable_index d (banded_insert h p ix)"
  by (simp add: usable_index_def index_ok_insert)

lemma near_dup_new: "d \<noteq> - 1 \<Longrightarrow> \<not> is_near_dup (banded_new d) q"
  using is_near_dup_scan [OF index_ok_new, of d q] by simp

lemma near_dup_insert:
  "usable_index d ix \<Longrightarrow>
   is_near_dup (banded_insert h p ix) q \<longleftrightarrow> is_near_dup ix q \<or> hamming h q \<le> unat d"
  using is_near_dup_scan [of ix q] is_near_dup_scan [of "banded_insert h p ix" q]
  by (auto simp: usable_index_def index_ok_insert)

interpretation banded: near_dup_index usable_index banded_new "\<lambda>h. banded_insert h ()" is_near_dup
  by unfold_locales (auto simp: usable_new usable_insert near_dup_new near_dup_insert)

interpretation crawl_dedup: near_dup_index "\<lambda>d idx. usable_index d (inner idx)"
  simhash_index_new simhash_index_insert simhash_index_is_near_dup
  by unfold_locales
    (auto simp: simhash_index_new_def simhash_index_insert_def simhash_index_is_near_dup_def
      usable_new usable_insert near_dup_new near_dup_insert)

lemma build_index:
  assumes "d \<noteq> - 1"
  shows "usable_index d (foldl (\<lambda>ix (h, p). banded_insert h p ix) (banded_new d) entries)"
    and "bi_entries (foldl (\<lambda>ix (h, p). banded_insert h p ix) (banded_new d) entries) = entries"
proof (induction entries rule: rev_induct)
  case Nil
  { case 1 show ?case using assms by (simp add: usable_new) }
  { case 2 show ?case by simp }
next
  case (snoc e entries)
  { case 1 show ?case using snoc by (simp add: usable_insert split: prod.splits) }
  { case 2 show ?case using snoc by (simp split: prod.splits) }
qed

section \<open>Properties\<close>

text \<open>
  C16. The banded index is a linear scan. Built by any insertions at any distance below the
  \<open>u32\<close> maximum, it answers \<open>is_near_dup\<close> as the scan of its entries does, \<open>neighbors\<close> lists
  exactly the entries within the distance in insertion order, and \<open>for_each_neighbor_after\<close> shows
  the visitor exactly the later neighbours of every slot below the last \<open>usize\<close>, once each,
  ascending, until the visitor stops it.
\<close>

theorem banded_index_is_scan:
  fixes entries :: "(64 word \<times> 'a) list" and visit :: "nat \<Rightarrow> 'a \<Rightarrow> 's \<Rightarrow> bool \<times> 's"
  assumes "d \<noteq> - 1" "length entries \<le> usize_MAX" "after < usize_MAX"
  defines "ix \<equiv> foldl (\<lambda>ix (h, p). banded_insert h p ix) (banded_new d) entries"
  shows "(is_near_dup ix hash \<longleftrightarrow> (\<exists>(h, p)\<in>set entries. hamming h hash \<le> unat d))
    \<and> neighbors ix hash = map (\<lambda>s. (s, snd (entries ! s)))
        (filter (\<lambda>s. hamming (fst (entries ! s)) hash \<le> unat d) [0..<length entries])
    \<and> for_each_neighbor_after ix hash after visit st
        = visit_slots ix hash visit
            (filter (\<lambda>s. hamming (fst (entries ! s)) hash \<le> unat d) [Suc after..<length entries]) st"
proof -
  have ix: "index_ok ix" "bi_distance ix = d" "bi_entries ix = entries"
    using build_index [OF assms(1), of entries] by (simp_all add: ix_def usable_index_def)
  have "is_near_dup ix hash \<longleftrightarrow> (\<exists>(h, p)\<in>set entries. hamming h hash \<le> unat d)"
    using is_near_dup_scan [OF ix(1)] assms(1) ix by simp
  moreover have "neighbors ix hash = map (\<lambda>s. (s, snd (entries ! s)))
         (filter (\<lambda>s. hamming (fst (entries ! s)) hash \<le> unat d) [0..<length entries])"
    using neighbors_scan [OF ix(1)] assms(1) ix by (simp add: near_def)
  moreover have "for_each_neighbor_after ix hash after visit st
        = visit_slots ix hash visit
            (filter (\<lambda>s. hamming (fst (entries ! s)) hash \<le> unat d) [Suc after..<length entries]) st"
    using for_each_neighbor_after_scan [OF ix(1), where hash = hash and after = after and visit = visit and s = st] assms(1-3) ix
      visit_slots_filter [of ix hash visit "[Suc after..<length entries]" st]
    by (simp add: near_def)
  ultimately show ?thesis by blast
qed

definition demo_entries :: "(64 word \<times> string) list" where
  "demo_entries = [(0xff, ''a''), (0xfe, ''b''), (0xf0, ''c'')]"

theorem banded_index_is_scan_witness:
  "let ix = foldl (\<lambda>ix (h, p). banded_insert h p ix) (banded_new 3) demo_entries
   in is_near_dup ix 0xfd \<and> neighbors ix 0xfd = [(0, ''a''), (1, ''b''), (2, ''c'')]
      \<and> for_each_neighbor_after ix 0xfd 0 (\<lambda>s p seen. (length seen < 0, seen @ [p])) [] = [''b'']"
proof -
  have d: "(3 :: 32 word) \<noteq> - 1" by simp
  have len: "length demo_entries \<le> usize_MAX"
    by (simp add: usize_MAX_def demo_entries_def)
  have zero: "(0 :: nat) < usize_MAX" by (simp add: usize_MAX_def)
  note scan = banded_index_is_scan [OF d len zero, where hash = "0xfd"
      and visit = "\<lambda>s p seen. (length seen < 0, seen @ [p])" and st = "[]"]
  have near: "\<exists>(h, p)\<in>set demo_entries. hamming h 0xfd \<le> unat (3 :: 32 word)"
    by code_simp
  have slots: "filter (\<lambda>s. hamming (fst (demo_entries ! s)) 0xfd \<le> unat (3 :: 32 word))
      [0..<length demo_entries] = [0, 1, 2]"
    by code_simp
  have later: "filter (\<lambda>s. hamming (fst (demo_entries ! s)) 0xfd \<le> unat (3 :: 32 word))
      [Suc 0..<length demo_entries] = [1, 2]"
    by code_simp
  have "near (foldl (\<lambda>ix (h, p). banded_insert h p ix) (banded_new 3) demo_entries)
          (fst (demo_entries ! 1)) 0xfd"
    by code_simp
  then show ?thesis
    using scan near unfolding Let_def slots later
    by (simp add: build_index [OF d] demo_entries_def)
qed

text \<open>
  The dataset store's duplicate report is the all-pairs scan. For every table and every
  distance below the \<open>u32\<close> maximum, \<open>banded_duplicate_pairs\<close> is the list of the pairs of rows
  with text within the distance, enumerated by the earlier and then the later row, cut at
  \<open>MAX_DUP_PAIRS\<close> in that order and then sorted by distance, ties kept in that order.
\<close>

theorem duplicate_pairs_is_all_pairs_scan:
  assumes "max_distance \<noteq> - 1" "length rows \<le> usize_MAX"
  shows "banded_duplicate_pairs rows max_distance
         = sort_key dup_distance
             (take MAX_DUP_PAIRS
               (concat (map (\<lambda>i. map (\<lambda>j. \<lparr>dup_a = fst (rows ! i), dup_b = fst (rows ! j),
                                             dup_distance = hamming (snd (rows ! i)) (snd (rows ! j))\<rparr>)
                  (filter (\<lambda>j. snd (rows ! i) \<noteq> 0 \<and> snd (rows ! j) \<noteq> 0
                               \<and> hamming (snd (rows ! i)) (snd (rows ! j)) \<le> unat max_distance)
                    [Suc i..<length rows])) [0..<length rows])))"
proof -
  have "row_pairs rows max_distance
        = (\<lambda>i. map (\<lambda>j. \<lparr>dup_a = fst (rows ! i), dup_b = fst (rows ! j),
                     dup_distance = hamming (snd (rows ! i)) (snd (rows ! j))\<rparr>)
            (filter (\<lambda>j. snd (rows ! i) \<noteq> 0 \<and> snd (rows ! j) \<noteq> 0
                         \<and> hamming (snd (rows ! i)) (snd (rows ! j)) \<le> unat max_distance)
              [Suc i..<length rows]))"
    by (rule ext) (simp add: row_pairs_def mk_pair_def hamming_commute conj_commute)
  then show ?thesis
    by (simp add: banded_duplicate_pairs_eq [OF assms] all_pairs_def)
qed

theorem duplicate_pairs_is_all_pairs_scan_witness:
  "map (\<lambda>p. (dup_a p, dup_b p, dup_distance p))
     (banded_duplicate_pairs [(''e'', 0), (''a'', 7), (''b'', 6), (''c'', 7), (''f'', 0)] 1)
   = [(''a'', ''c'', 0), (''a'', ''b'', 1), (''b'', ''c'', 1)]"
proof -
  have d: "(1 :: 32 word) \<noteq> - 1" by simp
  have len: "length [(''e'', 0 :: 64 word), (''a'', 7), (''b'', 6), (''c'', 7), (''f'', 0)] \<le> usize_MAX"
    by (simp add: usize_MAX_def)
  show ?thesis
    unfolding duplicate_pairs_is_all_pairs_scan [OF d len] by code_simp
qed

text \<open>
  The fingerprint is the bitwise majority of its tokens: for fewer than \<open>2 ^ 31\<close> tokens, bit
  \<open>i\<close> is set exactly when more than half of the token hashes have it set, so the fingerprint
  does not depend on the order of the tokens, and no token gives 0.
\<close>

theorem simhash_tokens_majority:
  assumes "length tokens < 2 ^ 31"
  shows "(\<forall>i. bit (simhash_tokens tokens) i
              \<longleftrightarrow> i < 64 \<and> length tokens < 2 * length (filter (\<lambda>h. bit h i) tokens))
         \<and> (\<forall>other. mset other = mset tokens \<longrightarrow> simhash_tokens other = simhash_tokens tokens)"
proof (intro conjI allI impI)
  fix i
  show "bit (simhash_tokens tokens) i
        \<longleftrightarrow> i < 64 \<and> length tokens < 2 * length (filter (\<lambda>h. bit h i) tokens)"
    by (rule bit_simhash_tokens [OF assms])
next
  fix other
  assume perm: "mset other = mset tokens"
  then have len: "length other = length tokens" by (rule mset_eq_length)
  have cnt: "length (filter P other) = length (filter P tokens)" for P
    using perm by (metis mset_filter size_mset)
  show "simhash_tokens other = simhash_tokens tokens"
    using assms len by (intro bit_word_eqI) (simp add: bit_simhash_tokens cnt)
qed

theorem simhash_tokens_majority_witness:
  "bit (simhash_tokens [1, 3, 5]) 0 \<and> \<not> bit (simhash_tokens [1, 3, 5]) 1
   \<and> simhash_tokens [5, 1, 3] = simhash_tokens [1, 3, 5]"
proof -
  have len: "length [1, 3, 5 :: 64 word] < 2 ^ 31" by simp
  have perm: "mset [5, 1, 3 :: 64 word] = mset [1, 3, 5]" by simp
  have b: "bit (5 :: 64 word) 0" "\<not> bit (5 :: 64 word) 1" "bit (3 :: 64 word) 0" "bit (3 :: 64 word) 1"
    by simp_all
  note maj = conjunct1 [OF simhash_tokens_majority [OF len], THEN spec]
    conjunct2 [OF simhash_tokens_majority [OF len], THEN spec, THEN mp, OF perm]
  show ?thesis
    using maj(1) [of 0] maj(1) [of 1] maj(2) b by (simp add: bit_1_iff)
qed

end
