(* ===== verification/Workflow_Spec.thy ===== *)
theory Workflow_Spec
  imports Text
begin

text \<open>
  Workflow plans (\<open>crates/server/src/workflow.rs\<close>, the spec): the document, its parser with
  every refusal, and the cycle search. The parser's messages are the constructors of
  \<open>spec_error\<close>, with the values each message names. The lemmas show that the cycle search finds
  a cycle exactly when there is one and reports a real one, and that an accepted plan is a
  finite acyclic graph over its own steps whose declared budgets fit the envelope.
\<close>

definition MAX_STEPS :: nat where
  "MAX_STEPS = 100"

datatype OnFailure = FailFast | Continue

definition on_failure_parse :: "string \<Rightarrow> OnFailure option" where
  "on_failure_parse s =
     (if s = ''fail_fast'' then Some FailFast
      else if s = ''continue'' then Some Continue
      else None)"

record StepSpec =
  ss_app :: string
  ss_params :: json
  ss_after :: "string list"
  ss_budget_usd :: "rat option"
  ss_priority :: "int option"
  ss_max_attempts :: "int option"

record WorkflowSpec =
  ws_steps :: "(string \<times> StepSpec) list"
  ws_budget_usd :: "rat option"
  ws_on_failure :: OnFailure

datatype spec_error =
    NotAnObject
  | OnFailureUnknown string
  | OnFailureNotString
  | BudgetNotPositive string
  | StepsNotAnObject
  | NoSteps
  | TooManySteps nat
  | BlankName
  | StepNotObject string
  | AppMissing string
  | AfterAnyOf string
  | AfterShape string
  | AfterEntry string
  | SelfDependency string
  | UnknownDependency string string
  | CycleFound "string list"
  | OverEnvelope rat rat

section \<open>Fields\<close>

definition parse_budget :: "json option \<Rightarrow> string \<Rightarrow> spec_error + rat option" where
  "parse_budget raw pointer =
     (case raw of
        None \<Rightarrow> Inr None
      | Some JNull \<Rightarrow> Inr None
      | Some v \<Rightarrow>
          (case as_f64 v of
             Some b \<Rightarrow> if 0 < b then Inr (Some b) else Inl (BudgetNotPositive pointer)
           | None \<Rightarrow> Inl (BudgetNotPositive pointer)))"

fun parse_after_names :: "string \<Rightarrow> json list \<Rightarrow> spec_error + string list" where
  "parse_after_names step [] = Inr []"
| "parse_after_names step (item # items) =
     (case as_str item of
        Some s \<Rightarrow>
          if trim s \<noteq> [] then map_sum id (\<lambda>rest. s # rest) (parse_after_names step items)
          else Inl (AfterEntry step)
      | None \<Rightarrow> Inl (AfterEntry step))"

definition parse_after :: "json option \<Rightarrow> string \<Rightarrow> spec_error + string list" where
  "parse_after raw step =
     (case raw of
        None \<Rightarrow> Inr []
      | Some JNull \<Rightarrow> Inr []
      | Some (JArray items) \<Rightarrow> parse_after_names step items
      | Some (JObject obj) \<Rightarrow>
          if map_of obj ''any_of'' \<noteq> None then Inl (AfterAnyOf step)
          else (case map_of obj ''all_of'' of
                  Some (JArray items) \<Rightarrow> parse_after_names step items
                | _ \<Rightarrow> Inl (AfterShape step))
      | Some _ \<Rightarrow> Inl (AfterShape step))"

definition parse_on_failure :: "json option \<Rightarrow> spec_error list \<times> OnFailure" where
  "parse_on_failure raw =
     (case raw of
        None \<Rightarrow> ([], FailFast)
      | Some JNull \<Rightarrow> ([], FailFast)
      | Some (JString s) \<Rightarrow>
          (case on_failure_parse s of
             Some v \<Rightarrow> ([], v)
           | None \<Rightarrow> ([OnFailureUnknown s], FailFast))
      | Some _ \<Rightarrow> ([OnFailureNotString], FailFast))"

text \<open>A field whose error is recorded and whose value then defaults.\<close>

definition field_or :: "'a \<Rightarrow> spec_error + 'a \<Rightarrow> spec_error list \<times> 'a" where
  "field_or dflt r = (case r of Inr v \<Rightarrow> ([], v) | Inl e \<Rightarrow> ([e], dflt))"

definition parse_step ::
  "spec_error list \<times> (string \<times> StepSpec) list \<Rightarrow> string \<times> json
   \<Rightarrow> spec_error list \<times> (string \<times> StepSpec) list" where
  "parse_step acc entry =
     (case acc of (errors, steps) \<Rightarrow> case entry of (name, raw) \<Rightarrow>
        if trim name = [] then (errors @ [BlankName], steps)
        else (case as_object raw of
           None \<Rightarrow> (errors @ [StepNotObject name], steps)
         | Some step_obj \<Rightarrow>
             (case Option.bind (map_of step_obj ''app'') as_str of
                None \<Rightarrow> (errors @ [AppMissing name], steps)
              | Some app \<Rightarrow>
                  let params = (case map_of step_obj ''params'' of Some p \<Rightarrow> p | None \<Rightarrow> JObject []);
                      (e1, after) = field_or [] (parse_after (map_of step_obj ''after'') name);
                      (e2, budget_usd) = field_or None (parse_budget (map_of step_obj ''budget_usd'')
                         (''spec/steps/'' @ name @ ''/budget_usd''))
                  in (errors @ e1 @ e2,
                      btree_insert name
                        \<lparr>ss_app = app, ss_params = params, ss_after = after,
                         ss_budget_usd = budget_usd,
                         ss_priority = Option.bind (map_of step_obj ''priority'') as_i64,
                         ss_max_attempts = Option.bind (map_of step_obj ''max_attempts'') as_i64\<rparr>
                        steps))))"

section \<open>The graph\<close>

definition dep_errors :: "(string \<times> StepSpec) list \<Rightarrow> spec_error list" where
  "dep_errors steps =
     concat (map (\<lambda>(name, step).
       concat (map (\<lambda>dep. if dep = name then [SelfDependency name]
                          else if map_of steps dep = None then [UnknownDependency name dep]
                          else []) (ss_after step))) steps)"

text \<open>
  The depth-first search threads \<open>done\<close>; \<open>path\<close> and \<open>on_path\<close> are pushed before and popped
  after a node's dependencies, so they are arguments. A result \<open>Some\<close> ends the search.
\<close>

definition cycle_of :: "string \<Rightarrow> string list \<Rightarrow> string list" where
  "cycle_of node path =
     (if node \<in> set path then dropWhile (\<lambda>n. n \<noteq> node) path else path) @ [node]"

function (sequential)
  visit :: "string \<Rightarrow> (string \<times> StepSpec) list \<Rightarrow> string set \<Rightarrow> string list \<Rightarrow> string set
            \<Rightarrow> string list option \<times> string set"
and
  visit_deps :: "string list \<Rightarrow> (string \<times> StepSpec) list \<Rightarrow> string set \<Rightarrow> string list \<Rightarrow> string set
            \<Rightarrow> string list option \<times> string set" where
  "visit node steps done path on_path =
     (if node \<in> done then (None, done)
      else if node \<in> on_path then (Some (cycle_of node path), done)
      else (case map_of steps node of
              None \<Rightarrow> (None, done)
            | Some spec \<Rightarrow>
                (case visit_deps (ss_after spec) steps done (path @ [node]) (insert node on_path) of
                   (Some cyc, done') \<Rightarrow> (Some cyc, done')
                 | (None, done') \<Rightarrow> (None, insert node done'))))"
| "visit_deps [] steps done path on_path = (None, done)"
| "visit_deps (dep # deps) steps done path on_path =
     (if map_of steps dep = None then visit_deps deps steps done path on_path
      else (case visit dep steps done path on_path of
              (Some cyc, done') \<Rightarrow> (Some cyc, done')
            | (None, done') \<Rightarrow> visit_deps deps steps done' path on_path))"
  by pat_completeness auto

termination
proof (relation "measures
    [\<lambda>x. case x of Inl (node, steps, done, path, on_path) \<Rightarrow> card (fst ` set steps - on_path)
               | Inr (deps, steps, done, path, on_path) \<Rightarrow> card (fst ` set steps - on_path),
     \<lambda>x. case x of Inl _ \<Rightarrow> 0 | Inr (deps, steps, done, path, on_path) \<Rightarrow> length deps]", goal_cases)
  case 1
  show ?case by simp
next
  case (2 node steps "done" path on_path spec)
  then have "node \<in> fst ` set steps - on_path" by (force dest: map_of_SomeD)
  then have "card (fst ` set steps - insert node on_path) < card (fst ` set steps - on_path)"
    by (intro psubset_card_mono) auto
  then show ?case by simp
qed simp_all

declare visit.simps [simp del] visit_deps.simps(2) [simp del]

fun find_cycle_from ::
  "string list \<Rightarrow> (string \<times> StepSpec) list \<Rightarrow> string set \<Rightarrow> string list option" where
  "find_cycle_from [] steps done = None"
| "find_cycle_from (start # starts) steps done =
     (case visit start steps done [] {} of
        (Some cyc, _) \<Rightarrow> Some cyc
      | (None, done') \<Rightarrow> find_cycle_from starts steps done')"

definition find_cycle :: "(string \<times> StepSpec) list \<Rightarrow> string list option" where
  "find_cycle steps = find_cycle_from (map fst steps) steps {}"

section \<open>The parser\<close>

definition declared_sum :: "(string \<times> StepSpec) list \<Rightarrow> rat" where
  "declared_sum steps = foldl f64_add 0 (List.map_filter (\<lambda>(_, s). ss_budget_usd s) steps)"

definition envelope_errors :: "rat option \<Rightarrow> (string \<times> StepSpec) list \<Rightarrow> spec_error list" where
  "envelope_errors budget_usd steps =
     (case budget_usd of
        None \<Rightarrow> []
      | Some envelope \<Rightarrow>
          if envelope < declared_sum steps then [OverEnvelope (declared_sum steps) envelope] else [])"

definition parse_spec :: "json \<Rightarrow> spec_error list + WorkflowSpec" where
  "parse_spec doc =
     (case as_object doc of
        None \<Rightarrow> Inl [NotAnObject]
      | Some obj \<Rightarrow>
          let (e1, on_failure) = parse_on_failure (map_of obj ''on_failure'');
              (e2, budget_usd) = field_or None (parse_budget (map_of obj ''budget_usd'') ''spec/budget_usd'')
          in (case Option.bind (map_of obj ''steps'') as_object of
                None \<Rightarrow> Inl (e1 @ e2 @ [StepsNotAnObject])
              | Some steps_obj \<Rightarrow>
                  let e3 = (if steps_obj = [] then [NoSteps] else [])
                           @ (if MAX_STEPS < length steps_obj then [TooManySteps (length steps_obj)] else []);
                      (e4, steps) = foldl parse_step ([], []) steps_obj;
                      e5 = dep_errors steps;
                      e6 = (case find_cycle steps of Some cyc \<Rightarrow> [CycleFound cyc] | None \<Rightarrow> []);
                      e7 = envelope_errors budget_usd steps;
                      errors = e1 @ e2 @ e3 @ e4 @ e5 @ e6 @ e7
                  in if errors = []
                     then Inr \<lparr>ws_steps = steps, ws_budget_usd = budget_usd, ws_on_failure = on_failure\<rparr>
                     else Inl errors))"

section \<open>The cycle search is exact\<close>

text \<open>The dependency edges between steps of the plan.\<close>

definition dep_rel :: "(string \<times> StepSpec) list \<Rightarrow> (string \<times> string) set" where
  "dep_rel steps =
     {(n, d). \<exists>spec. map_of steps n = Some spec \<and> d \<in> set (ss_after spec) \<and> map_of steps d \<noteq> None}"

text \<open>Consecutive nodes of a path are edges; a cycle is a path that returns to its start.\<close>

definition chain :: "(string \<times> string) set \<Rightarrow> string list \<Rightarrow> bool" where
  "chain R xs \<longleftrightarrow> successively (\<lambda>a b. (a, b) \<in> R) xs"

definition is_cycle :: "(string \<times> string) set \<Rightarrow> string list \<Rightarrow> bool" where
  "is_cycle R c \<longleftrightarrow> 2 \<le> length c \<and> hd c = last c \<and> chain R c"

definition settled :: "(string \<times> StepSpec) list \<Rightarrow> string set \<Rightarrow> bool" where
  "settled steps D \<longleftrightarrow>
     (\<forall>n\<in>D. \<forall>d. (n, d) \<in> dep_rel steps \<longrightarrow> d \<in> D) \<and> acyclic (dep_rel steps \<inter> D \<times> D)"

lemma acyclic_insert_source:
  assumes "acyclic (R \<inter> D \<times> D)" "\<forall>n\<in>D. \<forall>d. (n, d) \<in> R \<longrightarrow> d \<in> D" "x \<notin> D"
    and "\<forall>d. (x, d) \<in> R \<longrightarrow> d \<in> D"
  shows "acyclic (R \<inter> insert x D \<times> insert x D)"
proof (rule ccontr)
  let ?R = "R \<inter> insert x D \<times> insert x D"
  have into: "b \<in> D" if "(a, b) \<in> ?R" for a b using that assms(2,4) by auto
  have into_t: "b \<in> D" if "(a, b) \<in> ?R\<^sup>+" for a b
    using that by (induction rule: trancl_induct) (rule into, assumption)+
  have stay: "(a, b) \<in> (R \<inter> D \<times> D)\<^sup>+" if "(a, b) \<in> ?R\<^sup>+" "a \<in> D" for a b
    using that
  proof (induction rule: trancl_induct)
    case (base y)
    then have "(a, y) \<in> R \<inter> D \<times> D" using into by blast
    then show ?case by (rule r_into_trancl)
  next
    case (step y z)
    then have "y \<in> D" using into_t by blast
    then have "(y, z) \<in> R \<inter> D \<times> D" using step(2) into by blast
    with step show ?case by (meson trancl_into_trancl)
  qed
  assume "\<not> acyclic ?R"
  then obtain a where "(a, a) \<in> ?R\<^sup>+" by (auto simp: acyclic_def)
  then have "(a, a) \<in> (R \<inter> D \<times> D)\<^sup>+" by (intro stay into_t)
  with assms(1) show False unfolding acyclic_def by blast
qed

lemma settled_insert:
  assumes "settled steps D" "\<forall>d. (n, d) \<in> dep_rel steps \<longrightarrow> d \<in> D"
  shows "settled steps (insert n D)"
proof (cases "n \<in> D")
  case True
  with assms(1) show ?thesis by (simp add: insert_absorb)
next
  case False
  then show ?thesis
    using assms acyclic_insert_source [of "dep_rel steps" D n] unfolding settled_def by blast
qed

lemma visit_settles:
  "settled steps done \<Longrightarrow> visit node steps done path on_path = (None, D) \<Longrightarrow>
     settled steps D \<and> done \<subseteq> D \<and> (map_of steps node \<noteq> None \<longrightarrow> node \<in> D)"
  and visit_deps_settles:
  "settled steps done \<Longrightarrow> visit_deps deps steps done path on_path = (None, D) \<Longrightarrow>
     settled steps D \<and> done \<subseteq> D \<and> (\<forall>d\<in>set deps. map_of steps d \<noteq> None \<longrightarrow> d \<in> D)"
proof (induction node steps "done" path on_path and deps steps "done" path on_path
    arbitrary: D and D rule: visit_visit_deps.induct)
  case (1 node steps "done" path on_path)
  show ?case
  proof (cases "node \<in> done")
    case True
    with 1(2,3) show ?thesis by (simp add: visit.simps)
  next
    case fresh: False
    with 1(3) have off: "node \<notin> on_path" by (auto simp: visit.simps)
    show ?thesis
    proof (cases "map_of steps node")
      case None
      with fresh off 1(2,3) show ?thesis by (simp add: visit.simps)
    next
      case (Some spec)
      obtain r D' where v: "visit_deps (ss_after spec) steps done (path @ [node]) (insert node on_path) = (r, D')"
        by (rule prod.exhaust)
      from 1(3) fresh off Some v have r: "r = None" and D: "D = insert node D'"
        by (auto simp: visit.simps split: option.splits)
      from 1(1) [OF fresh off Some 1(2)] v r
      have IH: "settled steps D'" "done \<subseteq> D'" "\<forall>d\<in>set (ss_after spec). map_of steps d \<noteq> None \<longrightarrow> d \<in> D'"
        by auto
      have "\<forall>d. (node, d) \<in> dep_rel steps \<longrightarrow> d \<in> D'" using IH(3) Some by (auto simp: dep_rel_def)
      from settled_insert [OF IH(1) this] IH(2) show ?thesis by (auto simp: D)
    qed
  qed
next
  case (2 steps "done" path on_path)
  then show ?case by simp
next
  case (3 dep deps steps "done" path on_path)
  show ?case
  proof (cases "map_of steps dep = None")
    case True
    with 3(1) [OF True 3(4)] 3(5) show ?thesis by (auto simp: visit_deps.simps(2))
  next
    case False
    obtain r D' where v: "visit dep steps done path on_path = (r, D')" by (rule prod.exhaust)
    from 3(5) False v have r: "r = None" and rest: "visit_deps deps steps D' path on_path = (None, D)"
      by (auto simp: visit_deps.simps(2) split: option.splits)
    from 3(2) [OF False 3(4)] v r have IH: "settled steps D'" "done \<subseteq> D'" "dep \<in> D'"
      using False by auto
    from 3(3) [OF False v [symmetric, unfolded r] refl IH(1) rest] IH(2,3) show ?thesis by auto
  qed
qed

lemma chain_snoc: "chain R (xs @ [x]) \<longleftrightarrow> chain R xs \<and> (xs \<noteq> [] \<longrightarrow> (last xs, x) \<in> R)"
  by (auto simp: chain_def successively_append_iff)

lemma chain_drop: "chain R xs \<Longrightarrow> chain R (drop n xs)"
  using successively_append_iff [of "\<lambda>a b. (a, b) \<in> R" "take n xs" "drop n xs"]
  by (simp add: chain_def)

lemma chain_trancl:
  "chain R xs \<Longrightarrow> 2 \<le> length xs \<Longrightarrow> (hd xs, last xs) \<in> R\<^sup>+"
proof (induction xs rule: rev_induct)
  case (snoc x xs)
  have "xs \<noteq> []" using snoc.prems(2) by auto
  with snoc.prems(1) have c: "chain R xs" and e: "(last xs, x) \<in> R" by (simp_all add: chain_snoc)
  show ?case
  proof (cases "2 \<le> length xs")
    case True
    then have "xs \<noteq> []" by auto
    with snoc.IH [OF c True] e show ?thesis by (auto intro: trancl_into_trancl)
  next
    case False
    with snoc.prems(2) have "length xs = 1" by simp
    then obtain y where "xs = [y]" by (auto simp: length_Suc_conv)
    with e show ?thesis by auto
  qed
qed simp

lemma is_cycle_not_acyclic: "is_cycle R c \<Longrightarrow> \<not> acyclic R"
  using chain_trancl [of R c] unfolding is_cycle_def acyclic_def by metis

lemma cycle_of_is_cycle:
  assumes "chain R (path @ [node])" "node \<in> set path"
  shows "is_cycle R (cycle_of node path)"
proof -
  let ?n = "length (takeWhile (\<lambda>n. n \<noteq> node) path)"
  have d: "dropWhile (\<lambda>n. n \<noteq> node) path = drop ?n path" by (rule dropWhile_eq_drop)
  have ne: "dropWhile (\<lambda>n. n \<noteq> node) path \<noteq> []" using assms(2) by auto
  have c: "cycle_of node path = drop ?n path @ [node]" using assms(2) by (simp add: cycle_of_def d)
  have le: "?n \<le> length path" by (rule length_takeWhile_le)
  have "drop ?n (path @ [node]) = drop ?n path @ [node]" using le by simp
  with chain_drop [OF assms(1), of ?n] have "chain R (cycle_of node path)" by (simp add: c)
  moreover have "hd (drop ?n path) = node" using hd_dropWhile [OF ne] by (simp add: d)
  ultimately show ?thesis using ne unfolding is_cycle_def c d by (cases "drop ?n path") auto
qed

lemma visit_finds_cycle:
  "visit node steps done path on_path = (Some c, D) \<Longrightarrow> chain (dep_rel steps) (path @ [node]) \<Longrightarrow>
     on_path = set path \<Longrightarrow> is_cycle (dep_rel steps) c"
  and visit_deps_finds_cycle:
  "visit_deps deps steps done path on_path = (Some c, D) \<Longrightarrow> chain (dep_rel steps) path \<Longrightarrow>
     on_path = set path \<Longrightarrow> path \<noteq> [] \<Longrightarrow> map_of steps (last path) = Some spec \<Longrightarrow>
     set deps \<subseteq> set (ss_after spec) \<Longrightarrow> is_cycle (dep_rel steps) c"
proof (induction node steps "done" path on_path and deps steps "done" path on_path
    arbitrary: c D and c D spec rule: visit_visit_deps.induct)
  case (1 node steps "done" path on_path)
  from 1(2) have fresh: "node \<notin> done" by (auto simp: visit.simps)
  show ?case
  proof (cases "node \<in> on_path")
    case True
    with 1(2) fresh have "c = cycle_of node path" by (simp add: visit.simps)
    with cycle_of_is_cycle [OF 1(3)] True 1(4) show ?thesis by simp
  next
    case False
    then obtain spec where Some: "map_of steps node = Some spec"
      using 1(2) fresh by (auto simp: visit.simps split: option.splits)
    obtain r D' where v: "visit_deps (ss_after spec) steps done (path @ [node]) (insert node on_path) = (r, D')"
      by (rule prod.exhaust)
    from 1(2) fresh False Some v have "r = Some c"
      by (auto simp: visit.simps split: option.splits)
    with v 1(1) [OF fresh False Some _ 1(3), of c D' spec] 1(4) Some show ?thesis by simp
  qed
next
  case (2 steps "done" path on_path)
  then show ?case by simp
next
  case (3 dep deps steps "done" path on_path)
  show ?case
  proof (cases "map_of steps dep = None")
    case True
    with 3(1) [OF True _ 3(5,6,7,8)] 3(4,9) show ?thesis by (auto simp: visit_deps.simps(2))
  next
    case False
    obtain r D' where v: "visit dep steps done path on_path = (r, D')" by (rule prod.exhaust)
    show ?thesis
    proof (cases r)
      case None
      with 3(4) False v have "visit_deps deps steps D' path on_path = (Some c, D)"
        by (simp add: visit_deps.simps(2))
      with 3(3) [OF False v [symmetric, unfolded None] refl _ 3(5,6,7,8)] 3(9) show ?thesis by auto
    next
      case (Some c')
      with 3(4) False v have "c' = c" by (simp add: visit_deps.simps(2))
      have "(last path, dep) \<in> dep_rel steps" using 3(8,9) False by (auto simp: dep_rel_def)
      then have "chain (dep_rel steps) (path @ [dep])" using 3(5) by (simp add: chain_snoc)
      with 3(2) [OF False _ _ 3(6)] v Some \<open>c' = c\<close> show ?thesis by simp
    qed
  qed
qed

lemma find_cycle_from_None:
  "find_cycle_from starts steps done = None \<Longrightarrow> settled steps done \<Longrightarrow>
   \<exists>D. settled steps D \<and> done \<subseteq> D \<and> (\<forall>n\<in>set starts. map_of steps n \<noteq> None \<longrightarrow> n \<in> D)"
proof (induction starts arbitrary: "done")
  case (Cons n starts)
  obtain r D where v: "visit n steps done [] {} = (r, D)" by (rule prod.exhaust)
  from Cons.prems(1) v have r: "r = None" and rest: "find_cycle_from starts steps D = None"
    by (auto split: option.splits)
  from visit_settles [OF Cons.prems(2)] v r
  have D: "settled steps D" "done \<subseteq> D" "map_of steps n \<noteq> None \<longrightarrow> n \<in> D" by auto
  from Cons.IH [OF rest D(1)] obtain D' where
    D': "settled steps D'" "D \<subseteq> D'" "\<forall>n\<in>set starts. map_of steps n \<noteq> None \<longrightarrow> n \<in> D'" by blast
  have "done \<subseteq> D'" "\<forall>m\<in>set (n # starts). map_of steps m \<noteq> None \<longrightarrow> m \<in> D'"
    using D(2,3) D'(2,3) by auto
  with D'(1) show ?case by blast
qed auto

lemma find_cycle_from_Some:
  "find_cycle_from starts steps done = Some c \<Longrightarrow> is_cycle (dep_rel steps) c"
proof (induction starts arbitrary: "done")
  case (Cons n starts)
  obtain r D where v: "visit n steps done [] {} = (r, D)" by (rule prod.exhaust)
  show ?case
  proof (cases r)
    case None
    with Cons v show ?thesis by simp
  next
    case (Some c')
    with Cons.prems v visit_finds_cycle [of n steps "done" "[]" "{}" c' D] show ?thesis
      by (simp add: chain_def)
  qed
qed simp

lemma find_cycle_None_acyclic: "find_cycle steps = None \<Longrightarrow> acyclic (dep_rel steps)"
proof -
  assume "find_cycle steps = None"
  moreover have "settled steps {}" by (simp add: settled_def acyclic_def)
  ultimately obtain D where D: "settled steps D" "\<forall>n\<in>fst ` set steps. map_of steps n \<noteq> None \<longrightarrow> n \<in> D"
    unfolding find_cycle_def using find_cycle_from_None [of "map fst steps" steps "{}"] by auto
  have "n \<in> D \<and> d \<in> D" if "(n, d) \<in> dep_rel steps" for n d
    using that D(2) by (auto simp: dep_rel_def map_of_eq_None_iff dest!: map_of_SomeD)
  then have "dep_rel steps \<inter> D \<times> D = dep_rel steps" by auto
  with D(1) show "acyclic (dep_rel steps)" by (simp add: settled_def)
qed

text \<open>
  The cycle search decides whether the plan's dependency graph has a cycle, and the path it
  reports is one: it finds nothing exactly when the graph is acyclic, and what it finds starts and
  ends at the same step with a dependency between every two neighbours.
\<close>

theorem find_cycle_exact:
  "(find_cycle steps = None \<longleftrightarrow> acyclic (dep_rel steps))
   \<and> (\<forall>c. find_cycle steps = Some c \<longrightarrow> is_cycle (dep_rel steps) c)"
  using find_cycle_None_acyclic [of steps] find_cycle_from_Some is_cycle_not_acyclic
  unfolding find_cycle_def by (metis option.exhaust)

definition demo_loop :: "(string \<times> StepSpec) list" where
  "demo_loop =
     [(''a'', \<lparr>ss_app = ''crawl'', ss_params = JNull, ss_after = [''c''], ss_budget_usd = None,
              ss_priority = None, ss_max_attempts = None\<rparr>),
      (''b'', \<lparr>ss_app = ''crawl'', ss_params = JNull, ss_after = [], ss_budget_usd = None,
              ss_priority = None, ss_max_attempts = None\<rparr>),
      (''c'', \<lparr>ss_app = ''crawl'', ss_params = JNull, ss_after = [''b'', ''a''], ss_budget_usd = None,
              ss_priority = None, ss_max_attempts = None\<rparr>)]"

theorem find_cycle_exact_witness:
  "find_cycle demo_loop = Some [''a'', ''c'', ''a''] \<and> is_cycle (dep_rel demo_loop) [''a'', ''c'', ''a'']
   \<and> \<not> acyclic (dep_rel demo_loop)"
proof -
  have f: "find_cycle demo_loop = Some [''a'', ''c'', ''a'']" by code_simp
  from find_cycle_exact [of demo_loop] f show ?thesis by simp
qed

section \<open>Accepted plans\<close>

text \<open>
  What the engine relies on: a non-empty plan of bounded size, in key order, whose barriers name
  other steps of the plan, with no cycle, positive budgets and a declared sum within the envelope.
\<close>

definition step_ok :: "(string \<times> StepSpec) list \<Rightarrow> string \<Rightarrow> StepSpec \<Rightarrow> bool" where
  "step_ok steps name step \<longleftrightarrow>
     trim name \<noteq> []
     \<and> (\<forall>d\<in>set (ss_after step). d \<noteq> name \<and> d \<in> fst ` set steps)
     \<and> (\<forall>b. ss_budget_usd step = Some b \<longrightarrow> 0 < b)"

definition spec_ok :: "WorkflowSpec \<Rightarrow> bool" where
  "spec_ok spec \<longleftrightarrow>
     btree_ok (ws_steps spec) \<and> ws_steps spec \<noteq> [] \<and> length (ws_steps spec) \<le> MAX_STEPS
     \<and> (\<forall>(name, step)\<in>set (ws_steps spec). step_ok (ws_steps spec) name step)
     \<and> acyclic (dep_rel (ws_steps spec))
     \<and> (\<forall>envelope. ws_budget_usd spec = Some envelope
          \<longrightarrow> 0 < envelope \<and> declared_sum (ws_steps spec) \<le> envelope)"

lemma parse_budget_pos: "parse_budget raw pointer = Inr (Some b) \<Longrightarrow> 0 < b"
  by (auto simp: parse_budget_def split: option.splits json.splits if_splits)

lemma parse_step_ok:
  assumes "parse_step (errors, m) (name, raw) = ([], m')"
  shows "errors = [] \<and> trim name \<noteq> []
         \<and> (\<exists>step. m' = btree_insert name step m \<and> (\<forall>b. ss_budget_usd step = Some b \<longrightarrow> 0 < b))"
proof -
  have ne: "trim name \<noteq> []" using assms by (auto simp: parse_step_def)
  with assms obtain obj where obj: "as_object raw = Some obj"
    by (auto simp: parse_step_def split: option.splits)
  with ne assms obtain app where app: "Option.bind (map_of obj ''app'') as_str = Some app"
    by (auto simp: parse_step_def split: option.splits)
  obtain e1 after where a: "field_or [] (parse_after (map_of obj ''after'') name) = (e1, after)"
    by (rule prod.exhaust)
  obtain e2 budget where b: "field_or None (parse_budget (map_of obj ''budget_usd'')
      (''spec/steps/'' @ name @ ''/budget_usd'')) = (e2, budget)" by (rule prod.exhaust)
  from assms ne obj app a b have "errors = []" "e1 = []" "e2 = []"
    by (auto simp: parse_step_def Let_def)
  moreover have "0 < x" if "budget = Some x" for x
    using b that \<open>e2 = []\<close> parse_budget_pos
    by (auto simp: field_or_def split: sum.splits)
  moreover obtain step where "m' = btree_insert name step m" "ss_budget_usd step = budget"
    using assms ne obj app a b by (auto simp: parse_step_def Let_def)
  ultimately show ?thesis using ne by auto
qed

lemma set_btree_insert_subset: "set (btree_insert k v m) \<subseteq> insert (k, v) (set m)"
  by (induction k v m rule: btree_insert.induct) auto

lemma length_btree_insert: "length (btree_insert k v m) \<le> Suc (length m)"
  by (induction k v m rule: btree_insert.induct) auto

lemma btree_insert_not_Nil [simp]: "btree_insert k v m \<noteq> []"
  by (induction k v m rule: btree_insert.induct) auto

definition parsed_entry :: "string \<times> StepSpec \<Rightarrow> bool" where
  "parsed_entry e \<longleftrightarrow> trim (fst e) \<noteq> [] \<and> (\<forall>b. ss_budget_usd (snd e) = Some b \<longrightarrow> 0 < b)"

lemma parse_steps_ok:
  assumes "foldl parse_step (errors, m) entries = ([], m')"
    and "btree_ok m" "\<forall>e\<in>set m. parsed_entry e"
  shows "errors = [] \<and> btree_ok m' \<and> (\<forall>e\<in>set m'. parsed_entry e)
         \<and> length m' \<le> length m + length entries \<and> (entries \<noteq> [] \<or> m \<noteq> [] \<longrightarrow> m' \<noteq> [])"
  using assms
proof (induction entries arbitrary: errors m)
  case (Cons entry entries)
  obtain name raw where entry: "entry = (name, raw)" by (rule prod.exhaust)
  obtain errors1 m1 where p: "parse_step (errors, m) (name, raw) = (errors1, m1)" by (rule prod.exhaust)
  have rest: "foldl parse_step (errors1, m1) entries = ([], m')" using Cons.prems(1) by (simp add: entry p)
  have e1: "errors1 = []" using rest
  proof (induction entries arbitrary: errors1 m1)
    case (Cons x xs)
    obtain e2 m2 where "parse_step (errors1, m1) x = (e2, m2)" by (rule prod.exhaust)
    moreover from this Cons have "e2 = []" by simp
    ultimately show ?case using parse_step_ok [of errors1 m1 "fst x" "snd x" m2] by simp
  qed simp
  from parse_step_ok [OF p [unfolded e1]] obtain step where
    st: "errors = []" "trim name \<noteq> []" "m1 = btree_insert name step m"
      "\<forall>b. ss_budget_usd step = Some b \<longrightarrow> 0 < b" by blast
  have ok1: "btree_ok m1" using Cons.prems(2) st(3) by simp
  have pe1: "\<forall>e\<in>set m1. parsed_entry e"
    using Cons.prems(3) st set_btree_insert_subset [of name step m] by (auto simp: parsed_entry_def)
  have ne1: "m1 \<noteq> []" using st(3) by simp
  have len1: "length m1 \<le> Suc (length m)" using length_btree_insert st(3) by simp
  from Cons.IH [OF rest ok1 pe1] st(1) ne1 len1 show ?case by auto
qed simp

lemma dep_errors_Nil:
  "dep_errors steps = [] \<Longrightarrow> (name, step) \<in> set steps \<Longrightarrow> d \<in> set (ss_after step) \<Longrightarrow>
   d \<noteq> name \<and> d \<in> fst ` set steps"
proof -
  let ?err = "\<lambda>name dep. if dep = name then [SelfDependency name]
                else if map_of steps dep = None then [UnknownDependency name dep] else []"
  assume none: "dep_errors steps = []" and mem: "(name, step) \<in> set steps" "d \<in> set (ss_after step)"
  have "set (?err name d) \<subseteq> set (concat (map (?err name) (ss_after step)))"
    using mem(2) by (auto simp only: set_concat set_map)
  also have "\<dots> \<subseteq> set (dep_errors steps)"
    unfolding dep_errors_def set_concat set_map using mem(1) by (intro Union_upper image_eqI) auto
  finally have "?err name d = []" using none by simp
  then show ?thesis by (auto simp: map_of_eq_None_iff split: if_splits)
qed

lemma parse_spec_sound_lemma:
  assumes "parse_spec doc = Inr spec"
  shows "spec_ok spec"
proof -
  from assms obtain obj where obj: "as_object doc = Some obj"
    by (auto simp: parse_spec_def split: option.splits)
  obtain e1 on_failure where f: "parse_on_failure (map_of obj ''on_failure'') = (e1, on_failure)"
    by (rule prod.exhaust)
  obtain e2 budget where b: "field_or None (parse_budget (map_of obj ''budget_usd'') ''spec/budget_usd'')
      = (e2, budget)" by (rule prod.exhaust)
  from assms obj f b obtain steps_obj where
    so: "Option.bind (map_of obj ''steps'') as_object = Some steps_obj"
    by (auto simp: parse_spec_def Let_def split: option.splits)
  obtain e4 steps where st: "foldl parse_step ([], []) steps_obj = (e4, steps)" by (rule prod.exhaust)
  have errs: "e2 = []" "steps_obj \<noteq> []" "length steps_obj \<le> MAX_STEPS" "e4 = []"
      "dep_errors steps = []" "find_cycle steps = None" "envelope_errors budget steps = []"
    and spec: "spec = \<lparr>ws_steps = steps, ws_budget_usd = budget, ws_on_failure = on_failure\<rparr>"
    using assms obj f b so st
    by (auto simp: parse_spec_def Let_def split: if_splits option.splits)
  from parse_steps_ok [OF st [unfolded errs(4)]] errs(2)
  have m: "btree_ok steps" "\<forall>e\<in>set steps. parsed_entry e" "length steps \<le> length steps_obj" "steps \<noteq> []"
    by auto
  have "step_ok steps name step" if "(name, step) \<in> set steps" for name step
    using that m(2) dep_errors_Nil [OF errs(5)] by (fastforce simp: step_ok_def parsed_entry_def)
  moreover have "0 < e \<and> declared_sum steps \<le> e" if "budget = Some e" for e
    using that errs(1,7) b parse_budget_pos
    by (auto simp: envelope_errors_def field_or_def split: sum.splits if_splits)
  ultimately show ?thesis
    using m errs(3) find_cycle_None_acyclic [OF errs(6)] by (auto simp: spec_ok_def spec)
qed

text \<open>
  C17. A plan the parser accepts can run: it has between one and \<open>MAX_STEPS\<close> steps with
  non-blank names, every barrier names other steps of the same plan, the dependency graph is
  acyclic, every budget is positive and the declared budgets sum to at most the envelope.
\<close>

theorem parse_spec_sound:
  "parse_spec doc = Inr spec \<Longrightarrow> spec_ok spec"
  by (rule parse_spec_sound_lemma)

definition demo_doc :: json where
  "demo_doc = JObject [(''budget_usd'', JFloat 2), (''steps'', JObject
     [(''a'', JObject [(''app'', JString ''crawl''), (''budget_usd'', JFloat (1 / 2))]),
      (''b'', JObject [(''app'', JString ''crawl'')]),
      (''join'', JObject [(''after'', JObject [(''all_of'', JArray [JString ''a'', JString ''b''])]),
                          (''app'', JString ''extract'')])])]"

definition demo_spec :: WorkflowSpec where
  "demo_spec = \<lparr>ws_steps =
      [(''a'', \<lparr>ss_app = ''crawl'', ss_params = JObject [], ss_after = [], ss_budget_usd = Some (1 / 2),
               ss_priority = None, ss_max_attempts = None\<rparr>),
       (''b'', \<lparr>ss_app = ''crawl'', ss_params = JObject [], ss_after = [], ss_budget_usd = None,
               ss_priority = None, ss_max_attempts = None\<rparr>),
       (''join'', \<lparr>ss_app = ''extract'', ss_params = JObject [], ss_after = [''a'', ''b''],
               ss_budget_usd = None, ss_priority = None, ss_max_attempts = None\<rparr>)],
      ws_budget_usd = Some 2, ws_on_failure = FailFast\<rparr>"

lemma demo_parse: "parse_spec demo_doc = Inr demo_spec"
  by code_simp

text \<open>The same facts of the example plan, computed.\<close>

lemma demo_spec_ok: "spec_ok demo_spec"
proof -
  have "find_cycle (ws_steps demo_spec) = None" by code_simp
  then have "acyclic (dep_rel (ws_steps demo_spec))" by (rule find_cycle_None_acyclic)
  moreover have "declared_sum (ws_steps demo_spec) \<le> 2" by code_simp
  moreover have "trim ''a'' \<noteq> []" "trim ''b'' \<noteq> []" "trim ''join'' \<noteq> []" by code_simp+
  moreover have "btree_ok (ws_steps demo_spec)" by code_simp
  ultimately show ?thesis
    by (simp add: spec_ok_def step_ok_def MAX_STEPS_def) (simp add: demo_spec_def)
qed

theorem parse_spec_sound_witness:
  "parse_spec demo_doc = Inr demo_spec \<and> spec_ok demo_spec"
  using parse_spec_sound [OF demo_parse] demo_parse by simp

end
