(* ===== verification/Workflow_Plan.thy ===== *)
theory Workflow_Plan
  imports Workflow_Spec
begin

text \<open>
  The decisions of a workflow run (\<open>crates/server/src/workflow.rs\<close>, the barrier, the templates
  and the envelope): which steps are ready, which can never run, when the run is over, what a
  step's params render to and how much it may spend. Reasons and messages are the constructors
  of \<open>wf_error\<close> and \<open>template_error\<close>, with the values each message names. The lemmas show that
  a plan never stalls and that rendering is stable.
\<close>

datatype StepState = StPending | StQueued | StSucceeded | StFailed | StCancelled | StSkipped

fun step_state_as_str :: "StepState \<Rightarrow> string" where
  "step_state_as_str StPending = ''pending''"
| "step_state_as_str StQueued = ''queued''"
| "step_state_as_str StSucceeded = ''succeeded''"
| "step_state_as_str StFailed = ''failed''"
| "step_state_as_str StCancelled = ''cancelled''"
| "step_state_as_str StSkipped = ''skipped''"

definition step_state_parse :: "string \<Rightarrow> StepState option" where
  "step_state_parse s =
     (if s = ''pending'' then Some StPending
      else if s = ''queued'' then Some StQueued
      else if s = ''succeeded'' then Some StSucceeded
      else if s = ''failed'' then Some StFailed
      else if s = ''cancelled'' then Some StCancelled
      else if s = ''skipped'' then Some StSkipped
      else None)"

definition is_open :: "StepState \<Rightarrow> bool" where
  "is_open s \<longleftrightarrow> s \<in> {StPending, StQueued}"

definition is_bad_ending :: "StepState \<Rightarrow> bool" where
  "is_bad_ending s \<longleftrightarrow> s \<in> {StFailed, StCancelled, StSkipped}"

type_synonym states = "(string \<times> StepState) list"

datatype template_error =
    Unterminated string
  | NotSteps string
  | NoStepName string
  | NotResult string string
  | NoResult string string
  | NoPath string string string

datatype wf_error =
    SkipFailFast string
  | SkipBarrier "string list"
  | VerdictFailed "string list" "string list"
  | VerdictCancelled "string list"
  | SpecInvalid "spec_error list"
  | DefDeleted
  | Template template_error
  | AppNotRegistered string string
  | ParamsInvalid string
  | EnvelopeExhausted rat rat
  | StepNotInSpec string
  | EnqueueFailed
  | RunCancelled
  | CancelledByRequest
  | JobError string

section \<open>The barrier\<close>

definition ready_steps :: "WorkflowSpec \<Rightarrow> states \<Rightarrow> string list" where
  "ready_steps spec states =
     map fst (filter (\<lambda>(name, step).
       map_of states name = Some StPending
       \<and> list_all (\<lambda>dep. map_of states dep = Some StSucceeded) (ss_after step)) (ws_steps spec))"

definition ended_badly :: "states \<Rightarrow> string \<Rightarrow> bool" where
  "ended_badly states n = (case map_of states n of Some s \<Rightarrow> is_bad_ending s | None \<Rightarrow> False)"

definition skip_reason ::
  "OnFailure \<Rightarrow> states \<Rightarrow> string \<Rightarrow> StepSpec \<Rightarrow> wf_error option" where
  "skip_reason on_failure states bad0 step =
     (case on_failure of
        FailFast \<Rightarrow> Some (SkipFailFast bad0)
      | Continue \<Rightarrow>
          let blocking = filter (ended_badly states) (ss_after step)
          in if blocking = [] then None else Some (SkipBarrier blocking))"

definition cascade_skips :: "WorkflowSpec \<Rightarrow> states \<Rightarrow> (string \<times> wf_error) list" where
  "cascade_skips spec states =
     (case filter (ended_badly states) (map fst (ws_steps spec)) of
        [] \<Rightarrow> []
      | bad0 # _ \<Rightarrow>
          List.map_filter (\<lambda>(name, step).
            if map_of states name \<noteq> Some StPending then None
            else map_option (\<lambda>reason. (name, reason))
                   (skip_reason (ws_on_failure spec) states bad0 step)) (ws_steps spec))"

definition names_in :: "StepState \<Rightarrow> states \<Rightarrow> string list" where
  "names_in s states = map fst (filter (\<lambda>(_, x). x = s) states)"

definition run_verdict :: "states \<Rightarrow> (string \<times> wf_error option) option" where
  "run_verdict states =
     (if list_ex (\<lambda>(_, s). is_open s) states then None
      else let failed = names_in StFailed states;
               skipped = names_in StSkipped states;
               cancelled = names_in StCancelled states
           in if failed \<noteq> [] \<or> skipped \<noteq> [] then Some (''failed'', Some (VerdictFailed failed skipped))
              else if cancelled \<noteq> [] then Some (''cancelled'', Some (VerdictCancelled cancelled))
              else Some (''succeeded'', None))"

section \<open>Templates\<close>

type_synonym results = "(string \<times> json) list"

definition json_child :: "json \<Rightarrow> string \<Rightarrow> json option" where
  "json_child cursor key =
     (case cursor of
        JObject obj \<Rightarrow> map_of obj key
      | JArray items \<Rightarrow>
          (case parse_u64 key of
             Some i \<Rightarrow> if i < length items then Some (items ! i) else None
           | None \<Rightarrow> None)
      | _ \<Rightarrow> None)"

fun walk_path :: "string \<Rightarrow> string \<Rightarrow> json \<Rightarrow> string list \<Rightarrow> template_error + json" where
  "walk_path expr walked cursor [] = Inr cursor"
| "walk_path expr walked cursor (key # keys) =
     (case json_child cursor key of
        None \<Rightarrow> Inl (NoPath expr walked key)
      | Some nxt \<Rightarrow> walk_path expr (walked @ ''.'' @ key) nxt keys)"

definition resolve :: "string \<Rightarrow> results \<Rightarrow> template_error + json" where
  "resolve expr results =
     (case split_char CHR ''.'' expr of
        [] \<Rightarrow> Inl (NotSteps expr)
      | head # parts \<Rightarrow>
          if head \<noteq> ''steps'' then Inl (NotSteps expr)
          else (case parts of
             [] \<Rightarrow> Inl (NoStepName expr)
           | step # parts1 \<Rightarrow>
               if step = [] then Inl (NoStepName expr)
               else (case parts1 of
                  [] \<Rightarrow> Inl (NotResult expr step)
                | res # parts2 \<Rightarrow>
                    if res \<noteq> ''result'' then Inl (NotResult expr step)
                    else (case map_of results step of
                            None \<Rightarrow> Inl (NoResult expr step)
                          | Some doc \<Rightarrow> walk_path expr (''steps.'' @ step @ ''.result'') doc parts2))))"

text \<open>The JSON printer that shows a container inside a text is an argument.\<close>

definition value_text :: "(json \<Rightarrow> string) \<Rightarrow> json \<Rightarrow> string" where
  "value_text print v = (case v of JString text \<Rightarrow> text | other \<Rightarrow> print other)"

function interpolate_loop ::
  "(json \<Rightarrow> string) \<Rightarrow> string \<Rightarrow> results \<Rightarrow> string \<Rightarrow> string \<Rightarrow> template_error + json" where
  "interpolate_loop print s results out rest =
     (case split_first ''{{'' rest of
        None \<Rightarrow> Inr (JString (out @ rest))
      | Some (before, after) \<Rightarrow>
          (case split_first ''}}'' after of
             None \<Rightarrow> Inl (Unterminated s)
           | Some (expr, rest') \<Rightarrow>
               (case resolve (trim expr) results of
                  Inl e \<Rightarrow> Inl e
                | Inr v \<Rightarrow> interpolate_loop print s results (out @ before @ value_text print v) rest')))"
  by pat_completeness auto

termination
proof (relation "measure (\<lambda>(print, s, results, out, rest). length rest)", goal_cases)
  case 1
  show ?case by simp
next
  case (2 print s results out rest x before after y expr rest' v)
  then have "split_first ''{{'' rest = Some (before, after)" "split_first ''}}'' after = Some (expr, rest')"
    by auto
  then have "length after < length rest" "length rest' < length after"
    by (auto dest!: split_first_shorter)
  then show ?case by simp
qed

declare interpolate_loop.simps [simp del]

definition interpolate :: "(json \<Rightarrow> string) \<Rightarrow> string \<Rightarrow> results \<Rightarrow> template_error + json" where
  "interpolate print s results =
     (if \<not> str_contains ''{{'' s then Inr (JString s)
      else interpolate_loop print s results [] s)"

definition render_string :: "(json \<Rightarrow> string) \<Rightarrow> string \<Rightarrow> results \<Rightarrow> template_error + json" where
  "render_string print s results =
     (case strip_prefix ''{{'' s of
        None \<Rightarrow> interpolate print s results
      | Some rest \<Rightarrow>
          (case strip_suffix ''}}'' rest of
             Some expr \<Rightarrow>
               if \<not> str_contains ''}}'' expr then resolve (trim expr) results
               else interpolate print s results
           | None \<Rightarrow> interpolate print s results))"

fun render_params :: "(json \<Rightarrow> string) \<Rightarrow> results \<Rightarrow> json \<Rightarrow> template_error + json"
and render_items :: "(json \<Rightarrow> string) \<Rightarrow> results \<Rightarrow> json list \<Rightarrow> template_error + json list"
and render_entries :: "(json \<Rightarrow> string) \<Rightarrow> results \<Rightarrow> (string \<times> json) list
      \<Rightarrow> template_error + (string \<times> json) list" where
  "render_params print results (JString s) = render_string print s results"
| "render_params print results (JArray items) = map_sum id JArray (render_items print results items)"
| "render_params print results (JObject obj) = map_sum id JObject (render_entries print results obj)"
| "render_params print results v = Inr v"
| "render_items print results [] = Inr []"
| "render_items print results (v # vs) =
     (case render_params print results v of
        Inl e \<Rightarrow> Inl e
      | Inr v' \<Rightarrow> map_sum id (\<lambda>rest. v' # rest) (render_items print results vs))"
| "render_entries print results [] = Inr []"
| "render_entries print results ((k, v) # obj) =
     (case render_params print results v of
        Inl e \<Rightarrow> Inl e
      | Inr v' \<Rightarrow> map_sum id (\<lambda>rest. (k, v') # rest) (render_entries print results obj))"

fun has_template :: "json \<Rightarrow> bool" where
  "has_template (JString s) \<longleftrightarrow> str_contains ''{{'' s"
| "has_template (JArray items) \<longleftrightarrow> (\<exists>v\<in>set items. has_template v)"
| "has_template (JObject obj) \<longleftrightarrow> (\<exists>e\<in>set obj. has_template (snd e))"
| "has_template _ \<longleftrightarrow> False"

section \<open>The envelope\<close>

definition step_budget :: "rat option \<Rightarrow> rat option \<Rightarrow> rat \<Rightarrow> wf_error + rat option" where
  "step_budget step_budget_usd run_budget_usd spent_usd =
     (case run_budget_usd of
        None \<Rightarrow> Inr step_budget_usd
      | Some envelope \<Rightarrow>
          let remaining = f64_sub envelope (max spent_usd 0)
          in if remaining \<le> 0 then Inl (EnvelopeExhausted envelope spent_usd)
             else Inr (Some (case step_budget_usd of
                               Some step \<Rightarrow> min step remaining
                             | None \<Rightarrow> remaining)))"

section \<open>A plan never stalls\<close>

definition covers :: "WorkflowSpec \<Rightarrow> states \<Rightarrow> bool" where
  "covers spec states \<longleftrightarrow> fst ` set states = fst ` set (ws_steps spec) \<and> distinct (map fst states)"

lemma step_state_cases:
  "s = StPending \<or> s = StQueued \<or> s = StSucceeded \<or> is_bad_ending s"
  by (cases s) (auto simp: is_bad_ending_def)

lemma step_state_roundtrip: "step_state_parse (step_state_as_str s) = Some s"
  by (cases s) (simp_all add: step_state_parse_def)

lemma ready_stepsD:
  "n \<in> set (ready_steps spec states) \<Longrightarrow>
   \<exists>step. (n, step) \<in> set (ws_steps spec) \<and> map_of states n = Some StPending
          \<and> (\<forall>dep\<in>set (ss_after step). map_of states dep = Some StSucceeded)"
  by (auto simp: ready_steps_def list_all_iff)

lemma ready_stepsI:
  "(n, step) \<in> set (ws_steps spec) \<Longrightarrow> map_of states n = Some StPending \<Longrightarrow>
   (\<forall>dep\<in>set (ss_after step). map_of states dep = Some StSucceeded) \<Longrightarrow>
   n \<in> set (ready_steps spec states)"
  by (force simp: ready_steps_def list_all_iff)

lemma cascade_skipsI:
  assumes "(n, step) \<in> set (ws_steps spec)" "map_of states n = Some StPending"
    and "d \<in> fst ` set (ws_steps spec)" "ended_badly states d" "d \<in> set (ss_after step)"
  shows "cascade_skips spec states \<noteq> []"
proof -
  have "d \<in> set (filter (ended_badly states) (map fst (ws_steps spec)))" using assms(3,4) by auto
  then obtain b bs where bs: "filter (ended_badly states) (map fst (ws_steps spec)) = b # bs"
    by (metis list.exhaust list.set_cases empty_iff empty_set)
  have "filter (ended_badly states) (ss_after step) \<noteq> []"
    using assms(4,5) by (auto simp: filter_empty_conv)
  then have "skip_reason (ws_on_failure spec) states b step \<noteq> None"
    by (simp add: skip_reason_def Let_def split: OnFailure.splits)
  with assms(1,2) show ?thesis
    by (fastforce simp: cascade_skips_def bs List.map_filter_def filter_empty_conv)
qed

lemma cascade_skips_pending:
  "(n, reason) \<in> set (cascade_skips spec states) \<Longrightarrow>
   map_of states n = Some StPending \<and> n \<in> fst ` set (ws_steps spec)"
  by (force simp: cascade_skips_def List.map_filter_def split: list.splits if_splits option.splits)

lemma pending_has_source:
  assumes "spec_ok spec" "\<exists>n. n \<in> fst ` set (ws_steps spec) \<and> map_of states n = Some StPending"
  shows "\<exists>n step. (n, step) \<in> set (ws_steps spec) \<and> map_of states n = Some StPending
           \<and> (\<forall>d\<in>set (ss_after step). map_of states d \<noteq> Some StPending)"
proof -
  let ?R = "dep_rel (ws_steps spec)"
  let ?P = "{n. n \<in> fst ` set (ws_steps spec) \<and> map_of states n = Some StPending}"
  have "?R \<subseteq> fst ` set (ws_steps spec) \<times> fst ` set (ws_steps spec)"
    by (auto simp: dep_rel_def map_of_eq_None_iff dest!: map_of_SomeD) (auto intro: rev_image_eqI)
  then have "finite ?R" by (rule finite_subset) simp
  moreover have "acyclic ?R" using assms(1) by (simp add: spec_ok_def)
  ultimately have "wf (?R\<inverse>)" by (rule finite_acyclic_wf_converse)
  moreover obtain m where "m \<in> ?P" using assms(2) by blast
  ultimately obtain n where n: "n \<in> ?P" "\<And>d. (d, n) \<in> ?R\<inverse> \<Longrightarrow> d \<notin> ?P"
    by (rule wfE_min) blast
  then obtain step where step: "(n, step) \<in> set (ws_steps spec)" by auto
  have "map_of (ws_steps spec) n = Some step"
    using assms(1) by (intro map_of_is_SomeI step btree_ok_distinct) (simp add: spec_ok_def)
  moreover have "d \<in> fst ` set (ws_steps spec)" if "d \<in> set (ss_after step)" for d
    using step that assms(1) by (auto simp: spec_ok_def step_ok_def)
  ultimately have "map_of states d \<noteq> Some StPending" if "d \<in> set (ss_after step)" for d
    using n(2) [of d] that by (auto simp: dep_rel_def map_of_eq_None_iff)
  with step n(1) show ?thesis by blast
qed

lemma plan_moves:
  assumes "spec_ok spec" "covers spec states"
    and "\<forall>n. map_of states n \<noteq> Some StQueued"
    and "\<exists>n. map_of states n = Some StPending"
  shows "ready_steps spec states \<noteq> [] \<or> cascade_skips spec states \<noteq> []"
proof -
  have "\<exists>n. n \<in> fst ` set (ws_steps spec) \<and> map_of states n = Some StPending"
    using assms(2,4) unfolding covers_def by (metis domI dom_map_of_conv_image_fst)
  from pending_has_source [OF assms(1) this] obtain n step where
    n: "(n, step) \<in> set (ws_steps spec)" "map_of states n = Some StPending"
      "\<forall>d\<in>set (ss_after step). map_of states d \<noteq> Some StPending" by blast
  show ?thesis
  proof (cases "\<forall>d\<in>set (ss_after step). map_of states d = Some StSucceeded")
    case True
    with n(1,2) have "n \<in> set (ready_steps spec states)" by (intro ready_stepsI)
    then show ?thesis by auto
  next
    case False
    then obtain d where d: "d \<in> set (ss_after step)" "map_of states d \<noteq> Some StSucceeded" by blast
    have mem: "d \<in> fst ` set (ws_steps spec)"
      using n(1) d(1) assms(1) by (auto simp: spec_ok_def step_ok_def)
    then obtain s where s: "map_of states d = Some s"
      using assms(2) unfolding covers_def by (metis domD dom_map_of_conv_image_fst)
    with d n(3) assms(3) step_state_cases [of s] have "is_bad_ending s" by auto
    with s have "ended_badly states d" by (simp add: ended_badly_def)
    with cascade_skipsI [OF n(1,2) mem _ d(1)] show ?thesis by blast
  qed
qed

text \<open>
  C18. A validated plan never stalls: while no step is in flight and some step is pending, either
  a step can be started or a step has to be skipped.
\<close>

theorem plan_never_stalls:
  assumes "spec_ok spec" "covers spec states"
    and "\<forall>n. map_of states n \<noteq> Some StQueued"
    and "\<exists>n. map_of states n = Some StPending"
  shows "ready_steps spec states \<noteq> [] \<or> cascade_skips spec states \<noteq> []"
  by (rule plan_moves [OF assms])

theorem plan_never_stalls_witness:
  "ready_steps demo_spec [(''a'', StSucceeded), (''b'', StFailed), (''join'', StPending)] = []
   \<and> cascade_skips demo_spec [(''a'', StSucceeded), (''b'', StFailed), (''join'', StPending)] \<noteq> []"
proof -
  let ?states = "[(''a'', StSucceeded), (''b'', StFailed), (''join'', StPending)]"
  have "covers demo_spec ?states" by (simp add: covers_def demo_spec_def)
  moreover have "\<forall>n. map_of ?states n \<noteq> Some StQueued" by simp
  moreover have "\<exists>n. map_of ?states n = Some StPending" by (rule exI [of _ "''join''"]) simp
  ultimately have "ready_steps demo_spec ?states \<noteq> [] \<or> cascade_skips demo_spec ?states \<noteq> []"
    by (rule plan_never_stalls [OF demo_spec_ok])
  moreover have "ready_steps demo_spec ?states = []" by code_simp
  ultimately show ?thesis by simp
qed

section \<open>Rendering\<close>

lemma strip_prefix_contains: "strip_prefix p s = Some r \<Longrightarrow> str_contains p s"
  by (subst str_contains_def, subst split_first.simps) (simp add: strip_prefix_def split: if_splits)

lemma render_string_plain: "\<not> str_contains ''{{'' s \<Longrightarrow> render_string print s results = Inr (JString s)"
  using strip_prefix_contains [of "''{{''" s]
  by (cases "strip_prefix ''{{'' s") (auto simp: render_string_def interpolate_def)

lemma render_plain:
  "\<not> has_template v \<Longrightarrow> render_params print results v = Inr v"
  and render_plain_items:
  "\<forall>v\<in>set vs. \<not> has_template v \<Longrightarrow> render_items print results vs = Inr vs"
  and render_plain_entries:
  "\<forall>e\<in>set obj. \<not> has_template (snd e) \<Longrightarrow> render_entries print results obj = Inr obj"
  by (induction print results v and print results vs and print results obj rule: render_params_render_items_render_entries.induct)
    (auto simp: render_string_plain)

definition extends :: "results \<Rightarrow> results \<Rightarrow> bool" where
  "extends results results' \<longleftrightarrow> (\<forall>k v. map_of results k = Some v \<longrightarrow> map_of results' k = Some v)"

lemma resolve_extends:
  "extends results results' \<Longrightarrow> resolve expr results = Inr v \<Longrightarrow> resolve expr results' = Inr v"
  by (auto simp: resolve_def extends_def split: list.splits if_splits option.splits)

lemma interpolate_loop_extends:
  "extends results results' \<Longrightarrow> interpolate_loop print s results out rest = Inr v
   \<Longrightarrow> interpolate_loop print s results' out rest = Inr v"
proof (induction print s results out rest rule: interpolate_loop.induct)
  case (1 print s results out rest)
  show ?case
  proof (cases "split_first ''{{'' rest")
    case None
    with 1(3) show ?thesis by (simp add: interpolate_loop.simps)
  next
    case (Some x)
    obtain before after where x: "x = (before, after)" by (rule prod.exhaust)
    show ?thesis
    proof (cases "split_first ''}}'' after")
      case None
      with 1(3) Some x show ?thesis by (simp add: interpolate_loop.simps)
    next
      case close: (Some y)
      obtain expr rest' where y: "y = (expr, rest')" by (rule prod.exhaust)
      from 1(3) Some x close y obtain w where w: "resolve (trim expr) results = Inr w"
        by (cases "resolve (trim expr) results") (simp_all add: interpolate_loop.simps)
      have step: "interpolate_loop print s r out rest = interpolate_loop print s r (out @ before @ value_text print w) rest'"
        if "resolve (trim expr) r = Inr w" for r
        using Some x close y that by (subst interpolate_loop.simps) simp
      have "interpolate_loop print s results (out @ before @ value_text print w) rest' = Inr v"
        using 1(3) step [OF w] by simp
      from 1(1) [OF Some x [symmetric] close y [symmetric] w 1(2) this] step [OF resolve_extends [OF 1(2) w]] show ?thesis by simp
    qed
  qed
qed

lemma render_string_extends:
  "extends results results' \<Longrightarrow> render_string print s results = Inr v \<Longrightarrow> render_string print s results' = Inr v"
proof -
  assume ext: "extends results results'" and r: "render_string print s results = Inr v"
  have inter: "interpolate print s results = Inr v \<Longrightarrow> interpolate print s results' = Inr v"
    using interpolate_loop_extends [OF ext] by (auto simp: interpolate_def)
  show ?thesis
  proof (cases "strip_prefix ''{{'' s")
    case None
    with r inter show ?thesis by (simp add: render_string_def)
  next
    case (Some rest)
    show ?thesis
    proof (cases "strip_suffix ''}}'' rest")
      case None
      with Some r inter show ?thesis by (simp add: render_string_def)
    next
      case (Some expr)
      with \<open>strip_prefix ''{{'' s = Some rest\<close> r inter resolve_extends [OF ext] show ?thesis
        by (auto simp: render_string_def split: if_splits)
    qed
  qed
qed

lemma render_extends:
  "extends results results' \<Longrightarrow> render_params print results t = Inr v \<Longrightarrow> render_params print results' t = Inr v"
  and render_items_extends:
  "extends results results' \<Longrightarrow> render_items print results ts = Inr vs \<Longrightarrow> render_items print results' ts = Inr vs"
  and render_entries_extends:
  "extends results results' \<Longrightarrow> render_entries print results obj = Inr es \<Longrightarrow> render_entries print results' obj = Inr es"
proof (induction print results t and print results ts and print results obj arbitrary: v and vs and es
    rule: render_params_render_items_render_entries.induct)
  case (1 print results s)
  then show ?case by (simp add: render_string_extends)
next
  case (2 print results items)
  then show ?case by (cases "render_items print results items") auto
next
  case (3 print results obj)
  then show ?case by (cases "render_entries print results obj") auto
next
  case (6 print results t ts)
  then show ?case
    by (cases "render_params print results t"; cases "render_items print results ts") auto
next
  case (8 print results k t obj)
  then show ?case
    by (cases "render_params print results t"; cases "render_entries print results obj") auto
qed auto

lemma whole_reference:
  assumes "\<not> str_contains ''}}'' expr"
  shows "render_params print results (JString (''{{'' @ expr @ ''}}'')) = resolve (trim expr) results"
  using assms by (simp add: render_string_def strip_prefix_def strip_suffix_def)

end
