(* ===== verification/Registry.thy ===== *)
theory Registry
  imports Text
begin

text \<open>
  What the doors that create work share: a registered app as far as they read it (its default
  params, the schema of its manifest, the target a job acts on), the merge of a caller's params over
  the defaults (\<open>crates/server/src/routes/jobs.rs\<close>) and the two questions asked of the registry
  (\<open>crates/server/src/mcp/mod.rs\<close>). Apps are trait objects, so a registry is a function from names;
  \<open>check\<close> is the verdict of a schema on params.
\<close>

record app_entry =
  ap_default_params :: json
  ap_params_schema :: "json option"
  ap_target_key :: "json \<Rightarrow> string option"

type_synonym registry = "string \<Rightarrow> app_entry option"

definition merge_params :: "json \<Rightarrow> json option \<Rightarrow> json" where
  "merge_params defaults over =
     (case over of
        None \<Rightarrow> defaults
      | Some (JObject entries) \<Rightarrow>
          (case defaults of
             JObject base \<Rightarrow> JObject (foldl (\<lambda>m (k, v). btree_insert k v m) base entries)
           | _ \<Rightarrow> JObject entries)
      | Some v \<Rightarrow> v)"

definition validate_app_params ::
  "registry \<Rightarrow> (json \<Rightarrow> json \<Rightarrow> string option) \<Rightarrow> string \<Rightarrow> json \<Rightarrow> string option" where
  "validate_app_params apps check app params =
     (case apps app of
        None \<Rightarrow> None
      | Some entry \<Rightarrow>
          (case ap_params_schema entry of
             None \<Rightarrow> None
           | Some schema \<Rightarrow> check schema params))"

definition target_key_for :: "registry \<Rightarrow> string \<Rightarrow> json \<Rightarrow> string option" where
  "target_key_for apps app params =
     (case apps app of None \<Rightarrow> None | Some entry \<Rightarrow> ap_target_key entry params)"

text \<open>
  \<open>errors\<close> is the schema library: \<open>None\<close> for a schema that does not compile, and else the
  violations, each already formatted with its JSON pointer.
\<close>

definition validate_params :: "(json \<Rightarrow> json \<Rightarrow> string list option) \<Rightarrow> json \<Rightarrow> json \<Rightarrow> string option" where
  "validate_params errors schema params =
     (case errors schema params of
        None \<Rightarrow> None
      | Some es \<Rightarrow>
          if es = [] then None else Some (''params failed the app's schema: '' @ join_with ''; '' es))"

end
