(* ===== verification/Workflow_Engine.thy ===== *)
theory Workflow_Engine
  imports Workflow_Plan Job_Store Registry
begin

text \<open>
  The workflow engine: the workflow tables and their statements
  (\<open>crates/core/src/storage.rs\<close>) and the engine over them and the job queue
  (\<open>crates/server/src/workflow.rs\<close>). A column that holds a job id holds the id itself, not its
  text. The clock, the fresh identifiers, the app registry, the JSON-schema validator, the JSON
  printer, SQLite's \<open>SUM\<close> and the cron parser are the fields of \<open>wf_env\<close>. The lemmas on
  the engine are in \<open>Workflow_Runs\<close>.
\<close>

section \<open>Tables\<close>

record WorkflowDef =
  wd_id :: string
  wd_name :: string
  wd_spec :: json
  wd_cron :: "string option"
  wd_enabled :: bool
  wd_created_at :: time

record WorkflowRun =
  wr_id :: string
  wr_def_id :: string
  wr_status :: string
  wr_budget_usd :: "rat option"
  wr_spent_usd :: rat
  wr_idempotency_key :: "string option"
  wr_principal_id :: "string option"
  wr_root_id :: string
  wr_error :: "wf_error option"
  wr_started_at :: time
  wr_finished_at :: "time option"

record WorkflowStepRow =
  wt_run_id :: string
  wt_step :: string
  wt_job_id :: "uuid option"
  wt_depends_on :: "string list"
  wt_status :: string
  wt_result :: "json option"
  wt_error :: "wf_error option"
  wt_finished_at :: "time option"

datatype wf_event = JobEvent uuid string string | RunEvent string string string

record wf_store =
  wf_queue :: store
  wf_defs :: "WorkflowDef list"
  wf_runs :: "WorkflowRun list"
  wf_steps :: "WorkflowStepRow list"
  wf_costs :: "(uuid \<times> rat) list"
  wf_events :: "wf_event list"

record wf_env =
  env_now :: time
  env_registry :: registry
  env_validate :: "json \<Rightarrow> json \<Rightarrow> string option"
  env_print :: "json \<Rightarrow> string"
  env_sum :: "rat list \<Rightarrow> rat"
  env_fresh_job :: "string \<Rightarrow> string \<Rightarrow> uuid"
  env_fresh_run :: "string \<Rightarrow> string"
  env_cron :: "string \<Rightarrow> (time \<Rightarrow> time option) option"

section \<open>Statements\<close>

definition get_workflow :: "string \<Rightarrow> wf_store \<Rightarrow> WorkflowDef option" where
  "get_workflow id_or_name st =
     find (\<lambda>d. wd_id d = id_or_name \<or> wd_name d = id_or_name) (wf_defs st)"

definition scheduled_workflows :: "wf_store \<Rightarrow> WorkflowDef list" where
  "scheduled_workflows st =
     sort_key wd_name (filter (\<lambda>d. wd_enabled d \<and> wd_cron d \<noteq> None) (wf_defs st))"

definition get_workflow_run :: "string \<Rightarrow> wf_store \<Rightarrow> WorkflowRun option" where
  "get_workflow_run run_id st = find (\<lambda>r. wr_id r = run_id) (wf_runs st)"

definition workflow_run_by_key :: "string \<Rightarrow> wf_store \<Rightarrow> WorkflowRun option" where
  "workflow_run_by_key key st = find (\<lambda>r. wr_idempotency_key r = Some key) (wf_runs st)"

definition latest_workflow_run :: "string \<Rightarrow> wf_store \<Rightarrow> (string \<times> string) option" where
  "latest_workflow_run def_id st =
     (case rev (sort_key (\<lambda>r. (wr_started_at r, wr_id r))
                  (filter (\<lambda>r. wr_def_id r = def_id) (wf_runs st))) of
        [] \<Rightarrow> None
      | r # _ \<Rightarrow> Some (wr_id r, wr_status r))"

definition create_workflow_run ::
  "wf_env \<Rightarrow> string \<Rightarrow> rat option \<Rightarrow> string option \<Rightarrow> string option \<Rightarrow> wf_store
   \<Rightarrow> (wf_store \<times> WorkflowRun \<times> bool) option" where
  "create_workflow_run env def_id budget_usd idempotency_key principal_id st =
     (case Option.bind idempotency_key (\<lambda>key. workflow_run_by_key key st) of
        Some existing \<Rightarrow> Some (st, existing, False)
      | None \<Rightarrow>
          let i = env_fresh_run env def_id;
              run = \<lparr>wr_id = i, wr_def_id = def_id, wr_status = ''running'',
                     wr_budget_usd = budget_usd, wr_spent_usd = 0,
                     wr_idempotency_key = idempotency_key, wr_principal_id = principal_id,
                     wr_root_id = i, wr_error = None, wr_started_at = env_now env,
                     wr_finished_at = None\<rparr>
          in if \<exists>r\<in>set (wf_runs st). wr_id r = i then None
             else Some (st\<lparr>wf_runs := wf_runs st @ [run]\<rparr>, run, True))"

definition cell :: "string \<Rightarrow> string \<Rightarrow> WorkflowStepRow \<Rightarrow> bool" where
  "cell run_id step r \<longleftrightarrow> wt_run_id r = run_id \<and> wt_step r = step"

definition update_steps ::
  "(WorkflowStepRow \<Rightarrow> bool) \<Rightarrow> (WorkflowStepRow \<Rightarrow> WorkflowStepRow) \<Rightarrow> wf_store \<Rightarrow> wf_store" where
  "update_steps p f st = st\<lparr>wf_steps := update_where p f (wf_steps st)\<rparr>"

definition new_step_row :: "string \<Rightarrow> string \<times> string list \<Rightarrow> WorkflowStepRow" where
  "new_step_row run_id c =
     \<lparr>wt_run_id = run_id, wt_step = fst c, wt_job_id = None, wt_depends_on = snd c,
      wt_status = ''pending'', wt_result = None, wt_error = None, wt_finished_at = None\<rparr>"

text \<open>One transaction: a cell that exists, or a name given twice, rolls it back.\<close>

definition insert_workflow_steps ::
  "string \<Rightarrow> (string \<times> string list) list \<Rightarrow> wf_store \<Rightarrow> wf_store option" where
  "insert_workflow_steps run_id cells st =
     (if distinct (map fst cells)
         \<and> \<not> (\<exists>r\<in>set (wf_steps st). wt_run_id r = run_id \<and> wt_step r \<in> set (map fst cells))
      then Some (st\<lparr>wf_steps := wf_steps st @ map (new_step_row run_id) cells\<rparr>)
      else None)"

definition workflow_steps :: "string \<Rightarrow> wf_store \<Rightarrow> WorkflowStepRow list" where
  "workflow_steps run_id st =
     sort_key wt_step (filter (\<lambda>r. wt_run_id r = run_id) (wf_steps st))"

definition workflow_step_for_job :: "uuid \<Rightarrow> wf_store \<Rightarrow> (string \<times> string) option" where
  "workflow_step_for_job job_id st =
     map_option (\<lambda>r. (wt_run_id r, wt_step r)) (find (\<lambda>r. wt_job_id r = Some job_id) (wf_steps st))"

definition claim_workflow_step :: "string \<Rightarrow> string \<Rightarrow> wf_store \<Rightarrow> wf_store \<times> bool" where
  "claim_workflow_step run_id step st =
     (let p = (\<lambda>r. cell run_id step r \<and> wt_status r = ''pending'')
      in (update_steps p (\<lambda>r. r\<lparr>wt_status := ''queued''\<rparr>) st, 0 < rows_affected p (wf_steps st)))"

definition set_workflow_step_job :: "string \<Rightarrow> string \<Rightarrow> uuid \<Rightarrow> wf_store \<Rightarrow> wf_store" where
  "set_workflow_step_job run_id step job_id st =
     update_steps (cell run_id step) (\<lambda>r. r\<lparr>wt_job_id := Some job_id\<rparr>) st"

definition open_cell :: "string \<Rightarrow> string \<Rightarrow> WorkflowStepRow \<Rightarrow> bool" where
  "open_cell run_id step r \<longleftrightarrow> cell run_id step r \<and> wt_status r \<in> {''pending'', ''queued''}"

definition finish_workflow_step ::
  "time \<Rightarrow> string \<Rightarrow> string \<Rightarrow> string \<Rightarrow> json option \<Rightarrow> wf_error option \<Rightarrow> wf_store \<Rightarrow> wf_store \<times> bool" where
  "finish_workflow_step now run_id step status res err st =
     (update_steps (open_cell run_id step)
        (\<lambda>r. r\<lparr>wt_status := status, wt_result := res, wt_error := err, wt_finished_at := Some now\<rparr>) st,
      0 < rows_affected (open_cell run_id step) (wf_steps st))"

definition open_workflow_steps :: "string \<Rightarrow> wf_store \<Rightarrow> (string \<times> uuid option) list" where
  "open_workflow_steps run_id st =
     map (\<lambda>r. (wt_step r, wt_job_id r))
       (filter (\<lambda>r. wt_status r \<in> {''pending'', ''queued''}) (workflow_steps run_id st))"

definition running_run :: "string \<Rightarrow> WorkflowRun \<Rightarrow> bool" where
  "running_run run_id r \<longleftrightarrow> wr_id r = run_id \<and> wr_status r = ''running''"

definition finish_workflow_run ::
  "time \<Rightarrow> string \<Rightarrow> string \<Rightarrow> wf_error option \<Rightarrow> wf_store \<Rightarrow> wf_store \<times> bool" where
  "finish_workflow_run now run_id status err st =
     (st\<lparr>wf_runs := update_where (running_run run_id)
          (\<lambda>r. r\<lparr>wr_status := status, wr_error := err, wr_finished_at := Some now\<rparr>) (wf_runs st)\<rparr>,
      0 < rows_affected (running_run run_id) (wf_runs st))"

definition refresh_workflow_spend :: "wf_env \<Rightarrow> string \<Rightarrow> wf_store \<Rightarrow> wf_store" where
  "refresh_workflow_spend env run_id st =
     (let mine = map j_id (filter (\<lambda>j. j_workflow_run_id j = Some run_id) (jobs (wf_queue st)));
          spent = env_sum env (map snd (filter (\<lambda>c. fst c \<in> set mine) (wf_costs st)))
      in st\<lparr>wf_runs := update_where (\<lambda>r. wr_id r = run_id) (\<lambda>r. r\<lparr>wr_spent_usd := spent\<rparr>) (wf_runs st)\<rparr>)"

section \<open>The engine\<close>

definition ADVANCE_ROUNDS_PER_STEP :: nat where
  "ADVANCE_ROUNDS_PER_STEP = 3"

definition emit :: "string \<Rightarrow> string \<Rightarrow> string \<Rightarrow> wf_store \<Rightarrow> wf_store" where
  "emit run_id name status st =
     st\<lparr>wf_events := wf_events st @ [RunEvent run_id name (''workflow.'' @ status)]\<rparr>"

definition states_of :: "WorkflowStepRow list \<Rightarrow> states" where
  "states_of rows =
     map (\<lambda>r. (wt_step r, case step_state_parse (wt_status r) of Some s \<Rightarrow> s | None \<Rightarrow> StPending)) rows"

definition results_of :: "WorkflowStepRow list \<Rightarrow> results" where
  "results_of rows =
     map (\<lambda>r. (wt_step r, case wt_result r of Some v \<Rightarrow> v | None \<Rightarrow> JNull))
       (filter (\<lambda>r. wt_status r = ''succeeded'') rows)"

text \<open>The checks before the claim: the params and the budget the step's job would carry.\<close>

definition step_admission ::
  "wf_env \<Rightarrow> WorkflowRun \<Rightarrow> string \<Rightarrow> StepSpec \<Rightarrow> results \<Rightarrow> wf_error + json \<times> rat option" where
  "step_admission env run step step_spec results =
     (case render_params (env_print env) results (ss_params step_spec) of
        Inl e \<Rightarrow> Inl (Template e)
      | Inr rendered \<Rightarrow>
          (case env_registry env (ss_app step_spec) of
             None \<Rightarrow> Inl (AppNotRegistered step (ss_app step_spec))
           | Some entry \<Rightarrow>
               let params = merge_params (ap_default_params entry) (Some rendered)
               in (case validate_app_params (env_registry env) (env_validate env) (ss_app step_spec) params of
                     Some e \<Rightarrow> Inl (ParamsInvalid e)
                   | None \<Rightarrow>
                       map_sum id (\<lambda>budget. (params, budget))
                         (step_budget (ss_budget_usd step_spec) (wr_budget_usd run) (wr_spent_usd run)))))"

definition step_options ::
  "wf_env \<Rightarrow> WorkflowRun \<Rightarrow> string \<Rightarrow> StepSpec \<Rightarrow> json \<Rightarrow> rat option \<Rightarrow> EnqueueOptions" where
  "step_options env run step step_spec params budget =
     \<lparr>o_params = params,
      o_max_attempts = min 25 (max 1 (case ss_max_attempts step_spec of Some n \<Rightarrow> n | None \<Rightarrow> 1)),
      o_delay_secs = 0,
      o_priority = (case ss_priority step_spec of Some n \<Rightarrow> n | None \<Rightarrow> 0),
      o_callback_url = None, o_callback_secret = None, o_budget_usd = budget,
      o_idempotency_key = Some (''wf:'' @ wr_id run @ '':'' @ step),
      o_schedule_id = None, o_trigger_id = None, o_source_job_id = None,
      o_target_key = target_key_for (env_registry env) (ss_app step_spec) params,
      o_workflow_run_id = Some (wr_id run), o_workflow_step = Some step,
      o_root_id = Some (wr_root_id run)\<rparr>"

definition enqueue_step ::
  "wf_env \<Rightarrow> WorkflowRun \<Rightarrow> WorkflowSpec \<Rightarrow> string \<Rightarrow> results \<Rightarrow> wf_store \<Rightarrow> wf_store \<times> (wf_error + bool)" where
  "enqueue_step env run spec step results st =
     (case map_of (ws_steps spec) step of
        None \<Rightarrow> (st, Inl (StepNotInSpec step))
      | Some step_spec \<Rightarrow>
          (case step_admission env run step step_spec results of
             Inl e \<Rightarrow> (st, Inl e)
           | Inr (params, budget) \<Rightarrow>
               (case claim_workflow_step (wr_id run) step st of
                  (st1, False) \<Rightarrow> (st1, Inr False)
                | (st1, True) \<Rightarrow>
                    (case enqueue_dedup_as (env_fresh_job env (wr_id run) step) (env_now env)
                            (ss_app step_spec) (step_options env run step step_spec params budget)
                            (wr_principal_id run) (wf_queue st1) of
                       (q, Inl e) \<Rightarrow> (st1\<lparr>wf_queue := q\<rparr>, Inl EnqueueFailed)
                     | (q, Inr (job, _)) \<Rightarrow>
                         (set_workflow_step_job (wr_id run) step (j_id job) (st1\<lparr>wf_queue := q\<rparr>),
                          Inr True)))))"

fun apply_skips ::
  "time \<Rightarrow> string \<Rightarrow> (string \<times> wf_error) list \<Rightarrow> wf_store \<Rightarrow> wf_store \<times> bool" where
  "apply_skips now run_id [] st = (st, False)"
| "apply_skips now run_id ((step, reason) # skips) st =
     (case finish_workflow_step now run_id step ''skipped'' None (Some reason) st of
        (st1, b) \<Rightarrow>
          (case apply_skips now run_id skips st1 of (st2, changed) \<Rightarrow> (st2, b \<or> changed)))"

text \<open>The loop over the ready steps, with whether a step was enqueued and whether one failed.\<close>

fun start_ready ::
  "wf_env \<Rightarrow> WorkflowRun \<Rightarrow> WorkflowSpec \<Rightarrow> results \<Rightarrow> string list \<Rightarrow> wf_store \<Rightarrow> wf_store \<times> bool \<times> bool" where
  "start_ready env run spec results [] st = (st, False, False)"
| "start_ready env run spec results (step # ready) st =
     (case enqueue_step env run spec step results st of
        (st1, Inr b) \<Rightarrow>
          (case start_ready env run spec results ready st1 of
             (st2, enqueued, failed) \<Rightarrow> (st2, b \<or> enqueued, failed))
      | (st1, Inl reason) \<Rightarrow>
          (case finish_workflow_step (env_now env) (wr_id run) step ''failed'' None (Some reason) st1 of
             (st2, b) \<Rightarrow>
               (case start_ready env run spec results ready st2 of
                  (st3, enqueued, failed) \<Rightarrow> (st3, enqueued, b \<or> failed))))"

text \<open>One iteration of \<open>advance\<close> after its guards; \<open>True\<close> is \<open>continue\<close>.\<close>

definition advance_round ::
  "wf_env \<Rightarrow> WorkflowRun \<Rightarrow> WorkflowDef \<Rightarrow> WorkflowSpec \<Rightarrow> wf_store \<Rightarrow> wf_store \<times> bool" where
  "advance_round env run def spec st =
     (let rows = workflow_steps (wr_id run) st;
          states = states_of rows;
          results = results_of rows
      in case apply_skips (env_now env) (wr_id run) (cascade_skips spec states) st of
           (st1, changed) \<Rightarrow>
             if changed then (st1, True)
             else (case start_ready env run spec results (ready_steps spec states) st1 of
               (st2, enqueued_any, failed_any) \<Rightarrow>
                 if failed_any then (st2, True)
                 else if enqueued_any then (st2, False)
                 else (case run_verdict states of
                         None \<Rightarrow> (st2, False)
                       | Some (status, err) \<Rightarrow>
                           (case finish_workflow_run (env_now env) (wr_id run) status err st2 of
                              (st3, b) \<Rightarrow> (if b then emit (wr_id run) (wd_name def) status st3 else st3, False)))))"

datatype advance_error = RefusedToSpin nat

function advance_loop ::
  "wf_env \<Rightarrow> string \<Rightarrow> nat \<Rightarrow> wf_store \<Rightarrow> wf_store \<times> (advance_error + unit)" where
  "advance_loop env run_id rounds st =
     (case get_workflow_run run_id st of
        None \<Rightarrow> (st, Inr ())
      | Some run \<Rightarrow>
          if wr_status run \<noteq> ''running'' then (st, Inr ())
          else (case get_workflow (wr_def_id run) st of
             None \<Rightarrow> (fst (finish_workflow_run (env_now env) run_id ''failed'' (Some DefDeleted) st), Inr ())
           | Some def \<Rightarrow>
               (case parse_spec (wd_spec def) of
                  Inl errs \<Rightarrow>
                    (emit run_id (wd_name def) ''failed''
                       (fst (finish_workflow_run (env_now env) run_id ''failed''
                               (Some (SpecInvalid errs)) st)), Inr ())
                | Inr spec \<Rightarrow>
                    if length (ws_steps spec) * ADVANCE_ROUNDS_PER_STEP + 4 < Suc rounds
                    then (st, Inl (RefusedToSpin (Suc rounds)))
                    else (case advance_round env run def spec st of
                            (st', True) \<Rightarrow> advance_loop env run_id (Suc rounds) st'
                          | (st', False) \<Rightarrow> (st', Inr ())))))"
  by pat_completeness auto

termination
proof (relation "measure (\<lambda>(env, run_id, rounds, st). MAX_STEPS * ADVANCE_ROUNDS_PER_STEP + 4 - rounds)",
    goal_cases)
  case 1
  show ?case by simp
next
  case (2 env run_id rounds st run def spec)
  from 2(4) have "spec_ok spec" by (rule parse_spec_sound_lemma)
  then have "length (ws_steps spec) \<le> MAX_STEPS" by (simp add: spec_ok_def)
  then have "length (ws_steps spec) * ADVANCE_ROUNDS_PER_STEP \<le> MAX_STEPS * ADVANCE_ROUNDS_PER_STEP"
    by (rule mult_le_mono1)
  with 2(5) have "rounds < MAX_STEPS * ADVANCE_ROUNDS_PER_STEP + 4" by linarith
  then show ?case by simp
qed

declare advance_loop.simps [simp del]

definition advance :: "wf_env \<Rightarrow> string \<Rightarrow> wf_store \<Rightarrow> wf_store \<times> (advance_error + unit)" where
  "advance env run_id st = advance_loop env run_id 0 st"

datatype start_error = StartSpec "spec_error list" | StartStore | StartAdvance advance_error

definition start_run ::
  "wf_env \<Rightarrow> WorkflowDef \<Rightarrow> rat option \<Rightarrow> string option \<Rightarrow> string option \<Rightarrow> wf_store
   \<Rightarrow> wf_store \<times> (start_error + WorkflowRun \<times> bool)" where
  "start_run env def budget_usd idempotency_key principal_id st =
     (case parse_spec (wd_spec def) of
        Inl errs \<Rightarrow> (st, Inl (StartSpec errs))
      | Inr spec \<Rightarrow>
          (case create_workflow_run env (wd_id def)
                  (case budget_usd of Some b \<Rightarrow> Some b | None \<Rightarrow> ws_budget_usd spec)
                  idempotency_key principal_id st of
             None \<Rightarrow> (st, Inl StartStore)
           | Some (st1, run, False) \<Rightarrow> (st1, Inr (run, False))
           | Some (st1, run, True) \<Rightarrow>
               (case insert_workflow_steps (wr_id run)
                       (map (\<lambda>(name, step). (name, ss_after step)) (ws_steps spec)) st1 of
                  None \<Rightarrow> (st1, Inl StartStore)
                | Some st2 \<Rightarrow>
                    (case advance env (wr_id run) (emit (wr_id run) (wd_name def) ''running'' st2) of
                       (st3, Inl e) \<Rightarrow> (st3, Inl (StartAdvance e))
                     | (st3, Inr _) \<Rightarrow>
                         (st3, Inr (case get_workflow_run (wr_id run) st3 of
                                      Some run' \<Rightarrow> run' | None \<Rightarrow> run, True))))))"

definition terminal_step_status :: "JobStatus \<Rightarrow> StepState" where
  "terminal_step_status s =
     (case s of Succeeded \<Rightarrow> StSucceeded | Cancelled \<Rightarrow> StCancelled | _ \<Rightarrow> StFailed)"

definition on_step_terminal :: "wf_env \<Rightarrow> job_row \<Rightarrow> wf_store \<Rightarrow> wf_store" where
  "on_step_terminal env job st =
     (if \<not> is_terminal (j_status job) then st
      else (case workflow_step_for_job (j_id job) st of
              None \<Rightarrow> st
            | Some (run_id, step) \<Rightarrow>
                (case finish_workflow_step (env_now env) run_id step
                        (step_state_as_str (terminal_step_status (j_status job)))
                        (j_result job) (map_option JobError (j_error job)) st of
                   (st1, False) \<Rightarrow> st1
                 | (st1, True) \<Rightarrow> fst (advance env run_id (refresh_workflow_spend env run_id st1)))))"

text \<open>
  \<open>DELETE /jobs/{id}\<close>: a queued job is cancelled in the store; a running job whose token this
  node holds is told to stop and its own worker records the outcome; anything else is refused.
\<close>

definition cancel_job :: "wf_env \<Rightarrow> uuid set \<Rightarrow> uuid \<Rightarrow> wf_store \<Rightarrow> wf_store \<times> bool" where
  "cancel_job env tokens i st =
     (case cancel (env_now env) i (wf_queue st) of
        (q, Some app) \<Rightarrow>
          (st\<lparr>wf_queue := q, wf_events := wf_events st @ [JobEvent i app ''cancelled'']\<rparr>, True)
      | (q, None) \<Rightarrow> (st\<lparr>wf_queue := q\<rparr>, i \<in> tokens))"

fun cancel_open_steps ::
  "wf_env \<Rightarrow> uuid set \<Rightarrow> string \<Rightarrow> (string \<times> uuid option) list \<Rightarrow> wf_store \<Rightarrow> wf_store \<times> nat" where
  "cancel_open_steps env tokens run_id [] st = (st, 0)"
| "cancel_open_steps env tokens run_id ((step, job_id) # rest) st =
     (case (case job_id of None \<Rightarrow> (st, False) | Some i \<Rightarrow> cancel_job env tokens i st) of
        (st1, b) \<Rightarrow>
          (case finish_workflow_step (env_now env) run_id step ''cancelled'' None (Some RunCancelled) st1 of
             (st2, _) \<Rightarrow>
               (case cancel_open_steps env tokens run_id rest st2 of
                  (st3, n) \<Rightarrow> (st3, n + (if b then 1 else 0)))))"

definition cancel_run :: "wf_env \<Rightarrow> uuid set \<Rightarrow> string \<Rightarrow> wf_store \<Rightarrow> wf_store \<times> nat" where
  "cancel_run env tokens run_id st =
     (case cancel_open_steps env tokens run_id (open_workflow_steps run_id st) st of
        (st1, n) \<Rightarrow>
          let st2 = fst (finish_workflow_run (env_now env) run_id ''cancelled'' (Some CancelledByRequest) st1)
          in (case Option.bind (get_workflow_run run_id st2) (\<lambda>run. get_workflow (wr_def_id run) st2) of
                Some def \<Rightarrow> (emit run_id (wd_name def) ''cancelled'' st2, n)
              | None \<Rightarrow> (st2, n)))"

definition workflow_due :: "wf_env \<Rightarrow> time option \<Rightarrow> WorkflowDef \<Rightarrow> bool" where
  "workflow_due env last_pass def =
     (case Option.bind (wd_cron def) (env_cron env) of
        None \<Rightarrow> False
      | Some after \<Rightarrow>
          (case last_pass of
             None \<Rightarrow> False
           | Some since \<Rightarrow> (case after since of Some t \<Rightarrow> t \<le> env_now env | None \<Rightarrow> False)))"

definition reconcile_one :: "wf_env \<Rightarrow> time option \<Rightarrow> wf_store \<Rightarrow> WorkflowDef \<Rightarrow> wf_store" where
  "reconcile_one env last_pass st def =
     (if \<not> workflow_due env last_pass def then st
      else (case latest_workflow_run (wd_id def) st of
              Some (_, status) \<Rightarrow>
                if status = ''running'' then st else fst (start_run env def None None None st)
            | None \<Rightarrow> fst (start_run env def None None None st)))"

definition reconcile_scheduled :: "wf_env \<Rightarrow> time option \<Rightarrow> wf_store \<Rightarrow> wf_store" where
  "reconcile_scheduled env last_pass st =
     foldl (reconcile_one env last_pass) st (scheduled_workflows st)"

end
