(* ===== verification/Workflow_Runs.thy ===== *)
theory Workflow_Runs
  imports Workflow_Engine
begin

text \<open>
  What the workflow engine guarantees. The statements on the step table are described by their
  effect on the status of each \<open>(run, step)\<close> cell; a join's claim succeeds at most once whatever
  other tasks do; \<open>advance\<close> ends within its bound and leaves a run that is closed or has a step
  in flight; a cancel closes every open step and the run. \<open>advance\<close> and \<open>cancel_run\<close> are taken as
  whole calls here, while the single claim of a join is proved under any interleaving of the
  statements they issue.
\<close>

section \<open>Cells\<close>

definition cells_ok :: "wf_store \<Rightarrow> bool" where
  "cells_ok st \<longleftrightarrow> distinct (map (\<lambda>r. (wt_run_id r, wt_step r)) (wf_steps st))"

definition cell_status :: "string \<Rightarrow> wf_store \<Rightarrow> string \<Rightarrow> string option" where
  "cell_status run_id st step = map_option wt_status (find (cell run_id step) (wf_steps st))"

lemma cell_key: "cell run_id step = (\<lambda>r. (wt_run_id r, wt_step r) = (run_id, step))"
  by (auto simp: cell_def)

lemma find_cell:
  "cells_ok st \<Longrightarrow> r \<in> set (wf_steps st) \<Longrightarrow> find (cell (wt_run_id r) (wt_step r)) (wf_steps st) = Some r"
  unfolding cells_ok_def cell_key by (rule find_distinct_key)

lemma find_cellD:
  "find (cell run_id step) (wf_steps st) = Some r \<Longrightarrow>
   r \<in> set (wf_steps st) \<and> wt_run_id r = run_id \<and> wt_step r = step"
  by (drule find_Some_mem) (simp add: cell_def)

lemma cell_status_mem:
  "cells_ok st \<Longrightarrow> cell_status run_id st step = Some s \<longleftrightarrow>
   (\<exists>r\<in>set (wf_steps st). cell run_id step r \<and> wt_status r = s)"
  using find_cell [of st] by (fastforce simp: cell_status_def cell_def dest!: find_cellD)

lemma steps_update_steps [simp]: "wf_steps (update_steps p f st) = update_where p f (wf_steps st)"
  by (simp add: update_steps_def)

lemma other_update_steps [simp]:
  "wf_runs (update_steps p f st) = wf_runs st" "wf_defs (update_steps p f st) = wf_defs st"
  "wf_queue (update_steps p f st) = wf_queue st"
  by (simp_all add: update_steps_def)

lemma cells_ok_update:
  assumes "\<And>r. wt_run_id (f r) = wt_run_id r" "\<And>r. wt_step (f r) = wt_step r"
  shows "cells_ok (update_steps p f st) \<longleftrightarrow> cells_ok st"
proof -
  have "map (\<lambda>r. (wt_run_id r, wt_step r)) (update_where p f (wf_steps st))
        = map (\<lambda>r. (wt_run_id r, wt_step r)) (wf_steps st)"
    by (rule map_update_where_same) (simp add: assms)
  then show ?thesis by (simp add: cells_ok_def)
qed

lemma cell_status_update:
  assumes "\<And>r. wt_run_id (f r) = wt_run_id r" "\<And>r. wt_step (f r) = wt_step r"
  shows "cell_status run_id (update_steps p f st) step
         = map_option (\<lambda>r. wt_status (if p r then f r else r)) (find (cell run_id step) (wf_steps st))"
proof -
  have "find (cell run_id step) (update_where p f (wf_steps st))
        = map_option (\<lambda>r. if p r then f r else r) (find (cell run_id step) (wf_steps st))"
    by (rule find_update_where_same) (simp add: cell_def assms)
  then show ?thesis by (simp add: cell_status_def option.map_comp comp_def)
qed

lemma cell_status_update_if:
  assumes "\<And>r. wt_run_id (f r) = wt_run_id r" "\<And>r. wt_step (f r) = wt_step r" "\<And>r. wt_status (f r) = s"
    and p: "\<And>r. p r \<longleftrightarrow> cell run_id step r \<and> Q (wt_status r)"
  shows "cell_status run' (update_steps p f st) step'
         = map_option (\<lambda>x. if run' = run_id \<and> step' = step \<and> Q x then s else x) (cell_status run' st step')"
proof (cases "find (cell run' step') (wf_steps st)")
  case None
  then show ?thesis by (simp add: cell_status_update assms(1,2)) (simp add: cell_status_def)
next
  case (Some r)
  from find_cellD [OF this] have "p r \<longleftrightarrow> run' = run_id \<and> step' = step \<and> Q (wt_status r)"
    by (auto simp: p cell_def)
  then show ?thesis
    unfolding cell_status_update [OF assms(1,2)]
    unfolding cell_status_def Some option.map by (simp add: assms(3))
qed

lemma rows_affected_cell:
  assumes "cells_ok st"
  shows "0 < rows_affected (\<lambda>r. cell run_id step r \<and> Q (wt_status r)) (wf_steps st)
         \<longleftrightarrow> (\<exists>s. cell_status run_id st step = Some s \<and> Q s)"
  unfolding rows_affected_pos cell_status_mem [OF assms] by blast

lemma claim_cell:
  assumes "cells_ok st"
  shows "snd (claim_workflow_step run_id step st) \<longleftrightarrow> cell_status run_id st step = Some ''pending''"
    and "cell_status run' (fst (claim_workflow_step run_id step st)) step'
         = (if run' = run_id \<and> step' = step \<and> cell_status run_id st step = Some ''pending''
            then Some ''queued'' else cell_status run' st step')"
    and "cells_ok (fst (claim_workflow_step run_id step st))"
proof -
  show "snd (claim_workflow_step run_id step st) \<longleftrightarrow> cell_status run_id st step = Some ''pending''"
    using rows_affected_cell [OF assms, of run_id step "\<lambda>s. s = ''pending''"]
    by (simp add: claim_workflow_step_def Let_def)
  show "cell_status run' (fst (claim_workflow_step run_id step st)) step'
         = (if run' = run_id \<and> step' = step \<and> cell_status run_id st step = Some ''pending''
            then Some ''queued'' else cell_status run' st step')"
    unfolding claim_workflow_step_def Let_def fst_conv
    by (subst cell_status_update_if [where Q = "\<lambda>x. x = ''pending''" and s = "''queued''"])
      (cases "cell_status run' st step'"; auto)+
  show "cells_ok (fst (claim_workflow_step run_id step st))"
    using assms by (simp add: claim_workflow_step_def Let_def cells_ok_update)
qed

lemma open_cell_fun:
  "open_cell run_id step = (\<lambda>r. cell run_id step r \<and> wt_status r \<in> {''pending'', ''queued''})"
  by (rule ext) (simp add: open_cell_def)

lemma finish_cell:
  assumes "cells_ok st"
  shows "snd (finish_workflow_step now run_id step status res err st)
         \<longleftrightarrow> cell_status run_id st step \<in> {Some ''pending'', Some ''queued''}"
    and "cell_status run' (fst (finish_workflow_step now run_id step status res err st)) step'
         = (if run' = run_id \<and> step' = step \<and> cell_status run_id st step \<in> {Some ''pending'', Some ''queued''}
            then Some status else cell_status run' st step')"
    and "cells_ok (fst (finish_workflow_step now run_id step status res err st))"
proof -
  show "snd (finish_workflow_step now run_id step status res err st)
         \<longleftrightarrow> cell_status run_id st step \<in> {Some ''pending'', Some ''queued''}"
    using rows_affected_cell [OF assms, of run_id step "\<lambda>s. s \<in> {''pending'', ''queued''}"]
    unfolding finish_workflow_step_def snd_conv open_cell_fun by auto
  show "cell_status run' (fst (finish_workflow_step now run_id step status res err st)) step'
         = (if run' = run_id \<and> step' = step \<and> cell_status run_id st step \<in> {Some ''pending'', Some ''queued''}
            then Some status else cell_status run' st step')"
    unfolding finish_workflow_step_def fst_conv
    by (subst cell_status_update_if [where Q = "\<lambda>x. x \<in> {''pending'', ''queued''}" and s = status])
      (cases "cell_status run' st step'"; auto simp: open_cell_def)+
  show "cells_ok (fst (finish_workflow_step now run_id step status res err st))"
    using assms by (simp add: finish_workflow_step_def cells_ok_update)
qed

lemma set_job_cell:
  "cell_status run' (set_workflow_step_job run_id step i st) step' = cell_status run' st step'"
  "cells_ok (set_workflow_step_job run_id step i st) \<longleftrightarrow> cells_ok st"
proof -
  show "cells_ok (set_workflow_step_job run_id step i st) \<longleftrightarrow> cells_ok st"
    by (simp add: set_workflow_step_job_def cells_ok_update)
  show "cell_status run' (set_workflow_step_job run_id step i st) step' = cell_status run' st step'"
    by (simp add: set_workflow_step_job_def cell_status_update)
      (cases "find (cell run' step') (wf_steps st)"; simp add: cell_status_def)
qed

lemma statement_frame [simp]:
  "wf_runs (fst (claim_workflow_step run_id step st)) = wf_runs st"
  "wf_defs (fst (claim_workflow_step run_id step st)) = wf_defs st"
  "wf_runs (fst (finish_workflow_step now run_id step status res err st)) = wf_runs st"
  "wf_defs (fst (finish_workflow_step now run_id step status res err st)) = wf_defs st"
  "wf_runs (set_workflow_step_job run_id step i st) = wf_runs st"
  "wf_defs (set_workflow_step_job run_id step i st) = wf_defs st"
  by (simp_all add: claim_workflow_step_def finish_workflow_step_def set_workflow_step_job_def Let_def)

lemma cells_of_queue [simp]:
  "cells_ok (st\<lparr>wf_queue := q\<rparr>) \<longleftrightarrow> cells_ok st"
  "cell_status run_id (st\<lparr>wf_queue := q\<rparr>) step = cell_status run_id st step"
  "cells_ok (st\<lparr>wf_runs := rs\<rparr>) \<longleftrightarrow> cells_ok st"
  "cell_status run_id (st\<lparr>wf_runs := rs\<rparr>) step = cell_status run_id st step"
  "cells_ok (emit r n s st) \<longleftrightarrow> cells_ok st"
  "cell_status run_id (emit r n s st) step = cell_status run_id st step"
  by (simp_all add: cells_ok_def cell_status_def emit_def)

section \<open>A join fires once\<close>

text \<open>
  One statement of any task, on any run: the claims, outcomes and job ids of steps, new runs and
  steps, run outcomes and spends, and whatever happens to the job queue.
\<close>

inductive wf_statement :: "wf_store \<Rightarrow> wf_store \<Rightarrow> bool" where
  claim: "wf_statement st (fst (claim_workflow_step run_id step st))"
| set_job: "wf_statement st (set_workflow_step_job run_id step i st)"
| finish: "status \<notin> {''pending'', ''queued''} \<Longrightarrow>
    wf_statement st (fst (finish_workflow_step now run_id step status res err st))"
| insert_steps: "insert_workflow_steps run_id cells st = Some st' \<Longrightarrow> wf_statement st st'"
| create_run: "create_workflow_run env def_id budget key prin st = Some (st', r) \<Longrightarrow> wf_statement st st'"
| finish_run: "wf_statement st (fst (finish_workflow_run now run_id status' err st))"
| spend: "wf_statement st (refresh_workflow_spend env run_id st)"
| queue: "wf_statement st (st\<lparr>wf_queue := q\<rparr>)"
| event: "wf_statement st (emit run_id name status' st)"

inductive_cases wf_statementE: "wf_statement st st'"

lemma find_append:
  "find p (xs @ ys) = (case find p xs of Some x \<Rightarrow> Some x | None \<Rightarrow> find p ys)"
  by (induction xs) auto

lemma insert_cells:
  assumes "insert_workflow_steps run_id cells st = Some st'" "cells_ok st"
  shows "cells_ok st'" and "cell_status run' st step = Some s \<Longrightarrow> cell_status run' st' step = Some s"
proof -
  let ?key = "\<lambda>r. (wt_run_id r, wt_step r)"
  have st': "st' = st\<lparr>wf_steps := wf_steps st @ map (new_step_row run_id) cells\<rparr>"
    and d: "distinct (map fst cells)"
    and f: "\<not> (\<exists>r\<in>set (wf_steps st). wt_run_id r = run_id \<and> wt_step r \<in> set (map fst cells))"
    using assms(1) by (auto simp: insert_workflow_steps_def split: if_splits)
  have keys: "map ?key (map (new_step_row run_id) cells) = map (\<lambda>n. (run_id, n)) (map fst cells)"
    by (simp add: new_step_row_def comp_def)
  have "distinct (map (\<lambda>n. (run_id, n)) (map fst cells))"
    using d by (simp add: distinct_map inj_on_def)
  moreover have "set (map ?key (wf_steps st)) \<inter> set (map (\<lambda>n. (run_id, n)) (map fst cells)) = {}"
    using f by auto
  moreover have "wf_steps st' = wf_steps st @ map (new_step_row run_id) cells" by (simp add: st')
  ultimately show "cells_ok st'"
    using assms(2) unfolding cells_ok_def by (simp only: map_append keys distinct_append)
  show "cell_status run' st' step = Some s" if "cell_status run' st step = Some s"
    using that by (auto simp: cell_status_def st' find_append split: option.splits)
qed

lemma create_run_cells:
  "create_workflow_run env def_id budget key prin st = Some (st', r) \<Longrightarrow>
   cells_ok st' = cells_ok st \<and> cell_status run' st' step = cell_status run' st step"
  by (auto simp: create_workflow_run_def Let_def split: option.splits if_splits)

lemma claimed_stays:
  assumes "wf_statement st st'" "cells_ok st" "cell_status run_id st step = Some s" "s \<noteq> ''pending''"
  shows "cells_ok st' \<and> (\<exists>s'. cell_status run_id st' step = Some s' \<and> s' \<noteq> ''pending'')"
  using assms(1)
proof cases
  case claim
  then show ?thesis using assms(2-4) by (auto simp: claim_cell)
next
  case set_job
  then show ?thesis using assms(2-4) by (auto simp: set_job_cell)
next
  case finish
  then show ?thesis using assms(2-4) by (auto simp: finish_cell)
next
  case (insert_steps r cells)
  then show ?thesis using insert_cells [OF insert_steps assms(2)] assms(3,4) by blast
next
  case (create_run env d b k p r)
  then show ?thesis using create_run_cells [OF create_run] assms(2-4) by simp
qed (use assms(2-4) in \<open>auto simp: finish_workflow_run_def refresh_workflow_spend_def Let_def\<close>)

lemma claimed_stays_star:
  "wf_statement\<^sup>*\<^sup>* st st' \<Longrightarrow> cells_ok st \<Longrightarrow> cell_status run_id st step = Some s \<Longrightarrow> s \<noteq> ''pending'' \<Longrightarrow>
   cells_ok st' \<and> (\<exists>s'. cell_status run_id st' step = Some s' \<and> s' \<noteq> ''pending'')"
proof (induction arbitrary: s rule: converse_rtranclp_induct)
  case base
  then show ?case by blast
next
  case (step x y)
  from claimed_stays [OF step(1) step(4-6)] obtain s' where
    "cells_ok y" "cell_status run_id y step = Some s'" "s' \<noteq> ''pending''" by blast
  then show ?case by (rule step(3))
qed

text \<open>
  C19. A join fires once. When a task's claim of a step succeeds, no later claim of that step
  succeeds, whatever statements any tasks execute in between: two upstream jobs that finish
  together enqueue their join once.
\<close>

theorem join_fires_once:
  assumes "cells_ok st" "claim_workflow_step run_id step st = (st1, True)" "wf_statement\<^sup>*\<^sup>* st1 st2"
  shows "\<not> snd (claim_workflow_step run_id step st2)"
proof -
  note cc = claim_cell [OF assms(1), where run_id = run_id and step = step, unfolded assms(2) fst_conv snd_conv]
  have "cell_status run_id st1 step = Some ''queued''" "cells_ok st1"
    using cc(1,3) cc(2) [where run' = run_id and step' = step] by simp_all
  from claimed_stays_star [OF assms(3) this(2,1)] obtain s where
    "cells_ok st2" "cell_status run_id st2 step = Some s" "s \<noteq> ''pending''" by auto
  with claim_cell(1) [of st2 run_id step] show ?thesis by simp
qed

section \<open>Advance makes progress\<close>

text \<open>
  A run as the engine opens it: running, with a stored plan that validates, and one cell with a
  known status for each step of the plan.
\<close>

definition live_run :: "string \<Rightarrow> WorkflowRun \<Rightarrow> WorkflowDef \<Rightarrow> WorkflowSpec \<Rightarrow> wf_store \<Rightarrow> bool" where
  "live_run run_id run def spec st \<longleftrightarrow>
     cells_ok st
     \<and> get_workflow_run run_id st = Some run \<and> wr_status run = ''running''
     \<and> get_workflow (wr_def_id run) st = Some def \<and> parse_spec (wd_spec def) = Inr spec
     \<and> (\<forall>n. cell_status run_id st n \<noteq> None \<longleftrightarrow> n \<in> fst ` set (ws_steps spec))
     \<and> (\<forall>n s. cell_status run_id st n = Some s \<longrightarrow> step_state_parse s \<noteq> None)"

definition open_names :: "string \<Rightarrow> wf_store \<Rightarrow> string set" where
  "open_names run_id st = {n. cell_status run_id st n \<in> {Some ''pending'', Some ''queued''}}"

lemma step_state_parse_Some: "step_state_parse s = Some x \<longleftrightarrow> s = step_state_as_str x"
  by (cases x) (auto simp: step_state_parse_def split: if_splits)

lemma map_of_states:
  assumes "cells_ok st" "\<And>n s. cell_status run_id st n = Some s \<Longrightarrow> step_state_parse s \<noteq> None"
  shows "map_of (states_of (workflow_steps run_id st)) n = Some x
         \<longleftrightarrow> cell_status run_id st n = Some (step_state_as_str x)"
    and "distinct (map fst (states_of (workflow_steps run_id st)))"
    and "fst ` set (states_of (workflow_steps run_id st)) = {n. cell_status run_id st n \<noteq> None}"
proof -
  let ?rows = "workflow_steps run_id st"
  have mem: "r \<in> set ?rows \<longleftrightarrow> r \<in> set (wf_steps st) \<and> wt_run_id r = run_id" for r
    by (simp add: workflow_steps_def)
  have "distinct (map wt_step (filter (\<lambda>r. wt_run_id r = run_id) (wf_steps st)))"
    using assms(1) unfolding cells_ok_def by (auto simp: distinct_map inj_on_def)
  then have d: "distinct (map wt_step ?rows)"
    unfolding workflow_steps_def by (simp add: distinct_map)
  then show dist: "distinct (map fst (states_of ?rows))"
    by (simp add: states_of_def comp_def)
  have st: "wt_status r = s \<longleftrightarrow> cell_status run_id st (wt_step r) = Some s" if "r \<in> set ?rows" for r s
    using that find_cell [OF assms(1), of r] by (simp add: mem cell_status_def)
  show "map_of (states_of ?rows) n = Some x \<longleftrightarrow> cell_status run_id st n = Some (step_state_as_str x)"
  proof
    assume "map_of (states_of ?rows) n = Some x"
    then have "(n, x) \<in> set (states_of ?rows)" by (rule map_of_SomeD)
    then obtain r where r: "r \<in> set ?rows" "n = wt_step r"
      "x = (case step_state_parse (wt_status r) of Some s \<Rightarrow> s | None \<Rightarrow> StPending)"
      by (auto simp: states_of_def)
    have "cell_status run_id st n = Some (wt_status r)" using st [OF r(1), of "wt_status r"] r(2) by simp
    moreover from assms(2) [OF this] r(3) have "step_state_parse (wt_status r) = Some x" by auto
    ultimately show "cell_status run_id st n = Some (step_state_as_str x)"
      by (simp add: step_state_parse_Some)
  next
    assume "cell_status run_id st n = Some (step_state_as_str x)"
    then obtain r where r: "r \<in> set (wf_steps st)" "cell run_id n r" "wt_status r = step_state_as_str x"
      using cell_status_mem [OF assms(1)] by blast
    then have "r \<in> set ?rows" "wt_step r = n" by (auto simp: mem cell_def)
    then have "(n, x) \<in> set (states_of ?rows)"
      using r(3) by (auto simp: states_of_def step_state_roundtrip intro!: image_eqI [of _ _ r])
    then show "map_of (states_of ?rows) n = Some x" by (rule map_of_is_SomeI [OF dist])
  qed
  show "fst ` set (states_of ?rows) = {n. cell_status run_id st n \<noteq> None}"
  proof (rule set_eqI)
    fix n
    have "n \<in> fst ` set (states_of ?rows) \<longleftrightarrow> (\<exists>r\<in>set ?rows. wt_step r = n)"
      by (force simp: states_of_def)
    also have "\<dots> \<longleftrightarrow> (\<exists>r\<in>set (wf_steps st). cell run_id n r)"
      unfolding Bex_def mem cell_def by blast
    also have "\<dots> \<longleftrightarrow> (\<exists>s. cell_status run_id st n = Some s)"
      using cell_status_mem [OF assms(1)] by blast
    finally show "n \<in> fst ` set (states_of ?rows) \<longleftrightarrow> n \<in> {n. cell_status run_id st n \<noteq> None}" by auto
  qed
qed

lemma live_covers:
  "live_run run_id run def spec st \<Longrightarrow> covers spec (states_of (workflow_steps run_id st))"
  using map_of_states [of st run_id] unfolding live_run_def covers_def by auto

lemma live_states:
  "live_run run_id run def spec st \<Longrightarrow>
   map_of (states_of (workflow_steps run_id st)) n = Some x
   \<longleftrightarrow> cell_status run_id st n = Some (step_state_as_str x)"
  using map_of_states(1) [of st run_id n x] unfolding live_run_def by blast

text \<open>The skips close exactly the open cells they name.\<close>

lemma apply_skips_cells:
  assumes "cells_ok st" "apply_skips now run_id skips st = (st', changed)"
  shows "cells_ok st' \<and> wf_runs st' = wf_runs st \<and> wf_defs st' = wf_defs st
         \<and> (changed \<longleftrightarrow> (\<exists>n\<in>fst ` set skips. n \<in> open_names run_id st))
         \<and> (\<forall>n. cell_status run_id st' n
                = (if n \<in> fst ` set skips \<and> n \<in> open_names run_id st then Some ''skipped''
                   else cell_status run_id st n))"
  using assms
proof (induction skips arbitrary: st st' changed)
  case (Cons skip skips)
  obtain step reason where skip: "skip = (step, reason)" by (rule prod.exhaust)
  obtain st1 b where f: "finish_workflow_step now run_id step ''skipped'' None (Some reason) st = (st1, b)"
    by (rule prod.exhaust)
  obtain st2 ch where r: "apply_skips now run_id skips st1 = (st2, ch)" by (rule prod.exhaust)
  have res: "st' = st2" "changed = (b \<or> ch)" using Cons.prems(2) by (simp_all add: skip f r)
  note fc = finish_cell [OF Cons.prems(1), where now = now and run_id = run_id and step = step
      and status = "''skipped''" and res = None and err = "Some reason", unfolded f fst_conv snd_conv]
  have b: "b \<longleftrightarrow> step \<in> open_names run_id st" using fc(1) by (simp add: open_names_def)
  have s1: "cell_status run_id st1 n = (if n = step \<and> step \<in> open_names run_id st then Some ''skipped''
      else cell_status run_id st n)" for n
    using fc(2) [where run' = run_id and step' = n] by (simp add: open_names_def)
  have o1: "n \<in> open_names run_id st1 \<longleftrightarrow> n \<in> open_names run_id st \<and> n \<noteq> step" for n
    using s1 [of n] by (auto simp: open_names_def)
  have frame: "wf_runs st1 = wf_runs st" "wf_defs st1 = wf_defs st"
    using statement_frame(3,4) [of now run_id step "''skipped''" None "Some reason" st] by (simp_all add: f)
  from Cons.IH [OF fc(3) r] have IH: "cells_ok st2" "wf_runs st2 = wf_runs st1" "wf_defs st2 = wf_defs st1"
    "ch \<longleftrightarrow> (\<exists>n\<in>fst ` set skips. n \<in> open_names run_id st1)"
    "\<And>n. cell_status run_id st2 n
       = (if n \<in> fst ` set skips \<and> n \<in> open_names run_id st1 then Some ''skipped'' else cell_status run_id st1 n)"
    by blast+
  have A: "b \<or> ch \<longleftrightarrow> (\<exists>n\<in>fst ` set (skip # skips). n \<in> open_names run_id st)"
    unfolding b IH(4) o1 by (auto simp: skip)
  have B: "cell_status run_id st2 n
      = (if n \<in> fst ` set (skip # skips) \<and> n \<in> open_names run_id st then Some ''skipped''
         else cell_status run_id st n)" for n
  proof -
    have "n \<in> fst ` set (skip # skips) \<longleftrightarrow> n = step \<or> n \<in> fst ` set skips" by (auto simp: skip)
    then show ?thesis unfolding IH(5) o1 s1 by (simp only: split: if_split) blast
  qed
  show ?case
    unfolding res IH(2,3) frame by (intro conjI allI IH(1) A B refl)
qed simp

text \<open>Starting a pending step leaves it queued, or open with the reason it was refused.\<close>

lemma enqueue_step_cells:
  assumes "cells_ok st" "cell_status (wr_id run) st step = Some ''pending''"
    and "enqueue_step env run spec step results st = (st', res)"
  shows "cells_ok st' \<and> wf_runs st' = wf_runs st \<and> wf_defs st' = wf_defs st
         \<and> (\<forall>n. n \<noteq> step \<longrightarrow> cell_status (wr_id run) st' n = cell_status (wr_id run) st n)
         \<and> (res = Inr True \<and> cell_status (wr_id run) st' step = Some ''queued''
            \<or> (\<exists>e. res = Inl e) \<and> cell_status (wr_id run) st' step \<in> {Some ''pending'', Some ''queued''})"
proof (cases "map_of (ws_steps spec) step")
  case None
  with assms show ?thesis by (auto simp: enqueue_step_def)
next
  case (Some step_spec)
  show ?thesis
  proof (cases "step_admission env run step step_spec results")
    case (Inl e)
    with assms Some show ?thesis by (auto simp: enqueue_step_def)
  next
    case (Inr pb)
    obtain params budget where pb: "pb = (params, budget)" by (rule prod.exhaust)
    obtain st1 claimed where c: "claim_workflow_step (wr_id run) step st = (st1, claimed)" by (rule prod.exhaust)
    note cc = claim_cell [OF assms(1), where run_id = "wr_id run" and step = step, unfolded c fst_conv snd_conv]
    have claimed: "claimed" using cc(1) assms(2) by simp
    have s1: "cell_status (wr_id run) st1 n = (if n = step then Some ''queued'' else cell_status (wr_id run) st n)" for n
      using cc(2) [where run' = "wr_id run" and step' = n] assms(2) by simp
    have f1: "wf_runs st1 = wf_runs st" "wf_defs st1 = wf_defs st"
      using statement_frame(1,2) [of "wr_id run" step st] by (simp_all add: c)
    obtain q r where e: "enqueue_dedup_as (env_fresh_job env (wr_id run) step) (env_now env)
        (ss_app step_spec) (step_options env run step step_spec params budget)
        (wr_principal_id run) (wf_queue st1) = (q, r)" by (rule prod.exhaust)
    show ?thesis
    proof (cases r)
      case (Inl err)
      with assms(3) Some Inr pb c claimed e have "st' = st1\<lparr>wf_queue := q\<rparr>" "res = Inl EnqueueFailed"
        by (simp_all add: enqueue_step_def)
      then show ?thesis using cc(3) s1 f1 by simp
    next
      case (Inr jc)
      obtain job created where jc: "jc = (job, created)" by (rule prod.exhaust)
      have "st' = set_workflow_step_job (wr_id run) step (j_id job) (st1\<lparr>wf_queue := q\<rparr>)" "res = Inr True"
        using assms(3) Some \<open>step_admission env run step step_spec results = Inr pb\<close> pb c claimed e Inr jc
        by (simp_all add: enqueue_step_def)
      then show ?thesis using cc(3) s1 f1 by (simp add: set_job_cell)
    qed
  qed
qed

lemma start_ready_cells:
  assumes "cells_ok st" "distinct ready" "\<forall>n\<in>set ready. cell_status (wr_id run) st n = Some ''pending''"
    and "start_ready env run spec results ready st = (st', enqueued, failed)"
  shows "cells_ok st' \<and> wf_runs st' = wf_runs st \<and> wf_defs st' = wf_defs st
         \<and> (\<forall>n. n \<notin> set ready \<longrightarrow> cell_status (wr_id run) st' n = cell_status (wr_id run) st n)
         \<and> (\<forall>n\<in>set ready. cell_status (wr_id run) st' n \<in> {Some ''queued'', Some ''failed''})
         \<and> (enqueued \<longrightarrow> (\<exists>n\<in>set ready. cell_status (wr_id run) st' n = Some ''queued''))
         \<and> (failed \<longrightarrow> (\<exists>n\<in>set ready. cell_status (wr_id run) st' n = Some ''failed''))
         \<and> (ready \<noteq> [] \<longrightarrow> enqueued \<or> failed)"
  using assms
proof (induction ready arbitrary: st st' enqueued failed)
  case (Cons step ready)
  let ?c = "\<lambda>st n. cell_status (wr_id run) st n"
  have pend: "?c st step = Some ''pending''" and new: "step \<notin> set ready" using Cons.prems(2,3) by auto
  obtain st1 res where e: "enqueue_step env run spec step results st = (st1, res)" by (rule prod.exhaust)
  from enqueue_step_cells [OF Cons.prems(1) pend e] have
    E: "cells_ok st1" "wf_runs st1 = wf_runs st" "wf_defs st1 = wf_defs st"
      "\<And>n. n \<noteq> step \<Longrightarrow> ?c st1 n = ?c st n"
      "res = Inr True \<and> ?c st1 step = Some ''queued''
       \<or> (\<exists>e. res = Inl e) \<and> ?c st1 step \<in> {Some ''pending'', Some ''queued''}" by blast+
  define st2 where "st2 = (case res of Inr _ \<Rightarrow> st1
      | Inl reason \<Rightarrow> fst (finish_workflow_step (env_now env) (wr_id run) step ''failed'' None (Some reason) st1))"
  have S2: "cells_ok st2 \<and> wf_runs st2 = wf_runs st \<and> wf_defs st2 = wf_defs st
      \<and> (\<forall>n. n \<noteq> step \<longrightarrow> ?c st2 n = ?c st n)
      \<and> ?c st2 step = (case res of Inr _ \<Rightarrow> Some ''queued'' | Inl _ \<Rightarrow> Some ''failed'')"
    using E finish_cell [OF E(1), where run_id = "wr_id run" and step = step]
    by (auto simp: st2_def split: sum.splits)
  obtain enq fl where r: "start_ready env run spec results ready st2 = (st', enq, fl)"
    and flags: "enqueued \<longleftrightarrow> enq \<or> (\<exists>b. res = Inr b)" "failed \<longleftrightarrow> fl \<or> (\<exists>e. res = Inl e)"
  proof (cases res)
    case (Inl reason)
    obtain x b where f: "finish_workflow_step (env_now env) (wr_id run) step ''failed'' None (Some reason) st1 = (x, b)"
      by (rule prod.exhaust)
    have "b" using finish_cell(1) [OF E(1), where run_id = "wr_id run" and step = step and status = "''failed''"
        and now = "env_now env" and res = None and err = "Some reason", unfolded f snd_conv] E(5) Inl by auto
    moreover obtain enq fl where "start_ready env run spec results ready st2 = (st', enq, fl)"
        "enqueued = enq" "failed = (b \<or> fl)"
      using Cons.prems(4) Inl f by (auto simp: e st2_def split: prod.splits)
    ultimately show ?thesis using that Inl by auto
  next
    case (Inr b)
    then have "b" using E(5) by auto
    moreover obtain enq fl where "start_ready env run spec results ready st2 = (st', enq, fl)"
        "enqueued = (b \<or> enq)" "failed = fl"
      using Cons.prems(4) Inr by (auto simp: e st2_def split: prod.splits)
    ultimately show ?thesis using that Inr by auto
  qed
  have "\<forall>n\<in>set ready. ?c st2 n = Some ''pending''" using S2 Cons.prems(3) new by auto
  from Cons.IH [OF _ _ this r] S2 Cons.prems(2) have
    R: "cells_ok st'" "wf_runs st' = wf_runs st" "wf_defs st' = wf_defs st"
      "\<And>n. n \<notin> set ready \<Longrightarrow> ?c st' n = ?c st2 n"
      "\<forall>n\<in>set ready. ?c st' n \<in> {Some ''queued'', Some ''failed''}"
      "enq \<longrightarrow> (\<exists>n\<in>set ready. ?c st' n = Some ''queued'')"
      "fl \<longrightarrow> (\<exists>n\<in>set ready. ?c st' n = Some ''failed'')" by auto
  have here: "?c st' step = (case res of Inr _ \<Rightarrow> Some ''queued'' | Inl _ \<Rightarrow> Some ''failed'')"
    using R(4) [OF new] S2 by simp
  have res: "(\<exists>e. res = Inl e) \<or> (\<exists>b. res = Inr b)" by (cases res) auto
  show ?case
  proof (intro conjI)
    show "\<forall>n. n \<notin> set (step # ready) \<longrightarrow> ?c st' n = ?c st n" using R(4) S2 by simp
    show "\<forall>n\<in>set (step # ready). ?c st' n \<in> {Some ''queued'', Some ''failed''}"
      using R(5) here by (auto split: sum.splits)
    show "enqueued \<longrightarrow> (\<exists>n\<in>set (step # ready). ?c st' n = Some ''queued'')"
      using R(6) here flags(1) by auto
    show "failed \<longrightarrow> (\<exists>n\<in>set (step # ready). ?c st' n = Some ''failed'')"
      using R(7) here flags(2) by auto
    show "step # ready \<noteq> [] \<longrightarrow> enqueued \<or> failed" using flags res by blast
  qed (use R in simp_all)
qed simp

lemma run_verdict_closed: "run_verdict states = Some (status, err) \<Longrightarrow> status \<noteq> ''running''"
  by (auto simp: run_verdict_def Let_def split: if_splits)

lemma finish_run_closes:
  assumes "status \<noteq> ''running''" "get_workflow_run run_id (fst (finish_workflow_run now run_id status err st)) = Some r"
  shows "wr_status r \<noteq> ''running''"
proof -
  have "find (\<lambda>r. wr_id r = run_id) (update_where (running_run run_id)
          (\<lambda>r. r\<lparr>wr_status := status, wr_error := err, wr_finished_at := Some now\<rparr>) (wf_runs st))
      = map_option (\<lambda>r. if running_run run_id r
            then r\<lparr>wr_status := status, wr_error := err, wr_finished_at := Some now\<rparr> else r)
          (find (\<lambda>r. wr_id r = run_id) (wf_runs st))"
    by (rule find_update_where_same) simp
  with assms(2) obtain r0 where "find (\<lambda>r. wr_id r = run_id) (wf_runs st) = Some r0"
    "r = (if running_run run_id r0 then r0\<lparr>wr_status := status, wr_error := err, wr_finished_at := Some now\<rparr> else r0)"
    by (auto simp: get_workflow_run_def finish_workflow_run_def)
  with find_Some_mem [OF this(1)] assms(1) show ?thesis by (auto simp: running_run_def)
qed

lemma live_run_moves:
  assumes "live_run run_id run def spec st" "cells_ok st'" "wf_runs st' = wf_runs st" "wf_defs st' = wf_defs st"
    and "\<And>n. cell_status run_id st' n \<noteq> cell_status run_id st n \<Longrightarrow>
           n \<in> open_names run_id st \<and> cell_status run_id st' n \<in> {Some ''queued'', Some ''failed'', Some ''skipped''}"
  shows "live_run run_id run def spec st'"
proof -
  have "cell_status run_id st' n \<noteq> None \<longleftrightarrow> cell_status run_id st n \<noteq> None" for n
    by (cases "cell_status run_id st' n = cell_status run_id st n")
      (use assms(5) [of n] in \<open>auto simp: open_names_def\<close>)
  moreover have "step_state_parse s \<noteq> None" if "cell_status run_id st' n = Some s" for n s
  proof (cases "cell_status run_id st' n = cell_status run_id st n")
    case True
    with that assms(1) show ?thesis by (simp add: live_run_def)
  next
    case False
    with assms(5) [of n] that show ?thesis by (auto simp: step_state_parse_def)
  qed
  ultimately show ?thesis
    using assms(1-4) by (simp add: live_run_def get_workflow_run_def get_workflow_def)
qed

lemma advance_round_progress:
  assumes live: "live_run run_id run def spec st" and round: "advance_round env run def spec st = (st', again)"
  shows "again \<Longrightarrow> live_run run_id run def spec st' \<and> open_names run_id st' \<subset> open_names run_id st"
    and "\<not> again \<Longrightarrow> (\<exists>n. cell_status run_id st' n = Some ''queued'')
           \<or> (\<forall>r. get_workflow_run run_id st' = Some r \<longrightarrow> wr_status r \<noteq> ''running'')"
proof -
  have ok: "cells_ok st" using live by (simp add: live_run_def)
  have id: "wr_id run = run_id"
    using live find_Some_mem by (fastforce simp: live_run_def get_workflow_run_def)
  have spec: "spec_ok spec" using live parse_spec_sound_lemma unfolding live_run_def by blast
  define states where "states = states_of (workflow_steps run_id st)"
  have ms: "map_of states n = Some x \<longleftrightarrow> cell_status run_id st n = Some (step_state_as_str x)" for n x
    using live_states [OF live] by (simp add: states_def)
  obtain st1 changed where sk: "apply_skips (env_now env) run_id (cascade_skips spec states) st = (st1, changed)"
    by (rule prod.exhaust)
  note SK = apply_skips_cells [OF ok sk]
  have named: "n \<in> open_names run_id st" if "n \<in> fst ` set (cascade_skips spec states)" for n
    using that cascade_skips_pending [of n _ spec states] ms [of n StPending] by (auto simp: open_names_def)
  have quiet: "cascade_skips spec states = [] \<and> st1 = st" if "\<not> changed"
  proof -
    have "cascade_skips spec states = []"
    proof (rule ccontr)
      assume "cascade_skips spec states \<noteq> []"
      then have "fst (hd (cascade_skips spec states)) \<in> fst ` set (cascade_skips spec states)" by simp
      with named SK that show False by blast
    qed
    with sk show ?thesis by simp
  qed
  let ?ready = "ready_steps spec states"
  obtain st2 enq fl where sr: "start_ready env run spec (results_of (workflow_steps run_id st)) ?ready st = (st2, enq, fl)"
    by (metis prod.exhaust)
  have "distinct (map fst (ws_steps spec))" using spec btree_ok_distinct unfolding spec_ok_def by blast
  then have dist: "distinct ?ready" by (simp add: ready_steps_def distinct_map_filter)
  have pend: "cell_status run_id st n = Some ''pending''" if "n \<in> set ?ready" for n
    using ready_stepsD [OF that] ms [of n StPending] by auto
  have "\<forall>n\<in>set ?ready. cell_status (wr_id run) st n = Some ''pending''" using pend id by simp
  note SR = start_ready_cells [OF ok dist this sr, unfolded id]
  have result: "(st', again) =
      (if changed then (st1, True) else if fl then (st2, True) else if enq then (st2, False)
       else (case run_verdict states of None \<Rightarrow> (st2, False)
         | Some (status, err) \<Rightarrow>
             (case finish_workflow_run (env_now env) run_id status err st2 of
                (st3, b) \<Rightarrow> (if b then emit run_id (wd_name def) status st3 else st3, False))))"
  proof (cases changed)
    case True
    with round show ?thesis by (simp add: advance_round_def Let_def id states_def [symmetric] sk)
  next
    case False
    with quiet have "st1 = st" by simp
    then show ?thesis
      unfolding round [symmetric] advance_round_def Let_def id states_def [symmetric] sk prod.case
      by (simp add: False sr)
  qed
  show "live_run run_id run def spec st' \<and> open_names run_id st' \<subset> open_names run_id st" if again
  proof (cases changed)
    case True
    then have st': "st' = st1" using result by simp
    have "live_run run_id run def spec st1"
      by (rule live_run_moves [OF live]) (use SK in \<open>auto split: if_splits\<close>)
    moreover have "open_names run_id st1 \<subset> open_names run_id st"
    proof
      show "open_names run_id st1 \<subseteq> open_names run_id st"
        using SK by (auto simp: open_names_def split: if_splits)
      obtain n where "n \<in> fst ` set (cascade_skips spec states)" "n \<in> open_names run_id st" using SK True by blast
      moreover from this SK have "n \<notin> open_names run_id st1" by (simp add: open_names_def)
      ultimately show "open_names run_id st1 \<noteq> open_names run_id st" by blast
    qed
    ultimately show ?thesis by (simp add: st')
  next
    case False
    then have fl: "fl" and st': "st' = st2" using result that by (auto split: if_splits option.splits prod.splits)
    have moved: "n \<in> open_names run_id st" if "n \<in> set ?ready" for n using pend [OF that] by (simp add: open_names_def)
    have "live_run run_id run def spec st2"
      by (rule live_run_moves [OF live]) (use SR moved in blast)+
    moreover obtain n where n: "n \<in> set ?ready" "cell_status run_id st2 n = Some ''failed''" using SR fl by blast
    moreover have "m \<in> open_names run_id st" if "m \<in> open_names run_id st2" for m
    proof (cases "m \<in> set ?ready")
      case True
      then show ?thesis by (rule moved)
    next
      case False
      with SR that show ?thesis by (simp add: open_names_def)
    qed
    moreover have "n \<notin> open_names run_id st2" using n(2) by (simp add: open_names_def)
    ultimately show ?thesis using moved [OF n(1)] st' by blast
  qed
  show "(\<exists>n. cell_status run_id st' n = Some ''queued'')
      \<or> (\<forall>r. get_workflow_run run_id st' = Some r \<longrightarrow> wr_status r \<noteq> ''running'')" if "\<not> again"
  proof (cases enq)
    case True
    with result that have "st' = st2" by (auto split: if_splits)
    with SR True show ?thesis by blast
  next
    case False
    have nc: "\<not> changed" "\<not> fl" using result that by (auto split: if_splits)
    have skips: "cascade_skips spec states = []" using quiet [OF nc(1)] by simp
    have ready: "?ready = []" using SR False nc(2) by blast
    with sr have st2: "st2 = st" by simp
    show ?thesis
    proof (cases "run_verdict states")
      case None
      then obtain n x where mem: "(n, x) \<in> set states" "is_open x"
        by (auto simp: run_verdict_def Let_def list_ex_iff split: if_splits)
      have "distinct (map fst states)" using live_covers [OF live] by (simp add: covers_def states_def)
      then have x: "map_of states n = Some x" using mem(1) by simp
      have "\<exists>m. map_of states m = Some StQueued"
      proof (rule ccontr)
        assume "\<not> ?thesis"
        moreover from this x mem(2) have "\<exists>n. map_of states n = Some StPending" by (auto simp: is_open_def)
        ultimately show False
          using plan_moves [OF spec live_covers [OF live]] skips ready unfolding states_def by blast
      qed
      then have "\<exists>m. cell_status run_id st m = Some ''queued''" using ms [of _ StQueued] by auto
      moreover have "st' = st" using result nc False None st2 by simp
      ultimately show ?thesis by simp
    next
      case (Some v)
      obtain status err where v: "v = (status, err)" by (rule prod.exhaust)
      obtain st3 b where f: "finish_workflow_run (env_now env) run_id status err st = (st3, b)" by (rule prod.exhaust)
      have "st' = (if b then emit run_id (wd_name def) status st3 else st3)"
        using result nc False Some v st2 f by simp
      then have "get_workflow_run run_id st' = get_workflow_run run_id st3"
        by (simp add: get_workflow_run_def emit_def)
      with finish_run_closes [OF run_verdict_closed, of states status err] Some v f show ?thesis
        by (metis fst_conv)
    qed
  qed
qed

lemma finite_open_names: "finite (open_names run_id st)"
proof -
  have "open_names run_id st \<subseteq> wt_step ` set (wf_steps st)"
    by (auto simp: open_names_def cell_status_def dest!: find_cellD)
  then show ?thesis by (rule finite_subset) simp
qed

lemma advance_loop_progress:
  assumes "live_run run_id run def spec st"
    and "card (open_names run_id st) + rounds < length (ws_steps spec) * ADVANCE_ROUNDS_PER_STEP + 4"
    and "advance_loop env run_id rounds st = (st', r)"
  shows "r = Inr () \<and> ((\<exists>n. cell_status run_id st' n = Some ''queued'')
           \<or> (\<forall>x. get_workflow_run run_id st' = Some x \<longrightarrow> wr_status x \<noteq> ''running''))"
  using assms
proof (induction "card (open_names run_id st)" arbitrary: st rounds rule: less_induct)
  case less
  obtain st1 again where round: "advance_round env run def spec st = (st1, again)" by (rule prod.exhaust)
  have step: "advance_loop env run_id rounds st
      = (if again then advance_loop env run_id (Suc rounds) st1 else (st1, Inr ()))"
    using less(2,3) round by (subst advance_loop.simps) (simp add: live_run_def)
  show ?case
  proof (cases again)
    case True
    with advance_round_progress(1) [OF less(2) round] have live: "live_run run_id run def spec st1"
      and sub: "open_names run_id st1 \<subset> open_names run_id st" by blast+
    have lt: "card (open_names run_id st1) < card (open_names run_id st)"
      by (rule psubset_card_mono [OF finite_open_names sub])
    show ?thesis
      by (rule less(1) [OF lt live]) (use less(3,4) lt step True in auto)
  next
    case False
    with advance_round_progress(2) [OF less(2) round False] step less(4) show ?thesis by auto
  qed
qed

lemma open_names_bound:
  assumes "live_run run_id run def spec st"
  shows "card (open_names run_id st) \<le> length (ws_steps spec)"
proof -
  have "open_names run_id st \<subseteq> set (map fst (ws_steps spec))"
    using assms by (auto simp: live_run_def open_names_def)
  then have "card (open_names run_id st) \<le> card (set (map fst (ws_steps spec)))" by (intro card_mono) auto
  also have "\<dots> \<le> length (ws_steps spec)" using card_length [of "map fst (ws_steps spec)"] by simp
  finally show ?thesis .
qed

text \<open>
  C20. Advancing a live run ends well: \<open>advance\<close> returns within its round bound (it never refuses
  to spin), and afterwards the run is closed or has a step in flight whose end will advance it
  again, whatever steps were refused, skipped or failed on the way.
\<close>

theorem advance_progress:
  assumes "live_run run_id run def spec st"
  shows "snd (advance env run_id st) = Inr ()
         \<and> ((\<exists>n. cell_status run_id (fst (advance env run_id st)) n = Some ''queued'')
            \<or> (\<forall>x. get_workflow_run run_id (fst (advance env run_id st)) = Some x
                 \<longrightarrow> wr_status x \<noteq> ''running''))"
proof -
  obtain st' r where a: "advance_loop env run_id 0 st = (st', r)" by (rule prod.exhaust)
  have "card (open_names run_id st) + 0 < length (ws_steps spec) * ADVANCE_ROUNDS_PER_STEP + 4"
    using open_names_bound [OF assms] by (simp add: ADVANCE_ROUNDS_PER_STEP_def)
  from advance_loop_progress [OF assms this a] show ?thesis by (simp add: advance_def a)
qed


section \<open>Examples\<close>

definition demo_env :: wf_env where
  "demo_env = \<lparr>env_now = 0,
     env_registry = (\<lambda>_. Some \<lparr>ap_default_params = JObject [], ap_params_schema = None,
                                ap_target_key = (\<lambda>_. None)\<rparr>),
     env_validate = (\<lambda>_ _. None), env_print = (\<lambda>_. ''''), env_sum = sum_list,
     env_fresh_job = (\<lambda>_ step. map of_char step), env_fresh_run = (\<lambda>_. ''r1''),
     env_cron = (\<lambda>_. None)\<rparr>"

definition demo_def :: WorkflowDef where
  "demo_def = \<lparr>wd_id = ''d1'', wd_name = ''plan'', wd_spec = demo_doc, wd_cron = None,
     wd_enabled = True, wd_created_at = 0\<rparr>"

definition demo_start :: wf_store where
  "demo_start = fst (start_run demo_env demo_def None None None
     \<lparr>wf_queue = empty_store, wf_defs = [demo_def], wf_runs = [], wf_steps = [], wf_costs = [], wf_events = []\<rparr>)"

definition demo_run :: WorkflowRun where
  "demo_run = \<lparr>wr_id = ''r1'', wr_def_id = ''d1'', wr_status = ''running'', wr_budget_usd = Some 2,
     wr_spent_usd = 0, wr_idempotency_key = None, wr_principal_id = None, wr_root_id = ''r1'',
     wr_error = None, wr_started_at = 0, wr_finished_at = None\<rparr>"

definition demo_open :: wf_store where
  "demo_open = \<lparr>wf_queue = empty_store, wf_defs = [demo_def], wf_runs = [demo_run],
     wf_steps = map (new_step_row ''r1'') [(''a'', []), (''b'', []), (''join'', [''a'', ''b''])],
     wf_costs = [], wf_events = []\<rparr>"

lemma demo_statuses:
  "cell_status ''r1'' demo_open n = (if n \<in> {''a'', ''b'', ''join''} then Some ''pending'' else None)"
  by (simp add: cell_status_def demo_open_def new_step_row_def cell_def)

lemma demo_cells_ok: "cells_ok demo_open"
  by (simp add: cells_ok_def demo_open_def new_step_row_def)

lemma demo_live: "live_run ''r1'' demo_run demo_def demo_spec demo_open"
  unfolding live_run_def
proof (intro conjI allI impI)
  show "cells_ok demo_open" by (rule demo_cells_ok)
  show "get_workflow_run ''r1'' demo_open = Some demo_run" "wr_status demo_run = ''running''"
    "get_workflow (wr_def_id demo_run) demo_open = Some demo_def"
    by (simp_all add: get_workflow_run_def get_workflow_def demo_open_def demo_run_def demo_def_def)
  show "parse_spec (wd_spec demo_def) = Inr demo_spec" using demo_parse by (simp add: demo_def_def)
  show "cell_status ''r1'' demo_open n \<noteq> None \<longleftrightarrow> n \<in> fst ` set (ws_steps demo_spec)" for n
    by (simp add: demo_statuses) (simp add: demo_spec_def)
  show "step_state_parse s \<noteq> None" if "cell_status ''r1'' demo_open n = Some s" for n s
    using that by (auto simp: demo_statuses step_state_parse_def split: if_splits)
qed

theorem join_fires_once_witness:
  "\<not> snd (claim_workflow_step ''r1'' ''a''
      (fst (claim_workflow_step ''r1'' ''b'' (fst (claim_workflow_step ''r1'' ''a'' demo_open)))))"
proof -
  have c: "claim_workflow_step ''r1'' ''a'' demo_open = (fst (claim_workflow_step ''r1'' ''a'' demo_open), True)"
    using claim_cell(1) [OF demo_cells_ok, of "''r1''" "''a''"] by (simp add: demo_statuses prod_eq_iff)
  have w: "wf_statement\<^sup>*\<^sup>* (fst (claim_workflow_step ''r1'' ''a'' demo_open))
      (fst (claim_workflow_step ''r1'' ''b'' (fst (claim_workflow_step ''r1'' ''a'' demo_open))))"
    by (rule r_into_rtranclp) (rule wf_statement.claim)
  show ?thesis by (rule join_fires_once [OF demo_cells_ok c w])
qed

theorem advance_progress_witness:
  "live_run ''r1'' demo_run demo_def demo_spec demo_open
   \<and> snd (advance demo_env ''r1'' demo_open) = Inr ()"
  using advance_progress [OF demo_live, of demo_env] demo_live by simp

section \<open>Cancelling\<close>

definition not_queued :: "uuid \<Rightarrow> wf_store \<Rightarrow> bool" where
  "not_queued i st \<longleftrightarrow> (\<forall>j\<in>set (jobs (wf_queue st)). j_id j = i \<longrightarrow> j_status j \<noteq> Queued)"

lemma cancel_job_effect:
  assumes "cancel_job env tokens i st = (st', b)"
  shows "wf_steps st' = wf_steps st \<and> wf_runs st' = wf_runs st \<and> wf_defs st' = wf_defs st
         \<and> jobs (wf_queue st') = update_where (\<lambda>r. j_id r = i \<and> (j_status r = Queued \<or> j_status r = Waiting))
             (cancel_set (env_now env)) (jobs (wf_queue st))"
  using assms by (auto simp: cancel_job_def cancel_def Let_def update_jobs_def split: option.splits prod.splits)


lemma cancel_open_steps_effect:
  assumes "cells_ok st" "cancel_open_steps env tokens run_id steps st = (st', n)"
  shows "cells_ok st' \<and> wf_runs st' = wf_runs st \<and> wf_defs st' = wf_defs st
         \<and> (\<forall>m. cell_status run_id st' m
              = (if m \<in> fst ` set steps \<and> m \<in> open_names run_id st then Some ''cancelled''
                 else cell_status run_id st m))
         \<and> (\<forall>i. Some i \<in> snd ` set steps \<or> not_queued i st \<longrightarrow> not_queued i st')"
  using assms
proof (induction steps arbitrary: st n)
  case Nil
  then show ?case by simp
next
  case (Cons c steps)
  obtain step job where c: "c = (step, job)" by (rule prod.exhaust)
  obtain st1 b where j: "(case job of None \<Rightarrow> (st, False) | Some i \<Rightarrow> cancel_job env tokens i st) = (st1, b)"
    by (rule prod.exhaust)
  obtain st2 b2 where f: "finish_workflow_step (env_now env) run_id step ''cancelled'' None (Some RunCancelled) st1
      = (st2, b2)" by (rule prod.exhaust)
  obtain m where rest: "cancel_open_steps env tokens run_id steps st2 = (st', m)"
    using Cons.prems(2) by (auto simp: c j f split: prod.splits)
  have J: "wf_steps st1 = wf_steps st" "wf_runs st1 = wf_runs st" "wf_defs st1 = wf_defs st"
    using j cancel_job_effect by (auto split: option.splits)
  have NQ: "not_queued i st1" if "Some i = job \<or> not_queued i st" for i
    using that j cancel_job_effect [of env tokens _ st st1 b]
    by (cases job) (auto simp: not_queued_def update_where_def cancel_set_def)
  have ok1: "cells_ok st1" and cs1: "cell_status run_id st1 = cell_status run_id st"
    using Cons.prems(1) J(1) by (auto simp: cells_ok_def cell_status_def)
  note fc = finish_cell [OF ok1, where now = "env_now env" and run_id = run_id and step = step
      and status = "''cancelled''" and res = None and err = "Some RunCancelled", unfolded f fst_conv snd_conv]
  have s2: "cell_status run_id st2 x = (if x = step \<and> step \<in> open_names run_id st then Some ''cancelled''
      else cell_status run_id st x)" for x
    using fc(2) [where run' = run_id and step' = x] unfolding open_names_def cs1 by simp
  have o2: "x \<in> open_names run_id st2 \<longleftrightarrow> x \<in> open_names run_id st \<and> x \<noteq> step" for x
    using s2 [of x] by (auto simp: open_names_def)
  have F: "wf_runs st2 = wf_runs st" "wf_defs st2 = wf_defs st" "wf_queue st2 = wf_queue st1"
    using f J by (auto simp: finish_workflow_step_def)
  from Cons.IH [OF fc(3) rest] have IH: "cells_ok st'" "wf_runs st' = wf_runs st2" "wf_defs st' = wf_defs st2"
    "\<And>x. cell_status run_id st' x
       = (if x \<in> fst ` set steps \<and> x \<in> open_names run_id st2 then Some ''cancelled'' else cell_status run_id st2 x)"
    "\<And>i. Some i \<in> snd ` set steps \<or> not_queued i st2 \<Longrightarrow> not_queued i st'"
    by blast+
  have A: "cell_status run_id st' x
      = (if x \<in> fst ` set (c # steps) \<and> x \<in> open_names run_id st then Some ''cancelled''
         else cell_status run_id st x)" for x
  proof -
    have "x \<in> fst ` set (c # steps) \<longleftrightarrow> x = step \<or> x \<in> fst ` set steps" by (auto simp: c)
    then show ?thesis unfolding IH(4) o2 s2 by (simp only: split: if_split) blast
  qed
  have nq2: "not_queued i st2 \<longleftrightarrow> not_queued i st1" for i by (simp add: not_queued_def F)
  have B: "Some i \<in> snd ` set (c # steps) \<or> not_queued i st \<longrightarrow> not_queued i st'" for i
    using IH(5) [of i] NQ [of i] nq2 [of i] by (auto simp: c)
  show ?case unfolding IH(2,3) F(1,2) by (intro conjI allI IH(1) A B refl)
qed

lemma open_workflow_steps_names:
  assumes "cells_ok st"
  shows "fst ` set (open_workflow_steps run_id st) = open_names run_id st"
proof (rule set_eqI)
  fix n
  have "n \<in> fst ` set (open_workflow_steps run_id st)
        \<longleftrightarrow> (\<exists>r\<in>set (wf_steps st). cell run_id n r \<and> wt_status r \<in> {''pending'', ''queued''})"
    by (force simp: open_workflow_steps_def workflow_steps_def cell_def)
  also have "\<dots> \<longleftrightarrow> n \<in> open_names run_id st"
    unfolding open_names_def mem_Collect_eq insert_iff empty_iff cell_status_mem [OF assms] by auto
  finally show "n \<in> fst ` set (open_workflow_steps run_id st) \<longleftrightarrow> n \<in> open_names run_id st" .
qed

text \<open>
  Cancelling a run leaves nothing behind: afterwards no step of the run is open, no job an
  open step had is still queued, and the run is closed.
\<close>

theorem cancel_run_closes:
  fixes env :: wf_env and tokens :: "uuid set" and run_id :: string
  assumes "cells_ok st"
  defines "st' \<equiv> fst (cancel_run env tokens run_id st)"
  shows "open_names run_id st' = {}
         \<and> (\<forall>(step, job)\<in>set (open_workflow_steps run_id st). \<forall>i. job = Some i \<longrightarrow> not_queued i st')
         \<and> (\<forall>r. get_workflow_run run_id st' = Some r \<longrightarrow> wr_status r \<noteq> ''running'')"
proof -
  obtain st1 n where c: "cancel_open_steps env tokens run_id (open_workflow_steps run_id st) st = (st1, n)"
    by (rule prod.exhaust)
  define st2 where "st2 = fst (finish_workflow_run (env_now env) run_id ''cancelled'' (Some CancelledByRequest) st1)"
  have st': "wf_steps st' = wf_steps st1" "wf_queue st' = wf_queue st1" "wf_runs st' = wf_runs st2"
    by (auto simp: st'_def cancel_run_def c Let_def st2_def emit_def finish_workflow_run_def split: option.splits)
  note E = cancel_open_steps_effect [OF assms(1) c, unfolded open_workflow_steps_names [OF assms(1)]]
  have "cell_status run_id st' m \<notin> {Some ''pending'', Some ''queued''}" for m
  proof -
    have "cell_status run_id st' m = cell_status run_id st1 m" by (simp add: cell_status_def st')
    also have "\<dots> = (if m \<in> open_names run_id st then Some ''cancelled'' else cell_status run_id st m)"
      using E by simp
    finally show ?thesis by (auto simp: open_names_def)
  qed
  moreover have "not_queued i st'" if "(step, Some i) \<in> set (open_workflow_steps run_id st)" for step i
  proof -
    have "Some i \<in> snd ` set (open_workflow_steps run_id st)" using that by force
    with E have "not_queued i st1" by blast
    then show ?thesis by (simp add: not_queued_def st')
  qed
  moreover have "wr_status r \<noteq> ''running''" if "get_workflow_run run_id st' = Some r" for r
  proof (rule finish_run_closes)
    show "get_workflow_run run_id
        (fst (finish_workflow_run (env_now env) run_id ''cancelled'' (Some CancelledByRequest) st1)) = Some r"
      using that by (simp add: get_workflow_run_def st' st2_def)
  qed simp
  ultimately show ?thesis by (auto simp: open_names_def)
qed

theorem cancel_run_closes_witness:
  "open_names ''r1'' (fst (cancel_run demo_env {} ''r1'' demo_open)) = {}"
  using cancel_run_closes [OF demo_cells_ok, of "''r1''" demo_env "{}"] by simp

end
