(* ===== verification/Dataset_Store.thy ===== *)
theory Dataset_Store
  imports Text Simhash
begin

text \<open>
  The versioned dataset store (\<open>crates/core/src/datasets.rs\<close>): the tables \<open>records\<close> and
  \<open>record_revisions\<close>, the single-record write \<open>upsert_in_tx\<close>, the batch write that plans a
  chunk in memory and emits set-shaped statements (\<open>plan_chunk\<close>,
  \<open>collapse_record_writes\<close>, \<open>write_chunk\<close>), removals, deletions, history pruning and the
  field-level diff. Its lemmas are in \<open>Dataset_Diff\<close>, \<open>Dataset_Upsert\<close> and
  \<open>Dataset_History\<close>.

  The JSON printer and parser (\<open>serde_json\<close>), SHA-256 (\<open>sha2\<close>) and the Unicode tables
  behind \<open>char::is_alphanumeric\<close> and \<open>str::to_lowercase\<close> are parameters, carried as one
  record of functions.
\<close>

section \<open>Libraries\<close>

record codec =
  to_string :: "json \<Rightarrow> string"
  from_str :: "string \<Rightarrow> json option"
  sha256_hex :: "string \<Rightarrow> string"
  alphanumeric_runs :: "string \<Rightarrow> string list"
  to_lowercase :: "string \<Rightarrow> string"

text \<open>\<open>slice::chunks\<close>; every caller passes a positive size.\<close>

function chunks :: "nat \<Rightarrow> 'a list \<Rightarrow> 'a list list" where
  "chunks n xs = (if n = 0 \<or> xs = [] then [] else take n xs # chunks n (drop n xs))"
  by pat_completeness auto

termination
  by (relation "measure (length \<circ> snd)") auto

declare chunks.simps [simp del]

text \<open>SQL's \<open>MAX\<close> over the rows of a group: \<open>NULL\<close> when there is none.\<close>

fun sql_max :: "int list \<Rightarrow> int option" where
  "sql_max [] = None"
| "sql_max (x # xs) = Some (fold max xs x)"

section \<open>Fingerprint of a record\<close>

definition tokenize :: "codec \<Rightarrow> string \<Rightarrow> string list" where
  "tokenize lib text = map (to_lowercase lib) (filter (\<lambda>s. 2 \<le> length s) (alphanumeric_runs lib text))"

definition simhash :: "codec \<Rightarrow> string \<Rightarrow> 64 word" where
  "simhash lib text = simhash_tokens (map hash_token (tokenize lib text))"

fun collect_text :: "codec \<Rightarrow> json \<Rightarrow> string \<Rightarrow> string" where
  "collect_text lib (JString s) out = out @ s @ '' ''"
| "collect_text lib (JPosInt n) out = out @ to_string lib (JPosInt n) @ '' ''"
| "collect_text lib (JNegInt i) out = out @ to_string lib (JNegInt i) @ '' ''"
| "collect_text lib (JFloat r) out = out @ to_string lib (JFloat r) @ '' ''"
| "collect_text lib (JArray items) out = fold (collect_text lib) items out"
| "collect_text lib (JObject m) out = fold (\<lambda>e. collect_text lib (snd e)) m out"
| "collect_text lib JNull out = out"
| "collect_text lib (JBool b) out = out"

definition simhash_value :: "codec \<Rightarrow> json \<Rightarrow> 64 word" where
  "simhash_value lib value = simhash lib (collect_text lib value [])"

definition hash_value :: "codec \<Rightarrow> json \<Rightarrow> string" where
  "hash_value lib value = sha256_hex lib (to_string lib value)"

section \<open>Field-level diff\<close>

definition object_get :: "(string \<times> json) list \<Rightarrow> string \<Rightarrow> json" where
  "object_get m k = (case map_of m k of Some v \<Rightarrow> v | None \<Rightarrow> JNull)"

definition key_union :: "(string \<times> json) list \<Rightarrow> (string \<times> json) list \<Rightarrow> string list" where
  "key_union a b = sort (remdups (map fst a @ map fst b))"

definition sub_path :: "string \<Rightarrow> string \<Rightarrow> string" where
  "sub_path path k = (if path = [] then k else path @ ''.'' @ k)"

definition diff_entry :: "json \<Rightarrow> json \<Rightarrow> json" where
  "diff_entry a b = JObject [(''from'', a), (''to'', b)]"

lemma size_object_get: "size (object_get m k) \<le> size_list (size_prod (\<lambda>x. 0) size) m"
proof (induction m)
  case (Cons e m)
  then show ?case by (cases e) (auto simp: object_get_def)
qed (simp add: object_get_def)

function diff_into ::
  "string \<Rightarrow> json \<Rightarrow> json \<Rightarrow> (string \<times> json) list \<Rightarrow> (string \<times> json) list" where
  "diff_into path old new out =
     (case (old, new) of
        (JObject a, JObject b) \<Rightarrow>
          fold (\<lambda>k. diff_into (sub_path path k) (object_get a k) (object_get b k)) (key_union a b) out
      | (a, b) \<Rightarrow>
          if a = b then out
          else btree_insert (if path = [] then ''$'' else path) (diff_entry a b) out)"
  by pat_completeness auto

termination
  by (relation "measure (\<lambda>(path, old, new, out). size old + size new)")
    (auto simp: less_Suc_eq_le intro!: le_SucI add_mono size_object_get)

declare diff_into.simps [simp del]

definition diff_values :: "json \<Rightarrow> json \<Rightarrow> json" where
  "diff_values old new = JObject (diff_into [] old new [])"

section \<open>Tables\<close>

datatype ChangeKind = New | Changed | Unchanged

definition is_fresh :: "ChangeKind \<Rightarrow> bool" where
  "is_fresh k \<longleftrightarrow> k = New \<or> k = Changed"

record Provenance =
  p_job_id :: "string option"
  p_source_url :: "string option"
  p_artifact_sha :: "string option"
  p_rules_hash :: "string option"

definition provenance_default :: Provenance where
  "provenance_default =
     \<lparr>p_job_id = None, p_source_url = None, p_artifact_sha = None, p_rules_hash = None\<rparr>"

type_synonym rec_key = "string \<times> string \<times> string"

record record_row =
  rec_id :: rec_key
  rec_hash :: string
  rec_data :: string
  rec_simhash :: "64 word"
  first_seen :: time
  last_seen :: time
  rec_updated_at :: time
  removed_at :: "time option"
  rec_trust :: "string option"

record revision_row =
  rowid :: int
  rev_id :: rec_key
  revision :: int
  change :: string
  rev_data :: "string option"
  rev_diff :: "string option"
  rev_created_at :: time
  rev_trust :: "string option"
  rev_prov :: Provenance

record dstore =
  records :: "record_row list"
  record_revisions :: "revision_row list"

record UpsertSummary =
  s_new :: "string list"
  s_changed :: "string list"
  s_unchanged :: nat
  s_removed :: "string list"

definition summary_default :: UpsertSummary where
  "summary_default = \<lparr>s_new = [], s_changed = [], s_unchanged = 0, s_removed = []\<rparr>"

definition fresh_keys :: "UpsertSummary \<Rightarrow> string list" where
  "fresh_keys s = s_new s @ s_changed s"

definition get_record :: "dstore \<Rightarrow> rec_key \<Rightarrow> record_row option" where
  "get_record st i = find (\<lambda>r. rec_id r = i) (records st)"

text \<open>
  A row appended to \<open>record_revisions\<close> takes the next rowid; the insert fails when the primary
  key \<open>(app, dataset, key, revision)\<close> is taken.
\<close>

definition next_rowid :: "revision_row list \<Rightarrow> int" where
  "next_rowid rs = (case sql_max (map rowid rs) of None \<Rightarrow> 1 | Some m \<Rightarrow> m + 1)"

definition insert_revision :: "revision_row \<Rightarrow> revision_row list \<Rightarrow> revision_row list option" where
  "insert_revision r rs =
     (if \<exists>s\<in>set rs. rev_id s = rev_id r \<and> revision s = revision r then None
      else Some (rs @ [r\<lparr>rowid := next_rowid rs\<rparr>]))"

definition revisions_of :: "rec_key \<Rightarrow> revision_row list \<Rightarrow> int list" where
  "revisions_of i rs = map revision (filter (\<lambda>r. rev_id r = i) rs)"

definition next_revision :: "rec_key \<Rightarrow> revision_row list \<Rightarrow> int" where
  "next_revision i rs = (case sql_max (revisions_of i rs) of None \<Rightarrow> 0 | Some m \<Rightarrow> m) + 1"

section \<open>One record\<close>

definition add_revision ::
  "codec \<Rightarrow> rec_key \<Rightarrow> string \<Rightarrow> json option \<Rightarrow> json option \<Rightarrow> time \<Rightarrow> string option \<Rightarrow>
   Provenance option \<Rightarrow> dstore \<Rightarrow> dstore option" where
  "add_revision lib i ch data diff now trust prov st =
     map_option (\<lambda>rs. st\<lparr>record_revisions := rs\<rparr>)
       (insert_revision
          \<lparr>rowid = 0, rev_id = i, revision = next_revision i (record_revisions st), change = ch,
           rev_data = map_option (to_string lib) data, rev_diff = map_option (to_string lib) diff,
           rev_created_at = now, rev_trust = trust,
           rev_prov = (case prov of Some p \<Rightarrow> p | None \<Rightarrow> provenance_default)\<rparr>
          (record_revisions st))"

definition touch_set :: "time \<Rightarrow> string option \<Rightarrow> record_row \<Rightarrow> record_row" where
  "touch_set now trust r = r\<lparr>last_seen := now, rec_trust := trust\<rparr>"

definition content_set ::
  "string \<Rightarrow> string \<Rightarrow> 64 word \<Rightarrow> time \<Rightarrow> string option \<Rightarrow> record_row \<Rightarrow> record_row" where
  "content_set h data sim now trust r =
     r\<lparr>rec_hash := h, rec_data := data, rec_simhash := sim, last_seen := now, rec_updated_at := now,
       removed_at := None, rec_trust := trust\<rparr>"

definition new_record ::
  "rec_key \<Rightarrow> string \<Rightarrow> string \<Rightarrow> 64 word \<Rightarrow> time \<Rightarrow> string option \<Rightarrow> record_row" where
  "new_record i h data sim now trust =
     \<lparr>rec_id = i, rec_hash = h, rec_data = data, rec_simhash = sim, first_seen = now,
      last_seen = now, rec_updated_at = now, removed_at = None, rec_trust = trust\<rparr>"

definition stored_value :: "codec \<Rightarrow> string \<Rightarrow> json" where
  "stored_value lib data = (case from_str lib data of Some v \<Rightarrow> v | None \<Rightarrow> JNull)"

definition upsert_in_tx ::
  "codec \<Rightarrow> rec_key \<Rightarrow> json \<Rightarrow> string \<Rightarrow> 64 word \<Rightarrow> time \<Rightarrow> string option \<Rightarrow> Provenance option \<Rightarrow>
   dstore \<Rightarrow> (dstore \<times> ChangeKind) option" where
  "upsert_in_tx lib i value h sim now trust prov st =
     (case get_record st i of
        Some r \<Rightarrow>
          if rec_hash r = h \<and> removed_at r = None then
            Some (st\<lparr>records := update_where (\<lambda>r. rec_id r = i) (touch_set now trust) (records st)\<rparr>,
                  Unchanged)
          else
            map_option (\<lambda>st'. (st', Changed))
              (add_revision lib i ''changed'' (Some value)
                 (Some (diff_values (stored_value lib (rec_data r)) value)) now trust prov
                 (st\<lparr>records := update_where (\<lambda>r. rec_id r = i)
                       (content_set h (to_string lib value) sim now trust) (records st)\<rparr>))
      | None \<Rightarrow>
          map_option (\<lambda>st'. (st', New))
            (add_revision lib i ''new'' (Some value) None now trust prov
               (st\<lparr>records := records st @ [new_record i h (to_string lib value) sim now trust]\<rparr>)))"

definition upsert_stamped ::
  "codec \<Rightarrow> rec_key \<Rightarrow> json \<Rightarrow> time \<Rightarrow> string option \<Rightarrow> Provenance option \<Rightarrow> dstore \<Rightarrow>
   (dstore \<times> ChangeKind) option" where
  "upsert_stamped lib i value now trust prov st =
     upsert_in_tx lib i value (hash_value lib value) (simhash_value lib value) now trust prov st"

text \<open>
  One removal: the tombstone and its revision. The statement that appends the revision of a
  removal carries no data, no trust and no provenance.
\<close>

definition remove_in_tx :: "codec \<Rightarrow> rec_key \<Rightarrow> time \<Rightarrow> dstore \<Rightarrow> dstore option" where
  "remove_in_tx lib i now st =
     add_revision lib i ''removed'' None None now None None
       (st\<lparr>records := update_where (\<lambda>r. rec_id r = i) (\<lambda>r. r\<lparr>removed_at := Some now\<rparr>) (records st)\<rparr>)"

section \<open>Batches\<close>

definition MAX_BIND_PARAMS :: nat where
  "MAX_BIND_PARAMS = 900"

definition UPSERT_CHUNK :: nat where
  "UPSERT_CHUNK = 500"

definition rows_per_statement :: "nat \<Rightarrow> nat \<Rightarrow> nat" where
  "rows_per_statement cols fixed = max ((MAX_BIND_PARAMS - fixed) div max cols 1) 1"

subsection \<open>Derived paths\<close>

fun remove_segments :: "json \<Rightarrow> string list \<Rightarrow> json \<times> bool" where
  "remove_segments v [] = (v, False)"
| "remove_segments v [segment] =
     (case v of
        JObject m \<Rightarrow>
          if map_of m segment = None then (v, False)
          else (JObject (filter (\<lambda>e. fst e \<noteq> segment) m), True)
      | _ \<Rightarrow> (v, False))"
| "remove_segments v (segment # s # rest) =
     (case v of
        JObject m \<Rightarrow>
          (case map_of m segment of
             Some child \<Rightarrow>
               (case remove_segments child (s # rest) of
                  (child', removed) \<Rightarrow> (JObject (btree_insert segment child' m), removed))
           | None \<Rightarrow> (v, False))
      | _ \<Rightarrow> (v, False))"

definition remove_path :: "json \<Rightarrow> string \<Rightarrow> json \<times> bool" where
  "remove_path v path = remove_segments v (split_char (CHR ''.'') path)"

definition derived_paths_new :: "string list \<Rightarrow> string list" where
  "derived_paths_new paths = filter (\<lambda>p. p \<noteq> []) paths"

definition hash_input :: "string list \<Rightarrow> json \<Rightarrow> json" where
  "hash_input derived value =
     (if derived = [] then value
      else case foldl (\<lambda>(stripped, removed_any) path.
                         case remove_path stripped path of
                           (stripped', removed) \<Rightarrow> (stripped', removed_any \<or> removed))
                  (value, False) derived of
             (stripped, removed_any) \<Rightarrow> if removed_any then stripped else value)"

record Fingerprint =
  fp_hash :: string
  fp_sim :: "64 word"
  fp_json :: string

definition fingerprint_batch :: "codec \<Rightarrow> (string \<times> json) list \<Rightarrow> string list \<Rightarrow> Fingerprint list" where
  "fingerprint_batch lib items derived =
     map (\<lambda>(_, value). \<lparr>fp_hash = hash_value lib (hash_input derived value),
                        fp_sim = simhash_value lib value, fp_json = to_string lib value\<rparr>) items"

subsection \<open>Planning a chunk\<close>

record KeyState =
  ks_hash :: string
  ks_data :: string
  ks_removed :: bool

record PlannedWrite =
  pw_idx :: nat
  pw_kind :: ChangeKind
  pw_diff :: "json option"
  pw_revision :: int
  pw_refresh :: bool

definition next_revision_for :: "(string \<rightharpoonup> int) \<Rightarrow> string \<Rightarrow> int \<times> (string \<rightharpoonup> int)" where
  "next_revision_for nxt k =
     (let revision = (case nxt k of Some r \<Rightarrow> r | None \<Rightarrow> 1) in (revision, nxt(k \<mapsto> revision + 1)))"

definition plan_kind :: "KeyState option \<Rightarrow> Fingerprint \<Rightarrow> ChangeKind" where
  "plan_kind previous print =
     (case previous of
        Some p \<Rightarrow> if ks_hash p = fp_hash print \<and> \<not> ks_removed p then Unchanged else Changed
      | None \<Rightarrow> New)"

definition plan_item ::
  "codec \<Rightarrow> nat \<Rightarrow> string \<Rightarrow> json \<Rightarrow> Fingerprint \<Rightarrow> (string \<rightharpoonup> KeyState) \<times> (string \<rightharpoonup> int) \<Rightarrow>
   PlannedWrite \<times> (string \<rightharpoonup> KeyState) \<times> (string \<rightharpoonup> int)" where
  "plan_item lib idx k value print = (\<lambda>(state, nxt).
     let previous = state k;
         kind = plan_kind previous print;
         refresh = (kind = Unchanged \<and> (\<exists>p\<in>set_option previous. ks_data p \<noteq> fp_json print));
         diff = (case (kind, previous) of
                   (Changed, Some p) \<Rightarrow> Some (diff_values (stored_value lib (ks_data p)) value)
                 | _ \<Rightarrow> None);
         (revision, nxt') = (if kind = Unchanged then (0, nxt) else next_revision_for nxt k);
         state' = (if kind \<noteq> Unchanged \<or> refresh
                   then state(k \<mapsto> \<lparr>ks_hash = fp_hash print, ks_data = fp_json print, ks_removed = False\<rparr>)
                   else state)
     in (\<lparr>pw_idx = idx, pw_kind = kind, pw_diff = diff, pw_revision = revision, pw_refresh = refresh\<rparr>,
         state', nxt'))"

fun plan_from ::
  "codec \<Rightarrow> nat \<Rightarrow> (string \<times> json) list \<Rightarrow> Fingerprint list \<Rightarrow>
   (string \<rightharpoonup> KeyState) \<times> (string \<rightharpoonup> int) \<Rightarrow> PlannedWrite list" where
  "plan_from lib idx ((k, value) # items) prints maps =
     (case plan_item lib idx k value (prints ! idx) maps of
        (plan, maps') \<Rightarrow> plan # plan_from lib (Suc idx) items prints maps')"
| "plan_from lib idx [] prints maps = []"

definition plan_chunk ::
  "codec \<Rightarrow> (string \<times> json) list \<Rightarrow> Fingerprint list \<Rightarrow> (string \<rightharpoonup> KeyState) \<Rightarrow> (string \<rightharpoonup> int) \<Rightarrow>
   PlannedWrite list" where
  "plan_chunk lib items prints state nxt = plan_from lib 0 items prints (state, nxt)"

subsection \<open>Collapsing the record writes\<close>

record collapse_state =
  cs_content :: "(nat \<times> PlannedWrite) list"
  cs_at :: "string \<rightharpoonup> nat"
  cs_unchanged :: "string list"
  cs_seen :: "string list"

definition collapse_step :: "(string \<times> json) list \<Rightarrow> collapse_state \<Rightarrow> PlannedWrite \<Rightarrow> collapse_state" where
  "collapse_step chunk cs plan =
     (let k = fst (chunk ! pw_idx plan)
      in if pw_kind plan = Unchanged \<and> \<not> pw_refresh plan then
           (if cs_at cs k = None \<and> k \<notin> set (cs_seen cs)
            then cs\<lparr>cs_unchanged := cs_unchanged cs @ [k], cs_seen := k # cs_seen cs\<rparr>
            else cs)
         else case cs_at cs k of
                Some pos \<Rightarrow> cs\<lparr>cs_content := (cs_content cs)[pos := (pw_idx plan, plan)]\<rparr>
              | None \<Rightarrow> cs\<lparr>cs_at := (cs_at cs)(k \<mapsto> length (cs_content cs)),
                           cs_content := cs_content cs @ [(pw_idx plan, plan)]\<rparr>)"

definition collapse_record_writes ::
  "(string \<times> json) list \<Rightarrow> PlannedWrite list \<Rightarrow> (nat \<times> PlannedWrite) list \<times> string list" where
  "collapse_record_writes chunk plans =
     (let cs = foldl (collapse_step chunk)
                 \<lparr>cs_content = [], cs_at = Map.empty, cs_unchanged = [], cs_seen = []\<rparr> plans
      in (cs_content cs, filter (\<lambda>k. cs_at cs k = None) (cs_unchanged cs)))"

subsection \<open>Reading and writing a chunk\<close>

fun unique_keys :: "string list \<Rightarrow> string list \<Rightarrow> string list" where
  "unique_keys seen [] = []"
| "unique_keys seen (k # ks) =
     (if k \<in> set seen then unique_keys seen ks else k # unique_keys (k # seen) ks)"

definition in_slice :: "string \<Rightarrow> string \<Rightarrow> string list \<Rightarrow> rec_key \<Rightarrow> bool" where
  "in_slice app ds seg i \<longleftrightarrow> (case i of (a, d, k) \<Rightarrow> a = app \<and> d = ds \<and> k \<in> set seg)"

definition key_state_of :: "record_row \<Rightarrow> KeyState" where
  "key_state_of r = \<lparr>ks_hash = rec_hash r, ks_data = rec_data r, ks_removed = (removed_at r \<noteq> None)\<rparr>"

definition read_key_states ::
  "string \<Rightarrow> string \<Rightarrow> string list \<Rightarrow> dstore \<Rightarrow> (string \<rightharpoonup> KeyState)" where
  "read_key_states app ds keys st =
     foldl (\<lambda>out seg.
              foldl (\<lambda>out r. out(snd (snd (rec_id r)) \<mapsto> key_state_of r)) out
                (filter (\<lambda>r. in_slice app ds seg (rec_id r)) (records st)))
       Map.empty (chunks (rows_per_statement 1 2) keys)"

definition read_next_revisions ::
  "string \<Rightarrow> string \<Rightarrow> string list \<Rightarrow> dstore \<Rightarrow> (string \<rightharpoonup> int)" where
  "read_next_revisions app ds keys st =
     foldl (\<lambda>out seg.
              foldl (\<lambda>out k. case sql_max (revisions_of (app, ds, k) (record_revisions st)) of
                               Some m \<Rightarrow> out(k \<mapsto> m + 1) | None \<Rightarrow> out) out seg)
       Map.empty (chunks (rows_per_statement 1 2) keys)"

definition put_content :: "record_row \<Rightarrow> record_row list \<Rightarrow> record_row list" where
  "put_content x rows =
     (if \<exists>r\<in>set rows. rec_id r = rec_id x
      then update_where (\<lambda>r. rec_id r = rec_id x)
             (content_set (rec_hash x) (rec_data x) (rec_simhash x) (last_seen x) (rec_trust x)) rows
      else rows @ [x])"

definition content_row ::
  "string \<Rightarrow> string \<Rightarrow> (string \<times> json) list \<Rightarrow> Fingerprint list \<Rightarrow> time \<Rightarrow> string option \<Rightarrow>
   nat \<times> PlannedWrite \<Rightarrow> record_row" where
  "content_row app ds chunk prints now trust = (\<lambda>(idx, _).
     let print = prints ! idx
     in new_record (app, ds, fst (chunk ! idx)) (fp_hash print) (fp_json print) (fp_sim print) now trust)"

definition plan_revision ::
  "codec \<Rightarrow> string \<Rightarrow> string \<Rightarrow> (string \<times> json) list \<Rightarrow> Fingerprint list \<Rightarrow> time \<Rightarrow> string option \<Rightarrow>
   Provenance option \<Rightarrow> PlannedWrite \<Rightarrow> revision_row" where
  "plan_revision lib app ds chunk prints now trust prov plan =
     \<lparr>rowid = 0, rev_id = (app, ds, fst (chunk ! pw_idx plan)), revision = pw_revision plan,
      change = (if pw_kind plan = New then ''new'' else ''changed''),
      rev_data = Some (fp_json (prints ! pw_idx plan)),
      rev_diff = map_option (to_string lib) (pw_diff plan), rev_created_at = now, rev_trust = trust,
      rev_prov = (case prov of Some p \<Rightarrow> p | None \<Rightarrow> provenance_default)\<rparr>"

fun insert_revisions :: "revision_row list \<Rightarrow> revision_row list \<Rightarrow> revision_row list option" where
  "insert_revisions [] rs = Some rs"
| "insert_revisions (r # rest) rs =
     (case insert_revision r rs of None \<Rightarrow> None | Some rs' \<Rightarrow> insert_revisions rest rs')"

fun insert_slices :: "revision_row list list \<Rightarrow> revision_row list \<Rightarrow> revision_row list option" where
  "insert_slices [] rs = Some rs"
| "insert_slices (seg # rest) rs =
     (case insert_revisions seg rs of None \<Rightarrow> None | Some rs' \<Rightarrow> insert_slices rest rs')"

definition write_chunk ::
  "codec \<Rightarrow> string \<Rightarrow> string \<Rightarrow> (string \<times> json) list \<Rightarrow> Fingerprint list \<Rightarrow> PlannedWrite list \<Rightarrow>
   time \<Rightarrow> string option \<Rightarrow> Provenance option \<Rightarrow> dstore \<Rightarrow> dstore option" where
  "write_chunk lib app ds chunk prints plans now trust prov st =
     (case collapse_record_writes chunk plans of (content, touched_only) \<Rightarrow>
        let rows1 = foldl (\<lambda>rows seg.
                             foldl (\<lambda>rows c. put_content (content_row app ds chunk prints now trust c) rows)
                               rows seg)
                      (records st) (chunks (rows_per_statement 10 0) content);
            rows2 = foldl (\<lambda>rows seg. update_where (\<lambda>r. in_slice app ds seg (rec_id r))
                                          (touch_set now trust) rows)
                      rows1 (chunks (rows_per_statement 1 4) touched_only);
            revisions = filter (\<lambda>p. pw_kind p \<noteq> Unchanged) plans
        in map_option (\<lambda>rs. \<lparr>records = rows2, record_revisions = rs\<rparr>)
             (insert_slices
                (map (map (plan_revision lib app ds chunk prints now trust prov))
                   (chunks (rows_per_statement 13 0) revisions))
                (record_revisions st)))"

definition summary_push :: "UpsertSummary \<Rightarrow> string \<Rightarrow> ChangeKind \<Rightarrow> UpsertSummary" where
  "summary_push s k kind =
     (case kind of
        New \<Rightarrow> s\<lparr>s_new := s_new s @ [k]\<rparr>
      | Changed \<Rightarrow> s\<lparr>s_changed := s_changed s @ [k]\<rparr>
      | Unchanged \<Rightarrow> s\<lparr>s_unchanged := s_unchanged s + 1\<rparr>)"

definition summarize_chunk :: "(string \<times> json) list \<Rightarrow> PlannedWrite list \<Rightarrow> UpsertSummary" where
  "summarize_chunk chunk plans =
     foldl (\<lambda>s plan. summary_push s (fst (chunk ! pw_idx plan)) (pw_kind plan)) summary_default plans"

definition upsert_chunk_in_tx ::
  "codec \<Rightarrow> string \<Rightarrow> string \<Rightarrow> (string \<times> json) list \<Rightarrow> Fingerprint list \<Rightarrow> time \<Rightarrow>
   string option \<Rightarrow> Provenance option \<Rightarrow> dstore \<Rightarrow> (dstore \<times> UpsertSummary) option" where
  "upsert_chunk_in_tx lib app ds chunk prints now trust prov st =
     (let keys = unique_keys [] (map fst chunk);
          plans = plan_chunk lib chunk prints (read_key_states app ds keys st)
                    (read_next_revisions app ds keys st)
      in map_option (\<lambda>st'. (st', summarize_chunk chunk plans))
           (write_chunk lib app ds chunk prints plans now trust prov st))"

definition summary_extend :: "UpsertSummary \<Rightarrow> UpsertSummary \<Rightarrow> UpsertSummary" where
  "summary_extend s part =
     s\<lparr>s_new := s_new s @ s_new part, s_changed := s_changed s @ s_changed part,
       s_unchanged := s_unchanged s + s_unchanged part\<rparr>"

text \<open>
  The chunk loop: each chunk is one transaction at its own time, \<open>clock n\<close> for the \<open>n\<close>-th;
  a chunk that fails is rolled back and ends the loop with the chunks before it committed.
\<close>

fun upsert_chunks ::
  "codec \<Rightarrow> string \<Rightarrow> string \<Rightarrow> (nat \<Rightarrow> time) \<Rightarrow> string option \<Rightarrow> Provenance option \<Rightarrow> nat \<Rightarrow>
   ((string \<times> json) list \<times> Fingerprint list) list \<Rightarrow> UpsertSummary \<Rightarrow> dstore \<Rightarrow>
   dstore \<times> UpsertSummary option" where
  "upsert_chunks lib app ds clock trust prov n [] summary st = (st, Some summary)"
| "upsert_chunks lib app ds clock trust prov n ((chunk, prints) # rest) summary st =
     (case upsert_chunk_in_tx lib app ds chunk prints (clock n) trust prov st of
        None \<Rightarrow> (st, None)
      | Some (st', part) \<Rightarrow>
          upsert_chunks lib app ds clock trust prov (Suc n) rest (summary_extend summary part) st')"

definition upsert_many_inner ::
  "codec \<Rightarrow> string \<Rightarrow> string \<Rightarrow> (string \<times> json) list \<Rightarrow> (nat \<Rightarrow> time) \<Rightarrow> string option \<Rightarrow>
   Provenance option \<Rightarrow> string list \<Rightarrow> dstore \<Rightarrow> dstore \<times> UpsertSummary option" where
  "upsert_many_inner lib app ds items clock trust prov derived st =
     (if items = [] then (st, Some summary_default)
      else let prints = fingerprint_batch lib items derived
           in upsert_chunks lib app ds clock trust prov 0
                (zip (chunks UPSERT_CHUNK items) (chunks UPSERT_CHUNK prints)) summary_default st)"

text \<open>
  The batch whose rows carry their own provenance: the single-record body for each row, chunk by
  chunk (\<open>upsert_many_row_stamped\<close> up to its derived hook).
\<close>

fun upsert_rows ::
  "codec \<Rightarrow> string \<Rightarrow> string \<Rightarrow> time \<Rightarrow> string option \<Rightarrow>
   ((string \<times> json \<times> Provenance option) \<times> string \<times> 64 word) list \<Rightarrow> UpsertSummary \<Rightarrow> dstore \<Rightarrow>
   (dstore \<times> UpsertSummary) option" where
  "upsert_rows lib app ds now trust [] part st = Some (st, part)"
| "upsert_rows lib app ds now trust (((k, value, prov), (h, sim)) # rest) part st =
     (case upsert_in_tx lib (app, ds, k) value h sim now trust prov st of
        None \<Rightarrow> None
      | Some (st', kind) \<Rightarrow> upsert_rows lib app ds now trust rest (summary_push part k kind) st')"

fun upsert_row_chunks ::
  "codec \<Rightarrow> string \<Rightarrow> string \<Rightarrow> (nat \<Rightarrow> time) \<Rightarrow> string option \<Rightarrow> nat \<Rightarrow>
   ((string \<times> json \<times> Provenance option) list \<times> (string \<times> 64 word) list) list \<Rightarrow> UpsertSummary \<Rightarrow>
   dstore \<Rightarrow> dstore \<times> UpsertSummary option" where
  "upsert_row_chunks lib app ds clock trust n [] summary st = (st, Some summary)"
| "upsert_row_chunks lib app ds clock trust n ((chunk, prints) # rest) summary st =
     (case upsert_rows lib app ds (clock n) trust (zip chunk prints) summary_default st of
        None \<Rightarrow> (st, None)
      | Some (st', part) \<Rightarrow>
          upsert_row_chunks lib app ds clock trust (Suc n) rest (summary_extend summary part) st')"

definition upsert_many_row_stamped ::
  "codec \<Rightarrow> string \<Rightarrow> string \<Rightarrow> (string \<times> json \<times> Provenance) list \<Rightarrow> (nat \<Rightarrow> time) \<Rightarrow>
   string option \<Rightarrow> dstore \<Rightarrow> dstore \<times> UpsertSummary option" where
  "upsert_many_row_stamped lib app ds rows clock trust st =
     (if rows = [] then (st, Some summary_default)
      else let prints = map (\<lambda>(_, v, _). (hash_value lib v, simhash_value lib v)) rows;
               stamped = map (\<lambda>(k, v, p). (k, v, Some p)) rows
           in upsert_row_chunks lib app ds clock trust 0
                (zip (chunks UPSERT_CHUNK stamped) (chunks UPSERT_CHUNK prints)) summary_default st)"

section \<open>Removals\<close>

fun remove_keys :: "codec \<Rightarrow> string \<Rightarrow> string \<Rightarrow> time \<Rightarrow> string list \<Rightarrow> dstore \<Rightarrow> dstore option" where
  "remove_keys lib app ds now [] st = Some st"
| "remove_keys lib app ds now (k # ks) st =
     (case remove_in_tx lib (app, ds, k) now st of
        None \<Rightarrow> None | Some st' \<Rightarrow> remove_keys lib app ds now ks st')"

fun tombstone_chunks ::
  "codec \<Rightarrow> string \<Rightarrow> string \<Rightarrow> time \<Rightarrow> string list list \<Rightarrow> dstore \<Rightarrow> dstore \<times> bool" where
  "tombstone_chunks lib app ds now [] st = (st, True)"
| "tombstone_chunks lib app ds now (chunk # rest) st =
     (case remove_keys lib app ds now chunk st of
        None \<Rightarrow> (st, False) | Some st' \<Rightarrow> tombstone_chunks lib app ds now rest st')"

definition apply_tombstones ::
  "codec \<Rightarrow> string \<Rightarrow> string \<Rightarrow> time \<Rightarrow> string list \<Rightarrow> dstore \<Rightarrow> dstore \<times> string list option" where
  "apply_tombstones lib app ds now to_remove st =
     (case tombstone_chunks lib app ds now (chunks UPSERT_CHUNK to_remove) st of
        (st', ok) \<Rightarrow> (st', if ok then Some to_remove else None))"

definition live_keys :: "string \<Rightarrow> string \<Rightarrow> dstore \<Rightarrow> string list" where
  "live_keys app ds st =
     map (\<lambda>r. snd (snd (rec_id r)))
       (filter (\<lambda>r. fst (rec_id r) = app \<and> fst (snd (rec_id r)) = ds \<and> removed_at r = None) (records st))"

definition detect_removed ::
  "codec \<Rightarrow> string \<Rightarrow> string \<Rightarrow> string list \<Rightarrow> time \<Rightarrow> dstore \<Rightarrow> dstore \<times> string list option" where
  "detect_removed lib app ds present now st =
     (if present = [] then (st, Some [])
      else apply_tombstones lib app ds now (filter (\<lambda>k. k \<notin> set present) (live_keys app ds st)) st)"

definition tombstone_keys ::
  "codec \<Rightarrow> string \<Rightarrow> string \<Rightarrow> string list \<Rightarrow> time \<Rightarrow> dstore \<Rightarrow> dstore \<times> string list option" where
  "tombstone_keys lib app ds keys now st =
     (if keys = [] then (st, Some [])
      else let unique = unique_keys [] keys;
               live = concat (map (\<lambda>seg. filter (\<lambda>k. k \<in> set seg) (live_keys app ds st))
                               (chunks (rows_per_statement 1 2) unique))
           in apply_tombstones lib app ds now (filter (\<lambda>k. k \<in> set live) unique) st)"

section \<open>Deletion and pruning\<close>

definition delete_record :: "rec_key \<Rightarrow> dstore \<Rightarrow> dstore \<times> bool" where
  "delete_record i st =
     (\<lparr>records = filter (\<lambda>r. rec_id r \<noteq> i) (records st),
       record_revisions = filter (\<lambda>r. rev_id r \<noteq> i) (record_revisions st)\<rparr>,
      0 < rows_affected (\<lambda>r. rec_id r = i) (records st))"

datatype DeleteMode = Preview | Execute (expect_records: "nat option")

record DatasetDeletion =
  dd_preview :: bool
  dd_app :: string
  dd_dataset :: string
  dd_records :: nat
  dd_revisions :: nat
  dd_as_of :: time

datatype DeleteVerdict =
    PreviewOf DatasetDeletion
  | Deleted DatasetDeletion
  | YieldChanged nat DatasetDeletion

definition verdict_wrote :: "DeleteVerdict \<Rightarrow> bool" where
  "verdict_wrote v = (case v of Deleted _ \<Rightarrow> True | _ \<Rightarrow> False)"

definition verdict_counts :: "DeleteVerdict \<Rightarrow> DatasetDeletion" where
  "verdict_counts v = (case v of PreviewOf d \<Rightarrow> d | Deleted d \<Rightarrow> d | YieldChanged _ found \<Rightarrow> found)"

definition in_dataset :: "string \<Rightarrow> string \<Rightarrow> rec_key \<Rightarrow> bool" where
  "in_dataset app ds i \<longleftrightarrow> fst i = app \<and> fst (snd i) = ds"

definition record_count :: "string \<Rightarrow> string \<Rightarrow> dstore \<Rightarrow> nat" where
  "record_count app ds st = rows_affected (\<lambda>r. in_dataset app ds (rec_id r)) (records st)"

text \<open>The transaction's outcome, before it is committed or rolled back.\<close>

definition delete_dataset_tx ::
  "string \<Rightarrow> string \<Rightarrow> DeleteMode \<Rightarrow> time \<Rightarrow> dstore \<Rightarrow> dstore \<times> DeleteVerdict" where
  "delete_dataset_tx app ds mode now st =
     (let in_recs = (\<lambda>r. in_dataset app ds (rec_id r)); in_revs = (\<lambda>r. in_dataset app ds (rev_id r));
          found = \<lparr>dd_preview = True, dd_app = app, dd_dataset = ds,
                   dd_records = rows_affected in_recs (records st),
                   dd_revisions = rows_affected in_revs (record_revisions st), dd_as_of = now\<rparr>
      in case mode of
           Preview \<Rightarrow> (st, PreviewOf found)
         | Execute expect \<Rightarrow>
             if expect \<noteq> None \<and> expect \<noteq> Some (dd_records found)
             then (st, YieldChanged (the expect) found)
             else (\<lparr>records = filter (\<lambda>r. \<not> in_recs r) (records st),
                    record_revisions = filter (\<lambda>r. \<not> in_revs r) (record_revisions st)\<rparr>,
                   Deleted (found\<lparr>dd_preview := False\<rparr>)))"

definition delete_dataset_mode ::
  "string \<Rightarrow> string \<Rightarrow> DeleteMode \<Rightarrow> time \<Rightarrow> dstore \<Rightarrow> dstore \<times> DeleteVerdict" where
  "delete_dataset_mode app ds mode now st =
     (case delete_dataset_tx app ds mode now st of
        (st', verdict) \<Rightarrow> (if verdict_wrote verdict then st' else st, verdict))"

definition delete_dataset :: "string \<Rightarrow> string \<Rightarrow> time \<Rightarrow> dstore \<Rightarrow> dstore \<times> nat option" where
  "delete_dataset app ds now st =
     (case delete_dataset_mode app ds (Execute None) now st of
        (st', Deleted d) \<Rightarrow> (st', Some (dd_records d))
      | (st', _) \<Rightarrow> (st', None))"

text \<open>The newest \<open>keep\<close> revisions of a key are those with at most \<open>keep\<close> of its rows at or above them.\<close>

definition prunable :: "time \<Rightarrow> int \<Rightarrow> revision_row list \<Rightarrow> revision_row \<Rightarrow> bool" where
  "prunable older_than keep rs r \<longleftrightarrow>
     rev_created_at r < older_than \<and>
     keep < int (rows_affected (\<lambda>n. rev_id n = rev_id r \<and> revision r \<le> revision n) rs)"

definition prune_revisions :: "time \<Rightarrow> int \<Rightarrow> dstore \<Rightarrow> dstore \<times> nat" where
  "prune_revisions older_than keep_min_per_key st =
     (let keep = max keep_min_per_key 0; p = prunable older_than keep (record_revisions st)
      in (st\<lparr>record_revisions := filter (\<lambda>r. \<not> p r) (record_revisions st)\<rparr>,
          rows_affected p (record_revisions st)))"

definition reindex_simhashes :: "codec \<Rightarrow> dstore \<Rightarrow> dstore \<times> nat" where
  "reindex_simhashes lib st =
     (let fresh = (\<lambda>r. simhash_value lib (stored_value lib (rec_data r)));
          moved = (\<lambda>r. fresh r \<noteq> rec_simhash r)
      in (st\<lparr>records := update_where moved (\<lambda>r. r\<lparr>rec_simhash := fresh r\<rparr>) (records st)\<rparr>,
          rows_affected moved (records st)))"

definition seen :: "rec_key \<Rightarrow> dstore \<Rightarrow> bool" where
  "seen i st \<longleftrightarrow> get_record st i \<noteq> None"

definition duplicate_pairs :: "string \<Rightarrow> string \<Rightarrow> 32 word \<Rightarrow> dstore \<Rightarrow> DupPair list" where
  "duplicate_pairs app ds max_distance st =
     banded_duplicate_pairs
       (map (\<lambda>r. (snd (snd (rec_id r)), rec_simhash r))
          (filter (\<lambda>r. in_dataset app ds (rec_id r) \<and> removed_at r = None) (records st)))
       max_distance"

section \<open>Trust and provenance\<close>

definition TRUST_STABLE :: string where
  "TRUST_STABLE = ''stable''"

definition trust_label :: "string option \<Rightarrow> string" where
  "trust_label stored =
     (case stored of Some t \<Rightarrow> if trim t \<noteq> [] then t else TRUST_STABLE | None \<Rightarrow> TRUST_STABLE)"

definition trust_rank :: "string \<Rightarrow> nat" where
  "trust_rank label =
     (if label = TRUST_STABLE then 0 else if label = ''provisional'' then 1
      else if label = ''quarantined'' then 2 else 3)"

text \<open>\<open>max_by_key\<close> returns the last of the largest elements.\<close>

fun max_by_key :: "('a \<Rightarrow> nat) \<Rightarrow> 'a list \<Rightarrow> 'a option" where
  "max_by_key f [] = None"
| "max_by_key f (x # xs) = Some (foldl (\<lambda>m y. if f m \<le> f y then y else m) x xs)"

definition weakest_trust :: "string option list \<Rightarrow> string option" where
  "weakest_trust labels =
     (case max_by_key trust_rank (map trust_label labels) of
        None \<Rightarrow> None
      | Some weakest \<Rightarrow> if weakest \<noteq> TRUST_STABLE then Some weakest else None)"

text \<open>The filter every read path shares; \<open>NULL\<close> compares as neither true nor false.\<close>

definition trust_predicate :: "string option \<Rightarrow> string option \<Rightarrow> bool" where
  "trust_predicate wanted stored =
     (case wanted of
        None \<Rightarrow> True
      | Some t \<Rightarrow>
          if t = ''stable'' then (case stored of None \<Rightarrow> ''stable'' | Some s \<Rightarrow> s) = t
          else stored = Some t)"

fun common :: "string option list \<Rightarrow> string option" where
  "common [] = None"
| "common (None # _) = None"
| "common (Some first # rest) = (if list_all (\<lambda>v. v = Some first) rest then Some first else None)"

definition shared_provenance :: "(string \<times> json \<times> Provenance) list \<Rightarrow> Provenance" where
  "shared_provenance rows =
     (let ps = map (\<lambda>(_, _, p). p) rows
      in \<lparr>p_job_id = common (map p_job_id ps), p_source_url = common (map p_source_url ps),
          p_artifact_sha = common (map p_artifact_sha ps), p_rules_hash = common (map p_rules_hash ps)\<rparr>)"

type_synonym trust_group = "string option \<times> (string \<times> json) list"

fun push_group :: "string option \<Rightarrow> string \<times> json \<Rightarrow> trust_group list \<Rightarrow> trust_group list" where
  "push_group t item [] = [(t, [item])]"
| "push_group t item ((g, v) # groups) =
     (if g = t then (g, v @ [item]) # groups else (g, v) # push_group t item groups)"

definition written_trust :: "string option \<Rightarrow> string option" where
  "written_trust t =
     (case t of None \<Rightarrow> None | Some s \<Rightarrow> if trim s \<noteq> [] \<and> s \<noteq> TRUST_STABLE then Some s else None)"

definition group_by_trust :: "(string \<times> json) list \<Rightarrow> string option list \<Rightarrow> trust_group list" where
  "group_by_trust items trusts =
     foldl (\<lambda>groups i. push_group (written_trust (if i < length trusts then trusts ! i else None))
                          (items ! i) groups)
       [] [0..<length items]"

end
