(* ===== verification/Dataset_Upsert.thy ===== *)
theory Dataset_Upsert
  imports Dataset_Store
begin

text \<open>
  The batch upsert of the dataset store equals the loop of single-record upserts it replaces:
  the same record rows in the same order, the same revisions with the same numbers and rowids,
  the same summary, also when a key appears more than once in a batch. The batch reads its keys
  once, plans in memory and writes each table with multi-row statements; the loop reads, writes
  and appends per record.
\<close>

named_theorems row_simps

lemmas row_set_defs [row_simps] = touch_set_def content_set_def new_record_def key_state_of_def

section \<open>Slices\<close>

lemma rows_per_statement_pos: "0 < rows_per_statement cols fixed"
  by (simp add: rows_per_statement_def)

lemma concat_chunks: "0 < n \<Longrightarrow> concat (chunks n xs) = xs"
proof (induction n xs rule: chunks.induct)
  case (1 n xs)
  then show ?case by (subst chunks.simps) auto
qed

lemma chunk_members: "0 < n \<Longrightarrow> c \<in> set (chunks n xs) \<Longrightarrow> x \<in> set c \<Longrightarrow> x \<in> set xs"
proof -
  assume "0 < n" "c \<in> set (chunks n xs)" "x \<in> set c"
  then have "x \<in> set (concat (chunks n xs))" by auto
  with \<open>0 < n\<close> show ?thesis by (simp only: concat_chunks)
qed

lemma chunk_values: "0 < n \<Longrightarrow> \<forall>c\<in>set (chunks n xs). f ` set c \<subseteq> f ` set xs"
  using chunk_members [of n _ xs] by blast

lemma foldl_foldl_concat: "foldl (\<lambda>a ys. foldl f a ys) a yss = foldl f a (concat yss)"
  by (induction yss arbitrary: a) auto

lemma foldl_chunks: "0 < n \<Longrightarrow> foldl (\<lambda>a ys. foldl f a ys) a (chunks n xs) = foldl f a xs"
  by (simp add: foldl_foldl_concat concat_chunks)

lemma map_chunks: "map (map f) (chunks n xs) = chunks n (map f xs)"
proof (induction n xs rule: chunks.induct)
  case (1 n xs)
  then show ?case by (subst (1 2) chunks.simps) (auto simp: take_map drop_map)
qed

lemma zip_chunks: "length xs = length ys \<Longrightarrow> zip (chunks n xs) (chunks n ys) = map unzip_pair (chunks n (zip xs ys))"
  if "unzip_pair = (\<lambda>ps. (map fst ps, map snd ps))"
proof (induction n xs arbitrary: ys rule: chunks.induct)
  case (1 n xs)
  show ?case
  proof (cases "n = 0 \<or> xs = []")
    case True
    then show ?thesis by (auto simp: chunks.simps)
  next
    case False
    then have "ys \<noteq> []" "zip xs ys \<noteq> []" using 1(2) by auto
    with False have "zip (chunks n xs) (chunks n ys) =
        (take n xs, take n ys) # zip (chunks n (drop n xs)) (chunks n (drop n ys))"
      by (simp add: chunks.simps [of n xs] chunks.simps [of n ys])
    also have "\<dots> = (take n xs, take n ys) # map unzip_pair (chunks n (zip (drop n xs) (drop n ys)))"
      using 1(1) [OF False, of "drop n ys"] 1(2) by simp
    also have "\<dots> = map unzip_pair (chunks n (zip xs ys))"
      using False \<open>zip xs ys \<noteq> []\<close> 1(2)
      by (subst (2) chunks.simps) (simp add: that drop_zip take_zip)
    finally show ?thesis .
  qed
qed

lemma insert_revisions_append:
  "insert_revisions (xs @ ys) rs =
     (case insert_revisions xs rs of None \<Rightarrow> None | Some rs' \<Rightarrow> insert_revisions ys rs')"
  by (induction xs arbitrary: rs) (auto split: option.splits)

lemma insert_slices_concat: "insert_slices xss rs = insert_revisions (concat xss) rs"
  by (induction xss arbitrary: rs) (auto simp: insert_revisions_append split: option.splits)

lemma update_where_twice:
  assumes "\<And>r. rec_id (f r) = rec_id r" and "\<And>r. f (f r) = f r"
  shows "update_where (\<lambda>r. Q (rec_id r)) f (update_where (\<lambda>r. P (rec_id r)) f rows) =
         update_where (\<lambda>r. P (rec_id r) \<or> Q (rec_id r)) f rows"
  by (induction rows) (auto simp: assms)

lemma update_where_False: "update_where (\<lambda>r. False) f rows = rows"
  by (induction rows) auto

section \<open>The record writes\<close>

text \<open>
  What a batch has decided so far: the content rows \<open>X\<close>, one per key, and the ids \<open>T\<close> that
  only had their sighting refreshed. \<open>sem\<close> is the table these leave.
\<close>

definition row_of :: "record_row list \<Rightarrow> rec_key \<Rightarrow> record_row option" where
  "row_of X i = find (\<lambda>x. rec_id x = i) X"

definition overwrite :: "record_row \<Rightarrow> record_row \<Rightarrow> record_row" where
  "overwrite x = content_set (rec_hash x) (rec_data x) (rec_simhash x) (last_seen x) (rec_trust x)"

definition sem ::
  "time \<Rightarrow> string option \<Rightarrow> record_row list \<Rightarrow> rec_key set \<Rightarrow> record_row list \<Rightarrow> record_row list" where
  "sem now trust X T rows =
     map (\<lambda>r. case row_of X (rec_id r) of
                Some x \<Rightarrow> overwrite x r
              | None \<Rightarrow> if rec_id r \<in> T then touch_set now trust r else r) rows
     @ filter (\<lambda>x. rec_id x \<notin> rec_id ` set rows) X"

definition put :: "record_row \<Rightarrow> record_row list \<Rightarrow> record_row list" where
  "put x X = (if rec_id x \<in> rec_id ` set X then map (\<lambda>y. if rec_id y = rec_id x then x else y) X
              else X @ [x])"

definition fresh_row :: "time \<Rightarrow> string option \<Rightarrow> record_row \<Rightarrow> bool" where
  "fresh_row now trust x \<longleftrightarrow>
     first_seen x = now \<and> last_seen x = now \<and> rec_updated_at x = now \<and> removed_at x = None \<and> rec_trust x = trust"

lemma rec_id_sets [simp]:
  "rec_id (touch_set now trust r) = rec_id r" "rec_id (content_set h d s now trust r) = rec_id r"
  "rec_id (overwrite x r) = rec_id r"
  by (simp_all add: touch_set_def content_set_def overwrite_def)

lemma touch_touch [simp]: "touch_set now trust (touch_set now trust r) = touch_set now trust r"
  by (simp add: touch_set_def)

lemma row_of_None: "row_of X i = None \<longleftrightarrow> i \<notin> rec_id ` set X"
  by (auto simp: row_of_def find_None_iff)

lemma row_of_Some: "row_of X i = Some x \<Longrightarrow> x \<in> set X \<and> rec_id x = i"
  by (auto simp: row_of_def find_Some_iff)

lemma row_of_put: "row_of (put x X) i = (if i = rec_id x then Some x else row_of X i)"
proof -
  have *: "row_of (map (\<lambda>y. if rec_id y = rec_id x then x else y) X) i =
      (if i = rec_id x then if rec_id x \<in> rec_id ` set X then Some x else None else row_of X i)"
    by (induction X) (auto simp: row_of_def)
  have "row_of (X @ [x]) i = (case row_of X i of None \<Rightarrow> if rec_id x = i then Some x else None | Some y \<Rightarrow> Some y)"
    by (induction X) (auto simp: row_of_def)
  moreover have "row_of X (rec_id x) = None" if "rec_id x \<notin> rec_id ` set X"
    using that by (simp add: row_of_None)
  ultimately show ?thesis
    using * by (cases "row_of X i"; cases "i = rec_id x"; cases "rec_id x \<in> rec_id ` set X")
      (simp_all add: put_def)
qed

lemma map_rec_id_put:
  "map rec_id (put x X) = (if rec_id x \<in> set (map rec_id X) then map rec_id X else map rec_id X @ [rec_id x])"
  by (auto simp: put_def)

lemma rec_id_put: "rec_id ` set (put x X) = insert (rec_id x) (rec_id ` set X)"
proof -
  have "set (map rec_id (put x X)) = insert (rec_id x) (set (map rec_id X))"
    by (auto simp only: map_rec_id_put split: if_splits) simp_all
  then show ?thesis by simp
qed

lemma distinct_put: "distinct (map rec_id X) \<Longrightarrow> distinct (map rec_id (put x X))"
  by (simp only: map_rec_id_put split: if_splits) simp

lemma fresh_put:
  "fresh_row now trust x \<Longrightarrow> \<forall>y\<in>set X. fresh_row now trust y \<Longrightarrow> \<forall>y\<in>set (put x X). fresh_row now trust y"
  by (auto simp: put_def)

lemma overwrite_overwrite:
  "rec_id x = rec_id y \<Longrightarrow> fresh_row now trust y \<Longrightarrow> fresh_row now trust x \<Longrightarrow>
   overwrite x (overwrite y r) = overwrite x r \<and> overwrite x y = x \<and>
   overwrite x (touch_set now trust r) = overwrite x r"
  by (simp add: overwrite_def content_set_def touch_set_def fresh_row_def)

lemma put_content_overwrite:
  "put_content x rows =
     (if rec_id x \<in> rec_id ` set rows then update_where (\<lambda>r. rec_id r = rec_id x) (overwrite x) rows
      else rows @ [x])"
proof -
  have "(\<exists>r\<in>set rows. rec_id r = rec_id x) \<longleftrightarrow> rec_id x \<in> rec_id ` set rows"
    unfolding image_iff by metis
  then show ?thesis by (simp add: put_content_def overwrite_def)
qed

lemma rec_id_sem: "rec_id ` set (sem now trust X T rows) = rec_id ` set rows \<union> rec_id ` set X"
proof -
  have "rec_id (case row_of X (rec_id r) of Some x \<Rightarrow> overwrite x r
          | None \<Rightarrow> if rec_id r \<in> T then touch_set now trust r else r) = rec_id r" for r
    by (auto split: option.splits)
  then show ?thesis by (auto simp: sem_def image_Un image_image)
qed

lemma sem_put:
  assumes "\<forall>y\<in>set X. fresh_row now trust y" and x: "fresh_row now trust x"
  shows "put_content x (sem now trust X T rows) = sem now trust (put x X) T rows"
proof (cases "rec_id x \<in> rec_id ` set rows \<union> rec_id ` set X")
  case True
  have old: "update_where (\<lambda>r. rec_id r = rec_id x) (overwrite x)
      (map (\<lambda>r. case row_of X (rec_id r) of Some y \<Rightarrow> overwrite y r
                 | None \<Rightarrow> if rec_id r \<in> T then touch_set now trust r else r) rows) =
      map (\<lambda>r. case row_of (put x X) (rec_id r) of Some y \<Rightarrow> overwrite y r
                 | None \<Rightarrow> if rec_id r \<in> T then touch_set now trust r else r) rows"
    using assms row_of_Some [of X] overwrite_overwrite [of x _ now trust] overwrite_overwrite [OF refl x x]
    by (auto simp: update_where_def row_of_put split: option.splits)
  have keep: "overwrite x y = x" if "y \<in> set X" "rec_id y = rec_id x" for y
    using overwrite_overwrite [of x y now trust] assms that by simp
  have "update_where (\<lambda>r. rec_id r = rec_id x) (overwrite x) (filter (\<lambda>y. rec_id y \<notin> rec_id ` set rows) X)
      = filter (\<lambda>y. rec_id y \<notin> rec_id ` set rows) (put x X)"
  proof (cases "rec_id x \<in> rec_id ` set X")
    case True
    have "update_where (\<lambda>r. rec_id r = rec_id x) (overwrite x) (filter (\<lambda>y. rec_id y \<notin> rec_id ` set rows) Y)
      = filter (\<lambda>y. rec_id y \<notin> rec_id ` set rows) (map (\<lambda>y. if rec_id y = rec_id x then x else y) Y)"
      if "set Y \<subseteq> set X" for Y
      using that by (induction Y) (auto simp: keep)
    with True show ?thesis by (simp add: put_def)
  next
    case False
    then have "rec_id x \<in> rec_id ` set rows" using \<open>rec_id x \<in> _ \<union> _\<close> by blast
    moreover have "update_where (\<lambda>r. rec_id r = rec_id x) (overwrite x) ys = ys" if "set ys \<subseteq> set X" for ys
      using that False by (intro update_where_none) (metis image_eqI subsetD)
    ultimately show ?thesis using False by (simp add: put_def)
  qed
  with old True show ?thesis
    by (simp add: put_content_overwrite rec_id_sem) (simp add: sem_def update_where_def)
next
  case False
  then have "row_of (put x X) (rec_id r) = row_of X (rec_id r)" if "r \<in> set rows" for r
    using that by (metis UnI1 image_eqI row_of_put)
  then have "sem now trust (put x X) T rows = sem now trust X T rows @ [x]"
    using False by (auto simp: sem_def put_def)
  with False show ?thesis by (simp add: put_content_overwrite rec_id_sem)
qed

lemma sem_touch:
  assumes "\<forall>y\<in>set X. fresh_row now trust y"
  shows "update_where (\<lambda>r. rec_id r = i) (touch_set now trust) (sem now trust X T rows) =
         sem now trust X (insert i T) rows"
proof -
  have fresh: "touch_set now trust y = y" if "y \<in> set X" for y
    using assms that by (auto simp: fresh_row_def touch_set_def)
  have over: "touch_set now trust (overwrite y r) = overwrite y r" if "y \<in> set X" for y r
    using assms that by (auto simp: fresh_row_def touch_set_def overwrite_def content_set_def)
  have "update_where (\<lambda>r. rec_id r = i) (touch_set now trust) ys = ys" if "set ys \<subseteq> set X" for ys
    using that by (induction ys) (auto simp: fresh)
  moreover have "touch_set now trust (touch_set now trust r) = touch_set now trust r" for r
    by (simp add: touch_set_def)
  ultimately show ?thesis
    using row_of_Some [of X] by (auto simp: sem_def update_where_def over split: option.splits)
qed

lemma sem_contents:
  "distinct (map rec_id X) \<Longrightarrow> \<forall>x\<in>set X. fresh_row now trust x \<Longrightarrow>
   foldl (\<lambda>rows x. put_content x rows) rows X = sem now trust X {} rows"
proof (induction X rule: rev_induct)
  case Nil
  show ?case by (simp add: sem_def row_of_def)
next
  case (snoc x X)
  then have "put x X = X @ [x]" by (auto simp: put_def)
  with snoc sem_put [of X now trust x "{}" rows] show ?case by simp
qed

lemma sem_touched:
  assumes "\<forall>y\<in>set X. fresh_row now trust y"
  shows "update_where (\<lambda>r. rec_id r \<in> set ts) (touch_set now trust) (sem now trust X T rows) =
         sem now trust X (set ts \<union> T) rows"
proof (induction ts)
  case Nil
  show ?case by (simp add: update_where_False)
next
  case (Cons t ts)
  have "update_where (\<lambda>r. rec_id r \<in> set (t # ts)) (touch_set now trust) rows =
      update_where (\<lambda>r. rec_id r = t) (touch_set now trust)
        (update_where (\<lambda>r. rec_id r \<in> set ts) (touch_set now trust) rows)" for rows
    using update_where_twice [of "touch_set now trust" "\<lambda>i. i = t" "\<lambda>i. i \<in> set ts" rows]
    by (simp add: disj_commute)
  then show ?case using Cons sem_touch [OF assms] by simp
qed

lemma sem_cong: "T - rec_id ` set X = T' - rec_id ` set X \<Longrightarrow> sem now trust X T rows = sem now trust X T' rows"
proof -
  assume eq: "T - rec_id ` set X = T' - rec_id ` set X"
  have "(i \<in> T) = (i \<in> T')" if "row_of X i = None" for i
    using that eq unfolding row_of_None by blast
  then show ?thesis by (simp add: sem_def split: option.splits)
qed

lemma touch_slices:
  "foldl (\<lambda>rows seg. update_where (\<lambda>r. in_slice app ds seg (rec_id r)) (touch_set now trust) rows) rows segs =
   update_where (\<lambda>r. in_slice app ds (concat segs) (rec_id r)) (touch_set now trust) rows"
proof (induction segs arbitrary: rows)
  case Nil
  then show ?case by (simp add: in_slice_def update_where_False split: prod.splits)
next
  case (Cons seg segs)
  have "in_slice app ds (seg @ concat segs) i \<longleftrightarrow> in_slice app ds seg i \<or> in_slice app ds (concat segs) i" for i
    by (auto simp: in_slice_def split: prod.splits)
  with Cons show ?case
    by (simp add: update_where_twice)
qed

lemma in_slice_iff: "in_slice app ds seg i \<longleftrightarrow> i \<in> set (map (\<lambda>k. (app, ds, k)) seg)"
  by (auto simp: in_slice_def split: prod.splits)

section \<open>The reads\<close>

lemma set_unique_keys: "set (unique_keys known xs) = set xs - set known"
  by (induction known xs rule: unique_keys.induct) auto

lemma read_key_states_eq:
  assumes "distinct (map rec_id (records st))" and "k \<in> set keys"
  shows "read_key_states app ds keys st k = map_option key_state_of (get_record st (app, ds, k))"
proof -
  have inner: "foldl (\<lambda>out r. out(snd (snd (rec_id r)) \<mapsto> key_state_of r)) out
        (filter (\<lambda>r. in_slice app ds seg (rec_id r)) rs) k =
      (if k \<in> set seg then case find (\<lambda>r. rec_id r = (app, ds, k)) rs of
                             Some r \<Rightarrow> Some (key_state_of r) | None \<Rightarrow> out k else out k)"
    if "distinct (map rec_id rs)" for out :: "string \<rightharpoonup> KeyState" and seg rs
    using that
  proof (induction rs arbitrary: out)
    case (Cons r rs)
    have "find (\<lambda>r. rec_id r = (app, ds, k)) rs = None" if "rec_id r = (app, ds, k)"
      using Cons.prems that by (auto simp: find_None_iff image_iff)
    with Cons show ?case
      by (cases "rec_id r") (auto simp: in_slice_def split: option.splits)
  qed simp
  have "foldl (\<lambda>out seg. foldl (\<lambda>out r. out(snd (snd (rec_id r)) \<mapsto> key_state_of r)) out
          (filter (\<lambda>r. in_slice app ds seg (rec_id r)) (records st))) out segs k =
      (if k \<in> set (concat segs) then case get_record st (app, ds, k) of
         Some r \<Rightarrow> Some (key_state_of r) | None \<Rightarrow> out k else out k)" for out segs
    by (induction segs arbitrary: out)
      (auto simp: inner [OF assms(1)] get_record_def split: option.splits)
  moreover have "k \<in> set (concat (chunks (rows_per_statement 1 2) keys))"
    using assms(2) by (simp only: concat_chunks [OF rows_per_statement_pos])
  ultimately show ?thesis by (simp only: read_key_states_def if_True) (simp split: option.splits)
qed

definition start_revision :: "int option \<Rightarrow> int" where
  "start_revision n = (case n of Some r \<Rightarrow> r | None \<Rightarrow> 1)"

lemma read_next_revisions_eq:
  assumes "k \<in> set keys"
  shows "start_revision (read_next_revisions app ds keys st k) =
         next_revision (app, ds, k) (record_revisions st)"
proof -
  let ?f = "\<lambda>out k. case sql_max (revisions_of (app, ds, k) (record_revisions st)) of
              Some m \<Rightarrow> out(k \<mapsto> m + 1) | None \<Rightarrow> out"
  have "foldl ?f out ks k =
      (if k \<in> set ks then case sql_max (revisions_of (app, ds, k) (record_revisions st)) of
         Some m \<Rightarrow> Some (m + 1) | None \<Rightarrow> out k else out k)" for out :: "string \<rightharpoonup> int" and ks
    by (induction ks arbitrary: out) (auto split: option.splits)
  then show ?thesis
    using assms
    by (simp add: read_next_revisions_def foldl_chunks rows_per_statement_pos next_revision_def
        start_revision_def split: option.splits)
qed

section \<open>Revision numbers\<close>

lemma fold_max_ge: "x \<le> fold max xs (x :: int)" "y \<in> set xs \<Longrightarrow> y \<le> fold max xs x"
proof (induction xs arbitrary: x)
  case (Cons a xs)
  { case 1 show ?case using Cons(1) [of "max a x"] by simp }
  { case 2 show ?case using Cons [of "max a x"] 2 by (cases "y = a") auto }
qed auto

lemma fold_max_in: "fold max xs (x :: int) \<in> insert x (set xs)"
proof (induction xs arbitrary: x)
  case (Cons a xs)
  then show ?case using Cons [of "max a x"] by (auto simp: max_def split: if_splits)
qed simp

lemma sql_max_Some: "sql_max xs = Some m \<longleftrightarrow> m \<in> set xs \<and> (\<forall>x\<in>set xs. x \<le> m)"
proof (cases xs)
  case (Cons a ys)
  then show ?thesis
    using fold_max_ge [of a ys] fold_max_in [of ys a] fold_max_ge(2) [of _ ys a] by (auto intro: antisym)
qed simp

lemma sql_max_None: "sql_max xs = None \<longleftrightarrow> xs = []"
  by (cases xs) auto

lemma sql_max_snoc: "sql_max (xs @ [x]) = Some (case sql_max xs of None \<Rightarrow> x | Some m \<Rightarrow> max m x)"
  by (cases xs) (auto simp: max.commute)

lemma next_revision_fresh: "r \<in> set rs \<Longrightarrow> rev_id r = i \<Longrightarrow> revision r < next_revision i rs"
proof -
  assume "r \<in> set rs" "rev_id r = i"
  then have r: "revision r \<in> set (revisions_of i rs)" by (auto simp: revisions_of_def)
  then obtain m where m: "sql_max (revisions_of i rs) = Some m"
    by (cases "sql_max (revisions_of i rs)") (auto simp: sql_max_None)
  then have "revision r \<le> m" using r by (simp add: sql_max_Some)
  with m show ?thesis by (simp add: next_revision_def)
qed

lemma insert_next_revision:
  "revision r = next_revision (rev_id r) rs \<Longrightarrow>
   insert_revision r rs = Some (rs @ [r\<lparr>rowid := next_rowid rs\<rparr>])"
  using next_revision_fresh [of _ rs "rev_id r"] by (fastforce simp: insert_revision_def)

lemma next_revision_snoc:
  assumes "revision r = next_revision (rev_id r) rs"
  shows "next_revision i (rs @ [r]) = (if rev_id r = i then next_revision i rs + 1 else next_revision i rs)"
  using assms
  by (auto simp: next_revision_def revisions_of_def sql_max_snoc split: option.splits)

section \<open>One item of a batch\<close>

definition print_of :: "codec \<Rightarrow> json \<Rightarrow> Fingerprint" where
  "print_of lib v = \<lparr>fp_hash = hash_value lib v, fp_sim = simhash_value lib v, fp_json = to_string lib v\<rparr>"

lemma fingerprint_batch_plain: "fingerprint_batch lib items [] = map (\<lambda>e. print_of lib (snd e)) items"
  by (simp add: fingerprint_batch_def print_of_def hash_input_def case_prod_beta)

text \<open>The maps a chunk is planned with agree with a store on the chunk's keys.\<close>

definition tracks ::
  "string \<Rightarrow> string \<Rightarrow> string set \<Rightarrow> dstore \<Rightarrow> (string \<rightharpoonup> KeyState) \<times> (string \<rightharpoonup> int) \<Rightarrow> bool" where
  "tracks app ds K s maps \<longleftrightarrow>
     (\<forall>k\<in>K. fst maps k = map_option key_state_of (get_record s (app, ds, k)) \<and>
            start_revision (snd maps k) = next_revision (app, ds, k) (record_revisions s))"

text \<open>
  No collision of the content hash among the values of a batch and the stored rows: an equal
  hash is equal bytes.
\<close>

definition hash_faithful :: "codec \<Rightarrow> json set \<Rightarrow> record_row list \<Rightarrow> bool" where
  "hash_faithful lib V rows \<longleftrightarrow>
     (\<forall>v\<in>V. \<forall>w\<in>V. hash_value lib v = hash_value lib w \<longrightarrow> to_string lib v = to_string lib w) \<and>
     (\<forall>v\<in>V. \<forall>r\<in>set rows. rec_hash r = hash_value lib v \<longrightarrow> rec_data r = to_string lib v)"

definition value_row :: "codec \<Rightarrow> rec_key \<Rightarrow> json \<Rightarrow> time \<Rightarrow> string option \<Rightarrow> record_row" where
  "value_row lib i v now trust =
     new_record i (hash_value lib v) (to_string lib v) (simhash_value lib v) now trust"

definition value_revision ::
  "codec \<Rightarrow> rec_key \<Rightarrow> json \<Rightarrow> PlannedWrite \<Rightarrow> time \<Rightarrow> string option \<Rightarrow> Provenance option \<Rightarrow> revision_row" where
  "value_revision lib i v plan now trust prov =
     \<lparr>rowid = 0, rev_id = i, revision = pw_revision plan,
      change = (if pw_kind plan = New then ''new'' else ''changed''), rev_data = Some (to_string lib v),
      rev_diff = map_option (to_string lib) (pw_diff plan), rev_created_at = now, rev_trust = trust,
      rev_prov = (case prov of Some p \<Rightarrow> p | None \<Rightarrow> provenance_default)\<rparr>"

lemma value_row_simps [simp]:
  "rec_id (value_row lib i v now trust) = i" "rec_hash (value_row lib i v now trust) = hash_value lib v"
  "rec_data (value_row lib i v now trust) = to_string lib v" "fresh_row now trust (value_row lib i v now trust)"
  "overwrite (value_row lib i v now trust) =
     content_set (hash_value lib v) (to_string lib v) (simhash_value lib v) now trust"
  by (simp_all add: value_row_def new_record_def fresh_row_def overwrite_def)

lemma get_record_None: "get_record s i = None \<longleftrightarrow> i \<notin> rec_id ` set (records s)"
  by (auto simp: get_record_def find_None_iff)

lemma get_record_update:
  assumes "\<And>r. rec_id (f r) = rec_id r"
  shows "get_record (s\<lparr>records := update_where (\<lambda>r. rec_id r = i) f (records s)\<rparr>) j =
         (if i = j then map_option f (get_record s j) else get_record s j)"
proof -
  have "find (\<lambda>r. rec_id r = j) (update_where (\<lambda>r. rec_id r = i) f rows) =
      (if i = j then map_option f (find (\<lambda>r. rec_id r = j) rows) else find (\<lambda>r. rec_id r = j) rows)" for rows
    by (induction rows) (auto simp: assms)
  then show ?thesis by (simp add: get_record_def)
qed

lemma get_record_append:
  "get_record (s\<lparr>records := records s @ [x]\<rparr>) j =
     (case get_record s j of None \<Rightarrow> if rec_id x = j then Some x else None | Some r \<Rightarrow> Some r)"
proof -
  have "find P (rows @ [x]) = (case find P rows of None \<Rightarrow> if P x then Some x else None | Some r \<Rightarrow> Some r)" for P rows
    by (induction rows) auto
  then show ?thesis by (simp add: get_record_def)
qed

lemma get_record_revisions [simp]: "get_record (s\<lparr>record_revisions := rs\<rparr>) = get_record s"
  by (rule ext) (simp add: get_record_def)

lemma key_state_put:
  assumes "removed_at x = None"
  shows "map_option key_state_of (get_record (s\<lparr>records := put_content x (records s)\<rparr>) j) =
         (if j = rec_id x then Some \<lparr>ks_hash = rec_hash x, ks_data = rec_data x, ks_removed = False\<rparr>
          else map_option key_state_of (get_record s j))"
proof (cases "rec_id x \<in> rec_id ` set (records s)")
  case True
  then have "get_record s (rec_id x) \<noteq> None" by (simp add: get_record_None)
  moreover have "key_state_of (overwrite x r) = \<lparr>ks_hash = rec_hash x, ks_data = rec_data x, ks_removed = False\<rparr>" for r
    by (simp add: overwrite_def content_set_def key_state_of_def)
  ultimately show ?thesis
    using True by (auto simp: put_content_overwrite get_record_update)
next
  case False
  then have "get_record s (rec_id x) = None" by (simp add: get_record_None)
  with False assms show ?thesis
    by (auto simp: put_content_overwrite get_record_append key_state_of_def split: option.splits)
qed

lemma key_state_touch:
  "map_option key_state_of
     (get_record (s\<lparr>records := update_where (\<lambda>r. rec_id r = i) (touch_set now trust) (records s)\<rparr>) j) =
   map_option key_state_of (get_record s j)"
proof -
  have "key_state_of (touch_set now trust r) = key_state_of r" for r
    by (simp add: touch_set_def key_state_of_def)
  then show ?thesis by (simp add: get_record_update option.map_comp comp_def)
qed

lemma distinct_put_content:
  "distinct (map rec_id rows) \<Longrightarrow> distinct (map rec_id (put_content x rows))"
  by (auto simp: put_content_overwrite map_update_where_same)

lemma distinct_touch:
  "distinct (map rec_id rows) \<Longrightarrow> distinct (map rec_id (update_where p (touch_set now trust) rows))"
  by (simp add: map_update_where_same)

lemma hash_faithful_values:
  "hash_faithful lib V rows \<Longrightarrow> v \<in> V \<Longrightarrow> w \<in> V \<Longrightarrow> hash_value lib v = hash_value lib w \<Longrightarrow>
   to_string lib v = to_string lib w"
  unfolding hash_faithful_def by blast

lemma hash_faithful_rows:
  "hash_faithful lib V rows \<Longrightarrow> v \<in> V \<Longrightarrow> r \<in> set rows \<Longrightarrow> rec_hash r = hash_value lib v \<Longrightarrow>
   rec_data r = to_string lib v"
  unfolding hash_faithful_def by blast

lemma hash_faithful_put:
  assumes "hash_faithful lib V rows" and "v \<in> V"
  shows "hash_faithful lib V (put_content (value_row lib i v now trust) rows)"
proof -
  have "rec_data r = to_string lib w"
    if r: "r \<in> set (put_content (value_row lib i v now trust) rows)" and w: "w \<in> V" "rec_hash r = hash_value lib w"
    for r w
  proof (cases "r \<in> set rows")
    case True
    then show ?thesis using hash_faithful_rows [OF assms(1)] w by blast
  next
    case False
    with r have "rec_hash r = hash_value lib v \<and> rec_data r = to_string lib v"
      by (auto simp: put_content_overwrite set_update_where content_set_def split: if_splits)
    then show ?thesis using hash_faithful_values [OF assms w(1)] w(2) by simp
  qed
  then show ?thesis using assms(1) unfolding hash_faithful_def by blast
qed

lemma hash_faithful_touch:
  "hash_faithful lib V rows \<Longrightarrow> hash_faithful lib V (update_where p (touch_set now trust) rows)"
proof -
  assume f: "hash_faithful lib V rows"
  have "\<exists>q\<in>set rows. rec_hash q = rec_hash r \<and> rec_data q = rec_data r"
    if "r \<in> set (update_where p (touch_set now trust) rows)" for r
    using that by (auto simp: set_update_where touch_set_def)
  then show ?thesis using f unfolding hash_faithful_def by metis
qed

text \<open>The single-record upsert, on its two outcomes.\<close>

lemma upsert_in_tx_unchanged:
  assumes "get_record s i = Some r" and "rec_hash r = h" and "removed_at r = None"
  shows "upsert_in_tx lib i v h sim now trust prov s =
         Some (s\<lparr>records := update_where (\<lambda>r. rec_id r = i) (touch_set now trust) (records s)\<rparr>, Unchanged)"
  using assms by (simp add: upsert_in_tx_def)

lemma upsert_in_tx_fresh:
  fixes s :: dstore and now :: time and trust :: "string option" and prov :: "Provenance option"
  assumes kind: "pw_kind plan = (case get_record s i of None \<Rightarrow> New | Some _ \<Rightarrow> Changed)"
    and diff: "pw_diff plan = map_option (\<lambda>r. diff_values (stored_value lib (rec_data r)) v) (get_record s i)"
    and rev: "pw_revision plan = next_revision i (record_revisions s)"
    and moved: "\<And>r. get_record s i = Some r \<Longrightarrow> \<not> (rec_hash r = hash_value lib v \<and> removed_at r = None)"
  defines "R \<equiv> value_revision lib i v plan now trust prov"
  shows "upsert_in_tx lib i v (hash_value lib v) (simhash_value lib v) now trust prov s =
         Some (s\<lparr>records := put_content (value_row lib i v now trust) (records s),
                 record_revisions := record_revisions s @ [R\<lparr>rowid := next_rowid (record_revisions s)\<rparr>]\<rparr>,
               pw_kind plan)"
    and "insert_revision R (record_revisions s) =
         Some (record_revisions s @ [R\<lparr>rowid := next_rowid (record_revisions s)\<rparr>])"
proof -
  have R: "rev_id R = i" "revision R = next_revision i (record_revisions s)"
    by (simp_all add: R_def value_revision_def rev)
  then show ins: "insert_revision R (record_revisions s) =
      Some (record_revisions s @ [R\<lparr>rowid := next_rowid (record_revisions s)\<rparr>])"
    by (simp add: insert_next_revision)
  show "upsert_in_tx lib i v (hash_value lib v) (simhash_value lib v) now trust prov s =
         Some (s\<lparr>records := put_content (value_row lib i v now trust) (records s),
                 record_revisions := record_revisions s @ [R\<lparr>rowid := next_rowid (record_revisions s)\<rparr>]\<rparr>,
               pw_kind plan)"
  proof (cases "get_record s i")
    case None
    then have "i \<notin> rec_id ` set (records s)" by (simp add: get_record_None)
    then show ?thesis
      using ins None kind diff rev
      by (simp add: upsert_in_tx_def add_revision_def R_def value_revision_def put_content_overwrite
          flip: value_row_def)
  next
    case (Some r)
    then have "i \<in> rec_id ` set (records s)" using get_record_None [of s i] by auto
    then show ?thesis
      using ins Some kind diff rev moved [OF Some]
      by (auto simp: upsert_in_tx_def add_revision_def R_def value_revision_def put_content_overwrite)
  qed
qed

text \<open>
  One planned item against one single-record upsert, from a store the plan's maps agree with:
  the same verdict, the same effect on the rows, the revision the plan describes, and maps that
  agree with the store it leaves.
\<close>

lemma plan_item_step:
  fixes s :: dstore and now :: time and trust :: "string option" and prov :: "Provenance option"
  assumes tr: "tracks app ds K s maps" and k: "k \<in> K" and v: "v \<in> V"
    and faithful: "hash_faithful lib V (records s)" and dist: "distinct (map rec_id (records s))"
    and plan: "plan_item lib idx k v (print_of lib v) maps = (plan, maps')"
  defines "i \<equiv> (app, ds, k)"
  defines "R \<equiv> value_revision lib i v plan now trust prov"
  shows "\<exists>s'. upsert_in_tx lib i v (hash_value lib v) (simhash_value lib v) now trust prov s =
                Some (s', pw_kind plan) \<and>
              pw_idx plan = idx \<and> \<not> pw_refresh plan \<and>
              records s' = (if pw_kind plan = Unchanged
                            then update_where (\<lambda>r. rec_id r = i) (touch_set now trust) (records s)
                            else put_content (value_row lib i v now trust) (records s)) \<and>
              (if pw_kind plan = Unchanged then record_revisions s' = record_revisions s
               else insert_revision R (record_revisions s) = Some (record_revisions s')) \<and>
              tracks app ds K s' maps' \<and> hash_faithful lib V (records s') \<and>
              distinct (map rec_id (records s'))"
proof -
  obtain state nxt where maps: "maps = (state, nxt)" by (cases maps)
  have state: "state k = map_option key_state_of (get_record s i)"
    and nxt: "start_revision (nxt k) = next_revision i (record_revisions s)"
    using tr k by (auto simp: tracks_def maps i_def)
  show ?thesis
  proof (cases "\<exists>r. get_record s i = Some r \<and> rec_hash r = hash_value lib v \<and> removed_at r = None")
    case True
    then obtain r where r: "get_record s i = Some r" "rec_hash r = hash_value lib v" "removed_at r = None" by blast
    then have "r \<in> set (records s)" by (auto simp: get_record_def find_Some_iff)
    then have data: "rec_data r = to_string lib v" using hash_faithful_rows [OF faithful v] r(2) by blast
    have p: "plan = \<lparr>pw_idx = idx, pw_kind = Unchanged, pw_diff = None, pw_revision = 0, pw_refresh = False\<rparr>"
      "maps' = maps"
      using plan r data by (auto simp: plan_item_def maps state plan_kind_def print_of_def key_state_of_def)
    have "tracks app ds K (s\<lparr>records := update_where (\<lambda>r. rec_id r = i) (touch_set now trust) (records s)\<rparr>) maps"
      using tr unfolding tracks_def key_state_touch by simp
    then show ?thesis
      using upsert_in_tx_unchanged [OF r] hash_faithful_touch [OF faithful] distinct_touch [OF dist]
      by (auto simp: p)
  next
    case False
    have kind: "plan_kind (state k) (print_of lib v) = (case get_record s i of None \<Rightarrow> New | Some _ \<Rightarrow> Changed)"
      using False by (auto simp: state plan_kind_def print_of_def key_state_of_def split: option.splits)
    have fresh: "plan_kind (state k) (print_of lib v) \<noteq> Unchanged" by (auto simp: kind split: option.splits)
    have p: "pw_kind plan = (case get_record s i of None \<Rightarrow> New | Some _ \<Rightarrow> Changed)" "pw_idx plan = idx"
      "\<not> pw_refresh plan" "pw_revision plan = next_revision i (record_revisions s)"
      "pw_diff plan = map_option (\<lambda>r. diff_values (stored_value lib (rec_data r)) v) (get_record s i)"
      and m: "maps' = (state(k \<mapsto> \<lparr>ks_hash = hash_value lib v, ks_data = to_string lib v, ks_removed = False\<rparr>),
                       nxt(k \<mapsto> next_revision i (record_revisions s) + 1))"
      using plan fresh kind nxt
      by (auto simp: plan_item_def maps next_revision_for_def Let_def start_revision_def print_of_def state
          key_state_of_def split: option.splits)
    have step: "upsert_in_tx lib i v (hash_value lib v) (simhash_value lib v) now trust prov s =
         Some (s\<lparr>records := put_content (value_row lib i v now trust) (records s),
                 record_revisions := record_revisions s @ [R\<lparr>rowid := next_rowid (record_revisions s)\<rparr>]\<rparr>,
               pw_kind plan)" (is "_ = Some (?s', _)")
      and ins: "insert_revision R (record_revisions s) =
         Some (record_revisions s @ [R\<lparr>rowid := next_rowid (record_revisions s)\<rparr>])"
      using upsert_in_tx_fresh [of plan s i lib v, OF p(1) p(5) p(4)] False unfolding R_def by blast+
    have "removed_at (value_row lib i v now trust) = None" by (simp add: value_row_def new_record_def)
    note ks = key_state_put [OF this]
    have "next_revision j (record_revisions ?s') =
        (if j = i then next_revision i (record_revisions s) + 1 else next_revision j (record_revisions s))" for j
      using next_revision_snoc [of "R\<lparr>rowid := next_rowid (record_revisions s)\<rparr>" "record_revisions s" j]
      by (auto simp: R_def value_revision_def p)
    moreover have "get_record ?s' j = get_record (s\<lparr>records := put_content (value_row lib i v now trust) (records s)\<rparr>) j" for j
      by (simp add: get_record_def)
    ultimately have "tracks app ds K ?s' maps'"
      using tr by (auto simp: tracks_def m maps ks [unfolded i_def] i_def start_revision_def)
    moreover have "pw_kind plan \<noteq> Unchanged" by (auto simp: p(1) split: option.splits)
    ultimately show ?thesis
      using step ins p hash_faithful_put [OF faithful v] distinct_put_content [OF dist]
      by (intro exI [of _ ?s']) simp
  qed
qed

section \<open>The collapsed writes\<close>

text \<open>The position map of a content list.\<close>

definition at_ok :: "string \<Rightarrow> string \<Rightarrow> (string \<rightharpoonup> nat) \<Rightarrow> rec_key list \<Rightarrow> bool" where
  "at_ok app ds loc ids \<longleftrightarrow>
     (\<forall>k pos. loc k = Some pos \<longrightarrow> pos < length ids \<and> ids ! pos = (app, ds, k)) \<and>
     (\<forall>k. loc k = None \<longrightarrow> (app, ds, k) \<notin> set ids)"

lemma at_ok_append:
  assumes "at_ok app ds loc ids" and "loc k = None"
  shows "at_ok app ds (loc(k \<mapsto> length ids)) (ids @ [(app, ds, k)])"
  using assms unfolding at_ok_def
  by (intro conjI allI impI) (auto simp: nth_append less_SucI split: if_splits)

lemma at_ok_None: "at_ok app ds loc ids \<Longrightarrow> loc k = None \<longleftrightarrow> (app, ds, k) \<notin> set ids"
  unfolding at_ok_def by (cases "loc k") (auto simp: in_set_conv_nth)

definition collapsed ::
  "string \<Rightarrow> string \<Rightarrow> (string \<times> json) list \<Rightarrow> Fingerprint list \<Rightarrow> time \<Rightarrow> string option \<Rightarrow>
   record_row list \<Rightarrow> collapse_state \<Rightarrow> record_row list \<Rightarrow> bool" where
  "collapsed app ds chunk prints now trust rows0 cs rows \<longleftrightarrow>
     (let X = map (content_row app ds chunk prints now trust) (cs_content cs)
      in distinct (map rec_id X) \<and> set (cs_seen cs) = set (cs_unchanged cs) \<and>
         at_ok app ds (cs_at cs) (map rec_id X) \<and>
         rows = sem now trust X ((\<lambda>k. (app, ds, k)) ` set (cs_unchanged cs)) rows0)"

lemma content_row_fresh: "\<forall>y\<in>set (map (content_row app ds chunk prints now trust) cs). fresh_row now trust y"
  by (auto simp: content_row_def fresh_row_def new_record_def Let_def)

lemma rec_id_content_row: "rec_id (content_row app ds chunk prints now trust (idx, plan)) = (app, ds, fst (chunk ! idx))"
  by (simp add: content_row_def new_record_def Let_def)

lemma list_update_by_key:
  assumes "distinct (map f X)" and "pos < length X" and "f (X ! pos) = f x"
  shows "X[pos := x] = map (\<lambda>y. if f y = f x then x else y) X"
proof (rule nth_equalityI)
  fix j assume "j < length (X[pos := x])"
  then have "j < length X" by simp
  have "f (X ! j) = f x \<longleftrightarrow> j = pos"
    using nth_eq_iff_index_eq [OF assms(1), of j pos] assms(2,3) \<open>j < length X\<close> by simp
  then show "X[pos := x] ! j = map (\<lambda>y. if f y = f x then x else y) X ! j"
    using \<open>j < length X\<close> by (simp add: nth_list_update)
qed simp

lemma collapse_unchanged:
  assumes inv: "collapsed app ds chunk prints now trust rows0 cs rows"
    and plan: "pw_kind plan = Unchanged" "\<not> pw_refresh plan" and k: "k = fst (chunk ! pw_idx plan)"
  shows "collapsed app ds chunk prints now trust rows0 (collapse_step chunk cs plan)
           (update_where (\<lambda>r. rec_id r = (app, ds, k)) (touch_set now trust) rows)"
proof -
  define X where "X = map (content_row app ds chunk prints now trust) (cs_content cs)"
  define T where "T = (\<lambda>k. (app, ds, k)) ` set (cs_unchanged cs)"
  have rows: "rows = sem now trust X T rows0" and dist: "distinct (map rec_id X)"
    and seen_eq: "set (cs_seen cs) = set (cs_unchanged cs)"
    and locs: "at_ok app ds (cs_at cs) (map rec_id X)"
    using inv unfolding collapsed_def Let_def X_def [symmetric] T_def [symmetric] by blast+
  have touched: "update_where (\<lambda>r. rec_id r = (app, ds, k)) (touch_set now trust) rows =
      sem now trust X (insert (app, ds, k) T) rows0"
    using sem_touch [of X now trust] content_row_fresh by (simp add: rows X_def)
  show ?thesis
  proof (cases "cs_at cs k = None \<and> k \<notin> set (cs_seen cs)")
    case True
    then show ?thesis
      using inv touched seen_eq plan k
      by (simp add: collapsed_def collapse_step_def X_def T_def Let_def)
  next
    case False
    then have "(app, ds, k) \<in> T \<or> (app, ds, k) \<in> rec_id ` set X"
      using at_ok_None [OF locs, of k] seen_eq by (auto simp: T_def)
    then have "sem now trust X (insert (app, ds, k) T) rows0 = rows"
      unfolding rows by (intro sem_cong) auto
    with False show ?thesis
      using inv touched plan k by (auto simp: collapse_step_def Let_def)
  qed
qed

lemma collapse_content:
  assumes inv: "collapsed app ds chunk prints now trust rows0 cs rows"
    and plan: "pw_kind plan \<noteq> Unchanged"
  shows "collapsed app ds chunk prints now trust rows0 (collapse_step chunk cs plan)
           (put_content (content_row app ds chunk prints now trust (pw_idx plan, plan)) rows)"
proof -
  define X where "X = map (content_row app ds chunk prints now trust) (cs_content cs)"
  define x where "x = content_row app ds chunk prints now trust (pw_idx plan, plan)"
  define k where "k = fst (chunk ! pw_idx plan)"
  have id_x: "rec_id x = (app, ds, k)" by (simp add: x_def k_def rec_id_content_row)
  have fresh: "fresh_row now trust x" using content_row_fresh [of app ds chunk prints now trust "[(pw_idx plan, plan)]"]
    by (simp add: x_def)
  have dist: "distinct (map rec_id X)"
    and locs: "at_ok app ds (cs_at cs) (map rec_id X)"
    using inv unfolding collapsed_def Let_def X_def [symmetric] by blast+
  have sem: "put_content x rows =
      sem now trust (put x X) ((\<lambda>k. (app, ds, k)) ` set (cs_unchanged cs)) rows0"
    using inv sem_put [of X now trust x] content_row_fresh fresh by (simp add: collapsed_def X_def Let_def)
  let ?cs = "collapse_step chunk cs plan"
  have "map (content_row app ds chunk prints now trust) (cs_content ?cs) = put x X \<and>
      at_ok app ds (cs_at ?cs) (map rec_id (put x X))"
  proof (cases "cs_at cs k")
    case None
    then have "put x X = X @ [x]" using at_ok_None [OF locs, of k] by (simp add: put_def id_x)
    moreover have "?cs = cs\<lparr>cs_at := (cs_at cs)(k \<mapsto> length (cs_content cs)),
                            cs_content := cs_content cs @ [(pw_idx plan, plan)]\<rparr>"
      using None plan by (simp add: collapse_step_def k_def Let_def)
    moreover have "length X = length (cs_content cs)" by (simp add: X_def)
    ultimately show ?thesis
      using at_ok_append [OF locs None] id_x by (simp add: x_def [symmetric]) (simp add: X_def)
  next
    case (Some pos)
    then have pos: "pos < length X" "rec_id (X ! pos) = rec_id x"
      using locs unfolding at_ok_def id_x length_map by (metis nth_map)+
    then have mem: "rec_id x \<in> set (map rec_id X)" by (metis length_map nth_map nth_mem)
    then have "put x X = X[pos := x]"
      using list_update_by_key [OF dist pos] by (simp add: put_def)
    moreover have "?cs = cs\<lparr>cs_content := (cs_content cs)[pos := (pw_idx plan, plan)]\<rparr>"
      using Some plan by (simp add: collapse_step_def k_def Let_def)
    moreover have "map rec_id (put x X) = map rec_id X"
      using mem by (simp only: map_rec_id_put if_True)
    ultimately show ?thesis
      using locs by (simp add: map_update x_def [symmetric]) (simp add: X_def)
  qed
  moreover have "cs_seen ?cs = cs_seen cs" "cs_unchanged ?cs = cs_unchanged cs"
    using plan by (simp_all add: collapse_step_def Let_def split: option.splits)
  ultimately show ?thesis
    using inv sem distinct_put [OF dist] by (simp add: collapsed_def x_def Let_def)
qed

section \<open>The batch is the loop\<close>

definition stamp ::
  "codec \<Rightarrow> Provenance option \<Rightarrow> (string \<times> json) list \<Rightarrow>
   ((string \<times> json \<times> Provenance option) \<times> string \<times> 64 word) list" where
  "stamp lib prov items = map (\<lambda>(k, v). ((k, v, prov), hash_value lib v, simhash_value lib v)) items"

definition push_plan :: "(string \<times> json) list \<Rightarrow> UpsertSummary \<Rightarrow> PlannedWrite \<Rightarrow> UpsertSummary" where
  "push_plan chunk s plan = summary_push s (fst (chunk ! pw_idx plan)) (pw_kind plan)"

lemma chunk_loop:
  assumes "chunk = before @ items" and prints: "prints = map (\<lambda>e. print_of lib (snd e)) chunk"
    and "tracks app ds (fst ` set chunk) s maps" and "hash_faithful lib (snd ` set chunk) (records s)"
    and "distinct (map rec_id (records s))" and "collapsed app ds chunk prints now trust rows0 cs (records s)"
    and "plans = plan_from lib (length before) items prints maps"
  shows "\<exists>s'. upsert_rows lib app ds now trust (stamp lib prov items) part s =
                Some (s', foldl (push_plan chunk) part plans) \<and>
              insert_revisions (map (plan_revision lib app ds chunk prints now trust prov)
                (filter (\<lambda>p. pw_kind p \<noteq> Unchanged) plans)) (record_revisions s) = Some (record_revisions s') \<and>
              collapsed app ds chunk prints now trust rows0 (foldl (collapse_step chunk) cs plans) (records s')"
  using assms(1,3-)
proof (induction items arbitrary: before s maps cs part plans)
  case Nil
  then show ?case by (simp add: stamp_def)
next
  case (Cons e items)
  obtain k v where e: "e = (k, v)" by (cases e)
  let ?idx = "length before"
  have chunk_idx: "chunk ! ?idx = (k, v)" by (simp add: Cons.prems(1) e)
  have print_idx: "prints ! ?idx = print_of lib v"
    using chunk_idx Cons.prems(1) by (simp add: prints nth_append)
  have mem: "k \<in> fst ` set chunk" "v \<in> snd ` set chunk" by (simp_all add: Cons.prems(1) e)
  obtain plan maps' where plan: "plan_item lib ?idx k v (print_of lib v) maps = (plan, maps')"
    by (meson surj_pair)
  from plan_item_step [OF Cons.prems(2) mem Cons.prems(3,4) plan, of now trust prov]
  obtain s1 where up: "upsert_in_tx lib (app, ds, k) v (hash_value lib v) (simhash_value lib v) now trust prov s =
        Some (s1, pw_kind plan)"
    and p: "pw_idx plan = ?idx" "\<not> pw_refresh plan"
    and rows: "records s1 = (if pw_kind plan = Unchanged
                 then update_where (\<lambda>r. rec_id r = (app, ds, k)) (touch_set now trust) (records s)
                 else put_content (value_row lib (app, ds, k) v now trust) (records s))"
    and revs: "if pw_kind plan = Unchanged then record_revisions s1 = record_revisions s
               else insert_revision (value_revision lib (app, ds, k) v plan now trust prov) (record_revisions s) =
                 Some (record_revisions s1)"
    and keep: "tracks app ds (fst ` set chunk) s1 maps'" "hash_faithful lib (snd ` set chunk) (records s1)"
      "distinct (map rec_id (records s1))"
    by blast
  have content: "content_row app ds chunk prints now trust (pw_idx plan, plan) = value_row lib (app, ds, k) v now trust"
    by (simp add: content_row_def p chunk_idx print_idx print_of_def value_row_def Let_def)
  have rev: "plan_revision lib app ds chunk prints now trust prov plan =
      value_revision lib (app, ds, k) v plan now trust prov"
    by (simp add: plan_revision_def value_revision_def p chunk_idx print_idx print_of_def)
  have inv: "collapsed app ds chunk prints now trust rows0 (collapse_step chunk cs plan) (records s1)"
    using collapse_unchanged [OF Cons.prems(5) _ p(2), of k] collapse_content [OF Cons.prems(5), of plan] content
    by (cases "pw_kind plan = Unchanged") (simp_all add: rows p chunk_idx)
  let ?rest = "plan_from lib (length (before @ [e])) items prints maps'"
  have plans: "plans = plan # ?rest"
    using Cons.prems(6) plan by (simp add: e print_idx)
  from Cons.IH [OF _ keep inv, of "before @ [e]" ?rest "push_plan chunk part plan"]
  obtain s' where "upsert_rows lib app ds now trust (stamp lib prov items) (push_plan chunk part plan) s1 =
        Some (s', foldl (push_plan chunk) (push_plan chunk part plan) ?rest)"
    "insert_revisions (map (plan_revision lib app ds chunk prints now trust prov)
       (filter (\<lambda>p. pw_kind p \<noteq> Unchanged) ?rest)) (record_revisions s1) = Some (record_revisions s')"
    "collapsed app ds chunk prints now trust rows0
       (foldl (collapse_step chunk) (collapse_step chunk cs plan) ?rest) (records s')"
    using Cons.prems(1) by auto
  moreover have "push_plan chunk part plan = summary_push part k (pw_kind plan)"
    by (simp add: push_plan_def p chunk_idx)
  ultimately show ?case
    using up revs by (intro exI [of _ s']) (auto simp: plans e stamp_def rev split: if_splits)
qed

text \<open>The rows a chunk's statements leave, in terms of the collapsed writes.\<close>

lemma write_chunk_rows:
  assumes "collapsed app ds chunk prints now trust (records st) cs rows"
    and "cs = foldl (collapse_step chunk)
          \<lparr>cs_content = [], cs_at = Map.empty, cs_unchanged = [], cs_seen = []\<rparr> plans"
  shows "write_chunk lib app ds chunk prints plans now trust prov st =
         map_option (\<lambda>rs. \<lparr>records = rows, record_revisions = rs\<rparr>)
           (insert_revisions (map (plan_revision lib app ds chunk prints now trust prov)
              (filter (\<lambda>p. pw_kind p \<noteq> Unchanged) plans)) (record_revisions st))"
proof -
  define X where "X = map (content_row app ds chunk prints now trust) (cs_content cs)"
  define T where "T = filter (\<lambda>k. cs_at cs k = None) (cs_unchanged cs)"
  have coll: "collapse_record_writes chunk plans = (cs_content cs, T)"
    by (simp add: collapse_record_writes_def T_def assms(2) Let_def)
  have X: "distinct (map rec_id X)" "at_ok app ds (cs_at cs) (map rec_id X)"
    and rows: "rows = sem now trust X ((\<lambda>k. (app, ds, k)) ` set (cs_unchanged cs)) (records st)"
    using assms(1) unfolding collapsed_def Let_def X_def [symmetric] by blast+
  have fresh: "\<forall>x\<in>set X. fresh_row now trust x" unfolding X_def by (rule content_row_fresh)
  have c: "foldl (\<lambda>rows seg. foldl (\<lambda>rows c. put_content (content_row app ds chunk prints now trust c) rows)
        rows seg) (records st) (chunks (rows_per_statement 10 0) (cs_content cs)) =
      sem now trust X {} (records st)"
    unfolding foldl_chunks [OF rows_per_statement_pos]
    using sem_contents [OF X(1) fresh, of "records st"] by (simp add: X_def foldl_map)
  have "sem now trust X (set (map (\<lambda>k. (app, ds, k)) T) \<union> {}) (records st) = rows"
    unfolding rows by (rule sem_cong) (auto simp: T_def at_ok_None [OF X(2)])
  then have t: "foldl (\<lambda>rows seg. update_where (\<lambda>r. in_slice app ds seg (rec_id r)) (touch_set now trust) rows)
      (sem now trust X {} (records st)) (chunks (rows_per_statement 1 4) T) = rows"
    using sem_touched [OF fresh, of "map (\<lambda>k. (app, ds, k)) T" "{}" "records st"]
    unfolding touch_slices concat_chunks [OF rows_per_statement_pos] unfolding in_slice_iff by simp
  show ?thesis
    unfolding write_chunk_def coll prod.case Let_def c t map_chunks insert_slices_concat
      concat_chunks [OF rows_per_statement_pos] ..
qed

lemma upsert_chunk_is_loop:
  assumes "distinct (map rec_id (records st))" and "hash_faithful lib (snd ` set chunk) (records st)"
  shows "\<exists>st' part. upsert_rows lib app ds now trust (stamp lib prov chunk) summary_default st = Some (st', part) \<and>
           upsert_chunk_in_tx lib app ds chunk (fingerprint_batch lib chunk []) now trust prov st = Some (st', part)"
proof -
  let ?prints = "map (\<lambda>e. print_of lib (snd e)) chunk"
  let ?keys = "unique_keys [] (map fst chunk)"
  let ?maps = "(read_key_states app ds ?keys st, read_next_revisions app ds ?keys st)"
  let ?plans = "plan_from lib (length ([] :: (string \<times> json) list)) chunk ?prints ?maps"
  let ?cs = "\<lparr>cs_content = [], cs_at = Map.empty, cs_unchanged = [], cs_seen = []\<rparr>"
  have tr: "tracks app ds (fst ` set chunk) st ?maps"
    by (auto simp: tracks_def set_unique_keys read_key_states_eq [OF assms(1)] read_next_revisions_eq)
  have inv: "collapsed app ds chunk ?prints now trust (records st) ?cs (records st)"
    by (simp add: collapsed_def at_ok_def sem_def row_of_def Let_def)
  from chunk_loop [where before = "[]" and prov = prov and part = summary_default,
      OF _ refl tr assms(2,1) inv refl]
  obtain s' where s': "upsert_rows lib app ds now trust (stamp lib prov chunk) summary_default st =
        Some (s', foldl (push_plan chunk) summary_default ?plans)"
    and revs: "insert_revisions (map (plan_revision lib app ds chunk ?prints now trust prov)
        (filter (\<lambda>p. pw_kind p \<noteq> Unchanged) ?plans)) (record_revisions st) = Some (record_revisions s')"
    and coll: "collapsed app ds chunk ?prints now trust (records st) (foldl (collapse_step chunk) ?cs ?plans) (records s')"
    by auto
  have "upsert_chunk_in_tx lib app ds chunk (fingerprint_batch lib chunk []) now trust prov st =
      Some (s', foldl (push_plan chunk) summary_default ?plans)"
    using write_chunk_rows [OF coll refl, of lib prov] revs
    by (simp add: upsert_chunk_in_tx_def plan_chunk_def fingerprint_batch_plain summarize_chunk_def
        push_plan_def [abs_def] Let_def)
  with s' show ?thesis by blast
qed

lemma upsert_in_tx_records:
  assumes "upsert_in_tx lib i v (hash_value lib v) (simhash_value lib v) now trust prov s = Some (s', kind)"
  shows "records s' = (if kind = Unchanged then update_where (\<lambda>r. rec_id r = i) (touch_set now trust) (records s)
           else put_content (value_row lib i v now trust) (records s))"
proof (cases "get_record s i")
  case None
  then have "i \<notin> rec_id ` set (records s)" by (simp add: get_record_None)
  with None assms show ?thesis
    by (auto simp: upsert_in_tx_def add_revision_def put_content_overwrite value_row_def [symmetric]
        split: option.splits)
next
  case (Some r)
  then have "i \<in> rec_id ` set (records s)" using get_record_None [of s i] by auto
  with Some assms show ?thesis
    by (auto simp: upsert_in_tx_def add_revision_def put_content_overwrite split: if_splits option.splits)
qed

lemma upsert_rows_keeps:
  assumes "upsert_rows lib app ds now trust (stamp lib prov items) part s = Some (s', part')"
    and "snd ` set items \<subseteq> V" and "hash_faithful lib V (records s)" and "distinct (map rec_id (records s))"
  shows "hash_faithful lib V (records s') \<and> distinct (map rec_id (records s'))"
  using assms
proof (induction items arbitrary: s part)
  case (Cons e items)
  obtain k v where e: "e = (k, v)" by (cases e)
  from Cons.prems(1) obtain s1 kind where s1: "upsert_in_tx lib (app, ds, k) v (hash_value lib v) (simhash_value lib v)
        now trust prov s = Some (s1, kind)"
    and rest: "upsert_rows lib app ds now trust (stamp lib prov items) (summary_push part k kind) s1 = Some (s', part')"
    by (auto simp: stamp_def e split: option.splits)
  have v: "v \<in> V" using Cons.prems(2) by (simp add: e)
  have "hash_faithful lib V (records s1)" "distinct (map rec_id (records s1))"
    using hash_faithful_touch [OF Cons.prems(3)] hash_faithful_put [OF Cons.prems(3) v]
      distinct_touch [OF Cons.prems(4)] distinct_put_content [OF Cons.prems(4)]
    by (simp_all add: upsert_in_tx_records [OF s1])
  with Cons.IH [OF rest] Cons.prems(2) show ?case by simp
qed (simp add: stamp_def)

lemma chunk_pairs:
  "zip (chunks n items) (chunks n (map f items)) = map (\<lambda>c. (c, map f c)) (chunks n items)"
  "zip (chunks n (map g items)) (chunks n (map f items)) = map (\<lambda>c. (map g c, map f c)) (chunks n items)"
proof -
  have "zip xs (map h xs) = map (\<lambda>c. (c, h c)) xs" "zip (map h' xs) (map h xs) = map (\<lambda>c. (h' c, h c)) xs"
    for h :: "'e \<Rightarrow> 'f" and h' :: "'e \<Rightarrow> 'g" and xs
    by (induction xs) simp_all
  then show "zip (chunks n items) (chunks n (map f items)) = map (\<lambda>c. (c, map f c)) (chunks n items)"
    "zip (chunks n (map g items)) (chunks n (map f items)) = map (\<lambda>c. (map g c, map f c)) (chunks n items)"
    by (simp_all flip: map_chunks)
qed

lemma chunks_loop:
  assumes "distinct (map rec_id (records st))" and "hash_faithful lib V (records st)"
    and "\<forall>c\<in>set cs. snd ` set c \<subseteq> V"
  shows "upsert_chunks lib app ds clock trust prov n (map (\<lambda>c. (c, map (\<lambda>e. print_of lib (snd e)) c)) cs) summary st =
         upsert_row_chunks lib app ds clock trust n
           (map (\<lambda>c. (map (\<lambda>(k, v). (k, v, prov)) c, map (\<lambda>(k, v). (hash_value lib v, simhash_value lib v)) c)) cs)
           summary st \<and>
         snd (upsert_row_chunks lib app ds clock trust n
           (map (\<lambda>c. (map (\<lambda>(k, v). (k, v, prov)) c, map (\<lambda>(k, v). (hash_value lib v, simhash_value lib v)) c)) cs)
           summary st) \<noteq> None"
  using assms
proof (induction cs arbitrary: n summary st)
  case (Cons c cs)
  have V: "snd ` set c \<subseteq> V" using Cons.prems(3) by simp
  then have "hash_faithful lib (snd ` set c) (records st)"
    using Cons.prems(2) unfolding hash_faithful_def by blast
  from upsert_chunk_is_loop [OF Cons.prems(1) this, of app ds "clock n" trust prov]
  obtain st' part where rows: "upsert_rows lib app ds (clock n) trust (stamp lib prov c) summary_default st = Some (st', part)"
    and chunk: "upsert_chunk_in_tx lib app ds c (map (\<lambda>e. print_of lib (snd e)) c) (clock n) trust prov st = Some (st', part)"
    by (auto simp: fingerprint_batch_plain)
  have keep: "hash_faithful lib V (records st')" "distinct (map rec_id (records st'))"
    using upsert_rows_keeps [OF rows V Cons.prems(2,1)] by simp_all
  have "zip (map (\<lambda>(k, v). (k, v, prov)) c) (map (\<lambda>(k, v). (hash_value lib v, simhash_value lib v)) c) = stamp lib prov c"
    by (simp add: stamp_def zip_map_map zip_same_conv_map case_prod_beta)
  with rows chunk Cons.IH [OF keep(2,1)] Cons.prems(3) show ?case by simp
qed simp

text \<open>
  C21. A batch upsert that declares no derived path does exactly what the per-row-stamped batch
  does, which upserts its rows one by one: for every batch, of any length and with any repeated
  keys, the two leave the same record rows in the same order, the same revisions with the same
  numbers and rowids, and report the same summary, and the batch does not fail. The store's
  record ids are unique (its primary key) and the content hash has no collision among the
  batch's values and the stored rows.
\<close>

theorem batch_upsert_is_loop:
  assumes "distinct (map rec_id (records st))" and "hash_faithful lib (snd ` set items) (records st)"
  shows "upsert_many_inner lib app ds items clock trust (Some p) [] st =
         upsert_many_row_stamped lib app ds (map (\<lambda>(k, v). (k, v, p)) items) clock trust st \<and>
         snd (upsert_many_inner lib app ds items clock trust (Some p) [] st) \<noteq> None"
proof (cases "items = []")
  case False
  have sub: "\<forall>c\<in>set (chunks UPSERT_CHUNK items). snd ` set c \<subseteq> snd ` set items"
    by (rule chunk_values) (simp add: UPSERT_CHUNK_def)
  let ?g = "\<lambda>(k, v). (k, v, Some p)" and ?f = "\<lambda>(k, v). (hash_value lib v, simhash_value lib v)"
  have stamped: "map (\<lambda>(k, v, q). (k, v, Some q)) (map (\<lambda>(k, v). (k, v, p)) items) = map ?g items"
    "map (\<lambda>(_, v, _). (hash_value lib v, simhash_value lib v)) (map (\<lambda>(k, v). (k, v, p)) items) = map ?f items"
    by (simp_all add: case_prod_beta)
  show ?thesis
    using chunks_loop [OF assms sub, of app ds clock trust "Some p" 0 summary_default] False
    unfolding upsert_many_inner_def upsert_many_row_stamped_def fingerprint_batch_plain stamped
      chunk_pairs Let_def map_is_Nil_conv by simp
qed (simp add: upsert_many_inner_def upsert_many_row_stamped_def)

text \<open>A concrete choice of the libraries, for applying the theorems to concrete stores.\<close>

definition demo_codec :: codec where
  "demo_codec = \<lparr>to_string = (\<lambda>v. case v of JString s \<Rightarrow> s | _ \<Rightarrow> ''null''),
                 from_str = (\<lambda>s. Some (JString s)), sha256_hex = (\<lambda>s. CHR ''#'' # s),
                 alphanumeric_runs = split_char (CHR '' ''), to_lowercase = (\<lambda>s. s)\<rparr>"

definition demo_items :: "(string \<times> json) list" where
  "demo_items = [(''a'', JString ''x1''), (''b'', JString ''y1''), (''a'', JString ''x2''), (''a'', JString ''x2'')]"

theorem batch_upsert_is_loop_witness:
  "distinct (map rec_id (records \<lparr>records = [], record_revisions = []\<rparr>)) \<and>
   hash_faithful demo_codec (snd ` set demo_items) [] \<and>
   upsert_many_inner demo_codec ''app'' ''ds'' demo_items (\<lambda>n. int n) None (Some provenance_default) []
     \<lparr>records = [], record_revisions = []\<rparr> =
   upsert_many_row_stamped demo_codec ''app'' ''ds'' (map (\<lambda>(k, v). (k, v, provenance_default)) demo_items)
     (\<lambda>n. int n) None \<lparr>records = [], record_revisions = []\<rparr>"
proof -
  have f: "hash_faithful demo_codec (snd ` set demo_items) []"
    by (simp add: hash_faithful_def demo_items_def demo_codec_def hash_value_def)
  show ?thesis
    using batch_upsert_is_loop [of "\<lparr>records = [], record_revisions = []\<rparr>" demo_codec demo_items
        "''app''" "''ds''" "\<lambda>n. int n" None provenance_default] f
    by simp
qed

end
