(* ===== verification/Dataset_History.thy ===== *)
theory Dataset_History
  imports Dataset_Upsert
begin

text \<open>
  The revision history of the dataset store: every operation keeps each record at the head of its
  revision chain, and a revision number is never issued twice while its record exists.
\<close>

section \<open>The head of a chain\<close>

definition is_head :: "revision_row \<Rightarrow> revision_row list \<Rightarrow> bool" where
  "is_head v rs \<longleftrightarrow> v \<in> set rs \<and> (\<forall>w\<in>set rs. rev_id w = rev_id v \<longrightarrow> revision w \<le> revision v)"

text \<open>A live record carries the content of its newest revision; a tombstone's newest revision is its removal.\<close>

definition head_matches :: "record_row \<Rightarrow> revision_row \<Rightarrow> bool" where
  "head_matches r v \<longleftrightarrow>
     rev_id v = rec_id r \<and>
     (case removed_at r of
        None \<Rightarrow> (change v = ''new'' \<or> change v = ''changed'') \<and> rev_data v = Some (rec_data r)
      | Some t \<Rightarrow> change v = ''removed'' \<and> rev_data v = None \<and> rev_created_at v = t)"

definition heads_ok :: "record_row list \<Rightarrow> revision_row list \<Rightarrow> bool" where
  "heads_ok rows rs \<longleftrightarrow> (\<forall>r\<in>set rows. \<exists>v. is_head v rs \<and> head_matches r v)"

definition dataset_ok :: "dstore \<Rightarrow> bool" where
  "dataset_ok st \<longleftrightarrow>
     distinct (map rec_id (records st)) \<and>
     distinct (map (\<lambda>v. (rev_id v, revision v)) (record_revisions st)) \<and>
     sorted_wrt (<) (map rowid (record_revisions st)) \<and>
     rev_id ` set (record_revisions st) \<subseteq> rec_id ` set (records st) \<and>
     heads_ok (records st) (record_revisions st)"

lemma next_rowid_greater: "v \<in> set rs \<Longrightarrow> rowid v < next_rowid rs"
proof -
  assume v: "v \<in> set rs"
  then obtain m where m: "sql_max (map rowid rs) = Some m"
    by (cases "sql_max (map rowid rs)") (auto simp: sql_max_None)
  then have "rowid v \<le> m" using v by (simp add: sql_max_Some)
  with m show ?thesis by (simp add: next_rowid_def)
qed

text \<open>Appending the next revision of a record whose row becomes the one it describes.\<close>

lemma dataset_ok_append:
  assumes ok: "dataset_ok st"
    and R: "revision R = next_revision (rev_id R) (record_revisions st)" "rowid R = next_rowid (record_revisions st)"
    and dist: "distinct (map rec_id rows)" and ids: "rec_id ` set rows = insert (rev_id R) (rec_id ` set (records st))"
    and rows: "\<And>r. r \<in> set rows \<Longrightarrow> if rec_id r = rev_id R then head_matches r R else r \<in> set (records st)"
  shows "dataset_ok \<lparr>records = rows, record_revisions = record_revisions st @ [R]\<rparr>"
proof -
  let ?rs = "record_revisions st"
  have less: "revision w < revision R" if "w \<in> set ?rs" "rev_id w = rev_id R" for w
    using next_revision_fresh that R(1) by metis
  then have pk: "(rev_id R, revision R) \<notin> (\<lambda>v. (rev_id v, revision v)) ` set ?rs" by fastforce
  have "is_head R (?rs @ [R])" using less by (fastforce simp: is_head_def)
  moreover have "is_head v (?rs @ [R])" if "is_head v ?rs" "rev_id v \<noteq> rev_id R" for v
    using that by (auto simp: is_head_def)
  moreover have "rev_id v = rec_id r" if "head_matches r v" for r v using that by (simp add: head_matches_def)
  ultimately have "heads_ok rows (?rs @ [R])"
    using ok rows unfolding heads_ok_def dataset_ok_def by metis
  then show ?thesis
    using ok pk next_rowid_greater [of _ ?rs] dist ids
    by (auto simp: dataset_ok_def sorted_wrt_append R(2))
qed

section \<open>Single records\<close>

lemma upsert_in_tx_Some:
  "\<exists>st' kind. upsert_in_tx lib i v h sim now trust prov st = Some (st', kind)"
  by (auto simp: upsert_in_tx_def add_revision_def insert_next_revision split: option.splits)

text \<open>Every write of a revision is the append of the next number of its id.\<close>

definition next_of :: "rec_key \<Rightarrow> revision_row \<Rightarrow> revision_row list \<Rightarrow> bool" where
  "next_of i R rs \<longleftrightarrow> rev_id R = i \<and> revision R = next_revision i rs \<and> rowid R = next_rowid rs"

lemma upsert_in_tx_cases:
  assumes "upsert_in_tx lib i v h sim now trust prov st = Some (st', kind)"
  obtains (unchanged) r where "kind = Unchanged" "get_record st i = Some r"
      "st' = st\<lparr>records := update_where (\<lambda>r. rec_id r = i) (touch_set now trust) (records st)\<rparr>"
  | (fresh) R x where "kind \<noteq> Unchanged" "next_of i R (record_revisions st)"
      "change R = ''new'' \<or> change R = ''changed''" "rev_data R = Some (to_string lib v)"
      "rec_id x = i" "rec_data x = to_string lib v" "removed_at x = None"
      "st' = st\<lparr>records := put_content x (records st), record_revisions := record_revisions st @ [R]\<rparr>"
proof -
  let ?x = "new_record i h (to_string lib v) sim now trust"
  have put: "put_content ?x (records st) =
      (if get_record st i = None then records st @ [?x]
       else update_where (\<lambda>r. rec_id r = i) (content_set h (to_string lib v) sim now trust) (records st))"
    by (simp add: put_content_overwrite get_record_None new_record_def overwrite_def)
  have x: "rec_id ?x = i" "rec_data ?x = to_string lib v" "removed_at ?x = None" by (simp_all add: new_record_def)
  show thesis
  proof (cases "get_record st i")
    case None
    then show thesis
      using assms put x
      by (intro fresh [of "\<lparr>rowid = next_rowid (record_revisions st), rev_id = i,
            revision = next_revision i (record_revisions st), change = ''new'',
            rev_data = Some (to_string lib v), rev_diff = None, rev_created_at = now, rev_trust = trust,
            rev_prov = (case prov of Some p \<Rightarrow> p | None \<Rightarrow> provenance_default)\<rparr>" ?x])
        (auto simp: upsert_in_tx_def add_revision_def insert_next_revision next_of_def)
  next
    case (Some r)
    show thesis
    proof (cases "rec_hash r = h \<and> removed_at r = None")
      case True
      then show thesis using assms Some by (intro unchanged [of r]) (auto simp: upsert_in_tx_def)
    next
      case False
      then show thesis
        using assms put x Some
        by (intro fresh [of "\<lparr>rowid = next_rowid (record_revisions st), rev_id = i,
              revision = next_revision i (record_revisions st), change = ''changed'',
              rev_data = Some (to_string lib v),
              rev_diff = Some (to_string lib (diff_values (stored_value lib (rec_data r)) v)),
              rev_created_at = now, rev_trust = trust,
              rev_prov = (case prov of Some p \<Rightarrow> p | None \<Rightarrow> provenance_default)\<rparr>" ?x])
          (auto simp: upsert_in_tx_def add_revision_def insert_next_revision next_of_def)
    qed
  qed
qed

text \<open>No number of a chain is issued again: numbers grow and a new revision is beyond all the old ones.\<close>

definition advances :: "revision_row list \<Rightarrow> revision_row list \<Rightarrow> bool" where
  "advances rs rs' \<longleftrightarrow>
     (\<forall>i. next_revision i rs \<le> next_revision i rs') \<and>
     (\<forall>v\<in>set rs'. v \<in> set rs \<or> next_revision (rev_id v) rs \<le> revision v)"

lemma advances_refl [simp]: "advances rs rs"
  by (simp add: advances_def)

lemma advances_trans: "advances a b \<Longrightarrow> advances b c \<Longrightarrow> advances a c"
  unfolding advances_def by (meson order_trans)

lemma advances_append: "next_of i R rs \<Longrightarrow> advances rs (rs @ [R])"
  by (auto simp: advances_def next_of_def next_revision_snoc)

definition keeps :: "dstore \<Rightarrow> dstore \<Rightarrow> bool" where
  "keeps st st' \<longleftrightarrow> dataset_ok st' \<and> advances (record_revisions st) (record_revisions st')"

lemma keeps_refl: "dataset_ok st \<Longrightarrow> keeps st st"
  by (simp add: keeps_def)

lemma keeps_trans: "keeps a b \<Longrightarrow> keeps b c \<Longrightarrow> keeps a c"
  unfolding keeps_def using advances_trans by blast

text \<open>Rewrites of the rows that leave identity, content and tombstone alone.\<close>

lemma dataset_ok_rewrite:
  assumes ok: "dataset_ok st"
    and f: "\<And>r. rec_id (f r) = rec_id r \<and> rec_data (f r) = rec_data r \<and> removed_at (f r) = removed_at r"
  shows "dataset_ok (st\<lparr>records := map f (records st)\<rparr>)"
proof -
  have "head_matches (f r) v = head_matches r v" for r v
    by (simp add: head_matches_def f split: option.splits)
  moreover have "map rec_id (map f (records st)) = map rec_id (records st)" by (simp add: f)
  ultimately show ?thesis
    using ok by (simp add: dataset_ok_def heads_ok_def image_image f comp_def)
qed

lemma keeps_touch:
  assumes "dataset_ok st"
  shows "keeps st (st\<lparr>records := update_where p (touch_set now trust) (records st)\<rparr>)"
  using dataset_ok_rewrite [OF assms, of "\<lambda>r. if p r then touch_set now trust r else r"]
  by (simp add: keeps_def update_where_def touch_set_def)

lemma put_content_member:
  assumes "y \<in> set (put_content x rows)" and "removed_at x = None"
  shows "if rec_id y = rec_id x then rec_data y = rec_data x \<and> removed_at y = None else y \<in> set rows"
proof (cases "rec_id x \<in> rec_id ` set rows")
  case True
  then show ?thesis
    using assms by (auto simp: put_content_overwrite set_update_where overwrite_def content_set_def)
next
  case False
  then have "rec_id y \<noteq> rec_id x" if "y \<in> set rows" using that by (metis image_eqI)
  with False show ?thesis using assms by (auto simp: put_content_overwrite)
qed

lemma rec_id_put_content: "rec_id ` set (put_content x rows) = insert (rec_id x) (rec_id ` set rows)"
proof -
  have "rec_id ` set (update_where p (overwrite x) rows) = rec_id ` set rows" for p
    using arg_cong [OF map_update_where_same [of rows p rec_id "overwrite x"], of set] by simp
  then show ?thesis by (auto simp: put_content_overwrite)
qed

lemma keeps_upsert:
  assumes ok: "dataset_ok st" and up: "upsert_in_tx lib i v h sim now trust prov st = Some (st', kind)"
  shows "keeps st st'"
  using up
proof (cases rule: upsert_in_tx_cases)
  case unchanged
  then show ?thesis using keeps_touch [OF ok] by simp
next
  case (fresh R x)
  have "dataset_ok \<lparr>records = put_content x (records st), record_revisions = record_revisions st @ [R]\<rparr>"
  proof (rule dataset_ok_append [OF ok])
    show "distinct (map rec_id (put_content x (records st)))"
      using ok by (simp add: dataset_ok_def distinct_put_content)
    show "rec_id ` set (put_content x (records st)) = insert (rev_id R) (rec_id ` set (records st))"
      using fresh by (simp add: rec_id_put_content next_of_def)
    show "if rec_id r = rev_id R then head_matches r R else r \<in> set (records st)"
      if "r \<in> set (put_content x (records st))" for r
      using put_content_member [OF that fresh(7)] fresh by (auto simp: head_matches_def next_of_def split: if_splits)
  qed (use fresh in \<open>simp_all add: next_of_def\<close>)
  moreover have "st' = \<lparr>records = put_content x (records st), record_revisions = record_revisions st @ [R]\<rparr>"
    using fresh(8) by simp
  ultimately show ?thesis using advances_append [OF fresh(2)] by (simp add: keeps_def)
qed

lemma keeps_remove:
  assumes ok: "dataset_ok st" and seen: "seen i st" and rm: "remove_in_tx lib i now st = Some st'"
  shows "keeps st st'" and "seen j st \<Longrightarrow> seen j st'"
proof -
  let ?rows = "update_where (\<lambda>r. rec_id r = i) (\<lambda>r. r\<lparr>removed_at := Some now\<rparr>) (records st)"
  let ?R = "\<lparr>rowid = next_rowid (record_revisions st), rev_id = i,
      revision = next_revision i (record_revisions st), change = ''removed'', rev_data = None,
      rev_diff = None, rev_created_at = now, rev_trust = None, rev_prov = provenance_default\<rparr>"
  have st': "st' = \<lparr>records = ?rows, record_revisions = record_revisions st @ [?R]\<rparr>"
    using rm by (auto simp: remove_in_tx_def add_revision_def insert_next_revision)
  have ids: "map rec_id ?rows = map rec_id (records st)" by (simp add: map_update_where_same)
  have i: "i \<in> rec_id ` set (records st)" using seen by (simp add: seen_def get_record_None)
  have "dataset_ok \<lparr>records = ?rows, record_revisions = record_revisions st @ [?R]\<rparr>"
  proof (rule dataset_ok_append [OF ok])
    show "distinct (map rec_id ?rows)" using ok by (simp only: ids dataset_ok_def)
    have "set (map rec_id ?rows) = set (map rec_id (records st))" by (simp only: ids)
    with i show "rec_id ` set ?rows = insert (rev_id ?R) (rec_id ` set (records st))" by auto
  qed (auto simp: set_update_where head_matches_def)
  then show "keeps st st'"
    using advances_append [of i ?R "record_revisions st"] by (simp add: keeps_def st' next_of_def)
  have "rec_id ` set (records st') = rec_id ` set (records st)"
    using arg_cong [OF ids, of set] by (simp add: st')
  then show "seen j st \<Longrightarrow> seen j st'" by (simp add: seen_def get_record_None)
qed

section \<open>Batches, removals, deletion and pruning\<close>

lemma keeps_upsert_rows:
  "dataset_ok st \<Longrightarrow> upsert_rows lib app ds now trust rows part st = Some (st', part') \<Longrightarrow> keeps st st'"
proof (induction rows arbitrary: st part)
  case (Cons row rows)
  obtain k v prov h sim where row: "row = ((k, v, prov), (h, sim))" by (metis prod.collapse)
  from Cons.prems(2) obtain s1 kind where s1: "upsert_in_tx lib (app, ds, k) v h sim now trust prov st = Some (s1, kind)"
    and rest: "upsert_rows lib app ds now trust rows (summary_push part k kind) s1 = Some (st', part')"
    by (auto simp: row split: option.splits)
  have first: "keeps st s1" by (rule keeps_upsert [OF Cons.prems(1) s1])
  then have "keeps s1 st'" using Cons.IH [OF _ rest] by (simp add: keeps_def)
  with first show ?case by (rule keeps_trans)
qed (simp add: keeps_refl)

lemma keeps_row_chunks:
  "dataset_ok st \<Longrightarrow> keeps st (fst (upsert_row_chunks lib app ds clock trust n cs summary st))"
proof (induction cs arbitrary: n summary st)
  case (Cons c cs)
  obtain chunk prints where c: "c = (chunk, prints)" by (cases c)
  show ?case
  proof (cases "upsert_rows lib app ds (clock n) trust (zip chunk prints) summary_default st")
    case None
    then show ?thesis using Cons.prems by (simp add: c keeps_refl)
  next
    case (Some res)
    obtain st1 part where res: "res = (st1, part)" by (cases res)
    have first: "keeps st st1" by (rule keeps_upsert_rows [OF Cons.prems Some [unfolded res]])
    then have "dataset_ok st1" by (simp add: keeps_def)
    then show ?thesis using Cons.IH [OF \<open>dataset_ok st1\<close>] keeps_trans [OF first] Some by (simp add: c res)
  qed
qed (simp add: keeps_refl)

lemma keeps_row_stamped: "dataset_ok st \<Longrightarrow> keeps st (fst (upsert_many_row_stamped lib app ds rows clock trust st))"
  by (simp add: upsert_many_row_stamped_def keeps_row_chunks keeps_refl Let_def)

lemma keeps_batch:
  assumes "dataset_ok st" and "hash_faithful lib (snd ` set items) (records st)"
  shows "keeps st (fst (upsert_many_inner lib app ds items clock trust prov [] st))"
proof (cases "items = []")
  case False
  have sub: "\<forall>c\<in>set (chunks UPSERT_CHUNK items). snd ` set c \<subseteq> snd ` set items"
    by (rule chunk_values) (simp add: UPSERT_CHUNK_def)
  have "distinct (map rec_id (records st))" using assms(1) by (simp add: dataset_ok_def)
  from chunks_loop [OF this assms(2) sub, of app ds clock trust prov 0 summary_default]
  show ?thesis
    using keeps_row_chunks [OF assms(1)] False
    unfolding upsert_many_inner_def fingerprint_batch_plain chunk_pairs Let_def by simp
qed (simp add: upsert_many_inner_def keeps_refl assms)

lemma keeps_remove_keys:
  "dataset_ok st \<Longrightarrow> \<forall>k\<in>set keys. seen (app, ds, k) st \<Longrightarrow> remove_keys lib app ds now keys st = Some st' \<Longrightarrow>
   keeps st st' \<and> (\<forall>j. seen j st \<longrightarrow> seen j st')"
proof (induction keys arbitrary: st)
  case (Cons k keys)
  from Cons.prems(3) obtain s1 where s1: "remove_in_tx lib (app, ds, k) now st = Some s1"
    and rest: "remove_keys lib app ds now keys s1 = Some st'"
    by (auto split: option.splits)
  have k: "seen (app, ds, k) st" using Cons.prems(2) by simp
  note step = keeps_remove [OF Cons.prems(1) k s1]
  then have "dataset_ok s1" "\<forall>k\<in>set keys. seen (app, ds, k) s1" using Cons.prems(2) by (auto simp: keeps_def)
  from Cons.IH [OF this rest] show ?case using step keeps_trans by blast
qed (simp add: keeps_refl)

lemma keeps_tombstone_chunks:
  "dataset_ok st \<Longrightarrow> \<forall>c\<in>set cs. \<forall>k\<in>set c. seen (app, ds, k) st \<Longrightarrow>
   keeps st (fst (tombstone_chunks lib app ds now cs st))"
proof (induction cs arbitrary: st)
  case (Cons c cs)
  show ?case
  proof (cases "remove_keys lib app ds now c st")
    case (Some s1)
    have first: "keeps st s1 \<and> (\<forall>j. seen j st \<longrightarrow> seen j s1)"
      using keeps_remove_keys [OF Cons.prems(1) _ Some] Cons.prems(2) by simp
    then have "dataset_ok s1" by (simp add: keeps_def)
    with Cons.IH [OF this] first keeps_trans Some Cons.prems(2) show ?thesis by fastforce
  qed (simp add: Cons.prems keeps_refl)
qed (simp add: keeps_refl)

lemma keeps_apply_tombstones:
  assumes "dataset_ok st" and "\<forall>k\<in>set keys. seen (app, ds, k) st"
  shows "keeps st (fst (apply_tombstones lib app ds now keys st))"
proof -
  have "\<forall>c\<in>set (chunks UPSERT_CHUNK keys). \<forall>k\<in>set c. seen (app, ds, k) st"
    using assms(2) chunk_members [of UPSERT_CHUNK _ keys] UPSERT_CHUNK_def by force
  from keeps_tombstone_chunks [OF assms(1) this] show ?thesis
    by (simp add: apply_tombstones_def case_prod_beta)
qed

lemma live_keys_seen: "k \<in> set (live_keys app ds st) \<Longrightarrow> seen (app, ds, k) st"
  by (force simp: live_keys_def seen_def get_record_None image_iff)

lemma keeps_detect_removed: "dataset_ok st \<Longrightarrow> keeps st (fst (detect_removed lib app ds present now st))"
  by (simp add: detect_removed_def keeps_refl keeps_apply_tombstones live_keys_seen)

lemma keeps_tombstone_keys: "dataset_ok st \<Longrightarrow> keeps st (fst (tombstone_keys lib app ds keys now st))"
  by (auto simp: tombstone_keys_def Let_def keeps_refl live_keys_seen intro!: keeps_apply_tombstones)

text \<open>Deleting whole chains keeps what is left; pruning keeps the newest revision of every key.\<close>

lemma keys_filter:
  "distinct (map f xs) \<Longrightarrow> distinct (map f (filter P xs))"
  "sorted_wrt R (map g xs) \<Longrightarrow> sorted_wrt R (map g (filter P xs))"
  by (simp_all add: distinct_map_filter sorted_wrt_map sorted_wrt_filter)

lemma dataset_ok_delete:
  assumes ok: "dataset_ok st"
  shows "dataset_ok \<lparr>records = filter (\<lambda>r. P (rec_id r)) (records st),
                     record_revisions = filter (\<lambda>v. P (rev_id v)) (record_revisions st)\<rparr>"
proof -
  have "is_head v (filter (\<lambda>v. P (rev_id v)) (record_revisions st))"
    if "is_head v (record_revisions st)" "P (rev_id v)" for v
    using that by (auto simp: is_head_def)
  then have "heads_ok (filter (\<lambda>r. P (rec_id r)) (records st)) (filter (\<lambda>v. P (rev_id v)) (record_revisions st))"
    using ok by (fastforce simp: dataset_ok_def heads_ok_def head_matches_def)
  moreover have "rev_id ` set (filter (\<lambda>v. P (rev_id v)) (record_revisions st)) \<subseteq>
      rec_id ` set (filter (\<lambda>r. P (rec_id r)) (records st))"
    using ok by (auto simp: dataset_ok_def)
  ultimately show ?thesis
    using ok by (simp add: dataset_ok_def keys_filter)
qed

lemma head_not_prunable:
  assumes "distinct (map (\<lambda>v. (rev_id v, revision v)) rs)" and "is_head v rs" and "1 \<le> keep"
  shows "\<not> prunable older_than keep rs v"
proof -
  have "n = v" if "n \<in> set rs" "rev_id n = rev_id v" "revision v \<le> revision n" for n
  proof -
    have "revision n = revision v" using that assms(2) by (auto simp: is_head_def intro: antisym)
    with that assms show ?thesis by (auto simp: distinct_map inj_on_def is_head_def)
  qed
  then have "set (filter (\<lambda>n. rev_id n = rev_id v \<and> revision v \<le> revision n) rs) \<subseteq> {v}" by auto
  moreover have "distinct (filter (\<lambda>n. rev_id n = rev_id v \<and> revision v \<le> revision n) rs)"
    using assms(1) by (simp add: distinct_map)
  ultimately have "rows_affected (\<lambda>n. rev_id n = rev_id v \<and> revision v \<le> revision n) rs \<le> 1"
    unfolding rows_affected_def by (metis card_mono distinct_card finite.intros(1,2) is_singletonI is_singleton_altdef)
  with assms(3) show ?thesis by (simp add: prunable_def)
qed

lemma next_revision_head: "is_head v rs \<Longrightarrow> next_revision (rev_id v) rs = revision v + 1"
proof -
  assume "is_head v rs"
  then have "sql_max (revisions_of (rev_id v) rs) = Some (revision v)"
    by (auto simp: sql_max_Some revisions_of_def is_head_def)
  then show ?thesis by (simp add: next_revision_def)
qed

lemma head_exists: "v \<in> set rs \<Longrightarrow> \<exists>w. is_head w rs \<and> rev_id w = rev_id v"
proof -
  assume "v \<in> set rs"
  then obtain m where "sql_max (revisions_of (rev_id v) rs) = Some m"
    by (cases "sql_max (revisions_of (rev_id v) rs)") (auto simp: sql_max_None revisions_of_def filter_empty_conv)
  then show ?thesis by (auto simp: sql_max_Some revisions_of_def is_head_def)
qed

lemma next_revision_none: "(\<forall>v\<in>set rs. rev_id v \<noteq> i) \<Longrightarrow> next_revision i rs = 1"
  by (simp add: next_revision_def revisions_of_def)

lemma keeps_prune:
  assumes ok: "dataset_ok st" and keep: "1 \<le> keep"
  shows "keeps st (fst (prune_revisions older_than keep st))"
proof -
  define rs where "rs = record_revisions st"
  define rs' where "rs' = filter (\<lambda>r. \<not> prunable older_than keep rs r) rs"
  have pk: "distinct (map (\<lambda>v. (rev_id v, revision v)) rs)" using ok by (simp add: dataset_ok_def rs_def)
  have head: "is_head v rs'" if "is_head v rs" for v
    using that head_not_prunable [OF pk that keep] by (auto simp: is_head_def rs'_def)
  have "next_revision i rs' = next_revision i rs" for i
  proof (cases "\<exists>v\<in>set rs. rev_id v = i")
    case True
    then obtain w where "is_head w rs" "rev_id w = i" using head_exists by blast
    then show ?thesis using next_revision_head [of w rs] next_revision_head [OF head, of w] by simp
  next
    case False
    then show ?thesis by (simp add: next_revision_none rs'_def)
  qed
  then have "advances rs rs'" by (auto simp: advances_def rs'_def)
  moreover have "heads_ok (records st) rs'" 
    using ok head unfolding dataset_ok_def heads_ok_def rs_def by blast
  then have "dataset_ok (st\<lparr>record_revisions := rs'\<rparr>)"
    using ok by (auto simp: dataset_ok_def rs'_def rs_def keys_filter)
  moreover have "fst (prune_revisions older_than keep st) = st\<lparr>record_revisions := rs'\<rparr>"
    using keep by (simp add: prune_revisions_def Let_def rs'_def rs_def max_absorb1)
  ultimately show ?thesis by (simp add: keeps_def rs_def)
qed

lemma keeps_reindex: "dataset_ok st \<Longrightarrow> keeps st (fst (reindex_simhashes lib st))"
  using dataset_ok_rewrite [of st "\<lambda>r. if simhash_value lib (stored_value lib (rec_data r)) \<noteq> rec_simhash r
      then r\<lparr>rec_simhash := simhash_value lib (stored_value lib (rec_data r))\<rparr> else r"]
  by (simp add: keeps_def reindex_simhashes_def update_where_def Let_def)

section \<open>Every history of operations\<close>

text \<open>The operations of the store as steps; the janitor is configured to keep at least one revision per key.\<close>

inductive dstep :: "codec \<Rightarrow> dstore \<Rightarrow> dstore \<Rightarrow> bool" for lib where
  upsert: "upsert_stamped lib i v now trust prov st = Some (st', kind) \<Longrightarrow> dstep lib st st'"
| batch: "hash_faithful lib (snd ` set items) (records st) \<Longrightarrow>
    dstep lib st (fst (upsert_many_inner lib app ds items clock trust prov [] st))"
| rows: "dstep lib st (fst (upsert_many_row_stamped lib app ds rows clock trust st))"
| snapshot: "dstep lib st (fst (detect_removed lib app ds present now st))"
| tombstone: "dstep lib st (fst (tombstone_keys lib app ds keys now st))"
| delete: "dstep lib st (fst (delete_record i st))"
| delete_all: "dstep lib st (fst (delete_dataset_mode app ds mode now st))"
| prune: "1 \<le> keep \<Longrightarrow> dstep lib st (fst (prune_revisions older_than keep st))"
| reindex: "dstep lib st (fst (reindex_simhashes lib st))"

lemma delete_cases:
  assumes ok: "dataset_ok st"
  shows "dataset_ok (fst (delete_record i st))"
    and "dataset_ok (fst (delete_dataset_mode app ds mode now st))"
  using dataset_ok_delete [OF ok, of "\<lambda>j. j \<noteq> i"] dataset_ok_delete [OF ok, of "\<lambda>j. \<not> in_dataset app ds j"] ok
  by (auto simp: delete_record_def delete_dataset_mode_def delete_dataset_tx_def verdict_wrote_def Let_def
      split: DeleteMode.splits option.splits)

lemma dstep_ok: "dstep lib st st' \<Longrightarrow> dataset_ok st \<Longrightarrow> dataset_ok st'"
proof (induction rule: dstep.induct)
  case (upsert i v now trust prov st st' kind)
  then show ?case using keeps_upsert [of st] by (auto simp: upsert_stamped_def keeps_def)
qed (simp_all add: keeps_batch [unfolded keeps_def] keeps_row_stamped [unfolded keeps_def]
    keeps_detect_removed [unfolded keeps_def] keeps_tombstone_keys [unfolded keeps_def] delete_cases
    keeps_prune [unfolded keeps_def] keeps_reindex [unfolded keeps_def])

lemma dreach_ok: "(dstep lib)\<^sup>*\<^sup>* \<lparr>records = [], record_revisions = []\<rparr> st \<Longrightarrow> dataset_ok st"
proof (induction rule: rtranclp_induct)
  case base
  show ?case by (simp add: dataset_ok_def heads_ok_def)
qed (rule dstep_ok)

lemma seen_not_deleted:
  assumes "seen j st'"
  shows "st' = fst (delete_record i st) \<Longrightarrow> next_revision j (record_revisions st') = next_revision j (record_revisions st)"
    and "st' = fst (delete_dataset_mode app ds mode now st) \<Longrightarrow>
         next_revision j (record_revisions st') = next_revision j (record_revisions st)"
proof -
  have keep: "next_revision j (filter (\<lambda>v. P (rev_id v)) rs) = next_revision j rs" if "P j" for P rs
  proof -
    have "filter (\<lambda>v. rev_id v = j) (filter (\<lambda>v. P (rev_id v)) rs) = filter (\<lambda>v. rev_id v = j) rs"
      using that by (induction rs) auto
    then show ?thesis by (simp only: next_revision_def revisions_of_def)
  qed
  show "st' = fst (delete_record i st) \<Longrightarrow> next_revision j (record_revisions st') = next_revision j (record_revisions st)"
    using assms keep [of "\<lambda>k. k \<noteq> i"] by (auto simp: delete_record_def seen_def get_record_None)
  show "st' = fst (delete_dataset_mode app ds mode now st) \<Longrightarrow>
         next_revision j (record_revisions st') = next_revision j (record_revisions st)"
    using assms keep [of "\<lambda>k. \<not> in_dataset app ds k"]
    by (auto simp: delete_dataset_mode_def delete_dataset_tx_def verdict_wrote_def Let_def seen_def get_record_None
        split: DeleteMode.splits option.splits)
qed

lemma deleted_subset:
  "set (record_revisions (fst (delete_record i st))) \<subseteq> set (record_revisions st)"
  "set (record_revisions (fst (delete_dataset_mode app ds mode now st))) \<subseteq> set (record_revisions st)"
  by (auto simp: delete_record_def delete_dataset_mode_def delete_dataset_tx_def verdict_wrote_def Let_def
      split: DeleteMode.splits option.splits)

lemma dstep_advances:
  assumes "dstep lib st st'" and "dataset_ok st"
  shows "(\<forall>j. seen j st' \<longrightarrow> next_revision j (record_revisions st) \<le> next_revision j (record_revisions st')) \<and>
         (\<forall>v\<in>set (record_revisions st'). v \<in> set (record_revisions st) \<or>
            next_revision (rev_id v) (record_revisions st) \<le> revision v)"
proof -
  have *: ?thesis if "keeps st st'" using that by (simp add: keeps_def advances_def)
  from assms(1) show ?thesis
  proof cases
    case upsert
    then show ?thesis using * keeps_upsert [OF assms(2)] by (auto simp: upsert_stamped_def)
  next
    case (delete i)
    then show ?thesis using seen_not_deleted(1) [OF _ delete] deleted_subset(1) [of i st] by auto
  next
    case (delete_all app ds mode now)
    then show ?thesis
      using seen_not_deleted(2) [OF _ delete_all] deleted_subset(2) [of app ds mode now st] by auto
  qed (rule *, simp add: keeps_batch keeps_row_stamped keeps_detect_removed keeps_tombstone_keys keeps_prune
      keeps_reindex assms(2))+
qed


text \<open>
  A revision number is never issued twice for a record that exists: along every step of a
  reachable store that does not delete the record, the next number of its chain does not go down,
  and every revision a step adds carries a number beyond all those its chain held before.
\<close>

theorem revision_numbers_never_reused:
  assumes "(dstep lib)\<^sup>*\<^sup>* \<lparr>records = [], record_revisions = []\<rparr> st" and "dstep lib st st'"
  shows "(\<forall>j. seen j st' \<longrightarrow> next_revision j (record_revisions st) \<le> next_revision j (record_revisions st')) \<and>
         (\<forall>v\<in>set (record_revisions st') - set (record_revisions st).
            \<forall>w\<in>set (record_revisions st). rev_id w = rev_id v \<longrightarrow> revision w < revision v)"
  using dstep_advances [OF assms(2) dreach_ok [OF assms(1)]] next_revision_fresh
  by (metis (no_types, lifting) DiffD1 DiffD2 order_less_le_trans)

definition demo_store :: dstore where
  "demo_store = fst (tombstone_keys demo_codec ''app'' ''ds'' [''a''] 7
     (fst (upsert_many_row_stamped demo_codec ''app'' ''ds''
        [(''a'', JString ''x'', provenance_default), (''b'', JString ''y'', provenance_default),
         (''a'', JString ''z'', provenance_default)] (\<lambda>n. int n) None \<lparr>records = [], record_revisions = []\<rparr>)))"

lemma demo_store_reachable: "(dstep demo_codec)\<^sup>*\<^sup>* \<lparr>records = [], record_revisions = []\<rparr> demo_store"
  unfolding demo_store_def
  by (rule rtranclp.rtrancl_into_rtrancl [OF r_into_rtranclp]) (rule dstep.rows dstep.tombstone)+


theorem revision_numbers_never_reused_witness:
  "dstep demo_codec demo_store (fst (prune_revisions 100 1 demo_store)) \<and>
   map revision (record_revisions (fst (prune_revisions 100 1 demo_store))) = [1, 3] \<and>
   next_revision (''app'', ''ds'', ''a'') (record_revisions demo_store) \<le>
     next_revision (''app'', ''ds'', ''a'') (record_revisions (fst (prune_revisions 100 1 demo_store)))"
proof -
  have step: "dstep demo_codec demo_store (fst (prune_revisions 100 1 demo_store))" by (rule dstep.prune) simp
  have "seen (''app'', ''ds'', ''a'') (fst (prune_revisions 100 1 demo_store))" by code_simp
  moreover have "map revision (record_revisions (fst (prune_revisions 100 1 demo_store))) = [1, 3]" by code_simp
  ultimately show ?thesis
    using step revision_numbers_never_reused [OF demo_store_reachable step] by blast
qed

end
