(* ===== verification/Dataset_Diff.thy ===== *)
theory Dataset_Diff
  imports Dataset_Store
begin

text \<open>
  What the field-level diff of a changed record reports: exactly the places where two documents
  diverge, each under its dotted path with the value before and after.
\<close>

section \<open>Places of a document\<close>

fun get_path :: "json \<Rightarrow> string list \<Rightarrow> json" where
  "get_path v [] = v"
| "get_path (JObject m) (k # ks) = get_path (object_get m k) ks"
| "get_path _ (k # ks) = JNull"

definition is_object :: "json \<Rightarrow> bool" where
  "is_object v = (case v of JObject _ \<Rightarrow> True | _ \<Rightarrow> False)"

text \<open>
  Two documents diverge at a place when they hold different values there that are not both
  objects, and hold objects at every place on the way.
\<close>

definition diverges :: "json \<Rightarrow> json \<Rightarrow> string list \<Rightarrow> bool" where
  "diverges old new ks \<longleftrightarrow>
     (\<forall>i<length ks. is_object (get_path old (take i ks)) \<and> is_object (get_path new (take i ks))) \<and>
     get_path old ks \<noteq> get_path new ks \<and>
     \<not> (is_object (get_path old ks) \<and> is_object (get_path new ks))"

definition path_text :: "string \<Rightarrow> string list \<Rightarrow> string" where
  "path_text path ks = (let p = foldl sub_path path ks in if p = [] then ''$'' else p)"

lemma is_object_simps [simp]: "is_object (JObject m)" "\<not> is_object JNull"
  by (simp_all add: is_object_def)

lemma get_path_scalar: "\<not> is_object v \<Longrightarrow> ks \<noteq> [] \<Longrightarrow> get_path v ks = JNull"
  by (cases ks; cases v) (auto simp: is_object_def)

lemma diverges_objects:
  "diverges (JObject a) (JObject b) ks \<longleftrightarrow>
     (\<exists>k ks'. ks = k # ks' \<and> diverges (object_get a k) (object_get b k) ks')"
proof (cases ks)
  case Nil
  then show ?thesis by (simp add: diverges_def)
next
  case (Cons k ks')
  then show ?thesis by (simp add: diverges_def All_less_Suc2)
qed

lemma diverges_leaf:
  assumes "\<not> (is_object old \<and> is_object new)"
  shows "diverges old new ks \<longleftrightarrow> ks = [] \<and> old \<noteq> new"
proof (cases ks)
  case Nil
  then show ?thesis using assms by (simp add: diverges_def)
next
  case (Cons k ks')
  then have "\<not> (\<forall>i<length ks. is_object (get_path old (take i ks)) \<and> is_object (get_path new (take i ks)))"
    using assms by auto
  with Cons show ?thesis unfolding diverges_def by blast
qed

lemma diverges_absent: "k \<notin> set (key_union a b) \<Longrightarrow> \<not> diverges (object_get a k) (object_get b k) ks"
proof -
  assume "k \<notin> set (key_union a b)"
  then have "map_of a k = None" "map_of b k = None" by (auto simp: key_union_def map_of_eq_None_iff)
  then show ?thesis by (simp add: object_get_def diverges_leaf)
qed

section \<open>The entries of a diff\<close>

definition reports ::
  "string \<Rightarrow> (string list \<times> json \<times> json) set \<Rightarrow> (string \<times> json) list \<Rightarrow> (string \<times> json) list \<Rightarrow> bool" where
  "reports path D out out' \<longleftrightarrow>
     btree_ok out' \<and>
     fst ` set out' = fst ` set out \<union> (\<lambda>d. path_text path (fst d)) ` D \<and>
     (\<forall>e\<in>set out'. e \<in> set out \<or>
        (\<exists>(ks, a, b)\<in>D. e = (path_text path ks, diff_entry a b)))"

definition divergences :: "json \<Rightarrow> json \<Rightarrow> (string list \<times> json \<times> json) set" where
  "divergences old new = {(ks, get_path old ks, get_path new ks) | ks. diverges old new ks}"

lemma btree_insert_member: "e \<in> set (btree_insert k v m) \<Longrightarrow> e = (k, v) \<or> e \<in> set m"
  by (induction k v m rule: btree_insert.induct) (auto split: if_splits)

lemma reports_nothing: "btree_ok out \<Longrightarrow> reports path {} out out"
  by (simp add: reports_def)

lemma reports_entry:
  "btree_ok out \<Longrightarrow> reports path {([], a, b)} out (btree_insert (if path = [] then ''$'' else path) (diff_entry a b) out)"
  by (auto simp: reports_def path_text_def dest: btree_insert_member)

lemma reports_trans:
  "reports path D out out1 \<Longrightarrow> reports path D' out1 out2 \<Longrightarrow> reports path (D \<union> D') out out2"
proof -
  assume a: "reports path D out out1" and b: "reports path D' out1 out2"
  have "e \<in> set out \<or> (\<exists>(ks, u, v)\<in>D \<union> D'. e = (path_text path ks, diff_entry u v))" if "e \<in> set out2" for e
  proof (cases "e \<in> set out1")
    case True
    then show ?thesis using a unfolding reports_def by (meson UnI1)
  next
    case False
    then show ?thesis using b that unfolding reports_def by (meson UnI2)
  qed
  with a b show ?thesis by (simp add: reports_def image_Un Un_assoc)
qed

lemma reports_child:
  assumes "reports (sub_path path k) D out out'"
  shows "reports path ((\<lambda>(ks, a, b). (k # ks, a, b)) ` D) out out'"
proof -
  have "path_text (sub_path path k) ks = path_text path (k # ks)" for ks by (simp add: path_text_def)
  with assms show ?thesis unfolding reports_def by (auto simp: image_image case_prod_beta)
qed

lemma reports_fold:
  assumes "\<And>k out. k \<in> set keys \<Longrightarrow> btree_ok out \<Longrightarrow> reports path (D k) out (f k out)" and "btree_ok out"
  shows "reports path (\<Union>k\<in>set keys. D k) out (fold f keys out)"
  using assms
proof (induction keys arbitrary: out)
  case Nil
  then show ?case by (simp add: reports_nothing)
next
  case (Cons k keys)
  have first: "reports path (D k) out (f k out)" using Cons.prems by simp
  then have "btree_ok (f k out)" by (simp add: reports_def)
  with Cons have "reports path (\<Union>k\<in>set keys. D k) (f k out) (fold f keys (f k out))" by simp
  from reports_trans [OF first this] show ?case by simp
qed

lemma divergences_objects:
  "divergences (JObject a) (JObject b) =
     (\<Union>k\<in>set (key_union a b). (\<lambda>(ks, u, v). (k # ks, u, v)) ` divergences (object_get a k) (object_get b k))"
proof -
  have "k \<in> set (key_union a b)" if "diverges (object_get a k) (object_get b k) ks" for k ks
    using that diverges_absent by blast
  then show ?thesis by (force simp: divergences_def diverges_objects)
qed

lemma divergences_leaf:
  "\<not> (is_object old \<and> is_object new) \<Longrightarrow> divergences old new = (if old = new then {} else {([], old, new)})"
  by (auto simp: divergences_def diverges_leaf)

lemma diff_into_reports: "btree_ok out \<Longrightarrow> reports path (divergences old new) out (diff_into path old new out)"
proof (induction path old new out rule: diff_into.induct)
  case (1 path old new out)
  show ?case
  proof (cases "is_object old \<and> is_object new")
    case True
    then obtain a b where ab: "old = JObject a" "new = JObject b"
      by (cases old; cases new) (simp_all add: is_object_def)
    have "reports path ((\<lambda>(ks, u, v). (k # ks, u, v)) ` divergences (object_get a k) (object_get b k)) out
        (diff_into (sub_path path k) (object_get a k) (object_get b k) out)"
      if "k \<in> set (key_union a b)" "btree_ok out" for k out
      using 1(1) that ab by (intro reports_child) blast
    from reports_fold [OF this 1(2)] show ?thesis
      by (subst diff_into.simps) (simp add: ab divergences_objects)
  next
    case False
    then have "diff_into path old new out =
        (if old = new then out else btree_insert (if path = [] then ''$'' else path) (diff_entry old new) out)"
      by (subst diff_into.simps) (cases old; cases new; simp)
    with False 1(2) show ?thesis by (simp add: divergences_leaf reports_nothing reports_entry)
  qed
qed

text \<open>
  C23. The diff recorded with a changed record is exact: its keys, in ascending order and each
  once, are the dotted paths of the places where the two documents diverge, no more and no fewer
  (a field present on one side only diverges from \<open>null\<close>; arrays and scalars diverge as a whole;
  the root is \<open>$\<close>); every entry holds the values before and after at a place with that path; and
  the diff is empty exactly when the documents diverge nowhere.
\<close>

theorem diff_values_exact:
  "\<exists>entries. diff_values old new = JObject entries \<and> btree_ok entries \<and>
     fst ` set entries = path_text [] ` {ks. diverges old new ks} \<and>
     (\<forall>(p, e)\<in>set entries. \<exists>ks. diverges old new ks \<and> p = path_text [] ks \<and>
        e = JObject [(''from'', get_path old ks), (''to'', get_path new ks)]) \<and>
     (entries = [] \<longleftrightarrow> \<not> (\<exists>ks. diverges old new ks))"
proof -
  have r: "reports [] (divergences old new) [] (diff_into [] old new [])"
    by (rule diff_into_reports) simp
  then have keys: "fst ` set (diff_into [] old new []) = path_text [] ` {ks. diverges old new ks}"
    by (auto simp: reports_def divergences_def image_iff)
  have "\<exists>ks. diverges old new ks \<and> fst e = path_text [] ks \<and>
      snd e = JObject [(''from'', get_path old ks), (''to'', get_path new ks)]"
    if "e \<in> set (diff_into [] old new [])" for e
    using r that by (fastforce simp: reports_def divergences_def diff_entry_def)
  moreover have "diff_into [] old new [] = [] \<longleftrightarrow> \<not> (\<exists>ks. diverges old new ks)"
    using keys by (metis (no_types, lifting) Collect_empty_eq image_is_empty set_empty)
  ultimately show ?thesis
    using r keys by (intro exI [of _ "diff_into [] old new []"]) (auto simp: diff_values_def reports_def)
qed

theorem diff_values_exact_witness:
  "\<exists>entries. diff_values (JObject [(''a'', JBool True), (''b'', JObject [(''c'', JNull), (''d'', JBool True)])])
       (JObject [(''b'', JObject [(''c'', JBool False), (''d'', JBool True)])]) = JObject entries \<and>
     map fst entries = [''a'', ''b.c''] \<and> btree_ok entries"
proof -
  have "diff_values (JObject [(''a'', JBool True), (''b'', JObject [(''c'', JNull), (''d'', JBool True)])])
       (JObject [(''b'', JObject [(''c'', JBool False), (''d'', JBool True)])]) =
     JObject [(''a'', JObject [(''from'', JBool True), (''to'', JNull)]),
              (''b.c'', JObject [(''from'', JNull), (''to'', JBool False)])]"
    by code_simp
  then show ?thesis
    using diff_values_exact [of "JObject [(''a'', JBool True), (''b'', JObject [(''c'', JNull), (''d'', JBool True)])]"
        "JObject [(''b'', JObject [(''c'', JBool False), (''d'', JBool True)])]"]
    by auto
qed

end
