(* ===== verification/Crawl_Frontier.thy ===== *)
theory Crawl_Frontier
  imports Simhash
begin

text \<open>
  The crawler's URL frontier and its checkpoint (\<open>crates/core/src/crawl.rs\<close>): per-host queues
  handed out round-robin, global deduplication with a cap, per-host page budgets, and the state a
  checkpoint persists and a resume restores. A \<open>HashMap\<close> is a map; where the source iterates
  over one, the iteration order is an argument. The host of a URL is the \<open>url\<close> crate's answer, a
  parameter \<open>host_of\<close>. The lemmas show that the queues, the rotation and the counters stay
  consistent, that a rotation serves every host once, and what a checkpoint keeps.
\<close>

section \<open>Frontier\<close>

definition MAX_FRONTIER :: nat where
  "MAX_FRONTIER = 100000"

record Frontier =
  per_host :: "string \<rightharpoonup> (string \<times> nat) list"
  fr_order :: "string list"
  fr_seen :: "string list"
  fr_dropped :: nat
  fr_len :: nat
  fr_taken :: "string \<rightharpoonup> nat"
  max_pages_per_host :: "nat option"
  skipped_host_budget :: nat

definition frontier_new :: "nat option \<Rightarrow> Frontier" where
  "frontier_new cap =
     \<lparr>per_host = Map.empty, fr_order = [], fr_seen = [], fr_dropped = 0, fr_len = 0,
      fr_taken = Map.empty, max_pages_per_host = (if cap = Some 0 then None else cap),
      skipped_host_budget = 0\<rparr>"

definition url_host :: "(string \<Rightarrow> string option) \<Rightarrow> string \<Rightarrow> string" where
  "url_host host_of url = (case host_of url of Some h \<Rightarrow> h | None \<Rightarrow> [])"

definition queue_of :: "Frontier \<Rightarrow> string \<Rightarrow> (string \<times> nat) list" where
  "queue_of f h = (case per_host f h of Some q \<Rightarrow> q | None \<Rightarrow> [])"

definition enqueue_url :: "(string \<Rightarrow> string option) \<Rightarrow> string \<Rightarrow> nat \<Rightarrow> Frontier \<Rightarrow> Frontier" where
  "enqueue_url host_of url depth f =
     (let host = url_host host_of url; q = queue_of f host; was_empty = (q = [])
      in f\<lparr>per_host := (per_host f)(host \<mapsto> q @ [(url, depth)]), fr_len := fr_len f + 1,
           fr_order := (if was_empty \<and> host \<notin> set (fr_order f) then fr_order f @ [host] else fr_order f)\<rparr>)"

definition push :: "(string \<Rightarrow> string option) \<Rightarrow> string \<Rightarrow> nat \<Rightarrow> Frontier \<Rightarrow> Frontier" where
  "push host_of url depth f =
     (if url \<in> set (fr_seen f) then f
      else if MAX_FRONTIER \<le> length (fr_seen f) then f\<lparr>fr_dropped := fr_dropped f + 1\<rparr>
      else enqueue_url host_of url depth (f\<lparr>fr_seen := fr_seen f @ [url]\<rparr>))"

definition taken_of :: "Frontier \<Rightarrow> string \<Rightarrow> nat" where
  "taken_of f h = (case fr_taken f h of Some n \<Rightarrow> n | None \<Rightarrow> 0)"

definition over_budget :: "Frontier \<Rightarrow> string \<Rightarrow> bool" where
  "over_budget f h = (case max_pages_per_host f of Some cap \<Rightarrow> cap \<le> taken_of f h | None \<Rightarrow> False)"

text \<open>The loop of \<open>pop\<close>, with the number of turns fixed when it starts.\<close>

fun pop_loop :: "nat \<Rightarrow> Frontier \<Rightarrow> (string \<times> nat) option \<times> Frontier" where
  "pop_loop 0 f = (None, f)"
| "pop_loop (Suc n) f =
     (case fr_order f of
        [] \<Rightarrow> (None, f)
      | host # order \<Rightarrow>
          let f = f\<lparr>fr_order := order\<rparr>
          in if over_budget f host then
               (case per_host f host of
                  Some q \<Rightarrow> pop_loop n (f\<lparr>per_host := (per_host f)(host := None),
                                      skipped_host_budget := skipped_host_budget f + length q,
                                      fr_len := fr_len f - length q\<rparr>)
                | None \<Rightarrow> pop_loop n f)
             else case per_host f host of
                    None \<Rightarrow> pop_loop n f
                  | Some [] \<Rightarrow> pop_loop n (f\<lparr>per_host := (per_host f)(host := None)\<rparr>)
                  | Some (item # q) \<Rightarrow>
                      (Some item,
                       f\<lparr>fr_len := fr_len f - 1,
                         fr_taken := (fr_taken f)(host \<mapsto> taken_of f host + 1),
                         per_host := (per_host f)(host := if q = [] then None else Some q),
                         fr_order := (if q = [] then fr_order f else fr_order f @ [host])\<rparr>))"

definition pop :: "Frontier \<Rightarrow> (string \<times> nat) option \<times> Frontier" where
  "pop f = pop_loop (length (fr_order f)) f"

definition requeue_url :: "(string \<Rightarrow> string option) \<Rightarrow> string \<Rightarrow> nat \<Rightarrow> Frontier \<Rightarrow> Frontier" where
  "requeue_url host_of url depth f =
     (let host = url_host host_of url
      in enqueue_url host_of url depth
           (case fr_taken f host of
              Some c \<Rightarrow> f\<lparr>fr_taken := (fr_taken f)(host \<mapsto> c - 1)\<rparr>
            | None \<Rightarrow> f))"

text \<open>The queued URLs, bucket by bucket in the order \<open>hosts\<close> of the map's iteration.\<close>

definition queued :: "string list \<Rightarrow> Frontier \<Rightarrow> (string \<times> nat) list" where
  "queued hosts f = concat (map (queue_of f) hosts)"

definition restore ::
  "(string \<Rightarrow> string option) \<Rightarrow> (string \<times> nat) list \<Rightarrow> string list \<Rightarrow> (string \<rightharpoonup> nat) \<Rightarrow> Frontier \<Rightarrow> Frontier" where
  "restore host_of queue seen taken f =
     foldl (\<lambda>f (url, depth). enqueue_url host_of url depth f)
       (f\<lparr>fr_seen := seen, fr_taken := taken\<rparr>) queue"

section \<open>Checkpoint\<close>

definition CHECKPOINT_VERSION :: nat where
  "CHECKPOINT_VERSION = 2"

record Checkpoint =
  cp_version :: nat
  cp_queue :: "(string \<times> nat) list"
  cp_seen :: "string list"
  cp_kept_hashes :: "64 word list"
  cp_taken :: "string \<rightharpoonup> nat"

datatype CheckpointLoad = NoCheckpoint | Loaded Checkpoint | Incompatible

text \<open>\<open>parsed\<close> is what deserializing the stored value gives, when it parses at all.\<close>

definition checkpoint_from_value :: "bool \<Rightarrow> Checkpoint option \<Rightarrow> CheckpointLoad" where
  "checkpoint_from_value is_null parsed =
     (if is_null then NoCheckpoint
      else case parsed of
             Some cp \<Rightarrow> if cp_version cp = CHECKPOINT_VERSION then Loaded cp else Incompatible
           | None \<Rightarrow> Incompatible)"

definition checkpoint_queue :: "string list \<Rightarrow> Frontier \<Rightarrow> (string \<times> nat) list \<Rightarrow> (string \<times> nat) list" where
  "checkpoint_queue hosts f in_flight = queued hosts f @ in_flight"

definition save_checkpoint_state ::
  "string list \<Rightarrow> Frontier \<Rightarrow> (string \<times> nat) list \<Rightarrow> 64 word list \<Rightarrow> Checkpoint" where
  "save_checkpoint_state hosts f in_flight kept_hashes =
     \<lparr>cp_version = CHECKPOINT_VERSION, cp_queue = checkpoint_queue hosts f in_flight,
      cp_seen = fr_seen f, cp_kept_hashes = kept_hashes, cp_taken = fr_taken f\<rparr>"

text \<open>The start of a crawl, with the state a previous attempt left.\<close>

definition resume_crawl ::
  "(string \<Rightarrow> string option) \<Rightarrow> nat option \<Rightarrow> 32 word \<Rightarrow> CheckpointLoad \<Rightarrow> Frontier \<times> SimHashIndex \<times> bool \<times> bool" where
  "resume_crawl host_of cap distance loaded =
     (case loaded of
        Loaded cp \<Rightarrow> (restore host_of (cp_queue cp) (cp_seen cp) (cp_taken cp) (frontier_new cap),
                      from_hashes distance (cp_kept_hashes cp), True, False)
      | Incompatible \<Rightarrow> (frontier_new cap, simhash_index_new distance, False, True)
      | NoCheckpoint \<Rightarrow> (frontier_new cap, simhash_index_new distance, False, False))"

section \<open>Consistency\<close>

text \<open>
  Every stored bucket is non-empty and holds URLs of its host, seen and without repetition; the
  rotation holds exactly the hosts with a bucket, each once; the length counter is the number of
  queued URLs.
\<close>

definition bucket_ok :: "(string \<Rightarrow> string option) \<Rightarrow> string list \<Rightarrow> string \<Rightarrow> (string \<times> nat) list \<Rightarrow> bool" where
  "bucket_ok host_of known h q \<longleftrightarrow>
     q \<noteq> [] \<and> distinct (map fst q) \<and> (\<forall>e\<in>set q. url_host host_of (fst e) = h \<and> fst e \<in> set known)"

definition frontier_ok :: "(string \<Rightarrow> string option) \<Rightarrow> Frontier \<Rightarrow> bool" where
  "frontier_ok host_of f \<longleftrightarrow>
     (\<forall>h q. per_host f h = Some q \<longrightarrow> bucket_ok host_of (fr_seen f) h q) \<and>
     distinct (fr_order f) \<and> set (fr_order f) = dom (per_host f) \<and>
     fr_len f = (\<Sum>h\<in>dom (per_host f). length (queue_of f h)) \<and> distinct (fr_seen f)"

definition is_queued :: "Frontier \<Rightarrow> string \<Rightarrow> bool" where
  "is_queued f url \<longleftrightarrow> (\<exists>h q. per_host f h = Some q \<and> url \<in> fst ` set q)"

lemma is_queued_frame [simp]:
  "is_queued (f\<lparr>fr_seen := s\<rparr>) = is_queued f" "is_queued (f\<lparr>fr_taken := t\<rparr>) = is_queued f"
  "is_queued (f\<lparr>fr_dropped := d\<rparr>) = is_queued f"
  by (simp_all add: is_queued_def fun_eq_iff)

lemma frontier_okD:
  assumes "frontier_ok host_of f"
  shows "per_host f h = Some q \<Longrightarrow> bucket_ok host_of (fr_seen f) h q"
    and "distinct (fr_order f)" and "set (fr_order f) = dom (per_host f)"
    and "fr_len f = (\<Sum>h\<in>dom (per_host f). length (queue_of f h))" and "distinct (fr_seen f)"
    and "finite (dom (per_host f))"
proof -
  show "finite (dom (per_host f))" using assms unfolding frontier_ok_def by (metis List.finite_set)
qed (use assms in \<open>auto simp: frontier_ok_def\<close>)

lemma frontier_ok_new: "frontier_ok host_of (frontier_new cap)"
  by (simp add: frontier_ok_def frontier_new_def)

lemma sum_bucket_update:
  fixes m :: "'k \<Rightarrow> nat"
  assumes "finite D"
  shows "(\<Sum>h\<in>insert k D. if h = k then n else m h) = n + (\<Sum>h\<in>D - {k}. m h)"
proof -
  have "(\<Sum>h\<in>insert k D. if h = k then n else m h) = n + (\<Sum>h\<in>D - {k}. if h = k then n else m h)"
    using assms by (subst sum.insert_remove) auto
  also have "(\<Sum>h\<in>D - {k}. if h = k then n else m h) = (\<Sum>h\<in>D - {k}. m h)" by (rule sum.cong) auto
  finally show ?thesis .
qed

lemma len_without:
  assumes "frontier_ok host_of f"
  shows "fr_len f = length (queue_of f k) + (\<Sum>h\<in>dom (per_host f) - {k}. length (queue_of f h))"
proof (cases "k \<in> dom (per_host f)")
  case True
  then show ?thesis using frontier_okD(4,6) [OF assms] by (simp add: sum.remove)
next
  case False
  then have "queue_of f k = []" by (auto simp: queue_of_def split: option.splits)
  then show ?thesis using False frontier_okD(4) [OF assms] by (metis Diff_insert_absorb add_0 insert_Diff_if list.size(3) Diff_idemp)
qed

lemma queue_of_simps [simp]:
  "queue_of (f\<lparr>fr_seen := s\<rparr>) = queue_of f" "queue_of (f\<lparr>fr_taken := t\<rparr>) = queue_of f"
  "queue_of (f\<lparr>fr_order := r\<rparr>) = queue_of f" "queue_of (f\<lparr>fr_dropped := d\<rparr>) = queue_of f"
  by (simp_all add: queue_of_def fun_eq_iff)

lemma enqueue_ok:
  assumes ok: "frontier_ok host_of f" and new: "\<not> is_queued f url" and known: "url \<in> set (fr_seen f)"
  shows "frontier_ok host_of (enqueue_url host_of url depth f)"
proof -
  define h where "h = url_host host_of url"
  let ?f = "enqueue_url host_of url depth f"
  have ph: "per_host ?f = (per_host f)(h \<mapsto> queue_of f h @ [(url, depth)])"
    by (simp add: enqueue_url_def h_def Let_def)
  have q_of: "queue_of ?f k = (if k = h then queue_of f h @ [(url, depth)] else queue_of f k)" for k
    by (simp add: queue_of_def ph)
  have empty: "queue_of f h = [] \<longleftrightarrow> h \<notin> set (fr_order f)"
    using frontier_okD(1,3) [OF ok] by (auto simp: queue_of_def bucket_ok_def split: option.splits)
  have bucket: "bucket_ok host_of (fr_seen f) h (queue_of f h @ [(url, depth)])"
    using frontier_okD(1) [OF ok, of h] new known
    by (cases "per_host f h") (auto simp: bucket_ok_def queue_of_def h_def is_queued_def)
  have "distinct (fr_order ?f)" "set (fr_order ?f) = dom (per_host ?f)"
    using frontier_okD(2,3) [OF ok] empty by (auto simp: enqueue_url_def h_def [symmetric] Let_def)
  moreover have "fr_len ?f = (\<Sum>k\<in>dom (per_host ?f). length (queue_of ?f k))"
    using sum_bucket_update [OF frontier_okD(6) [OF ok], of h "Suc (length (queue_of f h))" "\<lambda>k. length (queue_of f k)"]
      len_without [OF ok, of h]
    by (simp add: ph q_of if_distrib [of length] cong: if_cong) (simp add: enqueue_url_def Let_def)
  moreover have "fr_seen ?f = fr_seen f" by (simp add: enqueue_url_def Let_def)
  ultimately show ?thesis
    using frontier_okD(1,5) [OF ok] bucket by (auto simp: frontier_ok_def ph)
qed

lemma push_ok: "frontier_ok host_of f \<Longrightarrow> frontier_ok host_of (push host_of url depth f)"
proof -
  assume ok: "frontier_ok host_of f"
  show ?thesis
  proof (cases "url \<in> set (fr_seen f) \<or> MAX_FRONTIER \<le> length (fr_seen f)")
    case True
    then show ?thesis using ok by (auto simp: push_def frontier_ok_def)
  next
    case False
    let ?f = "f\<lparr>fr_seen := fr_seen f @ [url]\<rparr>"
    have "frontier_ok host_of ?f"
      using ok False unfolding frontier_ok_def by (auto simp: bucket_ok_def)
    moreover have "\<not> is_queued ?f url"
      using frontier_okD(1) [OF ok] False by (fastforce simp: is_queued_def bucket_ok_def)
    ultimately show ?thesis using False enqueue_ok [of host_of ?f url depth] by (simp add: push_def)
  qed
qed

text \<open>Taking the first host out of the rotation, with its bucket replaced by a shorter one or dropped.\<close>

lemma rotate_ok:
  assumes ok: "frontier_ok host_of f" and order: "fr_order f = h # rest"
    and q: "\<forall>q. q' = Some q \<longrightarrow> bucket_ok host_of (fr_seen f) h q"
    and f': "per_host f' = (per_host f)(h := q')" "fr_order f' = rest @ (if q' = None then [] else [h])"
      "fr_len f' = fr_len f - length (queue_of f h) + (case q' of Some q \<Rightarrow> length q | None \<Rightarrow> 0)"
      "fr_seen f' = fr_seen f"
  shows "frontier_ok host_of f'"
proof -
  have h: "h \<notin> set rest" "distinct rest" "h \<in> dom (per_host f)" "set rest = dom (per_host f) - {h}"
    using frontier_okD(2,3) [OF ok] order by (auto simp: insert_Diff_if)
  have q_of: "queue_of f' k = (if k = h then (case q' of Some q \<Rightarrow> q | None \<Rightarrow> []) else queue_of f k)" for k
    by (simp add: queue_of_def f'(1) split: option.splits)
  have "fr_len f' = (\<Sum>k\<in>dom (per_host f'). length (queue_of f' k))"
  proof (cases q')
    case None
    have "(\<Sum>k\<in>dom (per_host f) - {h}. length (queue_of f' k)) = (\<Sum>k\<in>dom (per_host f) - {h}. length (queue_of f k))"
      by (rule sum.cong) (auto simp: q_of)
    then show ?thesis using len_without [OF ok, of h] by (simp add: f' None)
  next
    case (Some q)
    have "(\<Sum>k\<in>insert h (dom (per_host f)). length (queue_of f' k)) =
        length q + (\<Sum>k\<in>dom (per_host f) - {h}. length (queue_of f k))"
      using sum_bucket_update [OF frontier_okD(6) [OF ok], of h "length q" "\<lambda>k. length (queue_of f k)"]
      by (simp add: q_of Some if_distrib [of length] cong: if_cong)
    then show ?thesis using len_without [OF ok, of h] by (simp add: f' Some)
  qed
  moreover have "distinct (fr_order f')" "set (fr_order f') = dom (per_host f')"
    using h by (auto simp: f'(1,2) split: if_splits)
  ultimately show ?thesis
    using frontier_okD(1,5) [OF ok] q unfolding frontier_ok_def by (auto simp: f'(1,4))
qed

text \<open>What a call of \<open>pop\<close> does: budget, rotation and accounting.\<close>

definition within_budget :: "Frontier \<Rightarrow> bool" where
  "within_budget f \<longleftrightarrow> (\<forall>cap h. max_pages_per_host f = Some cap \<longrightarrow> taken_of f h \<le> cap)"

definition pop_spec ::
  "(string \<Rightarrow> string option) \<Rightarrow> Frontier \<Rightarrow> (string \<times> nat) option \<Rightarrow> Frontier \<Rightarrow> bool" where
  "pop_spec host_of f res f' \<longleftrightarrow>
     frontier_ok host_of f' \<and> fr_seen f' = fr_seen f \<and> max_pages_per_host f' = max_pages_per_host f \<and>
     fr_dropped f' = fr_dropped f \<and> (\<forall>u. is_queued f' u \<longrightarrow> is_queued f u) \<and>
     fr_len f + skipped_host_budget f =
       fr_len f' + skipped_host_budget f' + (if res = None then 0 else 1) \<and>
     (case res of
        None \<Rightarrow> fr_taken f' = fr_taken f
      | Some (url, depth) \<Rightarrow>
          let h = url_host host_of url
          in is_queued f url \<and> \<not> is_queued f' url \<and> \<not> over_budget f h \<and>
             fr_taken f' = (fr_taken f)(h \<mapsto> taken_of f h + 1))"

lemma pop_loop_spec:
  "frontier_ok host_of f \<Longrightarrow> pop_loop n f = (res, f') \<Longrightarrow> pop_spec host_of f res f'"
proof (induction n arbitrary: f)
  case 0
  then show ?case by (auto simp: pop_spec_def)
next
  case (Suc n)
  show ?case
  proof (cases "fr_order f")
    case Nil
    then show ?thesis using Suc.prems by (auto simp: pop_spec_def)
  next
    case (Cons h rest)
    note ok = Suc.prems(1)
    obtain q where q: "per_host f h = Some q"
      using frontier_okD(3) [OF ok] Cons by (metis domD list.set_intros(1))
    have b: "bucket_ok host_of (fr_seen f) h q" by (rule frontier_okD(1) [OF ok q])
    have qof: "queue_of f h = q" by (simp add: queue_of_def q)
    have le: "length q \<le> fr_len f" using len_without [OF ok, of h] by (simp add: qof)
    show ?thesis
    proof (cases "over_budget f h")
      case True
      let ?g = "f\<lparr>fr_order := rest, per_host := (per_host f)(h := None),
                  skipped_host_budget := skipped_host_budget f + length q, fr_len := fr_len f - length q\<rparr>"
      have g: "frontier_ok host_of ?g"
        by (rule rotate_ok [OF ok Cons, of None]) (simp_all add: qof)
      have "pop_loop n ?g = (res, f')"
        using Suc.prems(2) Cons True q by (simp add: Let_def over_budget_def taken_of_def split: option.splits)
      from Suc.IH [OF g this] have "pop_spec host_of ?g res f'" .
      moreover have "is_queued f u" if "is_queued ?g u" for u
        using that by (auto simp: is_queued_def split: if_splits)
      ultimately show ?thesis
        using le by (auto simp: pop_spec_def over_budget_def taken_of_def Let_def split: option.splits)
    next
      case False
      obtain url depth q' where qq: "q = (url, depth) # q'" using b by (cases q) (auto simp: bucket_ok_def)
      have res: "res = Some (url, depth)"
        and f': "f' = f\<lparr>fr_order := (if q' = [] then rest else rest @ [h]), fr_len := fr_len f - 1,
                       fr_taken := (fr_taken f)(h \<mapsto> taken_of f h + 1),
                       per_host := (per_host f)(h := if q' = [] then None else Some q')\<rparr>"
        using Suc.prems(2) Cons False q qq
        by (auto simp: Let_def over_budget_def taken_of_def split: option.splits)
      have "frontier_ok host_of f'"
        by (rule rotate_ok [OF ok Cons, of "if q' = [] then None else Some q'"])
          (use b le in \<open>auto simp: f' qof qq bucket_ok_def\<close>)
      moreover have "is_queued f url" using q qq by (force simp: is_queued_def)
      moreover have "\<not> is_queued f' url"
      proof
        assume "is_queued f' url"
        then obtain k p where k: "per_host f' k = Some p" "url \<in> fst ` set p" by (auto simp: is_queued_def)
        show False
        proof (cases "k = h")
          case True
          then show False using k b by (auto simp: f' qq bucket_ok_def split: if_splits)
        next
          case False
          then have "per_host f k = Some p" using k by (simp add: f')
          then have "url_host host_of url = k" using frontier_okD(1) [OF ok] k by (auto simp: bucket_ok_def)
          then show False using False b by (auto simp: qq bucket_ok_def)
        qed
      qed
      moreover have "is_queued f u" if "is_queued f' u" for u
        using that q qq by (fastforce simp: is_queued_def f' split: if_splits)
      moreover have "url_host host_of url = h" using b by (auto simp: qq bucket_ok_def)
      ultimately show ?thesis
        using False le by (simp add: pop_spec_def res Let_def) (simp add: f' qq)
    qed
  qed
qed

lemma pop_meets_spec: "frontier_ok host_of f \<Longrightarrow> pop f = (res, f') \<Longrightarrow> pop_spec host_of f res f'"
  unfolding pop_def by (rule pop_loop_spec)

section \<open>Every use of a frontier\<close>

text \<open>
  The frontiers a crawl can reach, with the URLs handed out and not given back: pushes of any
  URL, pops, and the crawl-delay rotation that gives a handed-out URL back.
\<close>

inductive reached :: "(string \<Rightarrow> string option) \<Rightarrow> nat option \<Rightarrow> Frontier \<Rightarrow> string list \<Rightarrow> bool"
  for host_of cap where
  start: "reached host_of cap (frontier_new cap) []"
| pushed: "reached host_of cap f out \<Longrightarrow> reached host_of cap (push host_of url depth f) out"
| handed: "reached host_of cap f out \<Longrightarrow> pop f = (Some (url, depth), f') \<Longrightarrow> reached host_of cap f' (url # out)"
| nothing: "reached host_of cap f out \<Longrightarrow> pop f = (None, f') \<Longrightarrow> reached host_of cap f' out"
| given_back: "reached host_of cap f out \<Longrightarrow> url \<in> set out \<Longrightarrow>
    reached host_of cap (requeue_url host_of url depth f) (remove1 url out)"

definition handed_to :: "(string \<Rightarrow> string option) \<Rightarrow> string \<Rightarrow> string list \<Rightarrow> nat" where
  "handed_to host_of h out = length (filter (\<lambda>u. url_host host_of u = h) out)"

definition ledger_ok :: "(string \<Rightarrow> string option) \<Rightarrow> nat option \<Rightarrow> Frontier \<Rightarrow> string list \<Rightarrow> bool" where
  "ledger_ok host_of cap f out \<longleftrightarrow>
     frontier_ok host_of f \<and> distinct out \<and> set out \<subseteq> set (fr_seen f) \<and> (\<forall>u\<in>set out. \<not> is_queued f u) \<and>
     (\<forall>h. taken_of f h = handed_to host_of h out) \<and>
     length (fr_seen f) = fr_len f + length out + skipped_host_budget f \<and>
     length (fr_seen f) \<le> MAX_FRONTIER \<and>
     max_pages_per_host f = (if cap = Some 0 then None else cap) \<and> within_budget f"

lemma enqueue_frame:
  "fr_seen (enqueue_url host_of url depth f) = fr_seen f" "fr_taken (enqueue_url host_of url depth f) = fr_taken f"
  "max_pages_per_host (enqueue_url host_of url depth f) = max_pages_per_host f"
  "skipped_host_budget (enqueue_url host_of url depth f) = skipped_host_budget f"
  "fr_len (enqueue_url host_of url depth f) = Suc (fr_len f)"
  "taken_of (enqueue_url host_of url depth f) = taken_of f"
  by (simp_all add: enqueue_url_def Let_def taken_of_def fun_eq_iff)

lemma enqueue_queued:
  assumes "is_queued (enqueue_url host_of url depth f) u"
  shows "u = url \<or> is_queued f u"
proof -
  obtain h q where q: "per_host (enqueue_url host_of url depth f) h = Some q" "u \<in> fst ` set q"
    using assms by (auto simp: is_queued_def)
  show ?thesis
  proof (cases "h = url_host host_of url")
    case True
    then have "q = queue_of f h @ [(url, depth)]" using q(1) by (simp add: enqueue_url_def Let_def)
    then show ?thesis using q(2) by (auto simp: queue_of_def is_queued_def split: option.splits)
  next
    case False
    then show ?thesis using q by (auto simp: enqueue_url_def Let_def is_queued_def)
  qed
qed

lemma handed_to_remove1:
  "u \<in> set out \<Longrightarrow> handed_to host_of h (remove1 u out) = handed_to host_of h out - (if url_host host_of u = h then 1 else 0)"
  "u \<in> set out \<Longrightarrow> url_host host_of u = h \<Longrightarrow> 0 < handed_to host_of h out"
  by (induction out) (auto simp: handed_to_def filter_empty_conv split: if_splits)

lemma ledger_push:
  assumes ok: "ledger_ok host_of cap f out"
  shows "ledger_ok host_of cap (push host_of url depth f) out"
proof (cases "url \<in> set (fr_seen f) \<or> MAX_FRONTIER \<le> length (fr_seen f)")
  case True
  have "is_queued (f\<lparr>fr_dropped := d\<rparr>) u = is_queued f u" "taken_of (f\<lparr>fr_dropped := d\<rparr>) h = taken_of f h" for d u h
    by (simp_all add: is_queued_def taken_of_def)
  then show ?thesis
    using True ok push_ok [of host_of f url depth] by (auto simp: ledger_ok_def push_def within_budget_def)
next
  case False
  let ?g = "f\<lparr>fr_seen := fr_seen f @ [url]\<rparr>"
  have p: "push host_of url depth f = enqueue_url host_of url depth ?g" using False by (simp add: push_def)
  have "is_queued ?g u = is_queued f u" "taken_of ?g h = taken_of f h" for u h
    by (simp_all add: is_queued_def taken_of_def)
  then have "\<not> is_queued (enqueue_url host_of url depth ?g) u" if "u \<in> set out" for u
    using that ok False enqueue_queued [of host_of url depth ?g u] by (auto simp: ledger_ok_def)
  with False ok push_ok [of host_of f url depth] show ?thesis
    by (auto simp: ledger_ok_def p enqueue_frame within_budget_def taken_of_def)
qed

lemma ledger_pop:
  assumes ok: "ledger_ok host_of cap f out" and pop: "pop f = (res, f')"
  shows "ledger_ok host_of cap f' (case res of Some (url, _) \<Rightarrow> url # out | None \<Rightarrow> out)"
proof -
  have spec: "pop_spec host_of f res f'" using pop_meets_spec [OF _ pop] ok by (simp add: ledger_ok_def)
  show ?thesis
  proof (cases res)
    case None
    then have "taken_of f' h = taken_of f h" for h using spec by (simp add: pop_spec_def taken_of_def)
    with None spec ok show ?thesis
      by (auto simp: pop_spec_def ledger_ok_def within_budget_def)
  next
    case (Some item)
    obtain url depth where item: "item = (url, depth)" by (cases item)
    let ?h = "url_host host_of url"
    have p: "is_queued f url" "\<not> is_queued f' url" "\<not> over_budget f ?h"
      "fr_taken f' = (fr_taken f)(?h \<mapsto> taken_of f ?h + 1)" "frontier_ok host_of f'" "fr_seen f' = fr_seen f"
      "max_pages_per_host f' = max_pages_per_host f" "\<forall>u. is_queued f' u \<longrightarrow> is_queued f u"
      "fr_len f + skipped_host_budget f = fr_len f' + skipped_host_budget f' + 1"
      using spec by (simp_all add: pop_spec_def Some item Let_def)
    have taken: "taken_of f' h = (if h = ?h then Suc (taken_of f h) else taken_of f h)" for h
      by (simp add: taken_of_def p(4))
    have "frontier_ok host_of f" using ok by (simp add: ledger_ok_def)
    then have "url \<in> set (fr_seen f)"
      using p(1) frontier_okD(1) unfolding is_queued_def bucket_ok_def by fastforce
    moreover have "url \<notin> set out" using p(1) ok by (auto simp: ledger_ok_def)
    moreover have "within_budget f'"
      unfolding within_budget_def
    proof (intro allI impI)
      fix c h
      assume "max_pages_per_host f' = Some c"
      then have m: "max_pages_per_host f = Some c" by (simp add: p(7))
      moreover have "within_budget f" using ok by (simp add: ledger_ok_def)
      ultimately have "taken_of f h \<le> c" unfolding within_budget_def by blast
      moreover have "taken_of f ?h < c" using p(3) m by (simp add: over_budget_def)
      ultimately show "taken_of f' h \<le> c" by (simp add: taken)
    qed
    moreover have "taken_of f' h = handed_to host_of h (url # out)" for h
      using ok by (simp add: taken ledger_ok_def handed_to_def)
    ultimately show ?thesis
      using ok p(2,5-9) by (auto simp: ledger_ok_def Some item)
  qed
qed

lemma ledger_requeue:
  assumes ok: "ledger_ok host_of cap f out" and u: "url \<in> set out"
  shows "ledger_ok host_of cap (requeue_url host_of url depth f) (remove1 url out)"
proof -
  let ?h = "url_host host_of url"
  have taken: "taken_of f h = handed_to host_of h out" for h using ok by (simp add: ledger_ok_def)
  then have "0 < taken_of f ?h" using handed_to_remove1(2) [OF u, of host_of ?h] by simp
  then obtain c where c: "fr_taken f ?h = Some c" by (auto simp: taken_of_def split: option.splits)
  define g where "g = f\<lparr>fr_taken := (fr_taken f)(?h \<mapsto> c - 1)\<rparr>"
  have r: "requeue_url host_of url depth f = enqueue_url host_of url depth g"
    by (simp add: requeue_url_def c Let_def g_def)
  have same: "is_queued g v = is_queued f v" for v by (simp add: g_def)
  have frame: "fr_seen g = fr_seen f" "max_pages_per_host g = max_pages_per_host f" "fr_len g = fr_len f"
    "skipped_host_budget g = skipped_host_budget f"
    by (simp_all add: g_def)
  have g: "frontier_ok host_of g" using ok by (simp add: ledger_ok_def frontier_ok_def g_def)
  have tg: "taken_of g h = handed_to host_of h (remove1 url out)" for h
    using taken [of h] c u by (auto simp: taken_of_def handed_to_remove1(1) g_def)
  have "frontier_ok host_of (enqueue_url host_of url depth g)"
    using ok u same by (intro enqueue_ok g) (auto simp: ledger_ok_def frame)
  moreover have "\<not> is_queued (enqueue_url host_of url depth g) v" if "v \<in> set (remove1 url out)" for v
    using that ok enqueue_queued [of host_of url depth g v] by (auto simp: same ledger_ok_def)
  moreover have "within_budget (enqueue_url host_of url depth g)"
    unfolding within_budget_def
  proof (intro allI impI)
    fix n h
    assume "max_pages_per_host (enqueue_url host_of url depth g) = Some n"
    then have "max_pages_per_host f = Some n" by (simp add: enqueue_frame frame)
    moreover have "within_budget f" using ok by (simp add: ledger_ok_def)
    ultimately have "taken_of f h \<le> n" unfolding within_budget_def by blast
    moreover have "taken_of g h \<le> taken_of f h" unfolding tg taken handed_to_remove1(1) [OF u] by simp
    ultimately show "taken_of (enqueue_url host_of url depth g) h \<le> n" by (simp only: enqueue_frame)
  qed
  moreover have "Suc (length (remove1 url out)) = length out"
    using u length_pos_if_in_set [OF u] by (simp add: length_remove1)
  ultimately show ?thesis
    using ok set_remove1_subset [of url out] by (auto simp: ledger_ok_def r enqueue_frame tg frame)
qed

lemma reached_ledger: "reached host_of cap f out \<Longrightarrow> ledger_ok host_of cap f out"
proof (induction rule: reached.induct)
  case start
  show ?case
    by (simp add: ledger_ok_def frontier_ok_new) (simp add: frontier_new_def is_queued_def taken_of_def
        handed_to_def within_budget_def)
next
  case (handed f out url depth f')
  then show ?case using ledger_pop by fastforce
next
  case (nothing f out f')
  then show ?case using ledger_pop by fastforce
qed (auto intro: ledger_push ledger_requeue)

section \<open>A rotation\<close>

fun pops :: "nat \<Rightarrow> Frontier \<Rightarrow> (string \<times> nat) option list \<times> Frontier" where
  "pops 0 f = ([], f)"
| "pops (Suc n) f = (case pop f of (res, f1) \<Rightarrow> case pops n f1 of (rest, f2) \<Rightarrow> (res # rest, f2))"

lemma pop_front:
  assumes ok: "frontier_ok host_of f" and order: "fr_order f = h # rest" and budget: "\<not> over_budget f h"
  obtains item f' more where "pop f = (Some item, f')" "url_host host_of (fst item) = h"
    "fr_order f' = rest @ more" "frontier_ok host_of f'" "max_pages_per_host f' = max_pages_per_host f"
    "\<And>k. k \<noteq> h \<Longrightarrow> taken_of f' k = taken_of f k"
proof -
  obtain q where q: "per_host f h = Some q"
    using frontier_okD(3) [OF ok] order by (metis domD list.set_intros(1))
  have b: "bucket_ok host_of (fr_seen f) h q" by (rule frontier_okD(1) [OF ok q])
  then obtain item q' where qq: "q = item # q'" by (cases q) (auto simp: bucket_ok_def)
  let ?f = "f\<lparr>fr_order := (if q' = [] then rest else rest @ [h]), fr_len := fr_len f - 1,
              fr_taken := (fr_taken f)(h \<mapsto> taken_of f h + 1),
              per_host := (per_host f)(h := if q' = [] then None else Some q')\<rparr>"
  have p: "pop f = (Some item, ?f)"
    using order budget q qq
    by (auto simp: pop_def Let_def over_budget_def taken_of_def split: option.splits)
  then have "frontier_ok host_of ?f" using pop_meets_spec [OF ok p] by (simp add: pop_spec_def)
  then show thesis
    using p b qq by (intro that [of item ?f "if q' = [] then [] else [h]"]) (auto simp: bucket_ok_def taken_of_def)
qed

lemma pops_rotation:
  "frontier_ok host_of f \<Longrightarrow> fr_order f = hs @ tail \<Longrightarrow> \<forall>h\<in>set hs. \<not> over_budget f h \<Longrightarrow>
   map (map_option (\<lambda>item. url_host host_of (fst item))) (fst (pops (length hs) f)) = map Some hs"
proof (induction hs arbitrary: f tail)
  case (Cons h hs)
  have order: "fr_order f = h # hs @ tail" using Cons.prems(2) by simp
  have dist: "h \<notin> set hs" using frontier_okD(2) [OF Cons.prems(1)] order by simp
  have "\<not> over_budget f h" using Cons.prems(3) by simp
  then obtain item f' more where f': "pop f = (Some item, f')" "url_host host_of (fst item) = h"
    "fr_order f' = (hs @ tail) @ more" "frontier_ok host_of f'" "max_pages_per_host f' = max_pages_per_host f"
    "\<And>k. k \<noteq> h \<Longrightarrow> taken_of f' k = taken_of f k"
    using pop_front [OF Cons.prems(1) order] by blast
  have "\<forall>k\<in>set hs. \<not> over_budget f' k"
    using Cons.prems(3) f'(5,6) dist unfolding over_budget_def by (metis list.set_intros(2))
  then show ?case
    using Cons.IH [of f' "tail @ more"] f'(1-4) by (auto split: prod.splits)
qed simp

section \<open>Checkpoint and resume\<close>

lemma restore_frame:
  "fr_seen (restore host_of queue seen taken f) = seen" "fr_taken (restore host_of queue seen taken f) = taken"
  "max_pages_per_host (restore host_of queue seen taken f) = max_pages_per_host f"
  "skipped_host_budget (restore host_of queue seen taken f) = skipped_host_budget f"
proof -
  have "fr_seen (foldl (\<lambda>f (url, depth). enqueue_url host_of url depth f) g queue) = fr_seen g \<and>
      fr_taken (foldl (\<lambda>f (url, depth). enqueue_url host_of url depth f) g queue) = fr_taken g \<and>
      max_pages_per_host (foldl (\<lambda>f (url, depth). enqueue_url host_of url depth f) g queue) = max_pages_per_host g \<and>
      skipped_host_budget (foldl (\<lambda>f (url, depth). enqueue_url host_of url depth f) g queue) = skipped_host_budget g" for g
    by (induction queue arbitrary: g) (auto simp: enqueue_frame)
  then show "fr_seen (restore host_of queue seen taken f) = seen" "fr_taken (restore host_of queue seen taken f) = taken"
    "max_pages_per_host (restore host_of queue seen taken f) = max_pages_per_host f"
    "skipped_host_budget (restore host_of queue seen taken f) = skipped_host_budget f"
    by (simp_all add: restore_def)
qed

lemma queue_of_enqueue:
  "queue_of (enqueue_url host_of url depth f) h =
     queue_of f h @ (if url_host host_of url = h then [(url, depth)] else [])"
  by (auto simp: enqueue_url_def Let_def queue_of_def)

lemma queue_of_restore:
  "queue_of (restore host_of queue seen taken f) h =
     queue_of f h @ filter (\<lambda>e. url_host host_of (fst e) = h) queue"
proof -
  have "queue_of (foldl (\<lambda>f (url, depth). enqueue_url host_of url depth f) g queue) h =
      queue_of g h @ filter (\<lambda>e. url_host host_of (fst e) = h) queue" for g
    by (induction queue arbitrary: g) (auto simp: queue_of_enqueue)
  then show ?thesis by (simp add: restore_def)
qed

lemma foldl_enqueue_ok:
  "frontier_ok host_of f \<Longrightarrow> distinct (map fst queue) \<Longrightarrow> \<forall>e\<in>set queue. \<not> is_queued f (fst e) \<and> fst e \<in> set (fr_seen f) \<Longrightarrow>
   frontier_ok host_of (foldl (\<lambda>f (url, depth). enqueue_url host_of url depth f) f queue)"
proof (induction queue arbitrary: f)
  case (Cons e queue)
  obtain url depth where e: "e = (url, depth)" by (cases e)
  have "frontier_ok host_of (enqueue_url host_of url depth f)" using Cons.prems by (intro enqueue_ok) (auto simp: e)
  moreover have "\<not> is_queued (enqueue_url host_of url depth f) (fst e')" if "e' \<in> set queue" for e'
    using enqueue_queued [of host_of url depth f "fst e'"] Cons.prems that by (force simp: e)
  ultimately show ?case using Cons by (simp add: e enqueue_frame)
qed simp

lemma queue_of_bucket:
  assumes "frontier_ok host_of f"
  shows "e \<in> set (queue_of f k) \<Longrightarrow> url_host host_of (fst e) = k" and "distinct (map fst (queue_of f k))"
  using frontier_okD(1) [OF assms, of k] unfolding queue_of_def bucket_ok_def
  by (cases "per_host f k"; force)+

lemma queued_filter:
  assumes ok: "frontier_ok host_of f" and "distinct hosts" and "set hosts = dom (per_host f)"
  shows "filter (\<lambda>e. url_host host_of (fst e) = h) (queued hosts f) = queue_of f h"
proof -
  have one: "filter (\<lambda>e. url_host host_of (fst e) = h) (queue_of f k) = (if k = h then queue_of f k else [])" for k
    using queue_of_bucket(1) [OF ok] by (auto simp: filter_empty_conv filter_id_conv)
  have "filter (\<lambda>e. url_host host_of (fst e) = h) (concat (map (queue_of f) ks)) = (if h \<in> set ks then queue_of f h else [])"
    if "distinct ks" for ks
    using that by (induction ks) (auto simp: one)
  moreover have "queue_of f h = []" if "h \<notin> dom (per_host f)"
    using that by (auto simp: queue_of_def domIff)
  ultimately show ?thesis using assms(2,3) by (auto simp: queued_def)
qed

lemma queued_urls:
  assumes ok: "frontier_ok host_of f" and "distinct hosts"
  shows "distinct (map fst (queued hosts f))" and "e \<in> set (queued hosts f) \<Longrightarrow> is_queued f (fst e)"
proof -
  show "e \<in> set (queued hosts f) \<Longrightarrow> is_queued f (fst e)"
    by (force simp: queued_def queue_of_def is_queued_def split: option.splits)
  show "distinct (map fst (queued hosts f))"
    using assms(2) unfolding queued_def
  proof (induction hosts)
    case (Cons k ks)
    have "fst e \<notin> fst ` set (queue_of f k')" if "e \<in> set (queue_of f k)" "k' \<in> set ks" for e k'
      using that Cons.prems queue_of_bucket(1) [OF ok] by (metis (no_types, lifting) distinct.simps(2) imageE)
    then have "fst ` set (queue_of f k) \<inter> fst ` set (concat (map (queue_of f) ks)) = {}" by auto
    then show ?case using Cons queue_of_bucket(2) [OF ok] by simp
  qed simp
qed

lemma restore_ok:
  assumes f: "frontier_ok host_of f" and hosts: "distinct hosts"
    and fly: "distinct (map fst in_flight)" "\<forall>e\<in>set in_flight. \<not> is_queued f (fst e) \<and> fst e \<in> set (fr_seen f)"
  shows "frontier_ok host_of (restore host_of (queued hosts f @ in_flight) (fr_seen f) taken (frontier_new cap))"
proof -
  let ?g = "(frontier_new cap)\<lparr>fr_seen := fr_seen f, fr_taken := taken\<rparr>"
  have "frontier_ok host_of ?g" using frontier_okD(5) [OF f] by (simp add: frontier_ok_def frontier_new_def)
  moreover have "\<not> is_queued ?g u" for u by (simp add: is_queued_def frontier_new_def)
  moreover have known: "fst e \<in> set (fr_seen f)" if "is_queued f (fst e)" for e :: "string \<times> nat"
    using that frontier_okD(1) [OF f] unfolding is_queued_def bucket_ok_def by fastforce
  moreover have "distinct (map fst (queued hosts f @ in_flight))"
    using queued_urls [OF f hosts] fly by fastforce
  ultimately show ?thesis
    using queued_urls(2) [OF f hosts] fly unfolding restore_def by (intro foldl_enqueue_ok) auto
qed


text \<open>
  The rotation is fair: from a reachable frontier whose hosts are all within budget, the next
  pops, one per host in the rotation, hand out one URL of every host, in the order of the rotation.
\<close>

theorem rotation_serves_every_host:
  assumes "reached host_of cap f out" and "\<forall>h\<in>set (fr_order f). \<not> over_budget f h"
  shows "map (map_option (\<lambda>item. url_host host_of (fst item))) (fst (pops (length (fr_order f)) f)) =
         map Some (fr_order f)"
proof -
  have "frontier_ok host_of f" using reached_ledger [OF assms(1)] by (simp add: ledger_ok_def)
  from pops_rotation [OF this _ assms(2), of "[]"] show ?thesis by simp
qed

text \<open>
  C25. A checkpoint loses no work: resuming from what a crawl saved, with the URLs in flight at the
  time and under whatever iteration order of the host map, gives every host its queue in order
  with its in-flight URLs behind it, the same seen set, page counts and cap, an index over the
  saved fingerprints, and a consistent frontier; with nothing in flight the per-host queues and
  the length are exactly those saved.
\<close>

theorem checkpoint_roundtrip:
  assumes "reached host_of cap f out" and "distinct hosts" and "set hosts = dom (per_host f)"
    and "distinct (map fst in_flight)" and "fst ` set in_flight \<subseteq> set out"
  shows "\<exists>g. resume_crawl host_of cap d
               (checkpoint_from_value False (Some (save_checkpoint_state hosts f in_flight hashes))) =
             (g, from_hashes d hashes, True, False) \<and>
           (\<forall>h. queue_of g h = queue_of f h @ filter (\<lambda>e. url_host host_of (fst e) = h) in_flight) \<and>
           fr_seen g = fr_seen f \<and> fr_taken g = fr_taken f \<and> max_pages_per_host g = max_pages_per_host f \<and>
           frontier_ok host_of g \<and>
           (in_flight = [] \<longrightarrow> per_host g = per_host f \<and> fr_len g = fr_len f)"
proof -
  have l: "ledger_ok host_of cap f out" by (rule reached_ledger [OF assms(1)])
  then have f: "frontier_ok host_of f" by (simp add: ledger_ok_def)
  let ?g = "restore host_of (queued hosts f @ in_flight) (fr_seen f) (fr_taken f) (frontier_new cap)"
  have q: "queue_of ?g h = queue_of f h @ filter (\<lambda>e. url_host host_of (fst e) = h) in_flight" for h
    using queued_filter [OF f assms(2,3), of h]
    by (simp add: queue_of_restore) (simp add: queue_of_def frontier_new_def)
  have g: "frontier_ok host_of ?g"
    using assms(5) l by (intro restore_ok f assms(2,4)) (auto simp: ledger_ok_def)
  have exact: "per_host ?g = per_host f \<and> fr_len ?g = fr_len f" if "in_flight = []"
  proof -
    have "per_host k h = (if queue_of k h = [] then None else Some (queue_of k h))" if "frontier_ok host_of k" for k h
      using frontier_okD(1) [OF that, of h] by (auto simp: queue_of_def bucket_ok_def split: option.splits)
    from this [OF g] this [OF f] have "per_host ?g = per_host f" using q that by auto
    moreover then have "fr_len ?g = fr_len f"
      using frontier_okD(4) [OF g] frontier_okD(4) [OF f] q that by simp
    ultimately show ?thesis by simp
  qed
  have "max_pages_per_host ?g = max_pages_per_host f"
    using l by (simp add: restore_frame ledger_ok_def) (simp add: frontier_new_def)
  then show ?thesis
    using q g exact
    by (intro exI [of _ ?g])
      (simp add: resume_crawl_def checkpoint_from_value_def save_checkpoint_state_def checkpoint_queue_def restore_frame)
qed

section \<open>Concrete crawls\<close>

definition demo_host :: "string \<Rightarrow> string option" where
  "demo_host url = (case url of h # _ \<Rightarrow> Some [h] | [] \<Rightarrow> None)"

definition demo_pushed :: Frontier where
  "demo_pushed = push demo_host ''b1'' 0 (push demo_host ''a2'' 0 (push demo_host ''a1'' 0 (frontier_new (Some 2))))"

lemmas frontier_eval =
  push_def enqueue_url_def pop_def url_host_def demo_host_def queue_of_def frontier_new_def MAX_FRONTIER_def
  over_budget_def taken_of_def numeral_2_eq_2 Let_def

lemma demo_pushed_reached: "reached demo_host (Some 2) demo_pushed []"
  unfolding demo_pushed_def by (intro reached.pushed reached.start)

lemma demo_popped:
  "fst (pop demo_pushed) = Some (''a1'', 0)" "fr_order demo_pushed = [''a'', ''b'']"
  "list_all (\<lambda>h. \<not> over_budget demo_pushed h) (fr_order demo_pushed)"
  "fr_order (snd (pop demo_pushed)) = [''b'', ''a'']"
  by (simp_all add: demo_pushed_def frontier_eval)

lemma demo_reached: "reached demo_host (Some 2) (snd (pop demo_pushed)) [''a1'']"
  by (rule reached.handed [OF demo_pushed_reached, of _ 0]) (metis demo_popped(1) prod.collapse)


theorem rotation_serves_every_host_witness:
  "reached demo_host (Some 2) demo_pushed [] \<and>
   map (map_option (\<lambda>item. url_host demo_host (fst item))) (fst (pops (length (fr_order demo_pushed)) demo_pushed)) =
     [Some ''a'', Some ''b'']"
proof -
  have "\<forall>h\<in>set (fr_order demo_pushed). \<not> over_budget demo_pushed h"
    using demo_popped(3) by (simp add: list_all_iff)
  from rotation_serves_every_host [OF demo_pushed_reached this] show ?thesis
    by (simp add: demo_pushed_reached demo_popped(2))
qed

theorem checkpoint_roundtrip_witness:
  "\<exists>g. resume_crawl demo_host (Some 2) 3
         (checkpoint_from_value False
            (Some (save_checkpoint_state [''b'', ''a''] (snd (pop demo_pushed)) [(''a1'', 0)] [5]))) =
       (g, from_hashes 3 [5], True, False) \<and>
     queue_of g ''a'' = queue_of (snd (pop demo_pushed)) ''a'' @ [(''a1'', 0)]"
proof -
  have "set [''b'', ''a''] = dom (per_host (snd (pop demo_pushed)))"
    using reached_ledger [OF demo_reached] demo_popped(4) frontier_okD unfolding ledger_ok_def by metis
  moreover have "distinct [''b'', ''a'']" "distinct (map fst [(''a1'', 0::nat)])" "fst ` set [(''a1'', 0::nat)] \<subseteq> set [''a1'']"
    by simp_all
  ultimately obtain g where "resume_crawl demo_host (Some 2) 3
         (checkpoint_from_value False
            (Some (save_checkpoint_state [''b'', ''a''] (snd (pop demo_pushed)) [(''a1'', 0)] [5]))) =
       (g, from_hashes 3 [5], True, False)"
    "queue_of g ''a'' = queue_of (snd (pop demo_pushed)) ''a'' @
       filter (\<lambda>e. url_host demo_host (fst e) = ''a'') [(''a1'', 0)]"
    using checkpoint_roundtrip [OF demo_reached, of "[''b'', ''a'']" "[(''a1'', 0)]" 3 "[5]"] by blast
  then show ?thesis by (auto simp: url_host_def demo_host_def)
qed

text \<open>
  A resume does not refund the page count of the URLs it re-queues: a host with a budget of
  one page, whose only URL was in flight when the crawl was checkpointed, has its re-queued URL
  dropped by the budget on the first pop after the resume, and a later discovery of that URL is
  ignored, so it is never fetched.
\<close>

theorem resumed_in_flight_url_is_dropped:
  "let f = push demo_host ''a1'' 0 (frontier_new (Some 1));
       (res, f1) = pop f;
       (g, _, _, _) = resume_crawl demo_host (Some 1) 3
                        (checkpoint_from_value False (Some (save_checkpoint_state [] f1 [(''a1'', 0)] [])));
       (res', g1) = pop g;
       (res'', g2) = pop (push demo_host ''a1'' 0 g1)
   in res = Some (''a1'', 0) \<and> queue_of g ''a'' = [(''a1'', 0)] \<and> res' = None \<and>
      skipped_host_budget g1 = 1 \<and> res'' = None"
  by (simp add: frontier_eval resume_crawl_def checkpoint_from_value_def save_checkpoint_state_def
      checkpoint_queue_def queued_def restore_def)

end
