(* ===== verification/Client_Pool.thy ===== *)
theory Client_Pool
  imports Simhash
begin

text \<open>
  Least-recently-used bookkeeping (\<open>crates/core/src/lru.rs\<close>) and the two bounded pools built on
  it: the HTTP engine's pool of clients with its per-profile cookie jars
  (\<open>crates/engine-http/src/lib.rs\<close>) and the browser engine's live Chrome holders
  (\<open>crates/engine-browser/src/lib.rs\<close>). The contract of the bookkeeping is a locale; both pools
  rest on its facts. The HTTP engine with its pool refines an engine that builds a client for
  every request. Building a client, loading a jar from disk and launching a browser are
  parameters.
\<close>

section \<open>Recency order\<close>

definition lru_touch :: "string list \<Rightarrow> string \<Rightarrow> string list" where
  "lru_touch order k = filter (\<lambda>x. x \<noteq> k) order @ [k]"

text \<open>The eviction loop: pop the front while more than \<open>cap\<close> keys remain.\<close>

fun evict_front :: "nat \<Rightarrow> string list \<Rightarrow> string list \<Rightarrow> string list \<times> string list" where
  "evict_front cap (old # order) evicted =
     (if max cap 1 < length (old # order) then evict_front cap order (evicted @ [old])
      else (old # order, evicted))"
| "evict_front cap [] evicted = ([], evicted)"

definition lru_touch_evict :: "string list \<Rightarrow> string \<Rightarrow> nat \<Rightarrow> string list \<times> string list" where
  "lru_touch_evict order k cap = evict_front cap (lru_touch order k) []"

lemma evict_front_eq:
  "evict_front cap order evicted =
     (drop (length order - max cap 1) order, evicted @ take (length order - max cap 1) order)"
proof (induction cap order evicted rule: evict_front.induct)
  case (1 cap old order evicted)
  show ?case
  proof (cases "max cap 1 < length (old # order)")
    case True
    then have "max cap 1 \<le> length order" by (simp only: length_Cons less_Suc_eq_le)
    then have "length (old # order) - max cap 1 = Suc (length order - max cap 1)"
      by (simp only: length_Cons Suc_diff_le)
    with True 1 show ?thesis by simp
  next
    case False
    then have "length (old # order) - max cap 1 = 0" by (simp only: diff_is_0_eq not_less)
    with False show ?thesis by (simp only: evict_front.simps if_False drop_0 take_0 append_Nil2)
  qed
qed simp

text \<open>
  What a bounded pool relies on: the touched key is kept, and kept last; kept and evicted keys
  together are the old keys and the touched one, in recency order; at most \<open>cap\<close> keys, or one, are kept.
\<close>

locale recency =
  fixes touch_evict :: "'k list \<Rightarrow> 'k \<Rightarrow> nat \<Rightarrow> 'k list \<times> 'k list"
  assumes split: "touch_evict order k cap = (kept, evicted) \<Longrightarrow> evicted @ kept = filter (\<lambda>x. x \<noteq> k) order @ [k]"
    and bound: "touch_evict order k cap = (kept, evicted) \<Longrightarrow> length kept \<le> max cap 1"
    and touched: "touch_evict order k cap = (kept, evicted) \<Longrightarrow> kept \<noteq> []"
begin

lemma kept_last: "touch_evict order k cap = (kept, evicted) \<Longrightarrow> last kept = k"
  using split [of order k cap kept evicted] touched [of order k cap kept evicted]
  by (metis last_appendR last_snoc)

lemma kept_key: "touch_evict order k cap = (kept, evicted) \<Longrightarrow> k \<in> set kept"
  using kept_last touched last_in_set by metis

lemma kept_distinct:
  assumes "touch_evict order k cap = (kept, evicted)" and "distinct order"
  shows "distinct kept" "set kept \<inter> set evicted = {}" "k \<notin> set evicted"
proof -
  have "distinct (evicted @ kept)" using split [OF assms(1)] assms(2) by simp
  then show "distinct kept" "set kept \<inter> set evicted = {}" by auto
  then show "k \<notin> set evicted" using kept_key [OF assms(1)] by auto
qed

lemma kept_subset:
  "touch_evict order k cap = (kept, evicted) \<Longrightarrow> set kept \<union> set evicted = insert k (set order)"
  using arg_cong [OF split [of order k cap kept evicted], of set] by auto

text \<open>
  A map whose keys are tracked by the order: after the touch, dropping the evicted keys leaves the
  map tracked, within the bound, and with every kept entry as it was.
\<close>

lemma drop_evicted:
  fixes m :: "'k \<rightharpoonup> 'v"
  assumes te: "touch_evict order k cap = (kept, evicted)" and dist: "distinct order" and dom: "dom m \<subseteq> insert k (set order)"
  shows "dom (m |` (- set evicted)) \<subseteq> set kept"
    and "card (dom (m |` (- set evicted))) \<le> max cap 1"
    and "(m |` (- set evicted)) k = m k"
proof -
  show sub: "dom (m |` (- set evicted)) \<subseteq> set kept"
    using kept_subset [OF te] dom by (fastforce simp: restrict_map_def split: if_splits)
  have "card (dom (m |` (- set evicted))) \<le> length kept"
    using card_mono [OF _ sub] card_length [of kept] by simp
  then show "card (dom (m |` (- set evicted))) \<le> max cap 1" using bound [OF te] by simp
  show "(m |` (- set evicted)) k = m k" using kept_distinct(3) [OF te dist] by (simp add: restrict_map_def)
qed

end

interpretation lru: recency lru_touch_evict
proof
  fix order k cap kept evicted
  assume "lru_touch_evict order k cap = (kept, evicted)"
  then have e: "kept = drop (length (lru_touch order k) - max cap 1) (lru_touch order k)"
    "evicted = take (length (lru_touch order k) - max cap 1) (lru_touch order k)"
    by (simp_all add: lru_touch_evict_def evict_front_eq)
  then show "evicted @ kept = filter (\<lambda>x. x \<noteq> k) order @ [k]" by (simp add: lru_touch_def)
  show "length kept \<le> max cap 1" by (simp add: e)
  show "kept \<noteq> []" by (simp add: e lru_touch_def)
qed

section \<open>HTTP clients\<close>

definition MAX_POOLED_CLIENTS :: nat where
  "MAX_POOLED_CLIENTS = 8"

definition PROFILE_NAME_MAX_LEN :: nat where
  "PROFILE_NAME_MAX_LEN = 64"

datatype profile_error = EmptyName | LongName | BadChar char

definition profile_char :: "char \<Rightarrow> bool" where
  "profile_char c \<longleftrightarrow> is_ascii_alphabetic c \<or> is_ascii_digit c \<or> c = CHR ''-'' \<or> c = CHR ''_''"

definition validate_profile_name :: "string \<Rightarrow> profile_error option" where
  "validate_profile_name name =
     (if name = [] then Some EmptyName
      else if PROFILE_NAME_MAX_LEN < length name then Some LongName
      else map_option BadChar (find (\<lambda>c. \<not> profile_char c) name))"

definition pool_key :: "string option \<Rightarrow> string option \<Rightarrow> string" where
  "pool_key proxy profile =
     (case proxy of Some p \<Rightarrow> p | None \<Rightarrow> []) @ [CHR 0x1F] @ (case profile of Some n \<Rightarrow> n | None \<Rightarrow> [])"

record 'c ClientPool =
  clients :: "string \<rightharpoonup> 'c"
  pool_order :: "string list"

definition pool_new :: "'c ClientPool" where
  "pool_new = \<lparr>clients = Map.empty, pool_order = []\<rparr>"

definition pool_get :: "string \<Rightarrow> 'c ClientPool \<Rightarrow> 'c option \<times> 'c ClientPool" where
  "pool_get k pool =
     (case clients pool k of
        None \<Rightarrow> (None, pool)
      | Some client \<Rightarrow> (Some client, pool\<lparr>pool_order := lru_touch (pool_order pool) k\<rparr>))"

definition pool_insert :: "string \<Rightarrow> 'c \<Rightarrow> nat \<Rightarrow> 'c ClientPool \<Rightarrow> 'c ClientPool" where
  "pool_insert k client cap pool =
     (case lru_touch_evict (pool_order pool) k cap of
        (order, evicted) \<Rightarrow>
          \<lparr>clients = foldl (\<lambda>m evict. m(evict := None)) ((clients pool)(k \<mapsto> client)) evicted,
           pool_order = order\<rparr>)"

record ('c, 'j) HttpEngine =
  he_client :: 'c
  he_proxy :: "string option"
  he_pool :: "'c ClientPool"
  he_jars :: "string \<rightharpoonup> 'j"

datatype client_error = BadProfile profile_error | JarError | BuildError

definition jar_for ::
  "(string \<Rightarrow> 'j option) \<Rightarrow> string \<Rightarrow> ('c, 'j) HttpEngine \<Rightarrow> (client_error + 'j) \<times> ('c, 'j) HttpEngine" where
  "jar_for load name e =
     (case validate_profile_name name of
        Some err \<Rightarrow> (Inl (BadProfile err), e)
      | None \<Rightarrow>
          (case he_jars e name of
             Some jar \<Rightarrow> (Inr jar, e)
           | None \<Rightarrow>
               (case load name of
                  None \<Rightarrow> (Inl JarError, e)
                | Some jar \<Rightarrow> (Inr jar, e\<lparr>he_jars := (he_jars e)(name \<mapsto> jar)\<rparr>))))"

definition pooled_client ::
  "(string option \<Rightarrow> 'j option \<Rightarrow> 'c option) \<Rightarrow> string option \<Rightarrow> string option \<Rightarrow> 'j option \<Rightarrow>
   ('c, 'j) HttpEngine \<Rightarrow> (client_error + 'c \<times> 'j option) \<times> ('c, 'j) HttpEngine" where
  "pooled_client build proxy profile jar e =
     (let k = pool_key proxy profile
      in case pool_get k (he_pool e) of
           (Some existing, pool) \<Rightarrow> (Inr (existing, jar), e\<lparr>he_pool := pool\<rparr>)
         | (None, pool) \<Rightarrow>
             (case build proxy jar of
                None \<Rightarrow> (Inl BuildError, e\<lparr>he_pool := pool\<rparr>)
              | Some client \<Rightarrow>
                  (Inr (client, jar), e\<lparr>he_pool := pool_insert k client MAX_POOLED_CLIENTS pool\<rparr>)))"

definition client_for ::
  "(string \<Rightarrow> 'j option) \<Rightarrow> (string option \<Rightarrow> 'j option \<Rightarrow> 'c option) \<Rightarrow> string option \<Rightarrow> string option \<Rightarrow>
   ('c, 'j) HttpEngine \<Rightarrow> (client_error + 'c \<times> 'j option) \<times> ('c, 'j) HttpEngine" where
  "client_for load build req_proxy req_profile e =
     (let proxy = (case req_proxy of Some p \<Rightarrow> Some p | None \<Rightarrow> he_proxy e)
      in case req_profile of
           Some name \<Rightarrow>
             (case jar_for load name e of
                (Inl err, e') \<Rightarrow> (Inl err, e')
              | (Inr jar, e') \<Rightarrow> pooled_client build proxy req_profile (Some jar) e')
         | None \<Rightarrow>
             if proxy = he_proxy e then (Inr (he_client e, None), e)
             else pooled_client build proxy req_profile None e)"

text \<open>The engine without a pool: the jars are kept, a client is built for every request that needs one.\<close>

definition direct_client ::
  "(string option \<Rightarrow> 'j option \<Rightarrow> 'c option) \<Rightarrow> string option \<Rightarrow> 'j option \<Rightarrow> client_error + 'c \<times> 'j option" where
  "direct_client build proxy jar = (case build proxy jar of None \<Rightarrow> Inl BuildError | Some c \<Rightarrow> Inr (c, jar))"

definition direct_client_for ::
  "(string \<Rightarrow> 'j option) \<Rightarrow> (string option \<Rightarrow> 'j option \<Rightarrow> 'c option) \<Rightarrow> string option \<Rightarrow> string option \<Rightarrow>
   ('c, 'j) HttpEngine \<Rightarrow> (client_error + 'c \<times> 'j option) \<times> ('c, 'j) HttpEngine" where
  "direct_client_for load build req_proxy req_profile e =
     (let proxy = (case req_proxy of Some p \<Rightarrow> Some p | None \<Rightarrow> he_proxy e)
      in case req_profile of
           Some name \<Rightarrow>
             (case jar_for load name e of
                (Inl err, e') \<Rightarrow> (Inl err, e')
              | (Inr jar, e') \<Rightarrow> (direct_client build proxy (Some jar), e'))
         | None \<Rightarrow>
             (if proxy = he_proxy e then Inr (he_client e, None) else direct_client build proxy None, e))"

definition unpooled :: "('c, 'j) HttpEngine \<Rightarrow> ('c, 'j) HttpEngine" where
  "unpooled e = e\<lparr>he_pool := pool_new\<rparr>"

lemma unpooled_fields [simp]: "he_proxy (unpooled e) = he_proxy e" "he_client (unpooled e) = he_client e"
  by (simp_all add: unpooled_def)

section \<open>The pool serves what was built\<close>

text \<open>A profile the engine has opened: absent, or a valid name whose jar is held.\<close>

definition opened :: "('c, 'j) HttpEngine \<Rightarrow> string option \<Rightarrow> bool" where
  "opened e profile \<longleftrightarrow>
     (case profile of None \<Rightarrow> True | Some n \<Rightarrow> validate_profile_name n = None \<and> he_jars e n \<noteq> None)"

definition jar_of :: "('c, 'j) HttpEngine \<Rightarrow> string option \<Rightarrow> 'j option" where
  "jar_of e profile = (case profile of None \<Rightarrow> None | Some n \<Rightarrow> he_jars e n)"

definition engine_ok :: "(string option \<Rightarrow> 'j option \<Rightarrow> 'c option) \<Rightarrow> ('c, 'j) HttpEngine \<Rightarrow> bool" where
  "engine_ok build e \<longleftrightarrow>
     distinct (pool_order (he_pool e)) \<and> dom (clients (he_pool e)) \<subseteq> set (pool_order (he_pool e)) \<and>
     card (dom (clients (he_pool e))) \<le> MAX_POOLED_CLIENTS \<and> he_proxy e \<noteq> Some [] \<and>
     (\<forall>k c. clients (he_pool e) k = Some c \<longrightarrow>
        (\<exists>proxy profile. proxy \<noteq> Some [] \<and> opened e profile \<and> k = pool_key proxy profile \<and>
           build proxy (jar_of e profile) = Some c))"

lemma valid_name_chars:
  assumes "validate_profile_name n = None"
  shows "n \<noteq> []" and "CHR 0x1F \<notin> set n"
proof -
  show "n \<noteq> []" using assms by (auto simp: validate_profile_name_def)
  have "find (\<lambda>c. \<not> profile_char c) n = None"
    using assms by (auto simp: validate_profile_name_def split: if_splits)
  then have "\<forall>c\<in>set n. profile_char c" by (auto simp: find_None_iff)
  moreover have "\<not> profile_char (CHR 0x1F)" by code_simp
  ultimately show "CHR 0x1F \<notin> set n" by blast
qed

lemma split_last_separator:
  "xs @ c # ys = xs' @ c # ys' \<Longrightarrow> c \<notin> set ys \<Longrightarrow> c \<notin> set ys' \<Longrightarrow> xs = xs' \<and> ys = ys'"
  by (induction xs arbitrary: xs') (auto simp: Cons_eq_append_conv append_eq_Cons_conv)

lemma pool_key_inject:
  assumes "pool_key proxy profile = pool_key proxy' profile'" and "proxy \<noteq> Some []" "proxy' \<noteq> Some []"
    and "opened e profile" "opened e profile'"
  shows "proxy = proxy' \<and> profile = profile'"
proof -
  have names: "(case q of Some n \<Rightarrow> n | None \<Rightarrow> []) = [] \<longleftrightarrow> q = None" "CHR 0x1F \<notin> set (case q of Some n \<Rightarrow> n | None \<Rightarrow> [])"
    if "opened e q" for q
    using that valid_name_chars by (auto simp: opened_def split: option.splits)
  have eq: "(case proxy of Some p \<Rightarrow> p | None \<Rightarrow> []) = (case proxy' of Some p \<Rightarrow> p | None \<Rightarrow> [])"
    "(case profile of Some n \<Rightarrow> n | None \<Rightarrow> []) = (case profile' of Some n \<Rightarrow> n | None \<Rightarrow> [])"
    using split_last_separator [of "case proxy of Some p \<Rightarrow> p | None \<Rightarrow> []" "CHR 0x1F"
        "case profile of Some n \<Rightarrow> n | None \<Rightarrow> []" "case proxy' of Some p \<Rightarrow> p | None \<Rightarrow> []"
        "case profile' of Some n \<Rightarrow> n | None \<Rightarrow> []"] assms(1) names(2) assms(4,5)
    by (auto simp: pool_key_def)
  have "proxy = proxy'" using eq(1) assms(2,3) by (auto split: option.splits)
  moreover have "profile = profile'" using eq(2) names(1) [OF assms(4)] names(1) [OF assms(5)]
    by (auto split: option.splits)
  ultimately show ?thesis by simp
qed

lemma restrict_foldl: "foldl (\<lambda>m x. m(x := None)) m xs = m |` (- set xs)"
  by (induction xs arbitrary: m) (auto simp: restrict_map_def fun_eq_iff)

lemma pooled_client_refines:
  assumes ok: "engine_ok build e" and proxy: "proxy \<noteq> Some []" and opened: "opened e profile"
    and res: "pooled_client build proxy profile (jar_of e profile) e = (res, e')"
  shows "res = direct_client build proxy (jar_of e profile)" and "engine_ok build e'" and "unpooled e' = unpooled e"
    and "he_jars e' = he_jars e"
proof -
  let ?k = "pool_key proxy profile" and ?pool = "he_pool e"
  have fields: "opened (e\<lparr>he_pool := p\<rparr>) q = opened e q" "jar_of (e\<lparr>he_pool := p\<rparr>) q = jar_of e q" for p q
    by (simp_all add: opened_def jar_of_def split: option.splits)
  have built: "build proxy (jar_of e profile) = Some c" if c: "clients ?pool ?k = Some c" for c
  proof -
    obtain proxy' profile' where p: "proxy' \<noteq> Some []" "opened e profile'" "?k = pool_key proxy' profile'"
      "build proxy' (jar_of e profile') = Some c"
      using ok c unfolding engine_ok_def by blast
    then show ?thesis using pool_key_inject [OF p(3) proxy p(1) opened p(2)] by simp
  qed
  show "unpooled e' = unpooled e" "he_jars e' = he_jars e"
    using res by (auto simp: pooled_client_def Let_def unpooled_def split: prod.splits option.splits)
  show "res = direct_client build proxy (jar_of e profile)"
    using res built by (auto simp: pooled_client_def pool_get_def direct_client_def Let_def split: option.splits)
  show "engine_ok build e'"
  proof (cases "clients ?pool ?k")
    case (Some c)
    then have "e' = e\<lparr>he_pool := ?pool\<lparr>pool_order := lru_touch (pool_order ?pool) ?k\<rparr>\<rparr>"
      using res by (simp add: pooled_client_def pool_get_def Let_def)
    with ok Some show ?thesis by (auto simp: engine_ok_def lru_touch_def fields)
  next
    case None
    show ?thesis
    proof (cases "build proxy (jar_of e profile)")
      case (Some c)
      obtain kept evicted where te: "lru_touch_evict (pool_order ?pool) ?k MAX_POOLED_CLIENTS = (kept, evicted)"
        by (meson surj_pair)
      let ?m = "(clients ?pool)(?k \<mapsto> c)"
      have e': "e' = e\<lparr>he_pool := \<lparr>clients = ?m |` (- set evicted), pool_order = kept\<rparr>\<rparr>"
        using res None Some te
        by (simp add: pooled_client_def pool_get_def pool_insert_def restrict_foldl Let_def)
      have dist: "distinct (pool_order ?pool)" and "dom ?m \<subseteq> insert ?k (set (pool_order ?pool))"
        using ok by (auto simp: engine_ok_def)
      note d = lru.drop_evicted [OF te this] lru.kept_distinct [OF te dist]
      have "\<exists>proxy profile. proxy \<noteq> Some [] \<and> opened e profile \<and> k = pool_key proxy profile \<and>
              build proxy (jar_of e profile) = Some v" if "(?m |` (- set evicted)) k = Some v" for k v
      proof (cases "k = ?k")
        case True
        then have "v = c" using that d(3) by simp
        then show ?thesis using True proxy opened Some by blast
      next
        case False
        then have "clients ?pool k = Some v" using that by (auto simp: restrict_map_def split: if_splits)
        then show ?thesis using ok unfolding engine_ok_def by blast
      qed
      moreover have "max MAX_POOLED_CLIENTS 1 = MAX_POOLED_CLIENTS" by (simp add: MAX_POOLED_CLIENTS_def)
      ultimately show ?thesis
        using d ok by (simp add: engine_ok_def e' fields)
    qed (use res None ok in \<open>auto simp: pooled_client_def pool_get_def Let_def\<close>)
  qed
qed

lemma jar_for_cases:
  assumes "jar_for load name e = (Inr jar, e')"
  shows "validate_profile_name name = None" and "he_jars e' = (he_jars e)(name \<mapsto> jar)"
    and "e' = e\<lparr>he_jars := he_jars e'\<rparr>" and "he_jars e \<subseteq>\<^sub>m he_jars e'"
  using assms by (auto simp: jar_for_def map_le_def split: option.splits if_splits)

lemma engine_ok_jars:
  assumes ok: "engine_ok build e" and le: "he_jars e \<subseteq>\<^sub>m j"
  shows "engine_ok build (e\<lparr>he_jars := j\<rparr>)"
proof -
  have "opened (e\<lparr>he_jars := j\<rparr>) q \<and> jar_of (e\<lparr>he_jars := j\<rparr>) q = jar_of e q" if "opened e q" for q
    using that map_le_implies_dom_le [OF le] le
    by (cases q) (auto simp: opened_def jar_of_def map_le_def dom_def)
  with ok show ?thesis unfolding engine_ok_def by simp metis
qed

lemma client_for_refines:
  assumes ok: "engine_ok build e" and proxy: "req_proxy \<noteq> Some []"
    and res: "client_for load build req_proxy req_profile e = (res, e')"
  shows "direct_client_for load build req_proxy req_profile (unpooled e) = (res, unpooled e')" and "engine_ok build e'"
    and "he_jars e \<subseteq>\<^sub>m he_jars e'"
proof -
  define p where "p = (case req_proxy of Some p \<Rightarrow> Some p | None \<Rightarrow> he_proxy e)"
  have eff: "(case req_proxy of None \<Rightarrow> he_proxy (unpooled e) | Some x \<Rightarrow> Some x) = p"
    by (simp add: p_def split: option.splits)
  have p: "p \<noteq> Some []" using ok proxy by (auto simp: p_def engine_ok_def split: option.splits)
  have "direct_client_for load build req_proxy req_profile (unpooled e) = (res, unpooled e') \<and> engine_ok build e' \<and>
      he_jars e \<subseteq>\<^sub>m he_jars e'"
  proof (cases req_profile)
    case None
    show ?thesis
    proof (cases "p = he_proxy e")
      case True
      then show ?thesis
        using res None ok by (auto simp: client_for_def direct_client_for_def p_def Let_def split: option.splits)
    next
      case False
      have "pooled_client build p None (jar_of e None) e = (res, e')"
        using res None False by (simp add: client_for_def p_def [symmetric] jar_of_def)
      note r = pooled_client_refines [OF ok p _ this]
      show ?thesis
        using r False None by (simp add: direct_client_for_def eff opened_def jar_of_def)
    qed
  next
    case (Some name)
    have j: "jar_for load name (unpooled e) = (fst (jar_for load name e), unpooled (snd (jar_for load name e)))"
      by (simp add: jar_for_def unpooled_def split: option.splits)
    show ?thesis
    proof (cases "jar_for load name e")
      case (Pair r e1)
      show ?thesis
      proof (cases r)
        case (Inl err)
        then have "e1 = e" using Pair by (auto simp: jar_for_def split: option.splits)
        then show ?thesis
          using res Some Pair Inl j ok by (simp add: client_for_def direct_client_for_def Let_def)
      next
        case (Inr jar)
        note c = jar_for_cases [OF Pair [unfolded Inr]]
        have ok1: "engine_ok build e1" using engine_ok_jars [OF ok c(4)] c(3) by metis
        have jar: "jar_of e1 (Some name) = Some jar" "opened e1 (Some name)"
          using c(1,2) by (simp_all add: jar_of_def opened_def)
        have "pooled_client build p (Some name) (jar_of e1 (Some name)) e1 = (res, e')"
          using res Some Pair Inr by (simp add: client_for_def p_def [symmetric] jar)
        note r = pooled_client_refines [OF ok1 p jar(2) this]
        show ?thesis
          using r c(4) Some j Pair Inr
          by (simp add: direct_client_for_def eff jar)
      qed
    qed
  qed
  then show "direct_client_for load build req_proxy req_profile (unpooled e) = (res, unpooled e')" "engine_ok build e'"
    "he_jars e \<subseteq>\<^sub>m he_jars e'"
    by simp_all
qed

text \<open>A run of requests, each with the disk it meets.\<close>

type_synonym 'j request = "string option \<times> string option \<times> (string \<Rightarrow> 'j option)"

fun serve ::
  "('j request \<Rightarrow> 'e \<Rightarrow> 'r \<times> 'e) \<Rightarrow> 'j request list \<Rightarrow> 'e \<Rightarrow> 'r list \<times> 'e" where
  "serve f [] e = ([], e)"
| "serve f (q # qs) e = (case f q e of (r, e1) \<Rightarrow> case serve f qs e1 of (rs, e2) \<Rightarrow> (r # rs, e2))"

definition http_engine_new :: "'c \<Rightarrow> string option \<Rightarrow> ('c, 'j) HttpEngine" where
  "http_engine_new base proxy = \<lparr>he_client = base, he_proxy = proxy, he_pool = pool_new, he_jars = Map.empty\<rparr>"

lemma serve_refines:
  "engine_ok build e \<Longrightarrow> \<forall>q\<in>set qs. fst q \<noteq> Some [] \<Longrightarrow>
   serve (\<lambda>(proxy, profile, load). client_for load build proxy profile) qs e = (rs, e') \<Longrightarrow>
   serve (\<lambda>(proxy, profile, load). direct_client_for load build proxy profile) qs (unpooled e) = (rs, unpooled e') \<and>
   engine_ok build e'"
proof (induction qs arbitrary: e rs)
  case (Cons q qs)
  obtain proxy profile load where q: "q = (proxy, profile, load)" by (cases q)
  obtain r e1 where r: "client_for load build proxy profile e = (r, e1)" by (meson surj_pair)
  obtain rs1 where rs: "serve (\<lambda>(proxy, profile, load). client_for load build proxy profile) qs e1 = (rs1, e')"
    "rs = r # rs1"
    using Cons.prems(3) r by (auto simp: q split: prod.splits)
  have "proxy \<noteq> Some []" using Cons.prems(2) by (simp add: q)
  note step = client_for_refines [OF Cons.prems(1) this r]
  from Cons.IH [OF step(2) _ rs(1)] Cons.prems(2) step(1) rs(2) show ?case by (simp add: q)
qed simp


definition demo_requests :: "nat request list" where
  "demo_requests = [(Some ''p'', None, \<lambda>_. None), (None, Some ''me'', \<lambda>_. Some 7), (Some ''p'', Some ''me'', \<lambda>_. Some 8),
                    (None, Some ''me'', \<lambda>_. None), (None, Some ''m e'', \<lambda>_. Some 9)]"

definition demo_build :: "string option \<Rightarrow> nat option \<Rightarrow> (string option \<times> nat option) option" where
  "demo_build proxy jar = Some (proxy, jar)"


section \<open>Browser holders\<close>

definition MAX_LIVE_PROFILES :: nat where
  "MAX_LIVE_PROFILES = 4"

record LiveBrowser =
  lb_alive :: bool
  lb_renders :: nat

record Holders =
  live :: "string \<rightharpoonup> LiveBrowser"
  holder_order :: "string list"

definition is_stale :: "bool \<Rightarrow> nat \<Rightarrow> nat \<Rightarrow> bool" where
  "is_stale alive renders recycle \<longleftrightarrow> \<not> alive \<or> (0 < recycle \<and> recycle \<le> renders)"

definition is_fresh_holder :: "Holders \<Rightarrow> string \<Rightarrow> nat \<Rightarrow> bool" where
  "is_fresh_holder h k recycle \<longleftrightarrow>
     (case live h k of Some l \<Rightarrow> \<not> is_stale (lb_alive l) (lb_renders l) recycle | None \<Rightarrow> False)"

text \<open>\<open>None\<close> is the panic of a holder that is not there.\<close>

definition checkout :: "Holders \<Rightarrow> string \<Rightarrow> (LiveBrowser \<times> Holders) option" where
  "checkout h k =
     (case lru_touch_evict (holder_order h) k MAX_LIVE_PROFILES of
        (order, evicted) \<Rightarrow>
          let kept = foldl (\<lambda>m x. m(x := None)) (live h) evicted
          in case kept k of
               None \<Rightarrow> None
             | Some l \<Rightarrow>
                 let l' = l\<lparr>lb_renders := lb_renders l + 1\<rparr>
                 in Some (l', \<lparr>live = kept(k \<mapsto> l'), holder_order = order\<rparr>))"

text \<open>
  The critical sections of an acquire: hand out a fresh holder, drop a stale one before the
  relaunch, and install what was launched. Between them other acquires and crashes interleave.
\<close>

definition acquire_fast :: "string \<Rightarrow> nat \<Rightarrow> Holders \<Rightarrow> (LiveBrowser \<times> Holders) option option" where
  "acquire_fast k recycle h = (if is_fresh_holder h k recycle then Some (checkout h k) else None)"

definition acquire_recheck :: "string \<Rightarrow> nat \<Rightarrow> Holders \<Rightarrow> (LiveBrowser \<times> Holders) option + Holders" where
  "acquire_recheck k recycle h =
     (if is_fresh_holder h k recycle then Inl (checkout h k) else Inr (h\<lparr>live := (live h)(k := None)\<rparr>))"

definition acquire_install :: "string \<Rightarrow> LiveBrowser \<Rightarrow> Holders \<Rightarrow> (LiveBrowser \<times> Holders) option" where
  "acquire_install k launched h = checkout (h\<lparr>live := (live h)(k \<mapsto> launched)\<rparr>) k"

inductive holders_reach :: "Holders \<Rightarrow> bool" where
  boot: "holders_reach \<lparr>live = Map.empty, holder_order = []\<rparr>"
| fast: "holders_reach h \<Longrightarrow> acquire_fast k recycle h = Some (Some (l, h')) \<Longrightarrow> holders_reach h'"
| recheck: "holders_reach h \<Longrightarrow> acquire_recheck k recycle h = Inl (Some (l, h')) \<Longrightarrow> holders_reach h'"
| drop: "holders_reach h \<Longrightarrow> acquire_recheck k recycle h = Inr h' \<Longrightarrow> holders_reach h'"
| install: "holders_reach h \<Longrightarrow> acquire_install k launched h = Some (l, h') \<Longrightarrow> holders_reach h'"
| crash: "holders_reach h \<Longrightarrow> live h k = Some l \<Longrightarrow>
    holders_reach (h\<lparr>live := (live h)(k \<mapsto> l\<lparr>lb_alive := False\<rparr>)\<rparr>)"

definition holders_ok :: "Holders \<Rightarrow> bool" where
  "holders_ok h \<longleftrightarrow>
     distinct (holder_order h) \<and> dom (live h) \<subseteq> set (holder_order h) \<and> card (dom (live h)) \<le> MAX_LIVE_PROFILES"

lemma checkout_ok:
  assumes "distinct (holder_order h)" and "dom (live h) \<subseteq> insert k (set (holder_order h))" and l: "live h k = Some l"
  shows "\<exists>h'. checkout h k = Some (l\<lparr>lb_renders := lb_renders l + 1\<rparr>, h') \<and> holders_ok h' \<and>
           live h' k = Some (l\<lparr>lb_renders := lb_renders l + 1\<rparr>)"
proof -
  obtain kept evicted where te: "lru_touch_evict (holder_order h) k MAX_LIVE_PROFILES = (kept, evicted)"
    by (meson surj_pair)
  note d = lru.drop_evicted [OF te assms(1,2)] lru.kept_distinct [OF te assms(1)] lru.kept_key [OF te]
  let ?m = "live h |` (- set evicted)"
  have k: "?m k = Some l" using d(3) l by simp
  then have "dom (?m(k \<mapsto> v)) = dom ?m" for v using insert_absorb [OF domI [of ?m k l]] by simp
  then have "holders_ok \<lparr>live = ?m(k \<mapsto> v), holder_order = kept\<rparr>" for v
    using d(1,2,4) d(7) by (simp add: holders_ok_def MAX_LIVE_PROFILES_def insert_absorb)
  with k te show ?thesis by (simp add: checkout_def restrict_foldl Let_def)
qed

lemma holders_ok_remove: "holders_ok h \<Longrightarrow> holders_ok (h\<lparr>live := (live h)(k := None)\<rparr>)"
proof -
  assume ok: "holders_ok h"
  then have "finite (dom (live h))" using finite_subset [of "dom (live h)" "set (holder_order h)"] by (simp add: holders_ok_def)
  then have "card (dom (live h) - {k}) \<le> card (dom (live h))" by (simp add: card_mono)
  with ok show ?thesis by (auto simp: holders_ok_def)
qed

lemma fresh_present: "is_fresh_holder h k recycle \<Longrightarrow> \<exists>l. live h k = Some l"
  by (auto simp: is_fresh_holder_def split: option.splits)

lemma holders_reach_ok: "holders_reach h \<Longrightarrow> holders_ok h"
proof (induction rule: holders_reach.induct)
  case (fast h k recycle l h')
  then show ?case using checkout_ok [of h k] fresh_present [of h k recycle]
    by (fastforce simp: acquire_fast_def holders_ok_def split: if_splits)
next
  case (recheck h k recycle l h')
  then show ?case using checkout_ok [of h k] fresh_present [of h k recycle]
    by (fastforce simp: acquire_recheck_def holders_ok_def split: if_splits)
next
  case (drop h k recycle h')
  then show ?case using holders_ok_remove by (auto simp: acquire_recheck_def split: if_splits)
next
  case (install h k launched l h')
  then show ?case using checkout_ok [of "h\<lparr>live := (live h)(k \<mapsto> launched)\<rparr>" k launched]
    by (auto simp: acquire_install_def holders_ok_def)
next
  case (crash h k l)
  then have "dom ((live h)(k \<mapsto> l\<lparr>lb_alive := False\<rparr>)) = dom (live h)" by auto
  with crash show ?case by (simp add: holders_ok_def)
qed (simp add: holders_ok_def)

text \<open>
  Under every interleaving of acquires, relaunches, failed launches and crashes, at most
  \<open>MAX_LIVE_PROFILES\<close> browsers are live, each tracked by the recency order; and handing one out
  never meets a missing holder: a fresh holder and a just-launched one survive the eviction their
  own checkout makes, and come back with one more render counted.
\<close>

theorem browser_holders_bounded:
  assumes "holders_reach h"
  shows "card (dom (live h)) \<le> MAX_LIVE_PROFILES \<and> dom (live h) \<subseteq> set (holder_order h) \<and>
         (is_fresh_holder h k recycle \<longrightarrow>
            (\<exists>l h'. live h k = Some l \<and> checkout h k = Some (l\<lparr>lb_renders := lb_renders l + 1\<rparr>, h'))) \<and>
         (\<exists>h'. acquire_install k launched h = Some (launched\<lparr>lb_renders := lb_renders launched + 1\<rparr>, h') \<and>
            live h' k = Some (launched\<lparr>lb_renders := lb_renders launched + 1\<rparr>))"
proof -
  have ok: "holders_ok h" by (rule holders_reach_ok [OF assms])
  then have "\<exists>h'. checkout h k = Some (l\<lparr>lb_renders := lb_renders l + 1\<rparr>, h')" if "live h k = Some l" for l
    using checkout_ok [of h k l] that by (auto simp: holders_ok_def)
  moreover have "\<exists>h'. acquire_install k launched h = Some (launched\<lparr>lb_renders := lb_renders launched + 1\<rparr>, h') \<and>
      live h' k = Some (launched\<lparr>lb_renders := lb_renders launched + 1\<rparr>)"
    using checkout_ok [of "h\<lparr>live := (live h)(k \<mapsto> launched)\<rparr>" k launched] ok
    by (auto simp: acquire_install_def holders_ok_def)
  ultimately show ?thesis using ok fresh_present [of h k recycle] by (auto simp: holders_ok_def)
qed

theorem browser_holders_bounded_witness:
  "\<exists>h. acquire_install ''a'' \<lparr>lb_alive = True, lb_renders = 0\<rparr> \<lparr>live = Map.empty, holder_order = []\<rparr> =
         Some (\<lparr>lb_alive = True, lb_renders = 1\<rparr>, h) \<and> holders_reach h \<and>
       (\<exists>h'. checkout h ''a'' = Some (\<lparr>lb_alive = True, lb_renders = 2\<rparr>, h'))"
proof -
  let ?l = "\<lparr>lb_alive = True, lb_renders = 0\<rparr>"
  obtain h where h: "acquire_install ''a'' ?l \<lparr>live = Map.empty, holder_order = []\<rparr> =
      Some (\<lparr>lb_alive = True, lb_renders = 1\<rparr>, h)" "live h ''a'' = Some \<lparr>lb_alive = True, lb_renders = 1\<rparr>"
    using browser_holders_bounded [OF holders_reach.boot, of "''a''" 0 ?l] by auto
  have r: "holders_reach h" by (rule holders_reach.install [OF holders_reach.boot h(1)])
  have "is_fresh_holder h ''a'' 0" using h(2) by (simp add: is_fresh_holder_def is_stale_def)
  then show ?thesis using browser_holders_bounded [OF r, of "''a''" 0 ?l] h r by (auto simp: numeral_2_eq_2)
qed

end
