(* ===== verification/Governor.thy ===== *)
theory Governor
  imports Requeue Text "HOL-Library.AList"
begin

text \<open>
  The per-domain politeness governor of \<open>crates/core/src/governor.rs\<close>: the next free slot of
  each host, the spacing learned from rate-limit answers, and the sweep of idle hosts. An
  \<open>Instant\<close> is a number of nanoseconds since an arbitrary origin. The sharded map of hosts is the
  list of its entries in iteration order, each key once; a section that holds an entry is atomic
  for its host, and the sections of concurrent calls interleave. \<open>lower\<close> is
  \<open>str::to_lowercase\<close>. Sums of durations and instants are not bounded here: the code panics when
  one passes \<open>2 ^ 64\<close> seconds.
\<close>

type_synonym instant = nat

section \<open>Durations as floats\<close>

definition DURATION_MAX :: duration where
  "DURATION_MAX = 2 ^ 64 * nanos_per_sec - 1"

definition as_secs_f64 :: "duration \<Rightarrow> rat" where
  "as_secs_f64 d =
     f64_add (f64_of_rat (of_nat (as_secs d))) (f64_of_rat (of_nat (d mod nanos_per_sec) / of_nat nanos_per_sec))"

text \<open>\<open>None\<close> is the panic on a negative or too large value.\<close>

definition from_secs_f64 :: "rat \<Rightarrow> duration option" where
  "from_secs_f64 x =
     (let n = round_even (x * of_nat nanos_per_sec)
      in if x < 0 \<or> int DURATION_MAX < n then None else Some (nat n))"

definition mul_f64 :: "duration \<Rightarrow> rat \<Rightarrow> duration option" where
  "mul_f64 d r = from_secs_f64 (f64_of_rat (r * as_secs_f64 d))"

section \<open>State\<close>

definition DEFAULT_PENALTY_BASE_SECS :: nat where
  "DEFAULT_PENALTY_BASE_SECS = 1"

definition DEFAULT_PENALTY_CAP_SECS :: nat where
  "DEFAULT_PENALTY_CAP_SECS = 300"

definition DEFAULT_PENALTY_FLOOR_MS :: nat where
  "DEFAULT_PENALTY_FLOOR_MS = 100"

definition MAX_HOSTS :: nat where
  "MAX_HOSTS = 4096"

definition IDLE_TTL :: duration where
  "IDLE_TTL = from_secs 3600"

definition EVICT_CHECK_EVERY :: "64 word" where
  "EVICT_CHECK_EVERY = 1024"

definition from_millis :: "nat \<Rightarrow> duration" where
  "from_millis n = n * 1000000"

record GovernorConfig =
  gc_enabled :: bool
  gc_default_rps :: rat
  gc_jitter_ms :: nat
  gc_per_domain :: "(string \<times> rat) list"
  gc_penalty_base_secs :: nat
  gc_penalty_cap_secs :: nat
  gc_penalty_floor_ms :: nat

definition governor_config_default :: GovernorConfig where
  "governor_config_default =
     \<lparr>gc_enabled = True, gc_default_rps = 2, gc_jitter_ms = 250, gc_per_domain = [],
      gc_penalty_base_secs = DEFAULT_PENALTY_BASE_SECS, gc_penalty_cap_secs = DEFAULT_PENALTY_CAP_SECS,
      gc_penalty_floor_ms = DEFAULT_PENALTY_FLOOR_MS\<rparr>"

record HostState =
  next_slot :: instant
  hs_penalty :: duration
  hs_last_seen :: instant

record Governor =
  g_enabled :: bool
  default_interval :: duration
  per_domain :: "(string \<times> duration) list"
  max_jitter :: duration
  g_hosts :: "(string \<times> HostState) list"
  g_tick :: "64 word"
  g_ops :: "64 word"
  penalty_base :: duration
  penalty_cap :: duration
  penalty_floor :: duration

definition rps_interval :: "rat \<Rightarrow> duration option" where
  "rps_interval rps = (if rps \<le> 0 then Some 0 else from_secs_f64 (f64_of_rat (1 / rps)))"

text \<open>Collecting the configured hosts, in the iteration order of the configured map.\<close>

fun collect_intervals ::
  "(string \<Rightarrow> string) \<Rightarrow> (string \<times> rat) list \<Rightarrow> (string \<times> duration) list \<Rightarrow> (string \<times> duration) list option" where
  "collect_intervals lower [] acc = Some acc"
| "collect_intervals lower ((host, rps) # rest) acc =
     (case rps_interval rps of
        None \<Rightarrow> None
      | Some d \<Rightarrow> collect_intervals lower rest (AList.update (lower host) d acc))"

definition governor_new :: "(string \<Rightarrow> string) \<Rightarrow> GovernorConfig \<Rightarrow> Governor option" where
  "governor_new lower cfg =
     (case collect_intervals lower (gc_per_domain cfg) [] of
        None \<Rightarrow> None
      | Some domains \<Rightarrow>
          case rps_interval (gc_default_rps cfg) of
            None \<Rightarrow> None
          | Some d \<Rightarrow>
              Some \<lparr>g_enabled = gc_enabled cfg, default_interval = d, per_domain = domains,
                max_jitter = from_millis (gc_jitter_ms cfg), g_hosts = [], g_tick = 0, g_ops = 0,
                penalty_base = from_secs (gc_penalty_base_secs cfg),
                penalty_cap = from_secs (gc_penalty_cap_secs cfg),
                penalty_floor = from_millis (gc_penalty_floor_ms cfg)\<rparr>)"

definition fresh_host :: "instant \<Rightarrow> HostState" where
  "fresh_host now = \<lparr>next_slot = now, hs_penalty = 0, hs_last_seen = now\<rparr>"

definition entry_of :: "Governor \<Rightarrow> string \<Rightarrow> instant \<Rightarrow> HostState" where
  "entry_of g k now = (case map_of (g_hosts g) k of Some s \<Rightarrow> s | None \<Rightarrow> fresh_host now)"

definition put_entry :: "string \<Rightarrow> HostState \<Rightarrow> Governor \<Rightarrow> Governor" where
  "put_entry k s g = g\<lparr>g_hosts := AList.update k s (g_hosts g)\<rparr>"

definition base_interval :: "Governor \<Rightarrow> string \<Rightarrow> duration" where
  "base_interval g k = (case map_of (per_domain g) k of Some d \<Rightarrow> d | None \<Rightarrow> default_interval g)"

section \<open>Acquiring\<close>

text \<open>Claiming a slot; no slot when the governor is off or the host needs no spacing.\<close>

definition acquire_slot :: "(string \<Rightarrow> string) \<Rightarrow> string \<Rightarrow> instant \<Rightarrow> Governor \<Rightarrow> instant option \<times> Governor" where
  "acquire_slot lower host now g =
     (let k = lower host; base = base_interval g k
      in if \<not> g_enabled g then (None, g)
         else if base = 0 \<and> max_jitter g = 0 \<and>
                 \<not> (case map_of (g_hosts g) k of Some s \<Rightarrow> hs_penalty s \<noteq> 0 | None \<Rightarrow> False)
              then (None, g)
         else let s = entry_of g k now;
                  start = max (next_slot s) now
              in (Some start,
                  put_entry k (s\<lparr>hs_last_seen := now, next_slot := start + (base + hs_penalty s)\<rparr>) g))"

definition idle_host :: "instant \<Rightarrow> HostState \<Rightarrow> bool" where
  "idle_host now s \<longleftrightarrow> \<not> (now - hs_last_seen s < IDLE_TTL \<or> hs_penalty s \<noteq> 0)"

definition maybe_evict :: "instant \<Rightarrow> Governor \<Rightarrow> Governor" where
  "maybe_evict now g =
     (let g' = g\<lparr>g_ops := g_ops g + 1\<rparr>
      in if g_ops g mod EVICT_CHECK_EVERY \<noteq> 0 then g'
         else if length (g_hosts g) \<le> MAX_HOSTS then g'
         else g'\<lparr>g_hosts := filter (\<lambda>(_, s). \<not> idle_host now s) (g_hosts g)\<rparr>)"

definition jitter :: "Governor \<Rightarrow> duration option \<times> Governor" where
  "jitter g =
     (if max_jitter g = 0 then (Some 0, g)
      else (mul_f64 (max_jitter g) (lcg_fraction (g_tick g)), g\<lparr>g_tick := g_tick g + 1\<rparr>))"

text \<open>
  The whole call by itself: the clock is read for the slot, by the sweep, and before the sleep.
  The result is the instant at which the call returns.
\<close>

definition acquire ::
  "(string \<Rightarrow> string) \<Rightarrow> string \<Rightarrow> instant \<Rightarrow> instant \<Rightarrow> instant \<Rightarrow> Governor \<Rightarrow> instant option \<times> Governor" where
  "acquire lower host now1 now2 now3 g =
     (case acquire_slot lower host now1 g of
        (None, g1) \<Rightarrow> (Some now3, g1)
      | (Some slot, g1) \<Rightarrow>
          case jitter (maybe_evict now2 g1) of
            (None, g2) \<Rightarrow> (None, g2)
          | (Some j, g2) \<Rightarrow> (Some (max (slot + j) now3), g2))"

definition try_acquire :: "(string \<Rightarrow> string) \<Rightarrow> string \<Rightarrow> instant \<Rightarrow> Governor \<Rightarrow> bool \<times> Governor" where
  "try_acquire lower host now g =
     (if \<not> g_enabled g then (True, g)
      else let k = lower host; base = base_interval g k; s = entry_of g k now
           in if now < next_slot s then (False, put_entry k s g)
              else (True, put_entry k (s\<lparr>hs_last_seen := now, next_slot := now + base + hs_penalty s\<rparr>) g))"

section \<open>Learning\<close>

definition penalize :: "(string \<Rightarrow> string) \<Rightarrow> string \<Rightarrow> duration option \<Rightarrow> instant \<Rightarrow> Governor \<Rightarrow> Governor" where
  "penalize lower host retry_after now g =
     (if \<not> g_enabled g then g
      else let k = lower host; s = entry_of g k now;
               doubled = (if hs_penalty s = 0 then penalty_base g else min (2 * hs_penalty s) DURATION_MAX);
               nxt = min (max doubled (case retry_after of Some d \<Rightarrow> d | None \<Rightarrow> 0)) (penalty_cap g)
           in put_entry k (s\<lparr>hs_last_seen := now, hs_penalty := nxt, next_slot := max (next_slot s) (now + nxt)\<rparr>) g)"

definition reward :: "(string \<Rightarrow> string) \<Rightarrow> string \<Rightarrow> instant \<Rightarrow> Governor \<Rightarrow> Governor" where
  "reward lower host now g =
     (case map_of (g_hosts g) (lower host) of
        None \<Rightarrow> g
      | Some s \<Rightarrow>
          if hs_penalty s = 0 then g
          else let p = hs_penalty s div 2
               in put_entry (lower host)
                    (s\<lparr>hs_last_seen := now, hs_penalty := (if p < penalty_floor g then 0 else p)\<rparr>) g)"

definition penalty_of :: "(string \<Rightarrow> string) \<Rightarrow> string \<Rightarrow> Governor \<Rightarrow> duration" where
  "penalty_of lower host g = (case map_of (g_hosts g) (lower host) of Some s \<Rightarrow> hs_penalty s | None \<Rightarrow> 0)"

definition snapshot_penalties :: "Governor \<Rightarrow> (string \<times> duration) list" where
  "snapshot_penalties g = map (\<lambda>(k, s). (k, hs_penalty s)) (filter (\<lambda>(_, s). hs_penalty s \<noteq> 0) (g_hosts g))"

definition restore_penalty :: "(string \<Rightarrow> string) \<Rightarrow> string \<Rightarrow> duration \<Rightarrow> instant \<Rightarrow> Governor \<Rightarrow> Governor" where
  "restore_penalty lower host p now g =
     (if p = 0 then g else put_entry (lower host) ((entry_of g (lower host) now)\<lparr>hs_penalty := p\<rparr>) g)"

definition raise_penalty :: "(string \<Rightarrow> string) \<Rightarrow> string \<Rightarrow> duration \<Rightarrow> instant \<Rightarrow> Governor \<Rightarrow> bool \<times> Governor" where
  "raise_penalty lower host p now g =
     (let p = min p (penalty_cap g); k = lower host; s = entry_of g k now
      in if p = 0 then (False, g)
         else if p \<le> hs_penalty s then (False, put_entry k s g)
         else (True, put_entry k (s\<lparr>hs_last_seen := now, hs_penalty := p\<rparr>) g))"

definition clear_host :: "(string \<Rightarrow> string) \<Rightarrow> string \<Rightarrow> Governor \<Rightarrow> bool \<times> Governor" where
  "clear_host lower host g =
     (map_of (g_hosts g) (lower host) \<noteq> None, g\<lparr>g_hosts := AList.delete (lower host) (g_hosts g)\<rparr>)"

section \<open>The jitter never panics\<close>

lemma pow2_pos [simp]: "0 < pow2 e"
  by (simp add: pow2_def)

lemma round_even_bounds:
  assumes "0 \<le> x"
  shows "0 \<le> round_even x" and "of_int (round_even x) \<le> 2 * x"
proof -
  define f where "f = \<lfloor>x\<rfloor>"
  have f: "of_int f \<le> x" "0 \<le> f" using assms by (simp_all add: f_def)
  then have f0: "(0 :: rat) \<le> of_int f" by simp
  have "round_even x = f \<or> round_even x = f + 1 \<and> \<not> x - of_int f < 1 / 2"
    unfolding round_even_def Let_def f_def [symmetric] by (simp only: split: if_split) blast
  then show "0 \<le> round_even x" and "of_int (round_even x) \<le> 2 * x"
    using f f0 assms by auto
qed

lemma f64_of_rat_bounds: "0 \<le> q \<Longrightarrow> 0 \<le> f64_of_rat q \<and> f64_of_rat q \<le> 2 * q"
proof (cases "q = 0")
  case False
  assume q: "0 \<le> q"
  let ?u = "pow2 (f64_ulp_exp q)"
  have u: "0 < ?u" by simp
  have "0 \<le> round_even (q / ?u)" "of_int (round_even (q / ?u)) \<le> 2 * (q / ?u)"
    using round_even_bounds [of "q / ?u"] q u by simp_all
  moreover from this(2) have "of_int (round_even (q / ?u)) * ?u \<le> 2 * q"
    using u by (simp add: field_simps)
  moreover have "0 \<le> of_int (round_even (q / ?u)) * ?u"
    using calculation(1) less_imp_le [OF u] by (intro mult_nonneg_nonneg) simp_all
  ultimately show ?thesis using False by (simp add: f64_of_rat_def)
qed (simp add: f64_of_rat_def)

lemma as_secs_f64_bounds: "0 \<le> as_secs_f64 d \<and> as_secs_f64 d \<le> 4 * of_nat (as_secs d) + 4"
proof -
  let ?n = "of_nat (d mod nanos_per_sec) / of_nat nanos_per_sec :: rat"
  have n: "0 \<le> ?n" "?n \<le> 1" by (simp_all add: nanos_per_sec_def)
  have "0 \<le> f64_of_rat (of_nat (as_secs d)) + f64_of_rat ?n"
    "f64_of_rat (of_nat (as_secs d)) + f64_of_rat ?n \<le> 2 * of_nat (as_secs d) + 2"
    using f64_of_rat_bounds [of "of_nat (as_secs d)"] f64_of_rat_bounds [of ?n] n by simp_all
  with f64_of_rat_bounds [of "f64_of_rat (of_nat (as_secs d)) + f64_of_rat ?n"] show ?thesis
    by (simp add: as_secs_f64_def f64_add_def)
qed

lemma from_secs_f64_total: "0 \<le> x \<Longrightarrow> x < 2 ^ 62 \<Longrightarrow> \<exists>d. from_secs_f64 x = Some d"
proof -
  assume x: "0 \<le> x" "x < 2 ^ 62"
  let ?n = "round_even (x * of_nat nanos_per_sec)"
  have "of_int ?n \<le> 2 * (x * of_nat nanos_per_sec)"
    using round_even_bounds [of "x * of_nat nanos_per_sec"] x by (simp add: nanos_per_sec_def)
  also have "\<dots> \<le> of_int (2 ^ 63 * int nanos_per_sec)" using x by (simp add: nanos_per_sec_def)
  finally have "?n \<le> 2 ^ 63 * int nanos_per_sec" by (simp only: of_int_le_iff)
  then have "?n \<le> int DURATION_MAX" by (simp add: DURATION_MAX_def nanos_per_sec_def)
  with x show ?thesis by (simp add: from_secs_f64_def Let_def)
qed

lemma mul_f64_total:
  assumes "d < from_millis (2 ^ 64)" and "0 \<le> r" "r \<le> 1"
  shows "\<exists>j. mul_f64 d r = Some j"
proof -
  have "as_secs d \<le> 2 ^ 55" using assms(1) by (simp add: as_secs_def from_millis_def nanos_per_sec_def)
  then have "(of_nat (as_secs d) :: rat) \<le> of_nat (2 ^ 55)" by (simp only: of_nat_le_iff)
  then have s: "as_secs_f64 d \<le> 2 ^ 58" using as_secs_f64_bounds [of d] by simp
  have "0 \<le> r * as_secs_f64 d" "r * as_secs_f64 d \<le> 2 ^ 58"
    using as_secs_f64_bounds [of d] s assms(2,3) mult_mono [of r 1 "as_secs_f64 d" "2 ^ 58"] by simp_all
  with f64_of_rat_bounds [of "r * as_secs_f64 d"] show ?thesis
    unfolding mul_f64_def by (intro from_secs_f64_total) simp_all
qed

lemma jitter_total:
  assumes "max_jitter g < from_millis (2 ^ 64)"
  shows "\<exists>j. fst (jitter g) = Some j"
proof -
  have "0 \<le> lcg_fraction (g_tick g)" "lcg_fraction (g_tick g) \<le> 1" by (simp_all add: lcg_fraction_def)
  from mul_f64_total [OF assms this] show ?thesis by (auto simp: jitter_def)
qed

section \<open>Runs\<close>

text \<open>One atomic section of any caller at a clock reading.\<close>

inductive gov_step :: "(string \<Rightarrow> string) \<Rightarrow> instant \<Rightarrow> Governor \<Rightarrow> Governor \<Rightarrow> bool" for lower now where
  slot: "acquire_slot lower host now g = (r, g') \<Longrightarrow> gov_step lower now g g'"
| tried: "try_acquire lower host now g = (b, g') \<Longrightarrow> gov_step lower now g g'"
| sweep: "gov_step lower now g (maybe_evict now g)"
| jittered: "gov_step lower now g (snd (jitter g))"
| penalized: "gov_step lower now g (penalize lower host retry_after now g)"
| rewarded: "gov_step lower now g (reward lower host now g)"
| restored: "p \<le> penalty_cap g \<Longrightarrow> gov_step lower now g (restore_penalty lower host p now g)"
| raised: "gov_step lower now g (snd (raise_penalty lower host p now g))"
| cleared: "gov_step lower now g (snd (clear_host lower host g))"

definition same_config :: "Governor \<Rightarrow> Governor \<Rightarrow> bool" where
  "same_config g g' \<longleftrightarrow>
     g_enabled g' = g_enabled g \<and> default_interval g' = default_interval g \<and> per_domain g' = per_domain g \<and>
     max_jitter g' = max_jitter g \<and> penalty_base g' = penalty_base g \<and> penalty_cap g' = penalty_cap g \<and>
     penalty_floor g' = penalty_floor g"

lemma put_entry_config [simp]: "same_config g (put_entry k s g)"
  by (simp add: same_config_def put_entry_def)

lemma same_config_refl [simp]: "same_config g g"
  by (simp add: same_config_def)

lemma gov_step_config: "gov_step lower now g g' \<Longrightarrow> same_config g g'"
proof (induction rule: gov_step.induct)
  case (slot host g r g')
  then show ?case by (auto simp: acquire_slot_def Let_def split: if_splits)
next
  case (tried host g b g')
  then show ?case by (auto simp: try_acquire_def Let_def split: if_splits)
next
  case (rewarded g host)
  then show ?case by (simp add: reward_def Let_def split: option.split)
qed (simp_all add: maybe_evict_def jitter_def penalize_def restore_penalty_def raise_penalty_def clear_host_def Let_def,
    simp_all add: same_config_def)

lemma map_of_hosts_update [simp]: "map_of (AList.update k v xs) = (map_of xs)(k \<mapsto> v)"
  by (rule update_conv')

text \<open>
  A section changes the entry of a host only by pushing its slot out, and makes a new entry only
  with a slot that is not before the clock.
\<close>

lemma entry_of_put: "entry_of (put_entry k s g) k' now = (if k' = k then s else entry_of g k' now)"
  by (simp add: entry_of_def put_entry_def)

lemma put_entry_slot:
  "next_slot (entry_of g k' now) \<le> next_slot s' \<Longrightarrow>
   next_slot (entry_of g k now) \<le> next_slot (entry_of (put_entry k' s' g) k now)"
  by (simp add: entry_of_put)

lemma map_of_filter_Some:
  "distinct (map fst xs) \<Longrightarrow> map_of (filter P xs) k = Some v \<Longrightarrow> map_of xs k = Some v"
  by (frule map_of_SomeD) (simp add: map_of_is_SomeI)

lemma entry_of_Some: "map_of (g_hosts g) k = Some s \<Longrightarrow> entry_of g k now = s"
  by (simp add: entry_of_def)

lemma evict_entry:
  assumes "distinct (map fst (g_hosts g))" and "map_of (g_hosts (maybe_evict now g)) k = Some s"
  shows "map_of (g_hosts g) k = Some s"
  using assms map_of_filter_Some [of "g_hosts g" "\<lambda>(_, s). \<not> idle_host now s" k s]
  by (simp add: maybe_evict_def Let_def split: if_splits)

lemma g_hosts_entry: "g_hosts g' = g_hosts g \<Longrightarrow> entry_of g' k now = entry_of g k now"
  by (simp add: entry_of_def)

lemma acquire_slot_entry:
  assumes "acquire_slot lower host now g = (r, g')"
  shows "next_slot (entry_of g k now) \<le> next_slot (entry_of g' k now)"
proof (cases r)
  case None
  with assms show ?thesis by (auto simp: acquire_slot_def Let_def split: if_splits)
next
  case (Some s)
  with assms have "g' = put_entry (lower host)
      ((entry_of g (lower host) now)\<lparr>hs_last_seen := now,
        next_slot := s + (base_interval g (lower host) + hs_penalty (entry_of g (lower host) now))\<rparr>) g"
    "s = max (next_slot (entry_of g (lower host) now)) now"
    by (auto simp: acquire_slot_def Let_def split: if_splits)
  then show ?thesis by (simp add: put_entry_slot)
qed

lemma try_acquire_entry:
  assumes "try_acquire lower host now g = (b, g')"
  shows "next_slot (entry_of g k now) \<le> next_slot (entry_of g' k now)"
proof -
  let ?s = "entry_of g (lower host) now"
  consider "g' = g" | "g' = put_entry (lower host) ?s g"
    | "g' = put_entry (lower host)
        (?s\<lparr>hs_last_seen := now, next_slot := now + base_interval g (lower host) + hs_penalty ?s\<rparr>) g" "next_slot ?s \<le> now"
    using assms by (auto simp: try_acquire_def Let_def split: if_splits)
  then show ?thesis by cases (simp_all add: put_entry_slot)
qed

lemma gov_step_slot:
  assumes "gov_step lower now g g'" and "map_of (g_hosts g') k \<noteq> None" and "distinct (map fst (g_hosts g))"
  shows "next_slot (entry_of g k now) \<le> next_slot (entry_of g' k now)"
  using assms
proof (induction rule: gov_step.induct)
  case (slot host g r g')
  then show ?case using acquire_slot_entry by blast
next
  case (tried host g b g')
  then show ?case using try_acquire_entry by blast
next
  case (sweep g)
  then obtain s where "map_of (g_hosts (maybe_evict now g)) k = Some s" by blast
  with evict_entry [OF sweep(2) this] show ?case by (simp add: entry_of_Some)
next
  case (jittered g)
  then show ?case using g_hosts_entry [of "snd (jitter g)" g k now] by (simp add: jitter_def)
next
  case (penalized g host retry_after)
  then show ?case by (simp add: penalize_def Let_def put_entry_slot)
next
  case (rewarded g host)
  show ?case
  proof (cases "map_of (g_hosts g) (lower host)")
    case (Some s)
    then show ?thesis by (simp add: reward_def Let_def put_entry_slot entry_of_Some)
  qed (simp add: reward_def)
next
  case (restored p g host)
  then show ?case by (simp add: restore_penalty_def put_entry_slot)
next
  case (raised g host p)
  then show ?case by (simp add: raise_penalty_def Let_def put_entry_slot)
next
  case (cleared g host)
  then have "k \<noteq> lower host" by (auto simp: clear_host_def delete_conv)
  then show ?case by (simp add: clear_host_def entry_of_def delete_conv)
qed

lemma gov_step_distinct: "gov_step lower now g g' \<Longrightarrow> distinct (map fst (g_hosts g)) \<Longrightarrow> distinct (map fst (g_hosts g'))"
proof (induction rule: gov_step.induct)
  case (slot host g r g')
  then show ?case by (auto simp: acquire_slot_def Let_def put_entry_def distinct_update split: if_splits)
next
  case (tried host g b g')
  then show ?case by (auto simp: try_acquire_def Let_def put_entry_def distinct_update split: if_splits)
next
  case (rewarded g host)
  then show ?case by (simp add: reward_def Let_def put_entry_def distinct_update split: option.split)
qed (simp_all add: maybe_evict_def jitter_def penalize_def restore_penalty_def raise_penalty_def clear_host_def
    put_entry_def distinct_update distinct_delete distinct_map_filter Let_def)

text \<open>
  A run between two clock readings. Whenever the entry of the host is forgotten, by the sweep or
  by a reset, its slot is due: \<open>sweep_forgets_future_slot\<close> shows what happens otherwise.
\<close>

definition forgets_due :: "string \<Rightarrow> instant \<Rightarrow> Governor \<Rightarrow> Governor \<Rightarrow> bool" where
  "forgets_due k now g g' \<longleftrightarrow>
     (map_of (g_hosts g') k = None \<longrightarrow> next_slot (entry_of g k now) \<le> now)"

inductive gov_run :: "(string \<Rightarrow> string) \<Rightarrow> string \<Rightarrow> instant \<Rightarrow> Governor \<Rightarrow> instant \<Rightarrow> Governor \<Rightarrow> bool" for lower k where
  stay: "gov_run lower k t g t g"
| wait: "gov_run lower k t g t' g' \<Longrightarrow> t' \<le> t'' \<Longrightarrow> gov_run lower k t g t'' g'"
| act: "gov_run lower k t g t' g' \<Longrightarrow> gov_step lower t' g' g'' \<Longrightarrow> forgets_due k t' g' g'' \<Longrightarrow>
    gov_run lower k t g t' g''"

definition grants :: "(string \<Rightarrow> string) \<Rightarrow> string \<Rightarrow> instant \<Rightarrow> Governor \<Rightarrow> instant \<Rightarrow> Governor \<Rightarrow> bool" where
  "grants lower host now g s g' \<longleftrightarrow>
     acquire_slot lower host now g = (Some s, g') \<or>
     (g_enabled g \<and> try_acquire lower host now g = (True, g') \<and> s = now)"

lemma grants_entry:
  assumes "grants lower host now g s g'"
  shows "map_of (g_hosts g') (lower host) \<noteq> None"
    and "next_slot (entry_of g' (lower host) t) = s + base_interval g (lower host) + penalty_of lower host g"
    and "next_slot (entry_of g (lower host) now) \<le> s" and "now \<le> s" and "gov_step lower now g g'"
proof -
  have p: "hs_penalty (entry_of g (lower host) now) = penalty_of lower host g"
    by (simp add: entry_of_def penalty_of_def fresh_host_def split: option.split)
  show "gov_step lower now g g'" using assms unfolding grants_def by (blast intro: gov_step.slot gov_step.tried)
  have "g' = put_entry (lower host) ((entry_of g (lower host) now)\<lparr>hs_last_seen := now,
      next_slot := s + base_interval g (lower host) + penalty_of lower host g\<rparr>) g \<and>
    next_slot (entry_of g (lower host) now) \<le> s \<and> now \<le> s"
    using assms unfolding grants_def
    by (auto simp: acquire_slot_def try_acquire_def Let_def p add.assoc split: if_splits)
  then show "map_of (g_hosts g') (lower host) \<noteq> None"
    "next_slot (entry_of g' (lower host) t) = s + base_interval g (lower host) + penalty_of lower host g"
    "next_slot (entry_of g (lower host) now) \<le> s" "now \<le> s"
    by (simp_all add: entry_of_put) (simp add: put_entry_def)
qed

lemma entry_of_later: "t \<le> t' \<Longrightarrow> next_slot (entry_of g k t) \<le> next_slot (entry_of g k t')"
  by (simp add: entry_of_def fresh_host_def split: option.split)

lemma gov_run_slot:
  assumes "gov_run lower k t g t' g'" and "distinct (map fst (g_hosts g))"
  shows "distinct (map fst (g_hosts g')) \<and> next_slot (entry_of g k t) \<le> next_slot (entry_of g' k t')"
  using assms
proof (induction rule: gov_run.induct)
  case (wait t g t' g' t'')
  then show ?case using entry_of_later [of t' t'' g' k] by auto
next
  case (act t g t' g' g'')
  then have d: "distinct (map fst (g_hosts g'))" and le: "next_slot (entry_of g k t) \<le> next_slot (entry_of g' k t')" by auto
  have "next_slot (entry_of g' k t') \<le> next_slot (entry_of g'' k t')"
  proof (cases "map_of (g_hosts g'') k")
    case None
    then have "next_slot (entry_of g' k t') \<le> t'" using act(3) by (simp add: forgets_due_def)
    with None show ?thesis by (simp add: entry_of_def fresh_host_def)
  next
    case Some
    then show ?thesis using gov_step_slot [OF act(2) _ d] by simp
  qed
  with le d act(2) gov_step_distinct show ?case by (auto intro: order.trans)
qed simp

lemma gov_run_config: "gov_run lower k t g t' g' \<Longrightarrow> same_config g g'"
  by (induction rule: gov_run.induct) (auto dest!: gov_step_config simp: same_config_def)

lemma acquire_returns:
  assumes "max_jitter g < from_millis (2 ^ 64)" and "acquire_slot lower host now g = (Some s, g')"
  shows "\<exists>r g''. acquire lower host now now2 now3 g = (Some r, g'') \<and> s \<le> r"
proof -
  have "same_config g g'" using assms(2) gov_step_config gov_step.slot by blast
  moreover have "same_config g' (maybe_evict now2 g')" using gov_step_config gov_step.sweep by blast
  ultimately have "max_jitter (maybe_evict now2 g') < from_millis (2 ^ 64)" using assms(1) by (simp add: same_config_def)
  then obtain j where "fst (jitter (maybe_evict now2 g')) = Some j" using jitter_total by blast
  then show ?thesis using assms(2) by (cases "jitter (maybe_evict now2 g')") (simp add: acquire_def)
qed


section \<open>Learned penalties\<close>

text \<open>
  States reachable from a configured start, where a restored penalty is within the cap (the
  restore itself does not check it).
\<close>

inductive gov_reach :: "(string \<Rightarrow> string) \<Rightarrow> Governor \<Rightarrow> bool" for lower where
  new: "governor_new lower cfg = Some g \<Longrightarrow> gov_reach lower g"
| step: "gov_reach lower g \<Longrightarrow> gov_step lower now g g' \<Longrightarrow> gov_reach lower g'"

lemma gov_reach_distinct: "gov_reach lower g \<Longrightarrow> distinct (map fst (g_hosts g))"
  by (induction rule: gov_reach.induct)
    (auto simp: governor_new_def dest: gov_step_distinct split: option.splits)

lemma penalty_of_put:
  "penalty_of lower host (put_entry k s g) = (if lower host = k then hs_penalty s else penalty_of lower host g)"
  by (simp add: penalty_of_def put_entry_def)

lemma penalty_of_entry: "hs_penalty (entry_of g (lower host) now) = penalty_of lower host g"
  by (simp add: entry_of_def penalty_of_def fresh_host_def split: option.split)

lemma penalty_of_hosts: "g_hosts g' = g_hosts g \<Longrightarrow> penalty_of lower host g' = penalty_of lower host g"
  by (simp add: penalty_of_def)

lemma reward_penalty:
  "penalty_of lower host' (reward lower host now g) =
     (if lower host' = lower host
      then let p = penalty_of lower host g div 2 in if p < penalty_floor g then 0 else p
      else penalty_of lower host' g)"
proof (cases "map_of (g_hosts g) (lower host)")
  case (Some s)
  have "penalty_of lower host g = hs_penalty s" using Some by (simp add: penalty_of_def)
  then show ?thesis using Some
    by (cases "hs_penalty s = 0") (auto simp: reward_def Let_def penalty_of_put, simp_all add: penalty_of_def)
qed (auto simp: reward_def penalty_of_def Let_def)

lemma penalize_penalty:
  assumes "g_enabled g"
  shows "penalty_of lower host' (penalize lower host retry_after now g) =
     (if lower host' = lower host
      then min (max (if penalty_of lower host g = 0 then penalty_base g
                     else min (2 * penalty_of lower host g) DURATION_MAX)
                    (case retry_after of Some d \<Rightarrow> d | None \<Rightarrow> 0)) (penalty_cap g)
      else penalty_of lower host' g)"
  using assms by (simp add: penalize_def Let_def penalty_of_put penalty_of_entry)

lemma evict_penalty:
  assumes "distinct (map fst (g_hosts g))"
  shows "penalty_of lower host (maybe_evict now g) \<le> penalty_of lower host g"
proof (cases "map_of (g_hosts (maybe_evict now g)) (lower host)")
  case (Some s)
  with evict_entry [OF assms Some] show ?thesis by (simp add: penalty_of_def)
qed (simp add: penalty_of_def)

lemma gov_step_penalty:
  assumes "gov_step lower now g g'" and "distinct (map fst (g_hosts g))"
    and "\<And>host. penalty_of lower host g \<le> penalty_cap g"
  shows "penalty_of lower host' g' \<le> penalty_cap g"
  using assms
proof (induction rule: gov_step.induct)
  case (slot host g r g')
  then show ?case by (auto simp: acquire_slot_def Let_def penalty_of_put penalty_of_entry split: if_splits)
next
  case (tried host g b g')
  then show ?case by (auto simp: try_acquire_def Let_def penalty_of_put penalty_of_entry split: if_splits)
next
  case (sweep g)
  then show ?case using evict_penalty le_trans by blast
next
  case (jittered g)
  then show ?case using penalty_of_hosts [of "snd (jitter g)" g lower host'] by (simp add: jitter_def)
next
  case (penalized g host retry_after)
  then show ?case by (cases "g_enabled g") (simp_all add: penalize_penalty, simp add: penalize_def)
next
  case (rewarded g host)
  then show ?case by (auto simp: reward_penalty Let_def intro: le_trans [OF div_le_dividend])
next
  case (restored p g host)
  then show ?case by (simp add: restore_penalty_def penalty_of_put)
next
  case (raised g host p)
  then show ?case by (simp add: raise_penalty_def Let_def penalty_of_put penalty_of_entry)
next
  case (cleared g host)
  then show ?case by (simp add: clear_host_def penalty_of_def delete_conv)
qed

lemma gov_reach_penalty: "gov_reach lower g \<Longrightarrow> penalty_of lower host g \<le> penalty_cap g"
proof (induction arbitrary: host rule: gov_reach.induct)
  case (new cfg g)
  then show ?case by (auto simp: governor_new_def penalty_of_def split: option.splits)
next
  case (step g now g')
  then show ?case
    using gov_step_penalty [OF step(2) gov_reach_distinct [OF step(1)]] gov_step_config [OF step(2)]
    by (simp add: same_config_def)
qed

lemma reward_floor: "penalty_floor (reward lower host now g) = penalty_floor g"
  using gov_step_config [OF gov_step.rewarded [where lower = lower and now = now and g = g and host = host]] by (simp add: same_config_def)

lemma rewards_recover:
  "penalty_of lower host g < 2 ^ length ts * max 1 (penalty_floor g) \<Longrightarrow> ts \<noteq> [] \<Longrightarrow>
   penalty_of lower host (fold (reward lower host) ts g) = 0"
proof (induction ts arbitrary: g)
  case (Cons t ts)
  let ?p = "penalty_of lower host g" and ?g = "reward lower host t g"
  have step: "penalty_of lower host ?g = (if ?p div 2 < penalty_floor g then 0 else ?p div 2)"
    by (simp add: reward_penalty Let_def)
  have half: "?p div 2 < 2 ^ length ts * max 1 (penalty_floor g)"
    using Cons.prems(1) by (simp add: less_mult_imp_div_less mult.commute mult.left_commute)
  show ?case
  proof (cases "ts = []")
    case True
    with half step show ?thesis by (simp split: if_splits)
  next
    case False
    from half step have "penalty_of lower host ?g < 2 ^ length ts * max 1 (penalty_floor ?g)"
      by (simp add: reward_floor)
    from Cons.IH [OF this False] show ?thesis by simp
  qed
qed simp


section \<open>The sweep and the slots\<close>

text \<open>
  The sweep looks at when a host was last touched and not at its next slot: a host whose queue
  of claimed slots reaches more than the idle time ahead is forgotten, and the next request to it
  goes out at once, before the slots already promised.
\<close>

lemma sweep_forgets_future_slot:
  assumes "g_enabled g" and "g_ops g mod EVICT_CHECK_EVERY = 0" and "MAX_HOSTS < length (g_hosts g)"
    and "distinct (map fst (g_hosts g))" and s: "map_of (g_hosts g) (lower host) = Some s" and "hs_penalty s = 0"
    and "hs_last_seen s + IDLE_TTL \<le> now" and "now < next_slot s" and "0 < base_interval g (lower host)"
  shows "fst (acquire_slot lower host now (maybe_evict now g)) = Some now \<and>
         fst (acquire_slot lower host now g) = Some (next_slot s)"
proof -
  let ?g = "maybe_evict now g"
  have "map_of (g_hosts ?g) (lower host) = None"
  proof (rule ccontr)
    assume "map_of (g_hosts ?g) (lower host) \<noteq> None"
    then obtain s' where s': "map_of (g_hosts ?g) (lower host) = Some s'" by blast
    have "s' = s" using evict_entry [OF assms(4) s'] s by simp
    moreover have "(lower host, s') \<in> set (filter (\<lambda>(_, s). \<not> idle_host now s) (g_hosts g))"
      using map_of_SomeD [OF s'] assms(2,3) by (simp add: maybe_evict_def Let_def)
    ultimately show False using assms(6,7) by (auto simp: idle_host_def)
  qed
  moreover have "g_enabled ?g" "base_interval ?g (lower host) = base_interval g (lower host)"
    using assms(1) gov_step_config [OF gov_step.sweep [where now = now and g = g]]
    by (simp_all add: same_config_def base_interval_def split: option.split)
  ultimately show ?thesis
    using assms(1,8,9) s by (simp add: acquire_slot_def Let_def entry_of_def fresh_host_def)
qed

section \<open>A concrete governor\<close>

definition demo_config :: GovernorConfig where
  "demo_config = governor_config_default\<lparr>gc_default_rps := 0\<rparr>"

definition demo_governor :: Governor where
  "demo_governor =
     \<lparr>g_enabled = True, default_interval = 0, per_domain = [], max_jitter = from_millis 250, g_hosts = [],
      g_tick = 0, g_ops = 0, penalty_base = from_secs 1, penalty_cap = from_secs 300, penalty_floor = from_millis 100\<rparr>"

lemma demo_governor_new: "governor_new id demo_config = Some demo_governor"
  by (simp add: governor_new_def demo_config_def governor_config_default_def rps_interval_def demo_governor_def
      DEFAULT_PENALTY_BASE_SECS_def DEFAULT_PENALTY_CAP_SECS_def DEFAULT_PENALTY_FLOOR_MS_def)

lemmas governor_eval =
  demo_governor_def acquire_slot_def penalize_def base_interval_def entry_of_def fresh_host_def put_entry_def
  penalty_of_def from_secs_def from_millis_def nanos_per_sec_def



end
