(* ===== verification/Paging.thy ===== *)
theory Paging
  imports Dataset_History Queue_Claims
begin

text \<open>
  Keyset paging: the paged reads of \<open>crates/core/src/datasets.rs\<close> (records, history, change feed,
  full revision walk) and of \<open>crates/core/src/storage.rs\<close> (the job list), the cursors the routes
  mint from a page, and the export that walks a dataset before it is deleted. The interface of a
  paged read is the locale \<open>keyset\<close>: it promises that a page after a key is a prefix of what
  follows that key in one strict order, and gives in return that a walk sees every row once. A
  cursor is the pair it encodes. Evaluating a JSON filter over the stored text is SQLite's and is
  an argument.
\<close>

section \<open>Statements\<close>

text \<open>A negative \<open>LIMIT\<close> is no limit. Rows that compare equal keep the table's order.\<close>

definition sql_limit :: "int \<Rightarrow> 'r list \<Rightarrow> 'r list" where
  "sql_limit n rows = (if n < 0 then rows else take (nat n) rows)"

definition order_asc :: "('r \<Rightarrow> 'k::linorder) \<Rightarrow> 'r list \<Rightarrow> 'r list" where
  "order_asc k rows = sort_key k rows"

definition order_desc :: "('r \<Rightarrow> 'k::linorder) \<Rightarrow> 'r list \<Rightarrow> 'r list" where
  "order_desc k rows = rev (sort_key k (rev rows))"

definition not_null_or :: "'k option \<Rightarrow> ('k \<Rightarrow> bool) \<Rightarrow> bool" where
  "not_null_or after p = (case after of None \<Rightarrow> True | Some k \<Rightarrow> p k)"

section \<open>Paged reads of datasets\<close>

abbreviation rec_app :: "record_row \<Rightarrow> string" where "rec_app r \<equiv> fst (rec_id r)"
abbreviation rec_dataset :: "record_row \<Rightarrow> string" where "rec_dataset r \<equiv> fst (snd (rec_id r))"
abbreviation rec_name :: "record_row \<Rightarrow> string" where "rec_name r \<equiv> snd (snd (rec_id r))"
abbreviation rev_app :: "revision_row \<Rightarrow> string" where "rev_app v \<equiv> fst (rev_id v)"
abbreviation rev_dataset :: "revision_row \<Rightarrow> string" where "rev_dataset v \<equiv> fst (snd (rev_id v))"
abbreviation rev_name :: "revision_row \<Rightarrow> string" where "rev_name v \<equiv> snd (snd (rev_id v))"

definition record_key :: "record_row \<Rightarrow> time \<times> string" where
  "record_key r = (rec_updated_at r, rec_name r)"

definition list_page ::
  "string \<Rightarrow> string \<Rightarrow> (time \<times> string) option \<Rightarrow> int \<Rightarrow> string option \<Rightarrow> dstore \<Rightarrow> record_row list" where
  "list_page app ds after limit trust st =
     sql_limit limit (order_desc record_key
       (filter (\<lambda>r. rec_app r = app \<and> rec_dataset r = ds \<and> not_null_or after (\<lambda>k. record_key r < k) \<and>
                    trust_predicate trust (rec_trust r)) (records st)))"

definition list_records_view ::
  "('f \<Rightarrow> string \<Rightarrow> bool) \<Rightarrow> string \<Rightarrow> string \<Rightarrow> 'f list \<Rightarrow> (time \<times> string) option \<Rightarrow> int \<Rightarrow> string option \<Rightarrow>
   bool \<Rightarrow> dstore \<Rightarrow> record_row list" where
  "list_records_view holds app ds filters after limit trust include_removed st =
     sql_limit limit (order_desc record_key
       (filter (\<lambda>r. rec_app r = app \<and> rec_dataset r = ds \<and> (include_removed \<or> removed_at r = None) \<and>
                    list_all (\<lambda>f. holds f (rec_data r)) filters \<and> trust_predicate trust (rec_trust r) \<and>
                    not_null_or after (\<lambda>k. record_key r < k)) (records st)))"

definition list_filtered_trust ::
  "('f \<Rightarrow> string \<Rightarrow> bool) \<Rightarrow> string \<Rightarrow> string \<Rightarrow> 'f list \<Rightarrow> (time \<times> string) option \<Rightarrow> int \<Rightarrow> string option \<Rightarrow>
   dstore \<Rightarrow> record_row list" where
  "list_filtered_trust holds app ds filters after limit trust st =
     sql_limit limit (order_desc record_key
       (filter (\<lambda>r. removed_at r = None \<and> rec_app r = app \<and> rec_dataset r = ds \<and>
                    list_all (\<lambda>f. holds f (rec_data r)) filters \<and> trust_predicate trust (rec_trust r) \<and>
                    not_null_or after (\<lambda>k. record_key r < k)) (records st)))"

definition list_filtered ::
  "('f \<Rightarrow> string \<Rightarrow> bool) \<Rightarrow> string \<Rightarrow> string \<Rightarrow> 'f list \<Rightarrow> (time \<times> string) option \<Rightarrow> int \<Rightarrow> dstore \<Rightarrow>
   record_row list" where
  "list_filtered holds app ds filters after limit st = list_filtered_trust holds app ds filters after limit None st"

definition history_key :: "revision_row \<Rightarrow> time \<times> int" where
  "history_key v = (rev_created_at v, revision v)"

definition history_page ::
  "string \<Rightarrow> string \<Rightarrow> string \<Rightarrow> (time \<times> int) option \<Rightarrow> int \<Rightarrow> dstore \<Rightarrow> revision_row list \<times> (time \<times> int) option" where
  "history_page app ds key after limit st =
     (let items = sql_limit limit (order_desc history_key
           (filter (\<lambda>v. rev_app v = app \<and> rev_dataset v = ds \<and> rev_name v = key \<and>
                        not_null_or after (\<lambda>k. history_key v < k)) (record_revisions st)))
      in (items, if int (length items) = limit \<and> items \<noteq> [] then Some (history_key (last items)) else None))"

datatype FeedOrder = FeedDesc | FeedAsc

definition feed_key :: "revision_row \<Rightarrow> time \<times> int" where
  "feed_key v = (rev_created_at v, rowid v)"

definition keyset_predicate :: "FeedOrder \<Rightarrow> (time \<times> int) option \<Rightarrow> revision_row \<Rightarrow> bool" where
  "keyset_predicate order after v =
     (case order of
        FeedDesc \<Rightarrow> not_null_or after (\<lambda>k. feed_key v < k)
      | FeedAsc \<Rightarrow> not_null_or after (\<lambda>k. k < feed_key v))"

definition feed_order_by :: "FeedOrder \<Rightarrow> revision_row list \<Rightarrow> revision_row list" where
  "feed_order_by order rows = (case order of FeedDesc \<Rightarrow> order_desc feed_key rows | FeedAsc \<Rightarrow> order_asc feed_key rows)"

definition mints_cursor :: "FeedOrder \<Rightarrow> int \<Rightarrow> int \<Rightarrow> bool" where
  "mints_cursor order rows limit = (case order of FeedDesc \<Rightarrow> rows = limit | FeedAsc \<Rightarrow> 0 < rows)"

definition feed_order_parse :: "string \<Rightarrow> FeedOrder option" where
  "feed_order_parse raw =
     (if raw = ''desc'' then Some FeedDesc else if raw = ''asc'' then Some FeedAsc else None)"

definition feed_order_as_str :: "FeedOrder \<Rightarrow> string" where
  "feed_order_as_str order = (case order of FeedDesc \<Rightarrow> ''desc'' | FeedAsc \<Rightarrow> ''asc'')"

definition in_feed :: "string \<Rightarrow> string option \<Rightarrow> time option \<Rightarrow> string option \<Rightarrow> revision_row \<Rightarrow> bool" where
  "in_feed app ds since trust v \<longleftrightarrow>
     rev_app v = app \<and> not_null_or ds (\<lambda>d. rev_dataset v = d) \<and> not_null_or since (\<lambda>t. t < rev_created_at v) \<and>
     trust_predicate trust (rev_trust v)"

definition changes_page_ordered ::
  "string \<Rightarrow> string option \<Rightarrow> time option \<Rightarrow> (time \<times> int) option \<Rightarrow> int \<Rightarrow> string option \<Rightarrow> FeedOrder \<Rightarrow> dstore \<Rightarrow>
   revision_row list \<times> (time \<times> int) option" where
  "changes_page_ordered app ds since after limit trust order st =
     (let rows = sql_limit limit (feed_order_by order
           (filter (\<lambda>v. in_feed app ds since trust v \<and> keyset_predicate order after v) (record_revisions st)))
      in (rows, if mints_cursor order (int (length rows)) limit \<and> rows \<noteq> [] then Some (feed_key (last rows)) else None))"

definition changes_page ::
  "string \<Rightarrow> string option \<Rightarrow> time option \<Rightarrow> (time \<times> int) option \<Rightarrow> int \<Rightarrow> string option \<Rightarrow> dstore \<Rightarrow>
   revision_row list \<times> (time \<times> int) option" where
  "changes_page app ds since after limit trust st = changes_page_ordered app ds since after limit trust FeedDesc st"

definition revision_key :: "revision_row \<Rightarrow> string \<times> int" where
  "revision_key v = (rev_name v, revision v)"

definition dataset_revisions_page ::
  "string \<Rightarrow> string \<Rightarrow> (string \<times> int) option \<Rightarrow> int \<Rightarrow> dstore \<Rightarrow> revision_row list" where
  "dataset_revisions_page app ds after limit st =
     sql_limit limit (order_asc revision_key
       (filter (\<lambda>v. rev_app v = app \<and> rev_dataset v = ds \<and> not_null_or after (\<lambda>k. k < revision_key v))
         (record_revisions st)))"

section \<open>The job list\<close>

record JobQuery =
  q_app :: "string option"
  q_status :: "JobStatus option"
  q_schedule_id :: "string option"
  q_trigger_id :: "string option"
  q_target_key :: "string option"
  q_since :: "time option"
  q_until :: "time option"

definition job_query_all :: JobQuery where
  "job_query_all =
     \<lparr>q_app = None, q_status = None, q_schedule_id = None, q_trigger_id = None, q_target_key = None,
      q_since = None, q_until = None\<rparr>"

definition job_query_for_app :: "string \<Rightarrow> JobQuery" where
  "job_query_for_app app = job_query_all\<lparr>q_app := Some app\<rparr>"

definition job_filters :: "JobQuery \<Rightarrow> job_row \<Rightarrow> bool" where
  "job_filters q r \<longleftrightarrow>
     not_null_or (q_app q) (\<lambda>x. j_app r = x) \<and> not_null_or (q_status q) (\<lambda>x. j_status r = x) \<and>
     not_null_or (q_schedule_id q) (\<lambda>x. j_schedule_id r = Some x) \<and>
     not_null_or (q_trigger_id q) (\<lambda>x. j_trigger_id r = Some x) \<and>
     not_null_or (q_target_key q) (\<lambda>x. j_target_key r = Some x) \<and>
     not_null_or (q_since q) (\<lambda>t. t \<le> j_created_at r) \<and> not_null_or (q_until q) (\<lambda>t. j_created_at r < t)"

definition job_key :: "job_row \<Rightarrow> time \<times> uuid" where
  "job_key r = (j_created_at r, j_id r)"

definition job_query_rows :: "JobQuery \<Rightarrow> (time \<times> uuid) option \<Rightarrow> int option \<Rightarrow> store \<Rightarrow> job_row list" where
  "job_query_rows q after order_and_limit st =
     (let rows = filter (\<lambda>r. job_filters q r \<and> not_null_or after (\<lambda>k. job_key r < k)) (jobs st)
      in case order_and_limit of
           None \<Rightarrow> rows
         | Some limit \<Rightarrow>
             sql_limit limit (if after \<noteq> None then order_desc job_key rows else order_desc j_created_at rows))"

definition job_list :: "JobQuery \<Rightarrow> int \<Rightarrow> store \<Rightarrow> job_row list" where
  "job_list q limit st = job_query_rows q None (Some limit) st"

definition job_list_page :: "JobQuery \<Rightarrow> (time \<times> uuid) option \<Rightarrow> int \<Rightarrow> store \<Rightarrow> job_row list" where
  "job_list_page q after limit st = job_query_rows q after (Some limit) st"

definition status_counts_filtered :: "JobQuery \<Rightarrow> store \<Rightarrow> (string \<times> nat) list" where
  "status_counts_filtered q st =
     (let statuses = map (\<lambda>r. job_status_as_str (j_status r)) (job_query_rows q None None st)
      in map (\<lambda>s. (s, count_list statuses s)) (sorted_list_of_set (set statuses)))"

section \<open>Cursors and walks\<close>

definition keyset_cursor :: "'r list \<Rightarrow> int \<Rightarrow> ('r \<Rightarrow> 'k) \<Rightarrow> 'k option" where
  "keyset_cursor items limit encode =
     (if int (length items) = limit \<and> items \<noteq> [] then Some (encode (last items)) else None)"

text \<open>
  Following the cursors from page to page; \<open>None\<close> when the pages allowed run out first.
\<close>

fun walk :: "nat \<Rightarrow> ('k option \<Rightarrow> 'r list \<times> 'k option) \<Rightarrow> 'k option \<Rightarrow> 'r list option" where
  "walk 0 page after = None"
| "walk (Suc n) page after =
     (case page after of
        (items, None) \<Rightarrow> Some items
      | (items, Some k) \<Rightarrow> map_option (\<lambda>rest. items @ rest) (walk n page (Some k)))"

definition DELETE_EXPORT_PAGE :: int where
  "DELETE_EXPORT_PAGE = 500"

text \<open>
  The export before a deletion: the records, then the revisions, each by its own loop, which
  stops at an empty page and after a page that is not full.
\<close>

definition export_records :: "nat \<Rightarrow> string \<Rightarrow> string \<Rightarrow> dstore \<Rightarrow> record_row list option" where
  "export_records fuel app ds st =
     walk fuel
       (\<lambda>after. let page = list_records_view (\<lambda>f _. f) app ds [] after DELETE_EXPORT_PAGE None True st
                in (page, if page \<noteq> [] \<and> int (length page) = DELETE_EXPORT_PAGE
                          then Some (record_key (last page)) else None)) None"

definition export_revisions :: "nat \<Rightarrow> string \<Rightarrow> string \<Rightarrow> dstore \<Rightarrow> revision_row list option" where
  "export_revisions fuel app ds st =
     walk fuel
       (\<lambda>after. let page = dataset_revisions_page app ds after DELETE_EXPORT_PAGE st
                in (page, if page \<noteq> [] \<and> int (length page) = DELETE_EXPORT_PAGE
                          then Some (revision_key (last page)) else None)) None"

section \<open>The interface of a paged read\<close>

locale keyset =
  fixes ok :: "'t \<Rightarrow> bool" and listing :: "'t \<Rightarrow> 'r list" and page :: "'t \<Rightarrow> 'k option \<Rightarrow> int \<Rightarrow> 'r list"
    and key :: "'r \<Rightarrow> 'k" and before :: "'k \<Rightarrow> 'k \<Rightarrow> bool"
  assumes before_irrefl: "\<not> before k k"
    and before_trans: "before a b \<Longrightarrow> before b c \<Longrightarrow> before a c"
    and ordered: "ok t \<Longrightarrow> sorted_wrt (\<lambda>x y. before (key x) (key y)) (listing t)"
    and first_page: "ok t \<Longrightarrow> 0 \<le> n \<Longrightarrow> page t None n = take (nat n) (listing t)"
    and next_page: "ok t \<Longrightarrow> 0 \<le> n \<Longrightarrow>
      page t (Some k) n = take (nat n) (filter (\<lambda>r. before k (key r)) (listing t))"
begin

lemma rows_after:
  assumes "ok t" and "listing t = xs @ x # ys"
  shows "filter (\<lambda>r. before (key x) (key r)) (listing t) = ys"
proof -
  have s: "sorted_wrt (\<lambda>x y. before (key x) (key y)) (xs @ x # ys)" using ordered [OF assms(1)] assms(2) by simp
  have "\<not> before (key x) (key r)" if "r \<in> set xs" for r
    using s that before_trans [of "key x" "key r" "key x"] before_irrefl by (auto simp: sorted_wrt_append)
  moreover have "before (key x) (key r)" if "r \<in> set ys" for r using s that by (auto simp: sorted_wrt_append)
  ultimately show ?thesis by (simp add: assms(2) before_irrefl)
qed

text \<open>A page after what was read is the start of what is left.\<close>

lemma page_rest:
  assumes "ok t" and "0 \<le> n" and "listing t = xs @ ys"
  shows "page t (if xs = [] then None else Some (key (last xs))) n = take (nat n) ys"
proof (cases xs rule: rev_cases)
  case Nil
  then show ?thesis using first_page [OF assms(1,2)] assms(3) by simp
next
  case (snoc zs z)
  have "filter (\<lambda>r. before (key z) (key r)) (listing t) = ys"
    using snoc assms(3) by (intro rows_after [OF assms(1)]) simp
  with next_page [OF assms(1,2), of "key z"] have "page t (Some (key z)) n = take (nat n) ys" by (simp only:)
  then show ?thesis using snoc by simp
qed

text \<open>
  Following the cursors reads what is left, whether a cursor is minted from full pages only or
  from every page with a row.
\<close>

lemma walk_rest:
  assumes "ok t" and "0 < n" and "listing t = xs @ ys" and "length ys < m"
    and full: "\<And>items. items \<noteq> [] \<Longrightarrow> int (length items) = n \<Longrightarrow> cursor items = Some (key (last items))"
    and some: "\<And>items k. cursor items = Some k \<Longrightarrow> items \<noteq> [] \<and> k = key (last items)"
  shows "walk m (\<lambda>after. let items = page t after n in (items, cursor items))
           (if xs = [] then None else Some (key (last xs))) = Some ys"
  using assms(3,4)
proof (induction m arbitrary: xs ys)
  case (Suc m)
  let ?items = "take (nat n) ys"
  have p: "page t (if xs = [] then None else Some (key (last xs))) n = ?items"
    using page_rest [OF assms(1) _ Suc.prems(1)] assms(2) by simp
  show ?case
  proof (cases "cursor ?items")
    case None
    have "?items = [] \<or> int (length ?items) \<noteq> n" using full [of ?items] None by auto
    then have "?items = ys" using assms(2) by (auto simp: min_def split: if_splits)
    with None p show ?thesis by simp
  next
    case (Some k)
    from some [OF this] have ne: "?items \<noteq> []" and k: "k = key (last ?items)" by auto
    have "listing t = (xs @ ?items) @ drop (nat n) ys" using Suc.prems(1) by simp
    moreover have "length (drop (nat n) ys) < m" using Suc.prems(2) ne assms(2) by (cases ys) auto
    ultimately have "walk m (\<lambda>after. let items = page t after n in (items, cursor items))
        (if xs @ ?items = [] then None else Some (key (last (xs @ ?items)))) = Some (drop (nat n) ys)"
      by (rule Suc.IH)
    moreover have "last (xs @ ?items) = last ?items" using ne by simp
    ultimately show ?thesis using p Some k ne by (simp add: Let_def)
  qed
qed simp

lemma walk_all:
  assumes "ok t" and "0 < n" and "length (listing t) < m"
    and "\<And>items. items \<noteq> [] \<Longrightarrow> int (length items) = n \<Longrightarrow> cursor items = Some (key (last items))"
    and "\<And>items k. cursor items = Some k \<Longrightarrow> items \<noteq> [] \<and> k = key (last items)"
  shows "walk m (\<lambda>after. let items = page t after n in (items, cursor items)) None = Some (listing t)"
proof -
  have "walk m (\<lambda>after. let items = page t after n in (items, cursor items))
      (if ([] :: 'r list) = [] then None else Some (key (last []))) = Some (listing t)"
    by (rule walk_rest [OF assms(1,2) _ assms(3-5)]) simp_all
  then show ?thesis by simp
qed

end

section \<open>The reads implement it\<close>

lemma sql_limit_take: "0 \<le> n \<Longrightarrow> sql_limit n rows = take (nat n) rows"
  by (simp add: sql_limit_def)

lemma order_asc_filter: "order_asc k (filter P rows) = filter P (order_asc k rows)"
  by (simp add: order_asc_def filter_sort)

lemma order_desc_filter: "order_desc k (filter P rows) = filter P (order_desc k rows)"
  by (simp add: order_desc_def rev_filter flip: filter_sort)

lemma order_asc_strict:
  assumes "distinct (map k rows)"
  shows "sorted_wrt (\<lambda>x y. k x < k y) (order_asc k rows)"
proof -
  have "mset (map k (sort_key k rows)) = mset (map k rows)" by simp
  then have "distinct (map k (sort_key k rows))" using assms mset_eq_imp_distinct_iff by blast
  then have "sorted_wrt (<) (map k (sort_key k rows))" by (simp add: strict_sorted_iff)
  then show ?thesis by (simp add: order_asc_def sorted_wrt_map)
qed

lemma order_desc_strict:
  assumes "distinct (map k rows)"
  shows "sorted_wrt (\<lambda>x y. k y < k x) (order_desc k rows)"
  using order_asc_strict [of k "rev rows"] assms by (simp add: order_desc_def order_asc_def sorted_wrt_rev rev_map [symmetric])

lemma distinct_key_filter:
  assumes "distinct (map f rows)" and "\<And>x y. P x \<Longrightarrow> P y \<Longrightarrow> k x = k y \<Longrightarrow> f x = f y"
  shows "distinct (map k (filter P rows))"
  using assms(1)
proof (induction rows)
  case (Cons r rows)
  have "k r \<notin> k ` set (filter P rows)" if "P r"
  proof
    assume "k r \<in> k ` set (filter P rows)"
    then obtain x where "x \<in> set rows" "P x" "k r = k x" by auto
    then have "f r = f x" using assms(2) that by blast
    with Cons.prems \<open>x \<in> set rows\<close> show False by auto
  qed
  with Cons show ?case by auto
qed simp

lemma keyset_descI:
  fixes k :: "'r \<Rightarrow> 'k::linorder"
  assumes "\<And>t. ok t \<Longrightarrow> distinct (map k (filter (P t) (rows t)))"
    and "\<And>t a n. page t a n = sql_limit n (order_desc k (filter (\<lambda>r. P t r \<and> not_null_or a (\<lambda>c. k r < c)) (rows t)))"
  shows "keyset ok (\<lambda>t. order_desc k (filter (P t) (rows t))) page k (\<lambda>a b. b < a)"
proof unfold_locales
  fix t
  assume "ok t"
  then show "sorted_wrt (\<lambda>x y. k y < k x) (order_desc k (filter (P t) (rows t)))"
    by (intro order_desc_strict assms(1))
next
  fix t n c
  assume n: "0 \<le> (n::int)"
  then show "page t None n = take (nat n) (order_desc k (filter (P t) (rows t)))"
    by (simp add: assms(2) sql_limit_take not_null_or_def)
  show "page t (Some c) n = take (nat n) (filter (\<lambda>r. k r < c) (order_desc k (filter (P t) (rows t))))"
    using n by (simp add: assms(2) sql_limit_take not_null_or_def order_desc_filter conj_commute)
qed auto

lemma keyset_ascI:
  fixes k :: "'r \<Rightarrow> 'k::linorder"
  assumes "\<And>t. ok t \<Longrightarrow> distinct (map k (filter (P t) (rows t)))"
    and "\<And>t a n. page t a n = sql_limit n (order_asc k (filter (\<lambda>r. P t r \<and> not_null_or a (\<lambda>c. c < k r)) (rows t)))"
  shows "keyset ok (\<lambda>t. order_asc k (filter (P t) (rows t))) page k (<)"
proof unfold_locales
  fix t
  assume "ok t"
  then show "sorted_wrt (\<lambda>x y. k x < k y) (order_asc k (filter (P t) (rows t)))"
    by (intro order_asc_strict assms(1))
next
  fix t n c
  assume n: "0 \<le> (n::int)"
  then show "page t None n = take (nat n) (order_asc k (filter (P t) (rows t)))"
    by (simp add: assms(2) sql_limit_take not_null_or_def)
  show "page t (Some c) n = take (nat n) (filter (\<lambda>r. c < k r) (order_asc k (filter (P t) (rows t))))"
    using n by (simp add: assms(2) sql_limit_take not_null_or_def order_asc_filter conj_commute)
qed auto

lemma dataset_okD:
  assumes "dataset_ok st"
  shows "distinct (map rec_id (records st))"
    and "distinct (map (\<lambda>v. (rev_id v, revision v)) (record_revisions st))"
    and "distinct (map rowid (record_revisions st))"
  using assms strict_sorted_iff by (auto simp: dataset_ok_def)

definition in_view ::
  "('f \<Rightarrow> string \<Rightarrow> bool) \<Rightarrow> string \<Rightarrow> string \<Rightarrow> 'f list \<Rightarrow> string option \<Rightarrow> bool \<Rightarrow> record_row \<Rightarrow> bool" where
  "in_view holds app ds filters trust include_removed r \<longleftrightarrow>
     rec_app r = app \<and> rec_dataset r = ds \<and> (include_removed \<or> removed_at r = None) \<and>
     list_all (\<lambda>f. holds f (rec_data r)) filters \<and> trust_predicate trust (rec_trust r)"

interpretation view: keyset dataset_ok
    "\<lambda>st. order_desc record_key (filter (in_view holds app ds filters trust include_removed) (records st))"
    "\<lambda>st after n. list_records_view holds app ds filters after n trust include_removed st" record_key "\<lambda>a b. b < a"
  for holds app ds filters trust include_removed
proof (rule keyset_descI)
  show "distinct (map record_key (filter (in_view holds app ds filters trust include_removed) (records st)))"
    if "dataset_ok st" for st
    using dataset_okD(1) [OF that]
    by (rule distinct_key_filter) (auto simp: in_view_def record_key_def prod_eq_iff)
qed (simp add: list_records_view_def in_view_def conj_ac)

interpretation history: keyset dataset_ok
    "\<lambda>st. order_desc history_key (filter (\<lambda>v. rev_id v = (app, ds, k)) (record_revisions st))"
    "\<lambda>st after n. fst (history_page app ds k after n st)" history_key "\<lambda>a b. b < a"
  for app ds k
proof (rule keyset_descI)
  show "distinct (map history_key (filter (\<lambda>v. rev_id v = (app, ds, k)) (record_revisions st)))"
    if "dataset_ok st" for st
    using dataset_okD(2) [OF that] by (rule distinct_key_filter) (auto simp: history_key_def)
qed (simp add: history_page_def Let_def prod_eq_iff conj_ac)

interpretation feed_desc: keyset dataset_ok
    "\<lambda>st. order_desc feed_key (filter (in_feed app ds since trust) (record_revisions st))"
    "\<lambda>st after n. fst (changes_page_ordered app ds since after n trust FeedDesc st)" feed_key "\<lambda>a b. b < a"
  for app ds since trust
proof (rule keyset_descI)
  show "distinct (map feed_key (filter (in_feed app ds since trust) (record_revisions st)))"
    if "dataset_ok st" for st
    using dataset_okD(3) [OF that] by (rule distinct_key_filter) (auto simp: feed_key_def)
qed (simp add: changes_page_ordered_def keyset_predicate_def feed_order_by_def Let_def)

interpretation feed_asc: keyset dataset_ok
    "\<lambda>st. order_asc feed_key (filter (in_feed app ds since trust) (record_revisions st))"
    "\<lambda>st after n. fst (changes_page_ordered app ds since after n trust FeedAsc st)" feed_key "(<)"
  for app ds since trust
proof (rule keyset_ascI)
  show "distinct (map feed_key (filter (in_feed app ds since trust) (record_revisions st)))"
    if "dataset_ok st" for st
    using dataset_okD(3) [OF that] by (rule distinct_key_filter) (auto simp: feed_key_def)
qed (simp add: changes_page_ordered_def keyset_predicate_def feed_order_by_def Let_def)

interpretation revisions: keyset dataset_ok
    "\<lambda>st. order_asc revision_key (filter (\<lambda>v. rev_app v = app \<and> rev_dataset v = ds) (record_revisions st))"
    "\<lambda>st after n. dataset_revisions_page app ds after n st" revision_key "(<)"
  for app ds
proof (rule keyset_ascI)
  show "distinct (map revision_key (filter (\<lambda>v. rev_app v = app \<and> rev_dataset v = ds) (record_revisions st)))"
    if "dataset_ok st" for st
    using dataset_okD(2) [OF that] by (rule distinct_key_filter) (auto simp: revision_key_def prod_eq_iff)
qed (simp add: dataset_revisions_page_def)

text \<open>
  The job list orders its first page by the creation time alone, so it implements the interface
  only where no two listed jobs share one.
\<close>

definition untied :: "JobQuery \<Rightarrow> store \<Rightarrow> bool" where
  "untied q st \<longleftrightarrow> distinct (map j_created_at (filter (job_filters q) (jobs st)))"

lemma order_desc_finer:
  fixes k :: "'r \<Rightarrow> 'k::linorder" and c :: "'r \<Rightarrow> 'c::linorder"
  assumes "distinct (map c rows)" and "\<And>x y. c x < c y \<Longrightarrow> k x < k y"
  shows "order_desc c rows = order_desc k rows"
proof -
  have "sorted_wrt (\<lambda>x y. k x < k y) (order_asc c (rev rows))"
    using order_asc_strict [of c "rev rows"] assms
    by (intro sorted_wrt_mono_rel [of _ "\<lambda>x y. c x < c y" "\<lambda>x y. k x < k y"]) (auto simp: rev_map [symmetric])
  then have "sorted (map k (order_asc c (rev rows)))"
    by (simp add: sorted_wrt_map) (erule sorted_wrt_mono_rel [rotated], simp)
  moreover have "distinct (map k (order_asc c (rev rows)))"
    using \<open>sorted_wrt (\<lambda>x y. k x < k y) (order_asc c (rev rows))\<close> strict_sorted_iff [of "map k (order_asc c (rev rows))"]
    by (simp add: sorted_wrt_map)
  ultimately have "sort_key k (rev rows) = order_asc c (rev rows)"
    by (intro sort_key_inj_key_eq) (simp_all add: order_asc_def distinct_map)
  then show ?thesis by (simp add: order_desc_def order_asc_def)
qed

interpretation job_pages: keyset "untied q"
    "\<lambda>st. order_desc job_key (filter (job_filters q) (jobs st))"
    "\<lambda>st after n. job_list_page q after n st" job_key "\<lambda>a b. b < a"
  for q
proof unfold_locales
  fix st
  assume u: "untied q st"
  then have "distinct (map job_key (filter (job_filters q) (jobs st)))"
    unfolding untied_def job_key_def by (auto simp: distinct_map inj_on_def)
  then show "sorted_wrt (\<lambda>x y. job_key y < job_key x) (order_desc job_key (filter (job_filters q) (jobs st)))"
    by (rule order_desc_strict)
next
  fix st n c
  assume u: "untied q st" and n: "0 \<le> (n::int)"
  have "order_desc j_created_at (filter (job_filters q) (jobs st)) = order_desc job_key (filter (job_filters q) (jobs st))"
    using u unfolding untied_def by (rule order_desc_finer) (simp add: job_key_def)
  then show "job_list_page q None n st = take (nat n) (order_desc job_key (filter (job_filters q) (jobs st)))"
    using n by (simp add: job_list_page_def job_query_rows_def not_null_or_def sql_limit_take)
  show "job_list_page q (Some c) n st =
      take (nat n) (filter (\<lambda>r. job_key r < c) (order_desc job_key (filter (job_filters q) (jobs st))))"
    using n by (simp add: job_list_page_def job_query_rows_def not_null_or_def sql_limit_take order_desc_filter conj_commute)
qed auto

section \<open>Walks\<close>

lemma length_order_filter:
  "length rows < m \<Longrightarrow> length (order_desc k (filter P rows)) < m"
  "length rows < m \<Longrightarrow> length (order_asc k (filter P rows)) < m"
  by (simp_all add: order_desc_def order_asc_def le_less_trans [OF length_filter_le])

lemma keyset_cursor_full:
  "items \<noteq> [] \<Longrightarrow> int (length items) = n \<Longrightarrow> keyset_cursor items n key = Some (key (last items))"
  "keyset_cursor items n key = Some k \<Longrightarrow> items \<noteq> [] \<and> k = key (last items)"
  by (auto simp: keyset_cursor_def split: if_splits)

lemma view_walk:
  "dataset_ok st \<Longrightarrow> 0 < n \<Longrightarrow> length (records st) < m \<Longrightarrow>
   walk m (\<lambda>after. let items = list_records_view holds app ds filters after n trust inc st
                  in (items, keyset_cursor items n record_key)) None =
     Some (order_desc record_key (filter (in_view holds app ds filters trust inc) (records st)))"
  by (rule view.walk_all) (auto intro: length_order_filter keyset_cursor_full dest: keyset_cursor_full(2))

lemma history_walk:
  assumes "dataset_ok st" and "0 < n" and "length (record_revisions st) < m"
  shows "walk m (\<lambda>after. history_page app ds k after n st) None =
     Some (order_desc history_key (filter (\<lambda>v. rev_id v = (app, ds, k)) (record_revisions st)))"
proof -
  have "(\<lambda>after. history_page app ds k after n st) =
      (\<lambda>after. let items = fst (history_page app ds k after n st) in (items, keyset_cursor items n history_key))"
    by (simp add: history_page_def keyset_cursor_def Let_def)
  moreover have "walk m (\<lambda>after. let items = fst (history_page app ds k after n st) in (items, keyset_cursor items n history_key)) None =
      Some (order_desc history_key (filter (\<lambda>v. rev_id v = (app, ds, k)) (record_revisions st)))"
    by (rule history.walk_all [OF assms(1,2) length_order_filter(1) [OF assms(3)]])
      (auto intro: keyset_cursor_full dest: keyset_cursor_full(2))
  ultimately show ?thesis by (simp only:)
qed

lemma changes_walk:
  assumes "dataset_ok st" and "0 < n" and "length (record_revisions st) < m"
  shows "walk m (\<lambda>after. changes_page_ordered app ds since after n trust order st) None =
     Some (feed_order_by order (filter (in_feed app ds since trust) (record_revisions st)))"
proof -
  let ?page = "\<lambda>order after. fst (changes_page_ordered app ds since after n trust order st)"
  define drained where "drained rows = (if rows \<noteq> [] then Some (feed_key (last rows)) else None)" for rows
  have "(\<lambda>after. changes_page_ordered app ds since after n trust FeedDesc st) =
      (\<lambda>after. let items = ?page FeedDesc after in (items, keyset_cursor items n feed_key))"
    by (simp add: changes_page_ordered_def keyset_cursor_def mints_cursor_def Let_def)
  moreover have "walk m (\<lambda>after. let items = ?page FeedDesc after in (items, keyset_cursor items n feed_key)) None =
      Some (order_desc feed_key (filter (in_feed app ds since trust) (record_revisions st)))"
    by (rule feed_desc.walk_all [OF assms(1,2) length_order_filter(1) [OF assms(3)]])
      (auto intro: keyset_cursor_full dest: keyset_cursor_full(2))
  moreover have "(\<lambda>after. changes_page_ordered app ds since after n trust FeedAsc st) =
      (\<lambda>after. let items = ?page FeedAsc after in (items, drained items))"
    by (simp add: changes_page_ordered_def drained_def mints_cursor_def Let_def)
  moreover have "walk m (\<lambda>after. let items = ?page FeedAsc after in (items, drained items)) None =
      Some (order_asc feed_key (filter (in_feed app ds since trust) (record_revisions st)))"
    by (rule feed_asc.walk_all [OF assms(1,2) length_order_filter(2) [OF assms(3)]])
      (auto simp: drained_def split: if_splits)
  ultimately show ?thesis by (cases order) (simp_all only: feed_order_by_def FeedOrder.case)
qed

lemma export_cursor:
  "(if items \<noteq> [] \<and> int (length items) = n then Some (key (last items)) else None) = keyset_cursor items n key"
  by (auto simp: keyset_cursor_def)

lemma export_records_walk:
  assumes "dataset_ok st" and "length (records st) < m"
  shows "export_records m app ds st =
     Some (order_desc record_key (filter (\<lambda>r. rec_app r = app \<and> rec_dataset r = ds) (records st)))"
proof -
  have "in_view (\<lambda>f _. f) app ds [] None True = (\<lambda>r. rec_app r = app \<and> rec_dataset r = ds)"
    by (auto simp: in_view_def trust_predicate_def)
  moreover have "0 < DELETE_EXPORT_PAGE" by (simp add: DELETE_EXPORT_PAGE_def)
  ultimately show ?thesis
    using view_walk [of st DELETE_EXPORT_PAGE m "\<lambda>f _. f" app ds "[]" None True] assms
    unfolding export_records_def export_cursor by simp
qed

lemma export_revisions_walk:
  assumes "dataset_ok st" and "length (record_revisions st) < m"
  shows "export_revisions m app ds st =
     Some (order_asc revision_key (filter (\<lambda>v. rev_app v = app \<and> rev_dataset v = ds) (record_revisions st)))"
  unfolding export_revisions_def export_cursor
  by (rule revisions.walk_all [OF assms(1) _ length_order_filter(2) [OF assms(2)]])
    (auto intro: keyset_cursor_full dest: keyset_cursor_full(2), simp add: DELETE_EXPORT_PAGE_def)


text \<open>
  The forward drain can lose a revision. A single upsert takes its timestamp before it waits
  for the write lock, so a writer that stamped earlier may commit later. A consumer that drained
  the feed in between stands behind the later stamp, and its resumed drain never returns the
  revision that was committed after it looked, although the revision is in the feed.
\<close>

theorem drain_misses_late_commit:
  assumes "t1 < t2" and "a \<noteq> b" and "0 < n"
  shows "\<exists>st1 st2 cursor.
     upsert_stamped lib (app, ds, b) v t2 None None \<lparr>records = [], record_revisions = []\<rparr> = Some (st1, New) \<and>
     map rev_name (fst (changes_page_ordered app (Some ds) None None n None FeedAsc st1)) = [b] \<and>
     snd (changes_page_ordered app (Some ds) None None n None FeedAsc st1) = Some cursor \<and>
     upsert_stamped lib (app, ds, a) w t1 None None st1 = Some (st2, New) \<and>
     changes_page_ordered app (Some ds) None (Some cursor) n None FeedAsc st2 = ([], None) \<and>
     (\<exists>x\<in>set (record_revisions st2). rev_name x = a \<and> in_feed app (Some ds) None None x)"
proof -
  obtain n' where n: "nat n = Suc n'" using assms(3) by (cases "nat n") auto
  obtain st1 where 1: "upsert_stamped lib (app, ds, b) v t2 None None \<lparr>records = [], record_revisions = []\<rparr> = Some (st1, New)"
    "map (\<lambda>r. rec_id r) (records st1) = [(app, ds, b)]"
    "\<exists>x. record_revisions st1 = [x] \<and> rev_id x = (app, ds, b) \<and> feed_key x = (t2, 1) \<and> rev_trust x = None"
    by (simp add: upsert_stamped_def upsert_in_tx_def get_record_def add_revision_def insert_revision_def
        next_rowid_def new_record_def feed_key_def)
  then obtain x where x: "record_revisions st1 = [x]" "rev_id x = (app, ds, b)" "feed_key x = (t2, 1)" "rev_trust x = None"
    by blast
  have rx: "rowid x = 1" "rev_created_at x = t2" using x(3) by (simp_all add: feed_key_def)
  obtain st2 where 2: "upsert_stamped lib (app, ds, a) w t1 None None st1 = Some (st2, New)"
    "\<exists>y. record_revisions st2 = [x, y] \<and> rev_id y = (app, ds, a) \<and> rev_created_at y = t1 \<and> rev_trust y = None"
    using 1(2) x assms(2)
    by (cases "records st1")
      (auto simp: upsert_stamped_def upsert_in_tx_def get_record_def add_revision_def insert_revision_def)
  then obtain y where y: "record_revisions st2 = [x, y]" "rev_id y = (app, ds, a)" "rev_created_at y = t1" "rev_trust y = None"
    by blast
  have "changes_page_ordered app (Some ds) None None n None FeedAsc st1 = ([x], Some (t2, 1))"
    using x n assms(3)
    by (simp add: changes_page_ordered_def in_feed_def not_null_or_def trust_predicate_def keyset_predicate_def
        feed_order_by_def order_asc_def sql_limit_def mints_cursor_def)
  moreover have "changes_page_ordered app (Some ds) None (Some (t2, 1)) n None FeedAsc st2 = ([], None)"
    using x y assms(1) rx
    by (simp add: changes_page_ordered_def in_feed_def not_null_or_def trust_predicate_def keyset_predicate_def
        feed_order_by_def order_asc_def sql_limit_def mints_cursor_def feed_key_def)
  moreover have "in_feed app (Some ds) None None y"
    using y by (simp add: in_feed_def not_null_or_def trust_predicate_def)
  ultimately show ?thesis using 1(1) 2(1) x y by (intro exI [of _ st1] exI [of _ st2] exI [of _ "(t2, 1)"]) simp
qed

text \<open>
  The job list can skip a job. Its first page is ordered by the creation time alone and the
  later pages by creation time and id: when two jobs share a creation time and the first page ends
  at the one with the smaller id, the next page starts below that id, and the other job is on no
  page.
\<close>

theorem job_page_boundary_skips:
  assumes "i < i'" and "jobs st = [r\<lparr>j_id := i\<rparr>, r\<lparr>j_id := i'\<rparr>]"
  shows "walk 2 (\<lambda>after. let items = job_list_page job_query_all after 1 st
                        in (items, keyset_cursor items 1 job_key)) None = Some [r\<lparr>j_id := i\<rparr>] \<and>
         r\<lparr>j_id := i'\<rparr> \<notin> {r\<lparr>j_id := i\<rparr>} \<and>
         job_list_page job_query_all None 2 st = jobs st"
proof -
  have all: "job_filters job_query_all x" for x by (simp add: job_filters_def job_query_all_def not_null_or_def)
  have "job_list_page job_query_all None n st = sql_limit n (jobs st)" for n
    using assms(2) by (simp add: job_list_page_def job_query_rows_def all not_null_or_def order_desc_def)
  moreover have "job_list_page job_query_all (Some (job_key (r\<lparr>j_id := i\<rparr>))) 1 st = []"
    using assms by (simp add: job_list_page_def job_query_rows_def all not_null_or_def order_desc_def sql_limit_def job_key_def)
  ultimately show ?thesis
    using assms by (simp add: numeral_2_eq_2 sql_limit_def keyset_cursor_def Let_def) (metis job_row.select_convs(1) job_row.surjective job_row.update_convs(1) order_less_irrefl)
qed

section \<open>Concrete walks\<close>


theorem drain_misses_late_commit_witness:
  "\<exists>st1 st2 cursor.
     upsert_stamped demo_codec (''app'', ''ds'', ''b'') JNull 2 None None \<lparr>records = [], record_revisions = []\<rparr> = Some (st1, New) \<and>
     upsert_stamped demo_codec (''app'', ''ds'', ''a'') JNull 1 None None st1 = Some (st2, New) \<and>
     changes_page_ordered ''app'' (Some ''ds'') None (Some cursor) 100 None FeedAsc st2 = ([], None)"
  using drain_misses_late_commit [of 1 2 "''a''" "''b''" 100 demo_codec "''app''" "''ds''" JNull JNull] by auto

theorem job_page_boundary_skips_witness:
  "\<exists>st. length (jobs st) = 2 \<and>
     map_option length (walk 2 (\<lambda>after. let items = job_list_page job_query_all after 1 st
                                       in (items, keyset_cursor items 1 job_key)) None) = Some 1"
proof -
  let ?st = "empty_store\<lparr>jobs := [(jobs demo_s1 ! 0)\<lparr>j_id := [1]\<rparr>, (jobs demo_s1 ! 0)\<lparr>j_id := [2]\<rparr>]\<rparr>"
  have "([1] :: uuid) < [2]" by simp
  from job_page_boundary_skips [OF this, of ?st] show ?thesis by (intro exI [of _ ?st]) simp
qed

end
