(* ===== verification/Transactions.thy ===== *)
theory Transactions
  imports Queue_Claims Text
begin

text \<open>
  The approval ledger between a dry-run browser flow and the one irreversible action it prepared:
  \<open>crates/core/src/transactions.rs\<close> (states, decisions, statements),
  \<open>crates/core/src/engine.rs\<close> (the evidence digest and the commit guard),
  \<open>crates/server/src/routes/transactions.rs\<close> (the approve and reject doors) and
  \<open>crates/apps/transact/src/lib.rs\<close> (staging and committing, over
  \<open>crates/engine-browser/src/lib.rs\<close>). What the page does is an argument: what the probe sees, which
  steps succeed, whether the submit action reached the page. SHA-256 is an argument, as is the
  parser of a job id.
\<close>

section \<open>States and rows\<close>

datatype TransactionState = TxPending | TxApproved | TxSubmitted | TxRejected | TxExpired

fun tx_state_as_str :: "TransactionState \<Rightarrow> string" where
  "tx_state_as_str TxPending = ''pending''"
| "tx_state_as_str TxApproved = ''approved''"
| "tx_state_as_str TxSubmitted = ''submitted''"
| "tx_state_as_str TxRejected = ''rejected''"
| "tx_state_as_str TxExpired = ''expired''"

definition tx_state_parse :: "string \<Rightarrow> TransactionState option" where
  "tx_state_parse s =
     (if s = ''pending'' then Some TxPending
      else if s = ''approved'' then Some TxApproved
      else if s = ''submitted'' then Some TxSubmitted
      else if s = ''rejected'' then Some TxRejected
      else if s = ''expired'' then Some TxExpired
      else None)"

fun tx_is_terminal :: "TransactionState \<Rightarrow> bool" where
  "tx_is_terminal TxSubmitted = True"
| "tx_is_terminal TxRejected = True"
| "tx_is_terminal TxExpired = True"
| "tx_is_terminal _ = False"

record Transaction =
  tx_id :: string
  tx_key :: string
  tx_app :: string
  tx_job_id :: "string option"
  tx_profile :: "string option"
  tx_state :: TransactionState
  tx_evidence_sha :: string
  tx_approved_by :: "string option"
  tx_approved_at :: "time option"
  tx_submitted_at :: "time option"
  tx_receipt_path :: "string option"
  tx_created_at :: time
  tx_updated_at :: time

record NewTransaction =
  nt_key :: string
  nt_app :: string
  nt_job_id :: "string option"
  nt_profile :: "string option"
  nt_evidence_sha :: string

record TransactConfig =
  tc_allow_live :: bool
  tc_approval_ttl_secs :: nat
  tc_max_submits :: int

definition transact_config_default :: TransactConfig where
  "transact_config_default = \<lparr>tc_allow_live = False, tc_approval_ttl_secs = 24 * 60 * 60, tc_max_submits = 10\<rparr>"

definition approval_deadline :: "TransactConfig \<Rightarrow> time \<Rightarrow> time option" where
  "approval_deadline cfg created =
     (if 0 < tc_approval_ttl_secs cfg then Some (created + int (tc_approval_ttl_secs cfg) * micros_per_sec) else None)"

definition daily_cap :: "TransactConfig \<Rightarrow> int option" where
  "daily_cap cfg = (if 0 < tc_max_submits cfg then Some (tc_max_submits cfg) else None)"

definition CAP_WINDOW_HOURS :: int where
  "CAP_WINDOW_HOURS = 24"

section \<open>Decisions\<close>

datatype ApprovalRefusal =
    LiveDisabled
  | NotPending TransactionState
  | DeadlinePassed
  | EvidenceMismatch string string
  | DailyCapReached int int

definition approve_decision ::
  "bool \<Rightarrow> TransactionState \<Rightarrow> time option \<Rightarrow> time \<Rightarrow> string \<Rightarrow> string option \<Rightarrow> int \<Rightarrow> int option \<Rightarrow>
   ApprovalRefusal option" where
  "approve_decision allow_live state expires_at now row_sha quoted submitted_today cap =
     (if \<not> allow_live then Some LiveDisabled
      else if state \<noteq> TxPending then Some (NotPending state)
      else if (case expires_at of Some deadline \<Rightarrow> deadline \<le> now | None \<Rightarrow> False) then Some DeadlinePassed
      else case quoted of
        Some q \<Rightarrow>
          if q \<noteq> row_sha then Some (EvidenceMismatch row_sha q)
          else (case cap of
                  Some c \<Rightarrow> if 0 < c \<and> c \<le> submitted_today then Some (DailyCapReached c submitted_today) else None
                | None \<Rightarrow> None)
      | None \<Rightarrow>
          (case cap of
             Some c \<Rightarrow> if 0 < c \<and> c \<le> submitted_today then Some (DailyCapReached c submitted_today) else None
           | None \<Rightarrow> None))"

definition reject_decision :: "TransactionState \<Rightarrow> ApprovalRefusal option" where
  "reject_decision state = (if state \<noteq> TxPending then Some (NotPending state) else None)"

section \<open>Statements\<close>

type_synonym ledger = "Transaction list"

definition tx_get :: "string \<Rightarrow> ledger \<Rightarrow> Transaction option" where
  "tx_get i l = find (\<lambda>r. tx_id r = i) l"

definition by_key :: "string \<Rightarrow> ledger \<Rightarrow> Transaction option" where
  "by_key key l = find (\<lambda>r. tx_key r = key) l"

definition pending_id :: "string \<Rightarrow> Transaction \<Rightarrow> bool" where
  "pending_id i r \<longleftrightarrow> tx_id r = i \<and> tx_state r = TxPending"

definition refresh_pending :: "string \<Rightarrow> NewTransaction \<Rightarrow> time \<Rightarrow> ledger \<Rightarrow> ledger" where
  "refresh_pending i new now l =
     update_where (pending_id i)
       (\<lambda>r. r\<lparr>tx_job_id := nt_job_id new, tx_profile := nt_profile new, tx_evidence_sha := nt_evidence_sha new,
              tx_updated_at := now\<rparr>) l"

text \<open>The insert fails on a used id or a used key.\<close>

definition insert_pending :: "string \<Rightarrow> NewTransaction \<Rightarrow> time \<Rightarrow> ledger \<Rightarrow> ledger option" where
  "insert_pending i new now l =
     (if list_ex (\<lambda>r. tx_id r = i \<or> tx_key r = nt_key new) l then None
      else Some (l @ [\<lparr>tx_id = i, tx_key = nt_key new, tx_app = nt_app new, tx_job_id = nt_job_id new,
                       tx_profile = nt_profile new, tx_state = TxPending, tx_evidence_sha = nt_evidence_sha new,
                       tx_approved_by = None, tx_approved_at = None, tx_submitted_at = None,
                       tx_receipt_path = None, tx_created_at = now, tx_updated_at = now\<rparr>]))"

datatype stage_error = UniqueViolation | Vanished

text \<open>\<open>i\<close> is the fresh id, \<open>now\<close> the one clock reading.\<close>

definition stage_pending :: "string \<Rightarrow> time \<Rightarrow> NewTransaction \<Rightarrow> ledger \<Rightarrow> (stage_error + Transaction) \<times> ledger" where
  "stage_pending i now new l =
     (case by_key (nt_key new) l of
        Some existing \<Rightarrow>
          if tx_state existing \<noteq> TxPending then (Inr existing, l)
          else let l' = refresh_pending (tx_id existing) new now l
               in (case tx_get (tx_id existing) l' of Some r \<Rightarrow> Inr r | None \<Rightarrow> Inl Vanished, l')
      | None \<Rightarrow>
          (case insert_pending i new now l of
             None \<Rightarrow> (Inl UniqueViolation, l)
           | Some l' \<Rightarrow> (case tx_get i l' of Some r \<Rightarrow> Inr r | None \<Rightarrow> Inl Vanished, l')))"

definition mark_approved :: "string \<Rightarrow> string option \<Rightarrow> time \<Rightarrow> ledger \<Rightarrow> ledger \<times> bool" where
  "mark_approved i approver now l =
     (update_where (pending_id i)
        (\<lambda>r. r\<lparr>tx_state := TxApproved, tx_approved_by := approver, tx_approved_at := Some now, tx_updated_at := now\<rparr>) l,
      0 < rows_affected (pending_id i) l)"

definition mark_rejected :: "string \<Rightarrow> string option \<Rightarrow> time \<Rightarrow> ledger \<Rightarrow> ledger \<times> bool" where
  "mark_rejected i rejecter now l =
     (update_where (pending_id i)
        (\<lambda>r. r\<lparr>tx_state := TxRejected, tx_approved_by := rejecter, tx_approved_at := Some now, tx_updated_at := now\<rparr>) l,
      0 < rows_affected (pending_id i) l)"

definition approved_id :: "string \<Rightarrow> Transaction \<Rightarrow> bool" where
  "approved_id i r \<longleftrightarrow> tx_id r = i \<and> tx_state r = TxApproved"

definition mark_submitted :: "string \<Rightarrow> string \<Rightarrow> time \<Rightarrow> ledger \<Rightarrow> ledger \<times> bool" where
  "mark_submitted i receipt now l =
     (update_where (approved_id i)
        (\<lambda>r. r\<lparr>tx_state := TxSubmitted, tx_submitted_at := Some now, tx_receipt_path := Some receipt,
               tx_updated_at := now\<rparr>) l,
      0 < rows_affected (approved_id i) l)"

text \<open>The sweep reads the clock for the cutoff and again for the stamp.\<close>

definition stale_pending :: "nat \<Rightarrow> time \<Rightarrow> Transaction \<Rightarrow> bool" where
  "stale_pending ttl now r \<longleftrightarrow> tx_state r = TxPending \<and> tx_created_at r \<le> now - int ttl * micros_per_sec"

definition expire_stale :: "nat \<Rightarrow> time \<Rightarrow> time \<Rightarrow> ledger \<Rightarrow> ledger \<times> nat" where
  "expire_stale ttl now now' l =
     (if ttl = 0 then (l, 0)
      else (update_where (stale_pending ttl now) (\<lambda>r. r\<lparr>tx_state := TxExpired, tx_updated_at := now'\<rparr>) l,
            rows_affected (stale_pending ttl now) l))"

definition submitted_since :: "string option \<Rightarrow> time \<Rightarrow> ledger \<Rightarrow> nat" where
  "submitted_since profile since l =
     length (filter (\<lambda>r. tx_state r = TxSubmitted \<and> tx_profile r = profile \<and>
                         (case tx_submitted_at r of Some t \<Rightarrow> since \<le> t | None \<Rightarrow> False)) l)"

definition tx_list :: "TransactionState option \<Rightarrow> nat \<Rightarrow> ledger \<Rightarrow> Transaction list" where
  "tx_list state limit l =
     order_limit (\<lambda>r. - tx_created_at r) limit
       (case state of Some s \<Rightarrow> filter (\<lambda>r. tx_state r = s) l | None \<Rightarrow> l)"

section \<open>The doors\<close>

datatype door_error = TxNotFound | Refused ApprovalRefusal

text \<open>
  The approve door up to its write: the sweep, the read, the decision. One clock reading \<open>now\<close>
  stands for the readings of the call.
\<close>

definition approve_read ::
  "TransactConfig \<Rightarrow> string \<Rightarrow> string option \<Rightarrow> time \<Rightarrow> ledger \<Rightarrow> (door_error + Transaction) \<times> ledger" where
  "approve_read cfg i quoted now l =
     (let l' = fst (expire_stale (tc_approval_ttl_secs cfg) now now l)
      in case tx_get i l' of
           None \<Rightarrow> (Inl TxNotFound, l')
         | Some row \<Rightarrow>
             (case approve_decision (tc_allow_live cfg) (tx_state row) (approval_deadline cfg (tx_created_at row)) now
                     (tx_evidence_sha row) quoted
                     (int (submitted_since (tx_profile row) (now - CAP_WINDOW_HOURS * 3600 * micros_per_sec) l'))
                     (daily_cap cfg) of
                Some r \<Rightarrow> (Inl (Refused r), l')
              | None \<Rightarrow> (Inr row, l')))"

definition approve_write :: "string \<Rightarrow> string option \<Rightarrow> time \<Rightarrow> ledger \<Rightarrow> (door_error + unit) \<times> ledger" where
  "approve_write i approver now l =
     (case mark_approved i approver now l of
        (l', True) \<Rightarrow> (Inr (), l')
      | (l', False) \<Rightarrow>
          (case tx_get i l' of
             None \<Rightarrow> (Inl TxNotFound, l')
           | Some r \<Rightarrow> (Inl (Refused (NotPending (tx_state r))), l')))"

definition resume_input :: "Transaction \<Rightarrow> json" where
  "resume_input row =
     JObject [(''evidence_sha'', JString (tx_evidence_sha row)), (''transaction_id'', JString (tx_id row))]"

definition resume_parked_job :: "(string \<Rightarrow> uuid option) \<Rightarrow> time \<Rightarrow> Transaction \<Rightarrow> store \<Rightarrow> bool \<times> store" where
  "resume_parked_job parse now row st =
     (case Option.bind (tx_job_id row) parse of
        None \<Rightarrow> (False, st)
      | Some job \<Rightarrow> (case resume now job (resume_input row) st of (st', r) \<Rightarrow> (r \<noteq> None, st')))"

definition approve_transaction ::
  "(string \<Rightarrow> uuid option) \<Rightarrow> TransactConfig \<Rightarrow> string \<Rightarrow> string option \<Rightarrow> string option \<Rightarrow> time \<Rightarrow> ledger \<Rightarrow> store \<Rightarrow>
   (door_error + bool) \<times> ledger \<times> store" where
  "approve_transaction parse cfg i quoted approver now l st =
     (case approve_read cfg i quoted now l of
        (Inl e, l1) \<Rightarrow> (Inl e, l1, st)
      | (Inr row, l1) \<Rightarrow>
          (case approve_write (tx_id row) approver now l1 of
             (Inl e, l2) \<Rightarrow> (Inl e, l2, st)
           | (Inr _, l2) \<Rightarrow> (case resume_parked_job parse now row st of (resumed, st') \<Rightarrow> (Inr resumed, l2, st'))))"

definition reject_transaction ::
  "(string \<Rightarrow> uuid option) \<Rightarrow> string \<Rightarrow> string option \<Rightarrow> time \<Rightarrow> ledger \<Rightarrow> store \<Rightarrow>
   (door_error + bool) \<times> ledger \<times> store" where
  "reject_transaction parse i rejecter now l st =
     (case tx_get i l of
        None \<Rightarrow> (Inl TxNotFound, l, st)
      | Some row \<Rightarrow>
          (case reject_decision (tx_state row) of
             Some r \<Rightarrow> (Inl (Refused r), l, st)
           | None \<Rightarrow>
               (case mark_rejected (tx_id row) rejecter now l of
                  (l', False) \<Rightarrow>
                    (case tx_get (tx_id row) l' of
                       None \<Rightarrow> (Inl TxNotFound, l', st)
                     | Some r \<Rightarrow> (Inl (Refused (NotPending (tx_state r))), l', st))
                | (l', True) \<Rightarrow>
                    (case Option.bind (tx_job_id row) parse of
                       None \<Rightarrow> (Inr False, l', st)
                     | Some job \<Rightarrow> (case cancel now job st of (st', c) \<Rightarrow> (Inr (c \<noteq> None), l', st'))))))"

section \<open>Evidence\<close>

record FilledField =
  ff_selector :: string
  ff_found :: bool
  ff_redacted :: bool
  ff_value_len :: "nat option"

record SubmitTarget =
  st_selector :: string
  st_found :: "bool option"
  st_visible :: "bool option"
  st_enabled :: "bool option"
  st_tag :: "string option"
  st_label :: "string option"

definition opt_bool :: "bool option \<Rightarrow> string" where
  "opt_bool v = (case v of Some True \<Rightarrow> ''yes'' | Some False \<Rightarrow> ''no'' | None \<Rightarrow> ''unknown'')"

definition bool_text :: "bool \<Rightarrow> string" where
  "bool_text b = (if b then ''true'' else ''false'')"

definition joined :: "string \<Rightarrow> string list \<Rightarrow> string" where
  "joined sep xs = (case xs of [] \<Rightarrow> [] | x # ys \<Rightarrow> x @ concat (map (\<lambda>y. sep @ y) ys))"

definition field_row :: "FilledField \<Rightarrow> string" where
  "field_row f =
     joined [CHR 0x01] [''f'', ff_selector f, bool_text (ff_found f), bool_text (ff_redacted f),
                        (case ff_value_len f of Some n \<Rightarrow> decimal n | None \<Rightarrow> [])]"

definition target_row :: "SubmitTarget option \<Rightarrow> string" where
  "target_row target =
     (case target of
        Some t \<Rightarrow>
          joined [CHR 0x01] [''t'', st_selector t, opt_bool (st_found t), opt_bool (st_visible t), opt_bool (st_enabled t),
                             (case st_tag t of Some x \<Rightarrow> x | None \<Rightarrow> []), (case st_label t of Some x \<Rightarrow> x | None \<Rightarrow> [])]
      | None \<Rightarrow> joined [CHR 0x01] [''t'', ''none''])"

definition evidence_digest :: "(string \<Rightarrow> string) \<Rightarrow> SubmitTarget option \<Rightarrow> FilledField list \<Rightarrow> string" where
  "evidence_digest sha256 target filled =
     sha256 (joined [CHR 0x02] (target_row target # sort (map field_row filled)))"

datatype CommitRefusal = ProbeMismatch string string

definition commit_guard :: "string \<Rightarrow> string \<Rightarrow> CommitRefusal option" where
  "commit_guard approved observed = (if approved = observed then None else Some (ProbeMismatch approved observed))"

section \<open>Committing\<close>

datatype StepOutcome = StepOk | SelectorMissing | ActionFailed | StepPartial

definition step_is_ok :: "StepOutcome \<Rightarrow> bool" where
  "step_is_ok s \<longleftrightarrow> s = StepOk"

text \<open>
  Staging a flow to submit: the digest of the dry run's evidence goes into the ledger, and the job
  parks on the row unless its key has already been resolved.
\<close>

datatype staged = Parked Transaction | AlreadyResolved Transaction

definition stage_submit ::
  "(string \<Rightarrow> string) \<Rightarrow> string \<Rightarrow> time \<Rightarrow> NewTransaction \<Rightarrow> SubmitTarget option \<Rightarrow> FilledField list \<Rightarrow> ledger \<Rightarrow>
   (stage_error + staged) \<times> ledger" where
  "stage_submit sha256 i now new target filled l =
     (case stage_pending i now (new\<lparr>nt_evidence_sha := evidence_digest sha256 target filled\<rparr>) l of
        (Inl e, l') \<Rightarrow> (Inl e, l')
      | (Inr row, l') \<Rightarrow> (Inr (if tx_state row \<noteq> TxPending then AlreadyResolved row else Parked row), l'))"

text \<open>
  One use of the browser by a commit: what the probe of the first pass gives, whether the submit
  action of the second pass took effect on the page, and what the second pass reports.
\<close>

record browser_run =
  br_probe :: "Error + SubmitTarget option \<times> FilledField list"
  br_acted :: bool
  br_page :: "Error + StepOutcome list"

definition receipt_submitted :: "nat \<Rightarrow> StepOutcome list \<Rightarrow> bool" where
  "receipt_submitted steps outcomes \<longleftrightarrow> length outcomes = steps + 1 \<and> step_is_ok (outcomes ! steps)"

text \<open>\<open>actions\<close> lists the transactions whose irreversible action took effect, in order.\<close>

record tx_world =
  ledger :: ledger
  actions :: "string list"

definition browser_commit ::
  "(string \<Rightarrow> string) \<Rightarrow> nat \<Rightarrow> string \<Rightarrow> string \<Rightarrow> browser_run \<Rightarrow> string list \<Rightarrow> (Error + bool) \<times> string list" where
  "browser_commit sha256 steps i approved_sha run acts =
     (case br_probe run of
        Inl e \<Rightarrow> (Inl e, acts)
      | Inr (target, filled) \<Rightarrow>
          (case commit_guard approved_sha (evidence_digest sha256 target filled) of
             Some _ \<Rightarrow> (Inl (Transact ''probe_mismatch''), acts)
           | None \<Rightarrow>
               let acts' = (if br_acted run then acts @ [i] else acts)
               in case br_page run of
                    Inl e \<Rightarrow> (Inl e, acts')
                  | Inr outcomes \<Rightarrow> (Inr (receipt_submitted steps outcomes), acts')))"

definition RECEIPT_ARTIFACT :: string where
  "RECEIPT_ARTIFACT = ''receipt.json''"

text \<open>\<open>saved\<close> is the error of writing the artifacts, if there is one.\<close>

definition commit ::
  "(string \<Rightarrow> string) \<Rightarrow> nat \<Rightarrow> string \<Rightarrow> browser_run \<Rightarrow> Error option \<Rightarrow> time \<Rightarrow> tx_world \<Rightarrow> (Error + bool) \<times> tx_world" where
  "commit sha256 steps key run saved now w =
     (case by_key key (ledger w) of
        None \<Rightarrow> (Inl (Transact ''no transaction is staged''), w)
      | Some row \<Rightarrow>
          if tx_state row \<noteq> TxApproved then (Inl (Transact ''not approved''), w)
          else (case browser_commit sha256 steps (tx_id row) (tx_evidence_sha row) run (actions w) of
                  (Inl e, acts) \<Rightarrow> (Inl e, w\<lparr>actions := acts\<rparr>)
                | (Inr submitted, acts) \<Rightarrow>
                    (case saved of
                       Some e \<Rightarrow> (Inl e, w\<lparr>actions := acts\<rparr>)
                     | None \<Rightarrow>
                         if submitted
                         then (Inr True, w\<lparr>actions := acts, ledger := fst (mark_submitted (tx_id row) RECEIPT_ARTIFACT now (ledger w))\<rparr>)
                         else (Inr False, w\<lparr>actions := acts\<rparr>))))"

section \<open>The life of a row\<close>

text \<open>One statement on the ledger by any caller.\<close>

inductive tx_step :: "ledger \<Rightarrow> ledger \<Rightarrow> bool" where
  refresh: "tx_step l (refresh_pending i new now l)"
| insert: "insert_pending i new now l = Some l' \<Longrightarrow> tx_step l l'"
| approve: "tx_step l (fst (mark_approved i approver now l))"
| reject: "tx_step l (fst (mark_rejected i rejecter now l))"
| submit: "tx_step l (fst (mark_submitted i receipt now l))"
| expire: "tx_step l (fst (expire_stale ttl now now' l))"

definition follows :: "Transaction \<Rightarrow> Transaction \<Rightarrow> bool" where
  "follows r r' \<longleftrightarrow>
     tx_id r' = tx_id r \<and> tx_key r' = tx_key r \<and> tx_app r' = tx_app r \<and> tx_created_at r' = tx_created_at r \<and>
     (tx_is_terminal (tx_state r) \<longrightarrow> r' = r) \<and>
     (tx_state r = TxApproved \<longrightarrow>
        tx_state r' \<in> {TxApproved, TxSubmitted} \<and> tx_evidence_sha r' = tx_evidence_sha r \<and>
        tx_profile r' = tx_profile r \<and> tx_job_id r' = tx_job_id r \<and> tx_approved_by r' = tx_approved_by r \<and>
        tx_approved_at r' = tx_approved_at r)"

definition tx_row_ok :: "Transaction \<Rightarrow> bool" where
  "tx_row_ok r \<longleftrightarrow>
     (tx_state r \<in> {TxApproved, TxSubmitted} \<longrightarrow> tx_approved_at r \<noteq> None) \<and>
     (tx_state r \<in> {TxPending, TxExpired} \<longrightarrow> tx_approved_at r = None) \<and>
     (tx_state r = TxSubmitted \<longleftrightarrow> tx_submitted_at r \<noteq> None) \<and>
     (tx_state r = TxSubmitted \<longleftrightarrow> tx_receipt_path r \<noteq> None)"

definition ledger_ok :: "ledger \<Rightarrow> bool" where
  "ledger_ok l \<longleftrightarrow> distinct (map tx_id l) \<and> distinct (map tx_key l) \<and> list_all tx_row_ok l"

lemma follows_refl [simp]: "follows r r"
  by (simp add: follows_def)

lemma follows_trans: "follows r s \<Longrightarrow> follows s t \<Longrightarrow> follows r t"
  unfolding follows_def by (cases "tx_state r"; cases "tx_state s") auto

lemma update_where_follows:
  assumes "\<And>r. r \<in> set l \<Longrightarrow> p r \<Longrightarrow> follows r (f r)"
  shows "\<forall>r\<in>set l. \<exists>r'\<in>set (update_where p f l). follows r r'"
proof
  fix r
  assume r: "r \<in> set l"
  let ?r = "if p r then f r else r"
  have "?r \<in> set (update_where p f l)" using r by (auto simp: set_update_where)
  moreover have "follows r ?r" using assms r by simp
  ultimately show "\<exists>r'\<in>set (update_where p f l). follows r r'" by blast
qed

lemma update_where_ledger_ok:
  assumes "ledger_ok l" and "\<And>r. r \<in> set l \<Longrightarrow> p r \<Longrightarrow> follows r (f r)"
    and "\<And>r. r \<in> set l \<Longrightarrow> p r \<Longrightarrow> tx_row_ok r \<Longrightarrow> tx_row_ok (f r)"
  shows "ledger_ok (update_where p f l)"
proof -
  have "map tx_id (update_where p f l) = map tx_id l" "map tx_key (update_where p f l) = map tx_key l"
    using assms(2) by (intro map_update_where_same; simp add: follows_def)+
  moreover have "\<forall>r\<in>set (update_where p f l). tx_row_ok r"
    using assms(1,3) by (intro ball_update_where) (auto simp: ledger_ok_def list_all_iff)
  ultimately show ?thesis using assms(1) by (simp add: ledger_ok_def list_all_iff)
qed

text \<open>What each guarded statement does to a row it matches.\<close>

lemma statement_rows:
  "pending_id i r \<Longrightarrow> follows r (r\<lparr>tx_job_id := a, tx_profile := b, tx_evidence_sha := c, tx_updated_at := t\<rparr>)"
  "pending_id i r \<Longrightarrow> follows r (r\<lparr>tx_state := s, tx_approved_by := a, tx_approved_at := u, tx_updated_at := t\<rparr>)"
  "approved_id i r \<Longrightarrow>
     follows r (r\<lparr>tx_state := TxSubmitted, tx_submitted_at := u, tx_receipt_path := b, tx_updated_at := t\<rparr>)"
  "stale_pending ttl now r \<Longrightarrow> follows r (r\<lparr>tx_state := TxExpired, tx_updated_at := t\<rparr>)"
  by (simp_all add: follows_def pending_id_def approved_id_def stale_pending_def)

lemma statement_rows_ok:
  "pending_id i r \<Longrightarrow> tx_row_ok r \<Longrightarrow>
     tx_row_ok (r\<lparr>tx_job_id := a, tx_profile := b, tx_evidence_sha := c, tx_updated_at := t\<rparr>)"
  "pending_id i r \<Longrightarrow> tx_row_ok r \<Longrightarrow>
     tx_row_ok (r\<lparr>tx_state := TxApproved, tx_approved_by := a, tx_approved_at := Some u, tx_updated_at := t\<rparr>)"
  "pending_id i r \<Longrightarrow> tx_row_ok r \<Longrightarrow>
     tx_row_ok (r\<lparr>tx_state := TxRejected, tx_approved_by := a, tx_approved_at := Some u, tx_updated_at := t\<rparr>)"
  "approved_id i r \<Longrightarrow> tx_row_ok r \<Longrightarrow>
     tx_row_ok (r\<lparr>tx_state := TxSubmitted, tx_submitted_at := Some u, tx_receipt_path := Some c, tx_updated_at := t\<rparr>)"
  "stale_pending ttl now r \<Longrightarrow> tx_row_ok r \<Longrightarrow> tx_row_ok (r\<lparr>tx_state := TxExpired, tx_updated_at := t\<rparr>)"
  by (auto simp: tx_row_ok_def pending_id_def approved_id_def stale_pending_def)

lemma tx_step_follows:
  assumes "tx_step l l'"
  shows "\<forall>r\<in>set l. \<exists>r'\<in>set l'. follows r r'"
  using assms
proof (induction rule: tx_step.induct)
  case (insert i new now l l')
  then show ?case by (auto simp: insert_pending_def split: if_splits intro: bexI [of _ _ "set _"] follows_refl)
next
  case (expire l ttl now now')
  show ?case
  proof (cases "ttl = 0")
    case False
    then show ?thesis unfolding expire_stale_def by (simp add: update_where_follows statement_rows)
  qed (auto simp: expire_stale_def intro: bexI [of _ _ "set _"] follows_refl)
qed (auto simp: refresh_pending_def mark_approved_def mark_rejected_def mark_submitted_def
    intro!: update_where_follows [rule_format] statement_rows)

lemma tx_step_ok:
  assumes "tx_step l l'" and "ledger_ok l"
  shows "ledger_ok l'"
  using assms
proof (induction rule: tx_step.induct)
  case (insert i new now l l')
  then show ?case by (auto simp: insert_pending_def ledger_ok_def list_ex_iff tx_row_ok_def split: if_splits) metis
next
  case (expire l ttl now now')
  then show ?case by (auto simp: expire_stale_def intro!: update_where_ledger_ok statement_rows statement_rows_ok)
qed (auto simp: refresh_pending_def mark_approved_def mark_rejected_def mark_submitted_def
    intro!: update_where_ledger_ok statement_rows statement_rows_ok)

lemma tx_steps_ok: "tx_step\<^sup>*\<^sup>* l l' \<Longrightarrow> ledger_ok l \<Longrightarrow> ledger_ok l'"
  by (induction rule: rtranclp_induct) (auto intro: tx_step_ok)

lemma tx_steps_follows: "tx_step\<^sup>*\<^sup>* l l' \<Longrightarrow> \<forall>r\<in>set l. \<exists>r'\<in>set l'. follows r r'"
proof (induction rule: rtranclp_induct)
  case base
  then show ?case using follows_refl by blast
next
  case (step y z)
  then show ?case using tx_step_follows follows_trans by meson
qed

lemma ledger_ok_Nil [simp]: "ledger_ok []"
  by (simp add: ledger_ok_def)

lemma rows_affected_id:
  assumes "ledger_ok l" and "r \<in> set l"
  shows "0 < rows_affected (pending_id (tx_id r)) l \<longleftrightarrow> tx_state r = TxPending"
    and "0 < rows_affected (approved_id (tx_id r)) l \<longleftrightarrow> tx_state r = TxApproved"
proof -
  have "x = r" if "x \<in> set l" "tx_id x = tx_id r" for x
    using assms that by (auto simp: ledger_ok_def distinct_map inj_on_def)
  then show "0 < rows_affected (pending_id (tx_id r)) l \<longleftrightarrow> tx_state r = TxPending"
    "0 < rows_affected (approved_id (tx_id r)) l \<longleftrightarrow> tx_state r = TxApproved"
    using assms(2) by (auto simp: rows_affected_pos pending_id_def approved_id_def)
qed

text \<open>
  C30. A key owns one transaction for its whole life. Under any interleaving of the ledger's
  statements a row is never lost and its key stays its own; a rejected, expired or submitted row
  never changes again; an approved row keeps the evidence, profile, job and approver of its
  approval and can only become submitted; a row that is approved or submitted carries an approval;
  and a key is recorded as submitted at most once.
\<close>

theorem ledger_lifecycle:
  assumes "tx_step\<^sup>*\<^sup>* [] l" and "tx_step\<^sup>*\<^sup>* l l'" and "r \<in> set l"
  shows "\<exists>r'\<in>set l'. tx_id r' = tx_id r \<and> (\<forall>x\<in>set l'. tx_key x = tx_key r \<longrightarrow> x = r') \<and>
           (tx_is_terminal (tx_state r) \<longrightarrow> r' = r) \<and>
           (tx_state r = TxApproved \<longrightarrow>
              tx_state r' \<in> {TxApproved, TxSubmitted} \<and> tx_evidence_sha r' = tx_evidence_sha r \<and>
              tx_profile r' = tx_profile r \<and> tx_job_id r' = tx_job_id r \<and> tx_approved_by r' = tx_approved_by r) \<and>
           (tx_state r' \<in> {TxApproved, TxSubmitted} \<longrightarrow> tx_approved_at r' \<noteq> None) \<and>
           (tx_state r \<noteq> TxPending \<longrightarrow> \<not> snd (mark_approved (tx_id r) approver now l') \<and>
              \<not> snd (mark_rejected (tx_id r) approver now l')) \<and>
           (tx_state r \<in> {TxSubmitted, TxRejected, TxExpired} \<longrightarrow> \<not> snd (mark_submitted (tx_id r) receipt now l'))"
proof -
  have ok: "ledger_ok l'" using tx_steps_ok assms(1,2) by (meson ledger_ok_Nil)
  obtain r' where r': "r' \<in> set l'" "follows r r'" using tx_steps_follows [OF assms(2)] assms(3) by blast
  have id: "tx_id r' = tx_id r" and key: "tx_key r' = tx_key r" using r'(2) by (auto simp: follows_def)
  have "x = r'" if "x \<in> set l'" "tx_key x = tx_key r" for x
    using ok r'(1) that key by (auto simp: ledger_ok_def distinct_map inj_on_def)
  moreover have "tx_row_ok r'" using ok r'(1) by (simp add: ledger_ok_def list_all_iff)
  moreover have "snd (mark_approved (tx_id r) approver now l') \<longleftrightarrow> tx_state r' = TxPending"
    "snd (mark_rejected (tx_id r) approver now l') \<longleftrightarrow> tx_state r' = TxPending"
    "snd (mark_submitted (tx_id r) receipt now l') \<longleftrightarrow> tx_state r' = TxApproved"
    using rows_affected_id [OF ok r'(1)] id by (simp_all add: mark_approved_def mark_rejected_def mark_submitted_def)
  moreover have "tx_is_terminal (tx_state r) \<longrightarrow> r' = r"
    and approved: "tx_state r = TxApproved \<longrightarrow>
      tx_state r' \<in> {TxApproved, TxSubmitted} \<and> tx_evidence_sha r' = tx_evidence_sha r \<and>
      tx_profile r' = tx_profile r \<and> tx_job_id r' = tx_job_id r \<and> tx_approved_by r' = tx_approved_by r"
    using r'(2) unfolding follows_def by blast+
  moreover from this have "tx_state r \<noteq> TxPending \<longrightarrow> tx_state r' \<noteq> TxPending"
    "tx_state r \<in> {TxSubmitted, TxRejected, TxExpired} \<longrightarrow> tx_state r' \<noteq> TxApproved"
    by (cases "tx_state r"; auto)+
  ultimately show ?thesis
    using r'(1) id unfolding tx_row_ok_def by (intro bexI [of _ r']) blast+
qed

section \<open>Where the promise of one submission breaks\<close>

lemma get_job_update:
  assumes "get_job i st = Some job" and "\<And>r. j_id (f r) = j_id r" and "p job"
  shows "get_job i (update_jobs p f st) = Some (f job)"
proof -
  have "find (\<lambda>r. j_id r = i) rows = Some job \<Longrightarrow> find (\<lambda>r. j_id r = i) (update_where p f rows) = Some (f job)" for rows
    using assms(2,3) by (induction rows) (auto split: if_splits)
  with assms(1) show ?thesis by (simp add: get_job_def update_jobs_def)
qed

lemma io_failure_requeues:
  assumes "get_job i st = Some job" and "j_status job = Running" and "j_attempts job < j_max_attempts job"
  shows "\<exists>st' job'. fail json_text now i (j_attempts job) (Typed (Io m)) st = (st', Some Queued) \<and>
           get_job i st' = Some job' \<and> j_status job' = Queued \<and> j_resumed_input job' = j_resumed_input job"
proof -
  have own: "owns i (j_attempts job) job" using get_job_Some [OF assms(1)] assms(2) by (simp add: owns_def)
  then have "0 < rows_affected (owns i (j_attempts job)) (jobs st)"
    using get_job_Some [OF assms(1)] by (auto simp: rows_affected_pos)
  moreover obtain delay why where "fail_verdict (Typed (Io m)) (j_attempts job) = After delay why"
    by (simp add: fail_verdict_def requeue_after_def is_store_contention.simps)
  ultimately show ?thesis
    using assms get_job_update [where f = "requeue_set e a w k" and p = "owns i (j_attempts job)" for e a w k, OF assms(1) _ own]
    by (simp add: fail_def fail_from_def Let_def requeue_set_def)
qed

text \<open>
  C31. The irreversible action can run twice for one approval. The action runs before the ledger
  learns of it, and what lies between can fail: when the receipt cannot be written, the commit
  fails with an error that is retried, the row is still approved, the job is queued again with the
  input of its resume, and its next attempt passes the guard and acts again.
\<close>

theorem approved_action_runs_twice:
  assumes "by_key key (ledger w) = Some row" and "tx_state row = TxApproved"
    and "br_probe run = Inr (target, filled)" and "evidence_digest sha256 target filled = tx_evidence_sha row"
    and "br_acted run" and "br_page run = Inr outcomes" and "receipt_submitted steps outcomes"
    and "get_job i st = Some job" and "j_status job = Running" and "j_attempts job < j_max_attempts job"
    and "j_resumed_input job = Some input"
  shows "\<exists>w1 w2 st' job'.
     commit sha256 steps key run (Some (Io m)) now w = (Inl (Io m), w1) \<and> ledger w1 = ledger w \<and>
     actions w1 = actions w @ [tx_id row] \<and>
     fail json_text now i (j_attempts job) (Typed (Io m)) st = (st', Some Queued) \<and>
     get_job i st' = Some job' \<and> j_status job' = Queued \<and> j_resumed_input job' = Some input \<and>
     commit sha256 steps key run None now' w1 = (Inr True, w2) \<and>
     actions w2 = actions w @ [tx_id row, tx_id row]"
proof -
  have c: "browser_commit sha256 steps (tx_id row) (tx_evidence_sha row) run acts = (Inr True, acts @ [tx_id row])" for acts
    using assms(3-7) by (simp add: browser_commit_def commit_guard_def)
  obtain st' job' where "fail json_text now i (j_attempts job) (Typed (Io m)) st = (st', Some Queued)"
    "get_job i st' = Some job'" "j_status job' = Queued" "j_resumed_input job' = Some input"
    using io_failure_requeues [OF assms(8-10)] assms(11) by (metis (no_types, lifting))
  then show ?thesis
    using assms(1,2) c by (simp add: commit_def)
qed

lemma find_unique:
  assumes "r \<in> set l" and "P r" and "\<And>x. x \<in> set l \<Longrightarrow> P x \<Longrightarrow> x = r"
  shows "find P l = Some r"
proof (cases "find P l")
  case None
  then show ?thesis using assms(1,2) by (simp add: find_None_iff)
next
  case (Some x)
  then have "x \<in> set l" "P x" by (auto simp: find_Some_iff)
  then show ?thesis using Some assms(3) by simp
qed

lemma ledger_ok_find:
  assumes "ledger_ok l" and "r \<in> set l"
  shows "tx_get (tx_id r) l = Some r" and "by_key (tx_key r) l = Some r"
  using assms unfolding tx_get_def by_key_def
  by (intro find_unique; auto simp: ledger_ok_def distinct_map inj_on_def)+

lemma update_where_mem: "r \<in> set l \<Longrightarrow> p r \<Longrightarrow> f r \<in> set (update_where p f l)"
  by (auto simp: set_update_where)

text \<open>
  An approval can release evidence its approver did not quote. The door compares the quoted
  digest with the row it read and then writes on the state alone: a run that stages the same key
  again in between replaces the evidence of the pending row, the write still finds it pending, and
  the approved row carries the new digest, which is the one the commit checks the page against.
\<close>

theorem approval_of_unquoted_evidence:
  assumes "ledger_ok l" and "approve_read cfg i (Some quoted) now l = (Inr row, l1)"
    and "nt_key new = tx_key row" and "nt_evidence_sha new \<noteq> quoted"
  shows "\<exists>r l2 l3 r3. stage_pending j now' new l1 = (Inr r, l2) \<and> tx_state r = TxPending \<and>
     approve_write (tx_id row) approver now'' l2 = (Inr (), l3) \<and> by_key (tx_key row) l3 = Some r3 \<and>
     tx_state r3 = TxApproved \<and> tx_evidence_sha row = quoted \<and> tx_evidence_sha r3 = nt_evidence_sha new"
proof -
  have ok1: "ledger_ok l1" and row: "tx_get i l1 = Some row" and pend: "tx_state row = TxPending"
    and sha: "tx_evidence_sha row = quoted"
    using assms(1,2) tx_step_ok [OF tx_step.expire]
    by (auto simp: approve_read_def approve_decision_def Let_def split: option.splits if_splits)
  then have mem: "row \<in> set l1" by (auto simp: tx_get_def find_Some_iff)
  define upd where "upd r = r\<lparr>tx_job_id := nt_job_id new, tx_profile := nt_profile new,
      tx_evidence_sha := nt_evidence_sha new, tx_updated_at := now'\<rparr>" for r :: Transaction
  define apr where "apr r = r\<lparr>tx_state := TxApproved, tx_approved_by := approver, tx_approved_at := Some now'',
      tx_updated_at := now''\<rparr>" for r :: Transaction
  let ?l2 = "refresh_pending (tx_id row) new now' l1" and ?l3 = "fst (mark_approved (tx_id row) approver now'' (refresh_pending (tx_id row) new now' l1))"
  have ok2: "ledger_ok ?l2" and ok3: "ledger_ok ?l3"
    using ok1 tx_step_ok tx_step.refresh tx_step.approve by blast+
  have mem2: "upd row \<in> set ?l2"
    using update_where_mem [OF mem, of "pending_id (tx_id row)" upd] pend
    by (simp add: refresh_pending_def pending_id_def upd_def [abs_def])
  have mem3: "apr (upd row) \<in> set ?l3"
    using update_where_mem [OF mem2, of "pending_id (tx_id row)" apr] pend
    by (simp add: mark_approved_def pending_id_def apr_def [abs_def] upd_def)
  have "snd (mark_approved (tx_id row) approver now'' ?l2)"
    using rows_affected_id(1) [OF ok2 mem2] pend by (simp add: mark_approved_def upd_def)
  then have "approve_write (tx_id row) approver now'' ?l2 = (Inr (), ?l3)"
    by (cases "mark_approved (tx_id row) approver now'' ?l2") (simp add: approve_write_def)
  moreover have "stage_pending j now' new l1 = (Inr (upd row), ?l2)"
    using ledger_ok_find(2) [OF ok1 mem] ledger_ok_find(1) [OF ok2 mem2] assms(3) pend
    by (simp add: stage_pending_def Let_def upd_def)
  moreover have "by_key (tx_key row) ?l3 = Some (apr (upd row))"
    using ledger_ok_find(2) [OF ok3 mem3] by (simp add: apr_def upd_def)
  ultimately show ?thesis
    using sha pend by (intro exI [of _ "upd row"] exI [of _ ?l2] exI [of _ ?l3] exI [of _ "apr (upd row)"])
      (simp add: apr_def upd_def)
qed

text \<open>
  The daily cap counts recorded submissions only: two rows of one profile are both approved under
  a cap of one when neither has been recorded as submitted yet.
\<close>

lemma daily_cap_counts_recorded_only:
  assumes "ledger_ok l" and "a \<in> set l" and "b \<in> set l" and "tx_id a \<noteq> tx_id b"
    and "tx_state a = TxPending" and "tx_state b = TxPending" and "tc_allow_live cfg" and "tc_approval_ttl_secs cfg = 0"
    and "\<forall>x\<in>set l. tx_state x \<noteq> TxSubmitted"
  shows "fst (approve_read cfg (tx_id a) None now l) = Inr a \<and>
         fst (approve_read cfg (tx_id b) None now (fst (mark_approved (tx_id a) approver now l))) = Inr b"
proof -
  let ?l = "fst (mark_approved (tx_id a) approver now l)"
  have none: "submitted_since profile since l' = 0" if "\<forall>x\<in>set l'. tx_state x \<noteq> TxSubmitted" for profile since l'
    using that by (auto simp: submitted_since_def filter_empty_conv)
  have ok: "ledger_ok ?l" using assms(1) tx_step_ok tx_step.approve by blast
  have b: "b \<in> set ?l" using assms(3,4) by (auto simp: mark_approved_def set_update_where pending_id_def)
  have s: "\<forall>x\<in>set ?l. tx_state x \<noteq> TxSubmitted"
    using assms(9) by (auto simp: mark_approved_def set_update_where)
  show ?thesis
    using ledger_ok_find(1) [OF assms(1,2)] ledger_ok_find(1) [OF ok b] none [OF assms(9)] none [OF s] assms(5-8)
    by (simp add: approve_read_def expire_stale_def approve_decision_def approval_deadline_def daily_cap_def Let_def)
qed

lemma tx_state_roundtrip: "tx_state_parse (tx_state_as_str s) = Some s"
  by (cases s) (simp_all add: tx_state_parse_def)

text \<open>Two probes that see the same fields in another order agree on the digest.\<close>

lemma evidence_digest_order:
  "mset filled = mset filled' \<Longrightarrow> evidence_digest sha256 target filled = evidence_digest sha256 target filled'"
  unfolding evidence_digest_def by (metis mset_map sorted_list_of_multiset_mset)

section \<open>A concrete ledger\<close>

definition demo_new :: "string \<Rightarrow> NewTransaction" where
  "demo_new evidence = \<lparr>nt_key = ''k'', nt_app = ''transact'', nt_job_id = None, nt_profile = None, nt_evidence_sha = evidence\<rparr>"

definition demo_ledger :: ledger where
  "demo_ledger = snd (stage_pending ''t1'' 5 (demo_new (evidence_digest id None [])) [])"

definition demo_approved :: ledger where
  "demo_approved = fst (mark_approved ''t1'' None 6 demo_ledger)"

lemma demo_ledger_steps: "tx_step\<^sup>*\<^sup>* [] demo_ledger" "tx_step demo_ledger demo_approved"
proof -
  have "insert_pending ''t1'' (demo_new (evidence_digest id None [])) 5 [] = Some demo_ledger"
    by (simp add: demo_ledger_def stage_pending_def by_key_def insert_pending_def)
  then show "tx_step\<^sup>*\<^sup>* [] demo_ledger" using tx_step.insert by blast
  show "tx_step demo_ledger demo_approved" unfolding demo_approved_def by (rule tx_step.approve)
qed

lemma demo_ledger_ok: "ledger_ok demo_ledger" "ledger_ok demo_approved"
  using demo_ledger_steps tx_steps_ok tx_step_ok by (meson ledger_ok_Nil)+

theorem ledger_lifecycle_witness:
  "\<exists>r\<in>set demo_approved. tx_state r = TxApproved \<and>
     \<not> snd (mark_approved ''t1'' None 9 (fst (mark_submitted ''t1'' RECEIPT_ARTIFACT 8 demo_approved)))"
proof -
  let ?l = "fst (mark_submitted ''t1'' RECEIPT_ARTIFACT 8 demo_approved)"
  have r: "tx_step\<^sup>*\<^sup>* [] demo_approved" using demo_ledger_steps by (rule rtranclp.rtrancl_into_rtrancl)
  have s: "tx_step\<^sup>*\<^sup>* demo_approved ?l" by (rule r_into_rtranclp [of tx_step, OF tx_step.submit])
  have "length demo_approved = 1 \<and> tx_state (demo_approved ! 0) = TxApproved \<and> tx_id (demo_approved ! 0) = ''t1''"
    by code_simp
  then have m: "demo_approved ! 0 \<in> set demo_approved" "tx_state (demo_approved ! 0) = TxApproved"
    "tx_id (demo_approved ! 0) = ''t1''" by simp_all
  from ledger_lifecycle [OF r s m(1), of None 9] show ?thesis using m by (intro bexI [OF _ m(1)]) auto
qed

definition demo_run :: browser_run where
  "demo_run = \<lparr>br_probe = Inr (None, []), br_acted = True, br_page = Inr [StepOk]\<rparr>"

theorem approved_action_runs_twice_witness:
  "\<exists>w2. actions w2 = [''t1'', ''t1''] \<and>
     (\<exists>w1. fst (commit id 0 ''k'' demo_run (Some (Io [])) 7 \<lparr>ledger = demo_approved, actions = []\<rparr>) = Inl (Io []) \<and>
           commit id 0 ''k'' demo_run None 8 w1 = (Inr True, w2))"
proof -
  let ?w = "\<lparr>ledger = demo_approved, actions = []\<rparr>" and ?st = "fst (claim_next (\<lambda>t. of_int t) [] 0 5 demo_s2)"
  let ?st' = "?st\<lparr>jobs := [(jobs ?st ! 0)\<lparr>j_resumed_input := Some JNull, j_max_attempts := 9\<rparr>]\<rparr>"
  have row: "by_key ''k'' demo_approved = Some (demo_approved ! 0) \<and> tx_state (demo_approved ! 0) = TxApproved \<and>
      tx_evidence_sha (demo_approved ! 0) = evidence_digest id None [] \<and> tx_id (demo_approved ! 0) = ''t1''"
    by code_simp
  have job: "get_job [1] ?st' = Some (jobs ?st' ! 0) \<and> j_status (jobs ?st' ! 0) = Running \<and>
      j_attempts (jobs ?st' ! 0) < j_max_attempts (jobs ?st' ! 0) \<and> j_resumed_input (jobs ?st' ! 0) = Some JNull"
    by code_simp
  have "receipt_submitted 0 [StepOk]" by (simp add: receipt_submitted_def step_is_ok_def)
  then show ?thesis
    using approved_action_runs_twice [of "''k''" ?w "demo_approved ! 0" demo_run None "[]" id "[StepOk]" 0 "[1]" ?st'
        "jobs ?st' ! 0" JNull "[]" 7 "\<lambda>_. []" 8] row job
    by (auto simp: demo_run_def)
qed

theorem approval_of_unquoted_evidence_witness:
  "\<exists>row l2 l3 r3. approve_read (\<lparr>tc_allow_live = True, tc_approval_ttl_secs = 0, tc_max_submits = 10\<rparr>) ''t1''
        (Some (evidence_digest id None [])) 6 demo_ledger = (Inr row, demo_ledger) \<and>
     snd (stage_pending ''t2'' 7 (demo_new ''other'') demo_ledger) = l2 \<and>
     approve_write ''t1'' None 8 l2 = (Inr (), l3) \<and> by_key ''k'' l3 = Some r3 \<and> tx_evidence_sha r3 = ''other''"
proof -
  let ?cfg = "\<lparr>tc_allow_live = True, tc_approval_ttl_secs = 0, tc_max_submits = 10\<rparr>" and ?q = "evidence_digest id None []"
  let ?row = "demo_ledger ! 0"
  have 1: "approve_read ?cfg ''t1'' (Some ?q) 6 demo_ledger = (Inr ?row, demo_ledger)"
    "tx_key ?row = ''k''" "tx_id ?row = ''t1''" "?q \<noteq> ''other''"
    by code_simp+
  then have "nt_key (demo_new ''other'') = tx_key ?row" "nt_evidence_sha (demo_new ''other'') \<noteq> ?q"
    by (auto simp: demo_new_def)
  from approval_of_unquoted_evidence [OF demo_ledger_ok(1) 1(1) this, of "''t2''" 7 None 8]
  show ?thesis using 1 by (auto simp: demo_new_def)
qed

end
