(* ===== verification/Host_Memory.thy ===== *)
theory Host_Memory
  imports Governor
begin

text \<open>
  The learned state per host of \<open>crates/core/src/tiers.rs\<close>: http strikes and the tier a host is
  pinned to, with their aging, the persisted politeness penalties, and the import of what another
  node has learned (\<open>crates/server/src/routes/host_weather.rs\<close>); and its composition with the
  governor at boot and in the write-behind pass (\<open>crates/server/src/state.rs\<close>). The cutoff of
  aging is \<open>None\<close> where the code uses a text that sorts before every timestamp.
\<close>

section \<open>Rows\<close>

record host_row =
  hm_host :: string
  http_strikes :: int
  hm_preferred :: "string option"
  hm_updated_at :: time
  penalty_ms :: int
  penalty_updated_at :: "time option"
  observations :: int

definition STRIKE_LIMIT :: int where
  "STRIKE_LIMIT = 3"

definition WEATHER_IMPORT_PENALTY_CAP_MS :: nat where
  "WEATHER_IMPORT_PENALTY_CAP_MS = 60000"

definition PRUNE_BATCH :: nat where
  "PRUNE_BATCH = 1000"

definition MAX_IMPORT_ENTRIES :: nat where
  "MAX_IMPORT_ENTRIES = 10000"

definition PREFERRED_BROWSER :: string where
  "PREFERRED_BROWSER = ''browser''"

definition PREFERRED_API_RECIPE :: string where
  "PREFERRED_API_RECIPE = ''api_recipe''"

definition stale_cutoff :: "nat \<Rightarrow> time \<Rightarrow> time option" where
  "stale_cutoff ttl_secs now = (if ttl_secs = 0 then None else Some (now - int ttl_secs * micros_per_sec))"

definition not_before :: "time option \<Rightarrow> time \<Rightarrow> bool" where
  "not_before cutoff t = (case cutoff of None \<Rightarrow> True | Some c \<Rightarrow> c \<le> t)"

definition penalty_is_restorable :: "int \<Rightarrow> time option \<Rightarrow> time option \<Rightarrow> bool" where
  "penalty_is_restorable ms updated cutoff \<longleftrightarrow>
     0 < ms \<and> (case updated of Some t \<Rightarrow> not_before cutoff t | None \<Rightarrow> False)"

text \<open>\<open>INSERT \<dots> ON CONFLICT(host) DO UPDATE\<close>.\<close>

definition upsert_host :: "host_row \<Rightarrow> (host_row \<Rightarrow> host_row) \<Rightarrow> host_row list \<Rightarrow> host_row list" where
  "upsert_host new upd rows =
     (if list_ex (\<lambda>r. hm_host r = hm_host new) rows
      then update_where (\<lambda>r. hm_host r = hm_host new) upd rows
      else rows @ [new])"

definition host_row_new :: "string \<Rightarrow> int \<Rightarrow> string option \<Rightarrow> time \<Rightarrow> int \<Rightarrow> host_row" where
  "host_row_new host strikes pin now obs =
     \<lparr>hm_host = host, http_strikes = strikes, hm_preferred = pin, hm_updated_at = now, penalty_ms = 0,
      penalty_updated_at = None, observations = obs\<rparr>"

section \<open>Learning a tier\<close>

datatype TierLesson = HttpWorks | ApiRecipeWorks | HttpStrike | PageTierServed

definition tier_lesson :: "string \<Rightarrow> bool \<Rightarrow> TierLesson" where
  "tier_lesson winner http_lost =
     (if winner = ''http'' then HttpWorks
      else if winner = PREFERRED_API_RECIPE then ApiRecipeWorks
      else if http_lost then HttpStrike
      else PageTierServed)"

definition preferred_tier :: "(string \<Rightarrow> string) \<Rightarrow> nat \<Rightarrow> time \<Rightarrow> string \<Rightarrow> host_row list \<Rightarrow> string option" where
  "preferred_tier lower ttl now host rows =
     (case find (\<lambda>r. hm_host r = lower host \<and> not_before (stale_cutoff ttl now) (hm_updated_at r)) rows of
        Some r \<Rightarrow> hm_preferred r
      | None \<Rightarrow> None)"

definition strike_set :: "time option \<Rightarrow> time \<Rightarrow> host_row \<Rightarrow> host_row" where
  "strike_set cutoff now r =
     (let stale = \<not> not_before cutoff (hm_updated_at r)
      in r\<lparr>http_strikes := (if stale then 1 else http_strikes r + 1),
           hm_preferred := (if stale then None
                            else if STRIKE_LIMIT \<le> http_strikes r + 1 then Some PREFERRED_BROWSER
                            else hm_preferred r),
           hm_updated_at := now, observations := observations r + 1\<rparr>)"

definition record_outcome ::
  "(string \<Rightarrow> string) \<Rightarrow> nat \<Rightarrow> time \<Rightarrow> string \<Rightarrow> string \<Rightarrow> bool \<Rightarrow> host_row list \<Rightarrow> host_row list" where
  "record_outcome lower ttl now host winner http_lost rows =
     (let h = lower host
      in case tier_lesson winner http_lost of
           ApiRecipeWorks \<Rightarrow>
             upsert_host (host_row_new h 0 (Some PREFERRED_API_RECIPE) now 1)
               (\<lambda>r. r\<lparr>http_strikes := 0, hm_preferred := Some PREFERRED_API_RECIPE, hm_updated_at := now,
                      observations := observations r + 1\<rparr>) rows
         | PageTierServed \<Rightarrow>
             update_where (\<lambda>r. hm_host r = h \<and> hm_preferred r = Some PREFERRED_API_RECIPE)
               (\<lambda>r. r\<lparr>hm_preferred := None, hm_updated_at := now\<rparr>) rows
         | HttpWorks \<Rightarrow>
             upsert_host (host_row_new h 0 None now 1)
               (\<lambda>r. r\<lparr>http_strikes := 0, hm_preferred := None, hm_updated_at := now,
                      observations := observations r + 1\<rparr>) rows
         | HttpStrike \<Rightarrow>
             upsert_host (host_row_new h 1 None now 1) (strike_set (stale_cutoff ttl now) now) rows)"

definition tier_get :: "(string \<Rightarrow> string) \<Rightarrow> string \<Rightarrow> host_row list \<Rightarrow> host_row option" where
  "tier_get lower host rows = find (\<lambda>r. hm_host r = lower host) rows"

definition tier_list_page :: "(time \<times> string) option \<Rightarrow> nat \<Rightarrow> host_row list \<Rightarrow> host_row list" where
  "tier_list_page after limit rows =
     order_limit (\<lambda>r. (- hm_updated_at r, hm_host r)) limit
       (filter (\<lambda>r. case after of
            None \<Rightarrow> True
          | Some (t, h) \<Rightarrow> hm_updated_at r < t \<or> (hm_updated_at r = t \<and> h < hm_host r)) rows)"

definition forget_host :: "(string \<Rightarrow> string) \<Rightarrow> string \<Rightarrow> host_row list \<Rightarrow> host_row list \<times> bool" where
  "forget_host lower host rows =
     (filter (\<lambda>r. hm_host r \<noteq> lower host) rows, list_ex (\<lambda>r. hm_host r = lower host) rows)"

section \<open>Persisted penalties\<close>

definition upsert_penalty :: "(string \<Rightarrow> string) \<Rightarrow> time \<Rightarrow> string \<times> nat \<Rightarrow> host_row list \<Rightarrow> host_row list" where
  "upsert_penalty lower now p rows =
     (let ms = int (min (snd p) (2 ^ 63 - 1))
      in upsert_host ((host_row_new (lower (fst p)) 0 None now 0)\<lparr>penalty_ms := ms, penalty_updated_at := Some now\<rparr>)
           (\<lambda>r. r\<lparr>penalty_ms := ms, penalty_updated_at := Some now\<rparr>) rows)"

definition save_penalties :: "(string \<Rightarrow> string) \<Rightarrow> time \<Rightarrow> (string \<times> nat) list \<Rightarrow> host_row list \<Rightarrow> host_row list" where
  "save_penalties lower now ps rows = fold (upsert_penalty lower now) ps rows"

definition persist_penalty_snapshot ::
  "(string \<Rightarrow> string) \<Rightarrow> time \<Rightarrow> (string \<times> nat) list \<Rightarrow> host_row list \<Rightarrow> host_row list" where
  "persist_penalty_snapshot lower now snapshot rows =
     fold (upsert_penalty lower now) snapshot
       (update_where (\<lambda>r. 0 < penalty_ms r) (\<lambda>r. r\<lparr>penalty_ms := 0, penalty_updated_at := Some now\<rparr>) rows)"

definition load_penalties :: "nat \<Rightarrow> time \<Rightarrow> host_row list \<Rightarrow> (string \<times> nat) list" where
  "load_penalties ttl now rows =
     map (\<lambda>r. (hm_host r, nat (max (penalty_ms r) 0)))
       (filter (\<lambda>r. 0 < penalty_ms r \<and> penalty_is_restorable (penalty_ms r) (penalty_updated_at r) (stale_cutoff ttl now)) rows)"

definition empty_stale_row :: "time option \<Rightarrow> host_row \<Rightarrow> bool" where
  "empty_stale_row cutoff r \<longleftrightarrow>
     hm_preferred r = None \<and> http_strikes r \<le> 0 \<and> penalty_ms r \<le> 0 \<and> \<not> not_before cutoff (hm_updated_at r) \<and>
     (case penalty_updated_at r of None \<Rightarrow> True | Some t \<Rightarrow> \<not> not_before cutoff t)"

definition prune_stale :: "nat \<Rightarrow> time \<Rightarrow> host_row list \<Rightarrow> host_row list \<times> nat" where
  "prune_stale ttl now rows =
     (if ttl = 0 then (rows, 0)
      else let doomed = map hm_host (take PRUNE_BATCH (filter (empty_stale_row (stale_cutoff ttl now)) rows))
           in (filter (\<lambda>r. hm_host r \<notin> set doomed) rows, length (filter (\<lambda>r. hm_host r \<in> set doomed) rows)))"

text \<open>The write-behind pass and the restore at boot, over the governor.\<close>

definition as_millis :: "duration \<Rightarrow> nat" where
  "as_millis d = d div 1000000"

definition persist_host_penalties :: "(string \<Rightarrow> string) \<Rightarrow> time \<Rightarrow> Governor \<Rightarrow> host_row list \<Rightarrow> host_row list" where
  "persist_host_penalties lower now g rows =
     persist_penalty_snapshot lower now
       (map (\<lambda>(host, p). (host, min (as_millis p) (2 ^ 64 - 1))) (snapshot_penalties g)) rows"

definition restore_host_penalties ::
  "(string \<Rightarrow> string) \<Rightarrow> nat \<Rightarrow> time \<Rightarrow> instant \<Rightarrow> host_row list \<Rightarrow> Governor \<Rightarrow> Governor" where
  "restore_host_penalties lower ttl now clock rows g =
     fold (\<lambda>(host, ms) g. restore_penalty lower host (from_millis ms) clock g) (load_penalties ttl now rows) g"

section \<open>Importing host weather\<close>

text \<open>
  An entry without the fields the merge does not read (the reserved fingerprints and the stamp of
  the exporter), and a plan without the notes it carries for a reader.
\<close>

record WeatherEntry =
  we_host :: string
  we_preferred_tier :: "string option"
  we_http_strikes :: int
  we_penalty_ms :: int
  we_observations :: int

record WeatherPlan =
  wp_host :: string
  adopt_pin :: bool
  raise_strikes :: "int option"
  raise_penalty_ms :: "nat option"

definition plan_is_noop :: "WeatherPlan \<Rightarrow> bool" where
  "plan_is_noop p \<longleftrightarrow> \<not> adopt_pin p \<and> raise_strikes p = None \<and> raise_penalty_ms p = None"

definition plan_weather_import :: "(string \<Rightarrow> string) \<Rightarrow> host_row option \<Rightarrow> nat \<Rightarrow> WeatherEntry \<Rightarrow> WeatherPlan" where
  "plan_weather_import lower loc live_penalty_ms remote =
     (let local_obs = (case loc of Some l \<Rightarrow> observations l | None \<Rightarrow> 0);
          local_strikes = (case loc of Some l \<Rightarrow> http_strikes l | None \<Rightarrow> 0);
          local_pinned = (case loc of Some l \<Rightarrow> hm_preferred l \<noteq> None | None \<Rightarrow> False);
          remote_pinned = (we_preferred_tier remote = Some PREFERRED_BROWSER);
          adopt = (\<not> local_pinned \<and> remote_pinned \<and> local_obs < we_observations remote);
          strikes = min (max (we_http_strikes remote) 0) (STRIKE_LIMIT - 1);
          local_penalty = max live_penalty_ms (case loc of Some l \<Rightarrow> nat (max (penalty_ms l) 0) | None \<Rightarrow> 0);
          capped = min (nat (max (we_penalty_ms remote) 0)) WEATHER_IMPORT_PENALTY_CAP_MS
      in \<lparr>wp_host = lower (we_host remote), adopt_pin = adopt,
          raise_strikes = (if \<not> adopt \<and> \<not> local_pinned \<and> local_strikes < strikes then Some strikes else None),
          raise_penalty_ms = (if local_penalty < capped then Some capped else None)\<rparr>)"

definition export_weather :: "int \<Rightarrow> host_row list \<Rightarrow> host_row list" where
  "export_weather min_observations rows = sort_key hm_host (filter (\<lambda>r. min_observations \<le> observations r) rows)"

definition apply_weather :: "time \<Rightarrow> WeatherPlan \<Rightarrow> host_row list \<Rightarrow> host_row list" where
  "apply_weather now p rows =
     (if adopt_pin p then
        upsert_host (host_row_new (wp_host p) STRIKE_LIMIT (Some PREFERRED_BROWSER) now 0)
          (\<lambda>r. r\<lparr>http_strikes := max (http_strikes r) STRIKE_LIMIT, hm_preferred := Some PREFERRED_BROWSER,
                 hm_updated_at := now\<rparr>) rows
      else case raise_strikes p of
             Some strikes \<Rightarrow>
               upsert_host (host_row_new (wp_host p) strikes None now 0)
                 (\<lambda>r. r\<lparr>http_strikes := max (http_strikes r) strikes, hm_updated_at := now\<rparr>) rows
           | None \<Rightarrow> rows)"

text \<open>
  The plans of a bundle, all made before any is applied; the first entry of a host wins. \<open>None\<close> is
  the refusal of an entry without a host, and of a bundle that is too long. \<open>trim\<close> is
  \<open>str::trim\<close>. The envelope of the bundle (its schema and signature) has been opened before, and
  the request asks for the plans to be applied.
\<close>

fun weather_plans ::
  "(string \<Rightarrow> string) \<Rightarrow> host_row list \<Rightarrow> Governor \<Rightarrow> string list \<Rightarrow> WeatherEntry list \<Rightarrow> WeatherPlan list option" where
  "weather_plans lower rows g seen [] = Some []"
| "weather_plans lower rows g seen (e # es) =
     (let host = lower (trim (we_host e))
      in if host = [] then None
         else if host \<in> set seen then weather_plans lower rows g seen es
         else let p = plan_weather_import lower (tier_get lower host rows)
                        (min (as_millis (penalty_of lower host g)) (2 ^ 64 - 1)) e
              in map_option (\<lambda>ps. if plan_is_noop p then ps else p # ps)
                   (weather_plans lower rows g (host # seen) es))"

definition apply_plan ::
  "(string \<Rightarrow> string) \<Rightarrow> time \<Rightarrow> instant \<Rightarrow> WeatherPlan \<Rightarrow> host_row list \<times> Governor \<Rightarrow> host_row list \<times> Governor" where
  "apply_plan lower now clock p s =
     (apply_weather now p (fst s),
      case raise_penalty_ms p of
        Some ms \<Rightarrow> snd (raise_penalty lower (wp_host p) (from_millis ms) clock (snd s))
      | None \<Rightarrow> snd s)"

definition import_weather ::
  "(string \<Rightarrow> string) \<Rightarrow> time \<Rightarrow> instant \<Rightarrow> WeatherEntry list \<Rightarrow> host_row list \<times> Governor \<Rightarrow>
   (host_row list \<times> Governor) option" where
  "import_weather lower now clock entries s =
     (case if MAX_IMPORT_ENTRIES < length entries then None else weather_plans lower (fst s) (snd s) [] entries of
        None \<Rightarrow> None
      | Some plans \<Rightarrow>
          let (rows, g) = fold (apply_plan lower now clock) plans s
          in Some (save_penalties lower now
                     (List.map_filter (\<lambda>p. map_option (\<lambda>ms. (wp_host p, ms)) (raise_penalty_ms p)) plans) rows, g))"

section \<open>Looking up a host\<close>

definition host_lookup :: "host_row list \<Rightarrow> string \<rightharpoonup> host_row" where
  "host_lookup rows h = find (\<lambda>r. hm_host r = h) rows"

definition hosts_ok :: "host_row list \<Rightarrow> bool" where
  "hosts_ok rows \<longleftrightarrow> distinct (map hm_host rows)"

lemma host_lookup_Nil [simp]: "host_lookup [] h = None"
  by (simp add: host_lookup_def)

lemma host_lookup_Cons [simp]: "host_lookup (r # rows) h = (if hm_host r = h then Some r else host_lookup rows h)"
  by (simp add: host_lookup_def)

lemma host_lookup_host: "host_lookup rows h = Some r \<Longrightarrow> hm_host r = h"
  by (induction rows) (auto split: if_splits)

lemma host_lookup_mem: "host_lookup rows h = Some r \<Longrightarrow> r \<in> set rows"
  by (induction rows) (auto split: if_splits)

lemma host_lookup_None: "host_lookup rows h = None \<longleftrightarrow> (\<forall>r\<in>set rows. hm_host r \<noteq> h)"
  by (induction rows) auto

lemma host_lookup_None_image: "host_lookup rows h = None \<longleftrightarrow> h \<notin> hm_host ` set rows"
  by (induction rows) auto

lemma hosts_ok_Cons: "hosts_ok (r # rows) \<longleftrightarrow> host_lookup rows (hm_host r) = None \<and> hosts_ok rows"
  by (simp add: hosts_ok_def host_lookup_None_image)

lemma host_lookup_append: "host_lookup (rows @ [new]) h =
    (case host_lookup rows h of Some r \<Rightarrow> Some r | None \<Rightarrow> if hm_host new = h then Some new else None)"
  by (induction rows) (auto split: option.splits)

lemma host_lookup_update:
  assumes "\<And>r. hm_host (f r) = hm_host r"
  shows "host_lookup (update_where p f rows) h = map_option (\<lambda>r. if p r then f r else r) (host_lookup rows h)"
  using assms by (induction rows) auto

lemma host_lookup_upsert:
  assumes "\<And>r. hm_host (upd r) = hm_host r"
  shows "host_lookup (upsert_host new upd rows) h =
     (if h = hm_host new then Some (case host_lookup rows h of Some r \<Rightarrow> upd r | None \<Rightarrow> new) else host_lookup rows h)"
proof (cases "list_ex (\<lambda>r. hm_host r = hm_host new) rows")
  case True
  then have "host_lookup rows (hm_host new) \<noteq> None" by (auto simp: host_lookup_None list_ex_iff)
  moreover have "host_lookup (upsert_host new upd rows) h =
      map_option (\<lambda>r. if hm_host r = hm_host new then upd r else r) (host_lookup rows h)"
    using True by (simp add: upsert_host_def host_lookup_update [OF assms])
  ultimately show ?thesis
    by (cases "host_lookup rows h") (use host_lookup_host [of rows h] in fastforce)+
next
  case False
  then have "host_lookup rows (hm_host new) = None" by (auto simp: host_lookup_None list_ex_iff)
  with False show ?thesis by (auto simp: upsert_host_def host_lookup_append split: option.split)
qed

lemma hosts_ok_upsert:
  assumes "hosts_ok rows" and "\<And>r. hm_host (upd r) = hm_host r"
  shows "hosts_ok (upsert_host new upd rows)"
proof -
  have "map hm_host (update_where p upd rows) = map hm_host rows" for p
    by (rule map_update_where_same) (simp add: assms(2))
  then show ?thesis using assms(1) by (auto simp: hosts_ok_def upsert_host_def list_ex_iff)
qed

section \<open>Penalties across a restart\<close>

definition stored_penalty :: "host_row list \<Rightarrow> string \<Rightarrow> int \<times> time option" where
  "stored_penalty rows h =
     (case host_lookup rows h of Some r \<Rightarrow> (penalty_ms r, penalty_updated_at r) | None \<Rightarrow> (0, None))"

lemma stored_penalty_upsert:
  "stored_penalty (upsert_penalty lower now p rows) h =
     (if h = lower (fst p) then (int (min (snd p) (2 ^ 63 - 1)), Some now) else stored_penalty rows h)"
  by (simp add: stored_penalty_def upsert_penalty_def Let_def host_lookup_upsert host_row_new_def split: option.split)

lemma hosts_ok_penalties: "hosts_ok rows \<Longrightarrow> hosts_ok (fold (upsert_penalty lower now) ps rows)"
  by (induction ps arbitrary: rows) (simp_all add: upsert_penalty_def Let_def hosts_ok_upsert)

lemma stored_penalty_fold:
  assumes "distinct (map fst ps)" and "\<forall>p\<in>set ps. lower (fst p) = fst p"
  shows "stored_penalty (fold (upsert_penalty lower now) ps rows) h =
     (case map_of ps h of Some ms \<Rightarrow> (int (min ms (2 ^ 63 - 1)), Some now) | None \<Rightarrow> stored_penalty rows h)"
  using assms
proof (induction ps arbitrary: rows)
  case (Cons p ps)
  then have "map_of ps (fst p) = None" by (auto simp: map_of_eq_None_iff)
  with Cons show ?case
    by (cases p) (auto simp: stored_penalty_upsert split: option.split)
qed simp

lemma stored_penalty_zeroed:
  "fst (stored_penalty (update_where (\<lambda>r. 0 < penalty_ms r) (\<lambda>r. r\<lparr>penalty_ms := 0, penalty_updated_at := Some now\<rparr>) rows) h) \<le> 0"
  by (simp add: stored_penalty_def host_lookup_update split: option.split)

lemma load_penalties_map:
  assumes "hosts_ok rows"
  shows "distinct (map fst (load_penalties ttl now rows))"
    and "map_of (load_penalties ttl now rows) h =
      (case stored_penalty rows h of (ms, t) \<Rightarrow>
         if penalty_is_restorable ms t (stale_cutoff ttl now) then Some (nat ms) else None)"
proof -
  have "distinct (map fst (load_penalties ttl now rows)) \<and>
    map_of (load_penalties ttl now rows) h =
      (case stored_penalty rows h of (ms, t) \<Rightarrow>
         if penalty_is_restorable ms t (stale_cutoff ttl now) then Some (nat ms) else None)"
    using assms
  proof (induction rows)
    case Nil
    then show ?case by (simp add: load_penalties_def stored_penalty_def penalty_is_restorable_def)
  next
    case (Cons r rows)
    then have ok: "hosts_ok rows" and new: "host_lookup rows (hm_host r) = None"
      by (simp_all add: hosts_ok_Cons)
    from new have "hm_host r \<notin> hm_host ` set rows" by (simp add: host_lookup_None_image)
    moreover have "fst ` set (load_penalties ttl now rows) \<subseteq> hm_host ` set rows" by (auto simp: load_penalties_def)
    ultimately have fresh: "hm_host r \<notin> fst ` set (load_penalties ttl now rows)" by blast
    define keep where "keep = penalty_is_restorable (penalty_ms r) (penalty_updated_at r) (stale_cutoff ttl now)"
    have split: "load_penalties ttl now (r # rows) =
        (if keep then [(hm_host r, nat (penalty_ms r))] else []) @ load_penalties ttl now rows"
      by (simp add: load_penalties_def keep_def penalty_is_restorable_def)
    from fresh have "map_of (load_penalties ttl now rows) (hm_host r) = None" by (simp add: map_of_eq_None_iff)
    with Cons.IH [OF ok] fresh new show ?case
      by (cases "h = hm_host r") (simp_all add: split stored_penalty_def keep_def)
  qed
  then show "distinct (map fst (load_penalties ttl now rows))"
    "map_of (load_penalties ttl now rows) h =
      (case stored_penalty rows h of (ms, t) \<Rightarrow>
         if penalty_is_restorable ms t (stale_cutoff ttl now) then Some (nat ms) else None)" by auto
qed

lemma restore_fold:
  assumes "distinct (map fst ps)" and "\<forall>p\<in>set ps. lower (fst p) = fst p \<and> 0 < snd p"
  shows "penalty_of lower host (fold (\<lambda>(h, ms) g. restore_penalty lower h (from_millis ms) clock g) ps g) =
     (case map_of ps (lower host) of Some ms \<Rightarrow> from_millis ms | None \<Rightarrow> penalty_of lower host g)"
  using assms
proof (induction ps arbitrary: g)
  case (Cons p ps)
  then have "map_of ps (fst p) = None" by (auto simp: map_of_eq_None_iff)
  with Cons show ?case
    by (cases p) (auto simp: restore_penalty_def penalty_of_put from_millis_def split: option.split)
qed simp

lemma snapshot_map:
  assumes "distinct (map fst (g_hosts g))"
  shows "distinct (map fst (snapshot_penalties g))"
    and "map_of (snapshot_penalties g) k =
      (case map_of (g_hosts g) k of Some s \<Rightarrow> if hs_penalty s = 0 then None else Some (hs_penalty s) | None \<Rightarrow> None)"
proof -
  have "distinct (map fst hs) \<Longrightarrow>
      distinct (map fst (map (\<lambda>(k, s). (k, hs_penalty s)) (filter (\<lambda>(_, s). hs_penalty s \<noteq> 0) hs))) \<and>
      map_of (map (\<lambda>(k, s). (k, hs_penalty s)) (filter (\<lambda>(_, s). hs_penalty s \<noteq> 0) hs)) k =
        (case map_of hs k of Some s \<Rightarrow> if hs_penalty s = 0 then None else Some (hs_penalty s) | None \<Rightarrow> None)"
    for hs :: "(string \<times> HostState) list"
  proof (induction hs)
    case (Cons h hs)
    then have "map_of hs (fst h) = None" by (auto simp: map_of_eq_None_iff)
    with Cons show ?case by (cases h) (auto split: option.splits)
  qed simp
  from this [OF assms] show "distinct (map fst (snapshot_penalties g))"
    "map_of (snapshot_penalties g) k =
      (case map_of (g_hosts g) k of Some s \<Rightarrow> if hs_penalty s = 0 then None else Some (hs_penalty s) | None \<Rightarrow> None)"
    by (auto simp: snapshot_penalties_def)
qed


text \<open>
  What a governor holds of its hosts: each once, under its lower-cased name, with a penalty whose
  milliseconds fit the column.
\<close>

definition penalties_storable :: "(string \<Rightarrow> string) \<Rightarrow> Governor \<Rightarrow> bool" where
  "penalties_storable lower g \<longleftrightarrow>
     distinct (map fst (g_hosts g)) \<and>
     (\<forall>(k, s)\<in>set (g_hosts g). lower k = k \<and> as_millis (hs_penalty s) < 2 ^ 63)"

lemma stored_after_persist:
  assumes "penalties_storable lower g"
  shows "case stored_penalty (persist_host_penalties lower now g rows) h of (ms, t) \<Rightarrow>
      if 0 < ms then map_of (g_hosts g) h \<noteq> None \<and> t = Some now \<and>
        ms = int (as_millis (hs_penalty (the (map_of (g_hosts g) h))))
      else (case map_of (g_hosts g) h of Some s \<Rightarrow> as_millis (hs_penalty s) = 0 | None \<Rightarrow> True)"
proof -
  let ?snap = "map (\<lambda>(host, p). (host, min (as_millis p) (2 ^ 64 - 1))) (snapshot_penalties g)"
  have d: "distinct (map fst (g_hosts g))"
    and fits: "\<And>s. map_of (g_hosts g) h = Some s \<Longrightarrow> as_millis (hs_penalty s) < 2 ^ 63"
    using assms by (auto simp: penalties_storable_def dest!: map_of_SomeD)
  have fst_snap: "map fst ?snap = map fst (snapshot_penalties g)" by (simp add: case_prod_beta)
  have "distinct (map fst ?snap)" unfolding fst_snap by (rule snapshot_map [OF d])
  moreover have "\<forall>p\<in>set ?snap. lower (fst p) = fst p"
    using assms by (auto simp: penalties_storable_def snapshot_penalties_def)
  moreover have "map_of ?snap h = (case map_of (g_hosts g) h of
      Some s \<Rightarrow> if hs_penalty s = 0 then None else Some (min (as_millis (hs_penalty s)) (2 ^ 64 - 1)) | None \<Rightarrow> None)"
    by (simp add: map_of_map snapshot_map [OF d] split: option.split)
  ultimately have stored: "stored_penalty (persist_host_penalties lower now g rows) h =
      (case map_of (g_hosts g) h of
         Some s \<Rightarrow> if hs_penalty s = 0 then stored_penalty (update_where (\<lambda>r. 0 < penalty_ms r)
             (\<lambda>r. r\<lparr>penalty_ms := 0, penalty_updated_at := Some now\<rparr>) rows) h
           else (int (min (min (as_millis (hs_penalty s)) (2 ^ 64 - 1)) (2 ^ 63 - 1)), Some now)
       | None \<Rightarrow> stored_penalty (update_where (\<lambda>r. 0 < penalty_ms r)
             (\<lambda>r. r\<lparr>penalty_ms := 0, penalty_updated_at := Some now\<rparr>) rows) h)"
    by (simp add: persist_host_penalties_def persist_penalty_snapshot_def stored_penalty_fold split: option.split)
  have zero: "\<not> 0 < fst (stored_penalty (update_where (\<lambda>r. 0 < penalty_ms r)
      (\<lambda>r. r\<lparr>penalty_ms := 0, penalty_updated_at := Some now\<rparr>) rows) h)"
    using stored_penalty_zeroed [of now rows h] by simp
  show ?thesis
  proof (cases "map_of (g_hosts g) h")
    case None
    with stored zero show ?thesis by (simp add: case_prod_beta)
  next
    case (Some s)
    show ?thesis
    proof (cases "hs_penalty s = 0")
      case True
      with Some stored zero show ?thesis by (simp add: case_prod_beta as_millis_def)
    next
      case False
      with Some stored fits [OF Some] show ?thesis by simp
    qed
  qed
qed


definition keys_fixed :: "(string \<Rightarrow> string) \<Rightarrow> Governor \<Rightarrow> bool" where
  "keys_fixed lower g \<longleftrightarrow> (\<forall>k\<in>fst ` set (g_hosts g). lower k = k)"

lemma keys_fixed_put: "keys_fixed lower g \<Longrightarrow> lower k = k \<Longrightarrow> keys_fixed lower (put_entry k s g)"
  by (simp add: keys_fixed_def put_entry_def dom_update)

lemma keys_fixed_subset:
  "fst ` set (g_hosts g') \<subseteq> fst ` set (g_hosts g) \<Longrightarrow> keys_fixed lower g \<Longrightarrow> keys_fixed lower g'"
  unfolding keys_fixed_def by blast

lemma gov_step_keys:
  assumes "gov_step lower now g g'" and "\<forall>h. lower (lower h) = lower h" and "keys_fixed lower g"
  shows "keys_fixed lower g'"
  using assms
proof (induction rule: gov_step.induct)
  case (slot host g r g')
  then show ?case by (auto simp: acquire_slot_def Let_def keys_fixed_put split: if_splits)
next
  case (tried host g b g')
  then show ?case by (auto simp: try_acquire_def Let_def keys_fixed_put split: if_splits)
next
  case (sweep g)
  have "fst ` set (g_hosts (maybe_evict now g)) \<subseteq> fst ` set (g_hosts g)" by (auto simp: maybe_evict_def Let_def)
  with sweep show ?case by (simp add: keys_fixed_subset)
next
  case (jittered g)
  then show ?case by (simp add: jitter_def keys_fixed_def)
next
  case (rewarded g host)
  then show ?case by (simp add: reward_def Let_def keys_fixed_put split: option.split)
next
  case (cleared g host)
  have "fst ` set (g_hosts (snd (clear_host lower host g))) \<subseteq> fst ` set (g_hosts g)"
    by (simp add: clear_host_def dom_delete_subset)
  with cleared show ?case by (simp add: keys_fixed_subset)
qed (simp_all add: penalize_def restore_penalty_def raise_penalty_def Let_def keys_fixed_put)

lemma gov_reach_storable:
  assumes "gov_reach lower g" and lower: "\<forall>h. lower (lower h) = lower h" and "penalty_cap g < from_millis (2 ^ 63)"
  shows "penalties_storable lower g"
proof -
  have keys: "keys_fixed lower g"
    using assms(1)
  proof (induction rule: gov_reach.induct)
    case (new cfg g)
    then show ?case by (auto simp: governor_new_def keys_fixed_def split: option.splits)
  next
    case (step g now g')
    then show ?case using gov_step_keys [OF step(2) lower] by blast
  qed
  have d: "distinct (map fst (g_hosts g))" by (rule gov_reach_distinct [OF assms(1)])
  have "as_millis (hs_penalty s) < 2 ^ 63" if "(k, s) \<in> set (g_hosts g)" for k s
  proof -
    from that d keys have "penalty_of lower k g = hs_penalty s" by (force simp: penalty_of_def keys_fixed_def)
    with gov_reach_penalty [OF assms(1), of k] assms(3) have "hs_penalty s < 2 ^ 63 * 1000000"
      by (simp add: from_millis_def)
    then show ?thesis unfolding as_millis_def by (rule less_mult_imp_div_less)
  qed
  with d keys show ?thesis by (auto simp: penalties_storable_def keys_fixed_def)
qed


lemma restore_after_persist:
  assumes g: "penalties_storable lower g" and rows: "hosts_ok rows" and recent: "not_before (stale_cutoff ttl later) now"
    and boot: "g_hosts boot = []"
  shows "penalty_of lower host
      (restore_host_penalties lower ttl later clock (persist_host_penalties lower now g rows) boot) =
    from_millis (as_millis (penalty_of lower host g))"
proof -
  let ?rows = "persist_host_penalties lower now g rows" and ?cut = "stale_cutoff ttl later"
  have same: "map hm_host (update_where p (\<lambda>r. r\<lparr>penalty_ms := 0, penalty_updated_at := Some now\<rparr>) rows) = map hm_host rows" for p
    by (rule map_update_where_same) simp
  have ok: "hosts_ok ?rows"
    unfolding persist_host_penalties_def persist_penalty_snapshot_def
    by (rule hosts_ok_penalties) (use rows in \<open>simp add: hosts_ok_def same\<close>)
  have loaded: "map_of (load_penalties ttl later ?rows) h =
      (case map_of (g_hosts g) h of
         Some s \<Rightarrow> if as_millis (hs_penalty s) = 0 then None else Some (as_millis (hs_penalty s)) | None \<Rightarrow> None)" for h
    using stored_after_persist [OF g, where now = now and rows = rows and h = h] recent
    by (auto simp: load_penalties_map(2) [OF ok] penalty_is_restorable_def split: prod.splits if_splits option.splits)
  have "lower (fst p) = fst p \<and> 0 < snd p" if p: "p \<in> set (load_penalties ttl later ?rows)" for p
  proof -
    have "map_of (load_penalties ttl later ?rows) (fst p) = Some (snd p)"
      using load_penalties_map(1) [OF ok] p by simp
    with loaded [of "fst p"] obtain s where s: "map_of (g_hosts g) (fst p) = Some s" and "0 < snd p"
      by (auto split: option.splits if_splits)
    then show ?thesis using g map_of_SomeD [OF s] by (auto simp: penalties_storable_def)
  qed
  then have "penalty_of lower host (restore_host_penalties lower ttl later clock ?rows boot) =
      (case map_of (load_penalties ttl later ?rows) (lower host) of
         Some ms \<Rightarrow> from_millis ms | None \<Rightarrow> penalty_of lower host boot)"
    unfolding restore_host_penalties_def by (intro restore_fold load_penalties_map(1) [OF ok]) blast
  then show ?thesis
    by (simp add: loaded penalty_of_def boot from_millis_def as_millis_def split: option.split)
qed




section \<open>What a history of fetches teaches\<close>

text \<open>
  The lessons of a host, newest first. Those that say the http tier was not lost end a streak of
  strikes.
\<close>

definition ends_streak :: "TierLesson \<Rightarrow> bool" where
  "ends_streak l \<longleftrightarrow> l = HttpWorks \<or> l = ApiRecipeWorks"

definition streak :: "TierLesson list \<Rightarrow> TierLesson list" where
  "streak = takeWhile (\<lambda>l. \<not> ends_streak l)"

definition strikes_of :: "TierLesson list \<Rightarrow> nat" where
  "strikes_of ls = length (filter (\<lambda>l. l = HttpStrike) (streak ls))"

definition recipe_serves :: "TierLesson list \<Rightarrow> bool" where
  "recipe_serves ls \<longleftrightarrow>
     PageTierServed \<notin> set (streak ls) \<and>
     (case dropWhile (\<lambda>l. \<not> ends_streak l) ls of [] \<Rightarrow> False | l # _ \<Rightarrow> l = ApiRecipeWorks)"

definition learned_pin :: "TierLesson list \<Rightarrow> string option" where
  "learned_pin ls =
     (if 3 \<le> strikes_of ls then Some PREFERRED_BROWSER
      else if recipe_serves ls then Some PREFERRED_API_RECIPE else None)"

lemma strikes_of_simps [simp]:
  "strikes_of [] = 0"
  "strikes_of (HttpWorks # ls) = 0"
  "strikes_of (ApiRecipeWorks # ls) = 0"
  "strikes_of (HttpStrike # ls) = Suc (strikes_of ls)"
  "strikes_of (PageTierServed # ls) = strikes_of ls"
  by (simp_all add: strikes_of_def streak_def ends_streak_def)

lemma recipe_serves_simps [simp]:
  "\<not> recipe_serves []"
  "\<not> recipe_serves (HttpWorks # ls)"
  "recipe_serves (ApiRecipeWorks # ls)"
  "recipe_serves (HttpStrike # ls) \<longleftrightarrow> recipe_serves ls"
  "\<not> recipe_serves (PageTierServed # ls)"
  by (simp_all add: recipe_serves_def streak_def ends_streak_def)

type_synonym fetch_outcome = "time \<times> string \<times> string \<times> bool"

definition record_fetch :: "(string \<Rightarrow> string) \<Rightarrow> nat \<Rightarrow> fetch_outcome \<Rightarrow> host_row list \<Rightarrow> host_row list" where
  "record_fetch lower ttl e rows =
     (case e of (now, host, winner, http_lost) \<Rightarrow> record_outcome lower ttl now host winner http_lost rows)"

fun host_lessons :: "(string \<Rightarrow> string) \<Rightarrow> string \<Rightarrow> fetch_outcome list \<Rightarrow> TierLesson list" where
  "host_lessons lower h [] = []"
| "host_lessons lower h ((now, host, winner, http_lost) # es) =
     host_lessons lower h es @ (if lower host = h then [tier_lesson winner http_lost] else [])"

lemma host_lessons_snoc: "host_lessons lower h (es @ [(now, host, winner, http_lost)]) =
    (if lower host = h then [tier_lesson winner http_lost] else []) @ host_lessons lower h es"
  by (induction es) auto

lemma hosts_ok_record: "hosts_ok rows \<Longrightarrow> hosts_ok (record_fetch lower ttl e rows)"
proof (cases e)
  case (fields now host winner http_lost)
  assume ok: "hosts_ok rows"
  have "map hm_host (update_where p (\<lambda>r. r\<lparr>hm_preferred := None, hm_updated_at := now\<rparr>) rows) = map hm_host rows" for p
    by (rule map_update_where_same) simp
  with ok fields show ?thesis
    by (cases "tier_lesson winner http_lost")
      (simp_all add: record_fetch_def record_outcome_def Let_def hosts_ok_upsert strike_set_def, simp add: hosts_ok_def)
qed

text \<open>The row of the host after a history in which nothing ages.\<close>

definition row_learned :: "TierLesson list \<Rightarrow> time set \<Rightarrow> host_row option \<Rightarrow> bool" where
  "row_learned ls ts row \<longleftrightarrow>
     (case row of
        None \<Rightarrow> strikes_of ls = 0 \<and> \<not> recipe_serves ls
      | Some r \<Rightarrow> http_strikes r = int (strikes_of ls) \<and> hm_preferred r = learned_pin ls \<and> hm_updated_at r \<in> ts)"

lemma record_fetch_learned:
  assumes "row_learned ls ts (host_lookup rows h)" and "\<forall>t\<in>ts. not_before (stale_cutoff ttl now) t"
  shows "row_learned ((if lower host = h then [tier_lesson winner http_lost] else []) @ ls) (insert now ts)
      (host_lookup (record_fetch lower ttl (now, host, winner, http_lost) rows) h)"
proof (cases "lower host = h")
  case True
  note simps = record_fetch_def record_outcome_def Let_def host_lookup_upsert host_lookup_update row_learned_def
    host_row_new_def learned_pin_def strike_set_def STRIKE_LIMIT_def PREFERRED_BROWSER_def PREFERRED_API_RECIPE_def
  show ?thesis
  proof (cases "host_lookup rows h")
    case None
    with True assms show ?thesis by (cases "tier_lesson winner http_lost") (simp_all add: simps)
  next
    case (Some r)
    with True assms host_lookup_host [OF Some] show ?thesis
      by (cases "tier_lesson winner http_lost") (simp_all add: simps)
  qed
next
  case False
  then have "host_lookup (record_fetch lower ttl (now, host, winner, http_lost) rows) h = host_lookup rows h"
    by (cases "tier_lesson winner http_lost"; cases "host_lookup rows h")
      (use host_lookup_host in \<open>auto simp: record_fetch_def record_outcome_def Let_def host_lookup_upsert host_lookup_update
          host_row_new_def strike_set_def\<close>)
  with assms(1) False show ?thesis by (auto simp: row_learned_def split: option.splits)
qed


lemma not_before_earlier:
  "not_before (stale_cutoff ttl now) t \<Longrightarrow> now' \<le> now \<Longrightarrow> not_before (stale_cutoff ttl now') t"
  by (simp add: not_before_def stale_cutoff_def split: if_splits)

lemma history_learned:
  assumes "host_lookup rows h = None" and "sorted (map fst es)"
    and "\<forall>e\<in>set es. fst e \<le> now \<and> not_before (stale_cutoff ttl now) (fst e)"
  shows "row_learned (host_lessons lower h es) (fst ` set es) (host_lookup (fold (record_fetch lower ttl) es rows) h)"
  using assms(2,3)
proof (induction es rule: rev_induct)
  case Nil
  then show ?case using assms(1) by (simp add: row_learned_def)
next
  case (snoc e es)
  obtain t host winner http_lost where e: "e = (t, host, winner, http_lost)" by (cases e)
  have "row_learned (host_lessons lower h es) (fst ` set es) (host_lookup (fold (record_fetch lower ttl) es rows) h)"
    by (rule snoc.IH) (use snoc.prems in \<open>auto simp: sorted_append\<close>)
  moreover have "\<forall>t'\<in>fst ` set es. not_before (stale_cutoff ttl t) t'"
    using snoc.prems(2) e by (auto intro: not_before_earlier)
  ultimately show ?case using record_fetch_learned [of _ "fst ` set es" _ h ttl t lower host winner http_lost]
    by (simp add: e host_lessons_snoc)
qed

lemma preferred_tier_lookup:
  assumes "hosts_ok rows"
  shows "preferred_tier lower ttl now host rows =
    (case host_lookup rows (lower host) of
       Some r \<Rightarrow> if not_before (stale_cutoff ttl now) (hm_updated_at r) then hm_preferred r else None | None \<Rightarrow> None)"
  using assms
proof (induction rows)
  case (Cons r rows)
  have none: "find (\<lambda>r. hm_host r = h \<and> Q r) rows = None" if "host_lookup rows h = None" for h Q
    using that by (auto simp: host_lookup_None find_None_iff)
  from Cons show ?case by (auto simp: hosts_ok_Cons preferred_tier_def none)
qed (simp add: preferred_tier_def)

text \<open>
  What the router believes of a host is decided by the order of its fetches. Starting with no
  row, after any history of fetches of any hosts within one aging horizon, a fetch starts at the
  browser exactly when at least three http losses have followed the last http or recipe win; it
  starts at the recipe exactly when there are fewer, that last win was a recipe's, and no page tier
  has served without an http attempt since; and otherwise at the cheap tier.
\<close>

theorem tier_learning_history:
  assumes "hosts_ok rows" and "host_lookup rows (lower host) = None" and "sorted (map fst es)"
    and "\<forall>e\<in>set es. fst e \<le> now \<and> not_before (stale_cutoff ttl now) (fst e)"
  shows "preferred_tier lower ttl now host (fold (record_fetch lower ttl) es rows) =
    learned_pin (host_lessons lower (lower host) es)"
proof -
  have ok: "hosts_ok (fold (record_fetch lower ttl) es rows)"
    using assms(1) by (induction es arbitrary: rows) (simp_all add: hosts_ok_record)
  have "row_learned (host_lessons lower (lower host) es) (fst ` set es)
      (host_lookup (fold (record_fetch lower ttl) es rows) (lower host))"
    by (rule history_learned [OF assms(2-4)])
  with assms(4) show ?thesis
    by (auto simp: preferred_tier_lookup [OF ok] row_learned_def learned_pin_def split: option.splits)
qed

text \<open>Three losses with another host between them pin the browser; a page served by it keeps the pin.\<close>

theorem tier_learning_history_witness:
  "preferred_tier id 100 9 ''a'' (fold (record_fetch id 100)
     [(1, ''a'', ''api_recipe'', False), (2, ''a'', ''browser'', True), (3, ''b'', ''http'', False),
      (4, ''a'', ''browser'', True), (5, ''a'', ''claude'', True), (6, ''a'', ''browser'', False)] []) =
   Some ''browser''"
proof -
  let ?es = "[(1 :: int, ''a'', ''api_recipe'', False), (2, ''a'', ''browser'', True), (3, ''b'', ''http'', False),
      (4, ''a'', ''browser'', True), (5, ''a'', ''claude'', True), (6, ''a'', ''browser'', False)]"
  have "\<forall>e\<in>set ?es. fst e \<le> 9 \<and> not_before (stale_cutoff 100 9) (fst e)"
    by (simp add: not_before_def stale_cutoff_def micros_per_sec_def)
  from tier_learning_history [OF _ _ _ this, of "[]" id "''a''"] show ?thesis
    by (simp add: hosts_ok_def learned_pin_def tier_lesson_def PREFERRED_API_RECIPE_def PREFERRED_BROWSER_def)
qed

text \<open>
  Past the horizon a pin is not read, and one more loss does not renew it: the host starts over with
  a single strike.
\<close>

lemma stale_pin_starts_over:
  assumes "hosts_ok rows" and "host_lookup rows (lower host) = Some r" and "\<not> not_before (stale_cutoff ttl now) (hm_updated_at r)"
    and "tier_lesson winner http_lost = HttpStrike"
  shows "preferred_tier lower ttl now host rows = None"
    and "\<exists>r'. host_lookup (record_outcome lower ttl now host winner http_lost rows) (lower host) = Some r' \<and>
      http_strikes r' = 1 \<and> hm_preferred r' = None"
  using assms by (simp_all add: preferred_tier_lookup record_outcome_def Let_def host_lookup_upsert host_row_new_def strike_set_def)


section \<open>An import only adds caution\<close>

definition row_raised :: "host_row \<Rightarrow> host_row \<Rightarrow> bool" where
  "row_raised r r' \<longleftrightarrow>
     http_strikes r \<le> http_strikes r' \<and> penalty_ms r \<le> penalty_ms r' \<and> observations r' = observations r \<and>
     (hm_preferred r' = hm_preferred r \<or> hm_preferred r = None \<and> hm_preferred r' = Some PREFERRED_BROWSER)"

definition lookup_raised :: "host_row option \<Rightarrow> host_row option \<Rightarrow> bool" where
  "lookup_raised a b \<longleftrightarrow>
     (case a of None \<Rightarrow> True | Some r \<Rightarrow> (case b of None \<Rightarrow> False | Some r' \<Rightarrow> row_raised r r'))"

lemma lookup_raised_refl [simp]: "lookup_raised a a"
  by (simp add: lookup_raised_def row_raised_def split: option.split)

lemma lookup_raised_trans: "lookup_raised a b \<Longrightarrow> lookup_raised b c \<Longrightarrow> lookup_raised a c"
  by (cases a; cases b; cases c) (auto simp: lookup_raised_def row_raised_def)

text \<open>What a plan may assume of the row it is applied to.\<close>

definition plan_fits :: "host_row option \<Rightarrow> WeatherPlan \<Rightarrow> bool" where
  "plan_fits row p \<longleftrightarrow>
     (case row of None \<Rightarrow> True | Some r \<Rightarrow>
        (adopt_pin p \<longrightarrow> hm_preferred r = None) \<and>
        (case raise_penalty_ms p of None \<Rightarrow> True | Some ms \<Rightarrow> penalty_ms r \<le> int ms))"

lemma apply_weather_lookup_other: "h \<noteq> wp_host p \<Longrightarrow> host_lookup (apply_weather now p rows) h = host_lookup rows h"
  by (simp add: apply_weather_def host_lookup_upsert host_row_new_def split: option.split)

lemma apply_weather_raises:
  assumes "plan_fits (host_lookup rows (wp_host p)) p"
  shows "lookup_raised (host_lookup rows h) (host_lookup (apply_weather now p rows) h)"
proof (cases "h = wp_host p")
  case True
  with assms show ?thesis
    by (cases "host_lookup rows h"; cases "raise_strikes p")
      (auto simp: apply_weather_def host_lookup_upsert host_row_new_def plan_fits_def lookup_raised_def row_raised_def)
qed (simp add: apply_weather_lookup_other)

lemma apply_weather_penalty:
  "stored_penalty (apply_weather now p rows) h = stored_penalty rows h"
  by (simp add: apply_weather_def stored_penalty_def host_lookup_upsert host_row_new_def split: option.split)

lemma apply_all_raises:
  assumes "distinct (map wp_host ps)" and "\<forall>p\<in>set ps. plan_fits (host_lookup rows (wp_host p)) p"
  shows "lookup_raised (host_lookup rows h) (host_lookup (fold (apply_weather now) ps rows) h) \<and>
    stored_penalty (fold (apply_weather now) ps rows) h = stored_penalty rows h"
  using assms
proof (induction ps arbitrary: rows)
  case (Cons p ps)
  let ?rows = "apply_weather now p rows"
  have "plan_fits (host_lookup ?rows (wp_host q)) q" if "q \<in> set ps" for q
  proof -
    from that Cons.prems(1) have "wp_host q \<noteq> wp_host p" by (auto simp: image_iff)
    with that Cons.prems(2) show ?thesis by (simp add: apply_weather_lookup_other)
  qed
  with Cons.IH [of ?rows] Cons.prems
  have "lookup_raised (host_lookup ?rows h) (host_lookup (fold (apply_weather now) ps ?rows) h)"
    "stored_penalty (fold (apply_weather now) ps ?rows) h = stored_penalty ?rows h" by simp_all
  moreover have "lookup_raised (host_lookup rows h) (host_lookup ?rows h)"
    using Cons.prems(2) by (intro apply_weather_raises) simp
  ultimately show ?case by (simp add: apply_weather_penalty) (blast intro: lookup_raised_trans)
qed simp

lemma upsert_penalty_raises:
  assumes "fst (stored_penalty rows (lower (fst p))) \<le> int (min (snd p) (2 ^ 63 - 1))"
  shows "lookup_raised (host_lookup rows h) (host_lookup (upsert_penalty lower now p rows) h)"
  using assms
  by (auto simp: upsert_penalty_def Let_def host_lookup_upsert host_row_new_def lookup_raised_def row_raised_def
      stored_penalty_def split: option.splits)

lemma save_penalties_raises:
  assumes "distinct (map fst ps)"
    and "\<forall>p\<in>set ps. lower (fst p) = fst p \<and> fst (stored_penalty rows (fst p)) \<le> int (snd p) \<and> snd p < 2 ^ 63"
  shows "lookup_raised (host_lookup rows h) (host_lookup (save_penalties lower now ps rows) h)"
  using assms
proof (induction ps arbitrary: rows)
  case Nil
  then show ?case by (simp add: save_penalties_def)
next
  case (Cons p ps)
  let ?rows = "upsert_penalty lower now p rows"
  have "stored_penalty ?rows (fst q) = stored_penalty rows (fst q)" if "q \<in> set ps" for q
  proof -
    from that Cons.prems(1) have "fst q \<noteq> fst p" by (auto simp: image_iff)
    with Cons.prems(2) show ?thesis by (simp add: stored_penalty_upsert)
  qed
  with Cons.IH [of ?rows] Cons.prems
  have "lookup_raised (host_lookup ?rows h) (host_lookup (save_penalties lower now ps ?rows) h)" by simp
  moreover have "lookup_raised (host_lookup rows h) (host_lookup ?rows h)"
    using Cons.prems(2) by (intro upsert_penalty_raises) (simp add: min_def)
  ultimately show ?case by (simp add: save_penalties_def) (blast intro: lookup_raised_trans)
qed


definition plan_ok :: "(string \<Rightarrow> string) \<Rightarrow> host_row list \<Rightarrow> WeatherPlan \<Rightarrow> bool" where
  "plan_ok lower rows p \<longleftrightarrow>
     lower (wp_host p) = wp_host p \<and> plan_fits (host_lookup rows (wp_host p)) p \<and>
     (case raise_penalty_ms p of Some ms \<Rightarrow> ms \<le> WEATHER_IMPORT_PENALTY_CAP_MS | None \<Rightarrow> True)"

lemma plan_weather_import_ok:
  assumes "lower (lower (we_host e)) = lower (we_host e)"
  shows "plan_ok lower rows (plan_weather_import lower (host_lookup rows (lower (we_host e))) live e)"
  using assms
  by (cases "host_lookup rows (lower (we_host e))")
    (simp_all add: plan_ok_def plan_fits_def plan_weather_import_def Let_def max_def min_def, linarith)

lemma weather_plans_ok:
  assumes "weather_plans lower rows g seen es = Some ps" and "\<forall>e\<in>set es. trim (we_host e) = we_host e"
    and lower: "\<forall>h. lower (lower h) = lower h"
  shows "distinct (map wp_host ps) \<and> (\<forall>p\<in>set ps. wp_host p \<notin> set seen \<and> plan_ok lower rows p)"
  using assms(1,2)
proof (induction es arbitrary: seen ps)
  case (Cons e es)
  let ?host = "lower (we_host e)"
  let ?p = "plan_weather_import lower (tier_get lower ?host rows) (min (as_millis (penalty_of lower ?host g)) (2 ^ 64 - 1)) e"
  have "trim (we_host e) = we_host e" using Cons.prems(2) by simp
  then consider "?host \<in> set seen" "weather_plans lower rows g seen es = Some ps"
    | qs where "?host \<notin> set seen" "weather_plans lower rows g (?host # seen) es = Some qs" "ps = qs \<or> ps = ?p # qs"
    using Cons.prems(1) by (auto simp: Let_def split: if_splits)
  then show ?case
  proof cases
    case 1
    with Cons show ?thesis by simp
  next
    case 2
    have "tier_get lower ?host rows = host_lookup rows ?host" using lower by (simp add: tier_get_def host_lookup_def)
    then have "plan_ok lower rows ?p" using plan_weather_import_ok lower by metis
    moreover have "wp_host ?p = ?host" by (simp add: plan_weather_import_def Let_def)
    moreover have "distinct (map wp_host qs)" "\<forall>p\<in>set qs. wp_host p \<notin> set (?host # seen) \<and> plan_ok lower rows p"
      using Cons.IH [OF 2(2)] Cons.prems(2) by auto
    moreover from this(2) have "?host \<notin> wp_host ` set qs" by auto
    ultimately show ?thesis using 2 by (elim disjE) simp_all
  qed
qed simp

lemma fold_apply_plan:
  "fst (fold (apply_plan lower now clock) ps s) = fold (apply_weather now) ps (fst s)"
  by (induction ps arbitrary: s) (simp_all add: apply_plan_def)

lemma raise_penalty_of:
  "penalty_of lower host (snd (raise_penalty lower host' p now g)) =
     (if lower host = lower host' then max (penalty_of lower host g) (min p (penalty_cap g)) else penalty_of lower host g)"
proof -
  have "penalty_of lower host' g = penalty_of lower host g" if "lower host = lower host'"
    using that by (simp add: penalty_of_def)
  then show ?thesis by (auto simp: raise_penalty_def Let_def penalty_of_put penalty_of_entry)
qed

lemma apply_plans_penalty:
  assumes "\<forall>p\<in>set ps. case raise_penalty_ms p of Some ms \<Rightarrow> ms \<le> m | None \<Rightarrow> True"
  shows "penalty_of lower host (snd s) \<le> penalty_of lower host (snd (fold (apply_plan lower now clock) ps s)) \<and>
    penalty_of lower host (snd (fold (apply_plan lower now clock) ps s)) \<le> max (penalty_of lower host (snd s)) (from_millis m)"
  using assms
proof (induction ps arbitrary: s)
  case (Cons p ps)
  let ?s = "apply_plan lower now clock p s"
  have "penalty_of lower host (snd s) \<le> penalty_of lower host (snd ?s)"
    "penalty_of lower host (snd ?s) \<le> max (penalty_of lower host (snd s)) (from_millis m)"
    using Cons.prems by (auto simp: apply_plan_def raise_penalty_of from_millis_def split: option.splits)
  with Cons.IH [of ?s] Cons.prems show ?case by (simp add: max_def split: if_splits)
qed simp


lemma map_filter_fst: "map fst (List.map_filter (\<lambda>p. map_option (\<lambda>ms. (f p, ms)) (v p)) ps) = map f (filter (\<lambda>p. v p \<noteq> None) ps)"
  by (induction ps) (auto simp: List.map_filter_simps)

lemma distinct_map_of_filter: "distinct (map f xs) \<Longrightarrow> distinct (map f (filter P xs))"
  by (simp add: distinct_map inj_on_def)

text \<open>
  Importing what another node has learned only adds caution. For every host, known here or not,
  the live penalty does not fall and rises to a minute at most; a stored row keeps its evidence
  count, loses no strike and no persisted penalty, and keeps its pin: only an unpinned host can
  become pinned, and only to the browser.
\<close>

theorem weather_import_only_raises:
  assumes "import_weather lower now clock entries (rows, g) = Some (rows', g')"
    and trimmed: "\<forall>e\<in>set entries. trim (we_host e) = we_host e" and lower: "\<forall>h. lower (lower h) = lower h"
  shows "penalty_of lower host g \<le> penalty_of lower host g' \<and>
    penalty_of lower host g' \<le> max (penalty_of lower host g) (from_millis 60000) \<and>
    (case host_lookup rows h of None \<Rightarrow> True | Some r \<Rightarrow>
       (\<exists>r'. host_lookup rows' h = Some r' \<and> http_strikes r \<le> http_strikes r' \<and> penalty_ms r \<le> penalty_ms r' \<and>
          observations r' = observations r \<and>
          (hm_preferred r' = hm_preferred r \<or> hm_preferred r = None \<and> hm_preferred r' = Some PREFERRED_BROWSER)))"
proof -
  obtain ps where ps: "weather_plans lower rows g [] entries = Some ps"
    and res: "rows' = save_penalties lower now
        (List.map_filter (\<lambda>p. map_option (\<lambda>ms. (wp_host p, ms)) (raise_penalty_ms p)) ps)
        (fst (fold (apply_plan lower now clock) ps (rows, g)))"
      "g' = snd (fold (apply_plan lower now clock) ps (rows, g))"
    using assms(1) by (auto simp: import_weather_def case_prod_beta Let_def split: option.splits if_splits)
  let ?rows = "fold (apply_weather now) ps rows"
  let ?pen = "List.map_filter (\<lambda>p. map_option (\<lambda>ms. (wp_host p, ms)) (raise_penalty_ms p)) ps"
  have d: "distinct (map wp_host ps)" and ok: "\<forall>p\<in>set ps. plan_ok lower rows p"
    using weather_plans_ok [OF ps trimmed lower] by auto
  then have "\<forall>p\<in>set ps. plan_fits (host_lookup rows (wp_host p)) p" by (simp add: plan_ok_def)
  note applied = apply_all_raises [OF d this]
  have "lookup_raised (host_lookup ?rows h) (host_lookup (save_penalties lower now ?pen ?rows) h)"
  proof (rule save_penalties_raises)
    show "distinct (map fst ?pen)" unfolding map_filter_fst by (rule distinct_map_of_filter [OF d])
    show "\<forall>q\<in>set ?pen. lower (fst q) = fst q \<and> fst (stored_penalty ?rows (fst q)) \<le> int (snd q) \<and> snd q < 2 ^ 63"
    proof
      fix q assume "q \<in> set ?pen"
      then obtain p where p: "p \<in> set ps" "fst q = wp_host p" "raise_penalty_ms p = Some (snd q)"
        by (auto simp: List.map_filter_def)
      with ok have "plan_ok lower rows p" by blast
      with p applied show "lower (fst q) = fst q \<and> fst (stored_penalty ?rows (fst q)) \<le> int (snd q) \<and> snd q < 2 ^ 63"
        by (auto simp: plan_ok_def plan_fits_def stored_penalty_def WEATHER_IMPORT_PENALTY_CAP_MS_def split: option.splits)
    qed
  qed
  with applied have "lookup_raised (host_lookup rows h) (host_lookup rows' h)"
    unfolding res by (simp add: fold_apply_plan) (blast intro: lookup_raised_trans)
  moreover have "\<forall>p\<in>set ps. case raise_penalty_ms p of Some ms \<Rightarrow> ms \<le> 60000 | None \<Rightarrow> True"
    using ok unfolding plan_ok_def WEATHER_IMPORT_PENALTY_CAP_MS_def by blast
  ultimately show ?thesis
    using apply_plans_penalty [of ps 60000 lower host "(rows, g)" now clock]
    by (auto simp: res lookup_raised_def row_raised_def split: option.splits)
qed


text \<open>
  A bundle that is severe about a host this node has pinned to a recipe and about one it has never
  fetched.
\<close>

definition demo_bundle :: "WeatherEntry list" where
  "demo_bundle =
     [\<lparr>we_host = ''a'', we_preferred_tier = Some ''browser'', we_http_strikes = 9, we_penalty_ms = 900000, we_observations = 50\<rparr>,
      \<lparr>we_host = ''b'', we_preferred_tier = Some ''browser'', we_http_strikes = 9, we_penalty_ms = 0, we_observations = 50\<rparr>]"

lemmas weather_eval = import_weather_def demo_bundle_def MAX_IMPORT_ENTRIES_def plan_weather_import_def tier_get_def
  penalty_of_def demo_governor_def host_row_new_def PREFERRED_BROWSER_def PREFERRED_API_RECIPE_def STRIKE_LIMIT_def
  WEATHER_IMPORT_PENALTY_CAP_MS_def as_millis_def plan_is_noop_def

theorem weather_import_only_raises_witness:
  "let (rows', g') = the (import_weather id 5 7 demo_bundle ([host_row_new ''a'' 0 (Some ''api_recipe'') 1 4], demo_governor))
   in map_option hm_preferred (host_lookup rows' ''a'') = Some (Some ''api_recipe'') \<and>
      penalty_of id ''a'' g' \<le> from_millis 60000"
proof -
  let ?rows = "[host_row_new ''a'' 0 (Some ''api_recipe'') 1 4]"
  have "trim ''a'' = ''a''" "trim ''b'' = ''b''" by code_simp+
  then have t: "\<forall>e\<in>set demo_bundle. trim (we_host e) = we_host e" by (simp add: demo_bundle_def)
  then have "import_weather id 5 7 demo_bundle (?rows, demo_governor) \<noteq> None"
    by (simp add: weather_eval Let_def case_prod_beta split: option.split)
  then obtain rows' g' where i: "import_weather id 5 7 demo_bundle (?rows, demo_governor) = Some (rows', g')" by auto
  have "penalty_of id ''a'' demo_governor = 0" "hm_preferred (hd ?rows) = Some ''api_recipe''"
    "host_lookup ?rows ''a'' = Some (hd ?rows)"
    by (simp_all add: host_row_new_def penalty_of_def demo_governor_def)
  with weather_import_only_raises [OF i t, of "''a''" "''a''"]
  have "map_option hm_preferred (host_lookup rows' ''a'') = Some (Some ''api_recipe'') \<and>
      penalty_of id ''a'' g' \<le> from_millis 60000" by auto
  then show ?thesis unfolding i by simp
qed

end
