(* ===== verification/Event_Bus.thy ===== *)
theory Event_Bus
  imports Prelude "HOL-Library.Multiset"
begin

text \<open>
  The event bus of \<open>crates/server/src/events.rs\<close>, its durable log
  (\<open>crates/core/src/storage.rs\<close>) and the resume of an event stream
  (\<open>crates/server/src/routes/events.rs\<close>). A sequence id is a natural number: the code counts in 64
  bits, from the highest id of the log. \<open>emit\<close> runs under the lock of the ring and is one step;
  the flush of the queue is three, because the queue is unlocked while the store works. The
  broadcast to live subscribers is the list of the stamped events, in the order of their ids.
\<close>

section \<open>Events\<close>

record JobStages =
  st_attempt :: int
  run_ms :: "int option"
  index_ms :: "int option"
  hooks_ms :: "int option"
  alerts_ms :: "int option"
  total_ms :: "int option"

record JobEvent =
  je_job_id :: uuid
  je_app :: string
  je_status :: string
  je_result :: "json option"
  je_error :: "string option"
  je_stages :: "JobStages option"
  je_subject :: "string option"

text \<open>
  The derived serialization of an event and the library functions on JSON values: the value of an
  event (\<open>Inl\<close> the error), the event of a value, the length of the text of a value, a JSON pointer,
  and the text of an id.
\<close>

record event_codec =
  to_value :: "JobEvent \<Rightarrow> string + json"
  from_value :: "json \<Rightarrow> JobEvent option"
  json_len :: "json \<Rightarrow> nat"
  json_pointer :: "json \<Rightarrow> string \<Rightarrow> json option"
  uuid_text :: "uuid \<Rightarrow> string"

definition job_event_new :: "uuid \<Rightarrow> string \<Rightarrow> string \<Rightarrow> JobEvent" where
  "job_event_new job_id app status =
     \<lparr>je_job_id = job_id, je_app = app, je_status = status, je_result = None, je_error = None,
      je_stages = None, je_subject = None\<rparr>"

definition job_event_domain :: "string \<Rightarrow> string \<Rightarrow> string \<Rightarrow> json \<Rightarrow> JobEvent" where
  "job_event_domain kind app subject_id payload =
     \<lparr>je_job_id = replicate 16 0, je_app = app, je_status = kind, je_result = Some payload, je_error = None,
      je_stages = None, je_subject = Some subject_id\<rparr>"

definition job_event_external :: "uuid \<Rightarrow> string \<Rightarrow> json \<Rightarrow> JobEvent" where
  "job_event_external event_id source payload =
     \<lparr>je_job_id = event_id, je_app = source, je_status = ''external'', je_result = Some payload, je_error = None,
      je_stages = None, je_subject = None\<rparr>"

definition event_kind :: "JobEvent \<Rightarrow> string" where
  "event_kind event =
     (if je_status event = ''external'' then ''external''
      else if CHR ''.'' \<in> set (je_status event) then je_status event
      else ''job.'' @ je_status event)"

definition event_subject :: "event_codec \<Rightarrow> JobEvent \<Rightarrow> string" where
  "event_subject cd event = (case je_subject event of Some s \<Rightarrow> s | None \<Rightarrow> uuid_text cd (je_job_id event))"

definition approx_bytes :: "event_codec \<Rightarrow> JobEvent \<Rightarrow> nat" where
  "approx_bytes cd event = (case je_result event of Some v \<Rightarrow> json_len cd v | None \<Rightarrow> 0)"

definition DEFAULT_MAX_RING_BYTES :: nat where
  "DEFAULT_MAX_RING_BYTES = 32 * 1024 * 1024"

definition PROGRESS_KIND :: string where
  "PROGRESS_KIND = ''job.progress''"

section \<open>The bus\<close>

type_synonym SeqEvent = "nat \<times> JobEvent"

datatype Replay = Reset | Events "SeqEvent list"

record Buffered =
  bf_event :: SeqEvent
  bf_bytes :: nat

record NewEvent =
  ne_seq :: int
  ne_kind :: string
  ne_app :: string
  ne_subject_id :: string
  ne_payload :: json

record EventBus =
  eb_seq :: nat
  eb_deque :: "Buffered list"
  eb_bytes :: nat
  eb_capacity :: nat
  eb_max_bytes :: nat
  eb_pending :: "NewEvent list option"
  pending_capacity :: nat
  dropped_before_persist :: nat
  lifecycle_dropped :: nat

definition with_byte_budget :: "nat \<Rightarrow> nat \<Rightarrow> EventBus" where
  "with_byte_budget ring_capacity max_bytes =
     \<lparr>eb_seq = 0, eb_deque = [], eb_bytes = 0, eb_capacity = max ring_capacity 1, eb_max_bytes = max_bytes,
      eb_pending = None, pending_capacity = 0, dropped_before_persist = 0, lifecycle_dropped = 0\<rparr>"

definition event_bus_new :: "nat \<Rightarrow> EventBus" where
  "event_bus_new ring_capacity = with_byte_budget ring_capacity DEFAULT_MAX_RING_BYTES"

definition with_log :: "nat \<Rightarrow> EventBus \<Rightarrow> EventBus" where
  "with_log cap b = b\<lparr>eb_pending := Some [], pending_capacity := max cap 1\<rparr>"

definition logs :: "EventBus \<Rightarrow> bool" where
  "logs b \<longleftrightarrow> eb_pending b \<noteq> None"

definition seed_seq :: "nat \<Rightarrow> EventBus \<Rightarrow> EventBus" where
  "seed_seq seq b = b\<lparr>eb_seq := max (eb_seq b) seq\<rparr>"

definition pending_len :: "EventBus \<Rightarrow> nat" where
  "pending_len b = (case eb_pending b of Some q \<Rightarrow> length q | None \<Rightarrow> 0)"

definition latest_seq :: "EventBus \<Rightarrow> nat" where
  "latest_seq b = eb_seq b"

text \<open>\<open>VecDeque::remove\<close> at the first position that satisfies a test.\<close>

fun remove_first :: "('a \<Rightarrow> bool) \<Rightarrow> 'a list \<Rightarrow> 'a list" where
  "remove_first P [] = []"
| "remove_first P (x # xs) = (if P x then xs else x # remove_first P xs)"

lemma length_remove_first: "list_ex P xs \<Longrightarrow> Suc (length (remove_first P xs)) = length xs"
  by (induction xs) auto

definition is_progress :: "NewEvent \<Rightarrow> bool" where
  "is_progress e \<longleftrightarrow> ne_kind e = PROGRESS_KIND"

text \<open>
  Making room in the queue: the rest of it, how many were dropped, how many of those were not
  progress, and whether the incoming event may enter.
\<close>

function shed :: "nat \<Rightarrow> bool \<Rightarrow> NewEvent list \<Rightarrow> NewEvent list \<times> nat \<times> nat \<times> bool" where
  "shed cap incoming_progress q =
     (if length q < cap \<or> q = [] then (q, 0, 0, True)
      else if list_ex is_progress q then
        (case shed cap incoming_progress (remove_first is_progress q) of (q', d, l, a) \<Rightarrow> (q', Suc d, l, a))
      else if incoming_progress then (q, 1, 0, False)
      else (case shed cap incoming_progress (tl q) of (q', d, l, a) \<Rightarrow> (q', Suc d, Suc l, a)))"
  by pat_completeness auto
termination by (relation "measure (\<lambda>(_, _, q). length q)") (auto dest: length_remove_first)

declare shed.simps [simp del]

definition log_row :: "event_codec \<Rightarrow> nat \<Rightarrow> JobEvent \<Rightarrow> NewEvent" where
  "log_row cd seq event =
     \<lparr>ne_seq = int seq, ne_kind = event_kind event, ne_app = je_app event, ne_subject_id = event_subject cd event,
      ne_payload = (case to_value cd event of Inr v \<Rightarrow> v | Inl e \<Rightarrow> JObject [(''unserializable'', JString e)])\<rparr>"

definition queue_for_log :: "event_codec \<Rightarrow> nat \<Rightarrow> JobEvent \<Rightarrow> EventBus \<Rightarrow> EventBus" where
  "queue_for_log cd seq event b =
     (case eb_pending b of
        None \<Rightarrow> b
      | Some q \<Rightarrow>
          let (q', d, l, admitted) = shed (pending_capacity b) (event_kind event = PROGRESS_KIND) q
          in b\<lparr>eb_pending := Some (if admitted then q' @ [log_row cd seq event] else q'),
               dropped_before_persist := dropped_before_persist b + d,
               lifecycle_dropped := lifecycle_dropped b + l\<rparr>)"

fun evict_ring :: "nat \<Rightarrow> nat \<Rightarrow> nat \<Rightarrow> Buffered list \<Rightarrow> Buffered list \<times> nat" where
  "evict_ring cap max_bytes bytes [] = ([], bytes)"
| "evict_ring cap max_bytes bytes (old # rest) =
     (if cap < length (old # rest) \<or> (max_bytes < bytes \<and> 1 < length (old # rest))
      then evict_ring cap max_bytes (bytes - bf_bytes old) rest
      else (old # rest, bytes))"

definition emit_event :: "event_codec \<Rightarrow> JobEvent \<Rightarrow> EventBus \<Rightarrow> EventBus \<times> nat" where
  "emit_event cd event b =
     (let bytes = approx_bytes cd event;
          seq = eb_seq b + 1;
          b1 = queue_for_log cd seq event (b\<lparr>eb_seq := seq\<rparr>);
          (deque, sum_bytes) = evict_ring (eb_capacity b) (eb_max_bytes b) (eb_bytes b + bytes)
            (eb_deque b @ [\<lparr>bf_event = (seq, event), bf_bytes = bytes\<rparr>])
      in (b1\<lparr>eb_deque := deque, eb_bytes := sum_bytes\<rparr>, seq))"

definition replay :: "nat \<Rightarrow> EventBus \<Rightarrow> Replay" where
  "replay after b =
     (case eb_deque b of
        [] \<Rightarrow> Events []
      | front # _ \<Rightarrow>
          if min (after + 1) (2 ^ 64 - 1) < fst (bf_event front) then Reset
          else Events (map bf_event (filter (\<lambda>x. after < fst (bf_event x)) (eb_deque b))))"

section \<open>The log\<close>

record EventRecord =
  er_seq :: int
  er_kind :: string
  er_app :: string
  er_subject_id :: string
  er_payload :: json
  er_created_at :: time

definition event_record :: "time \<Rightarrow> NewEvent \<Rightarrow> EventRecord" where
  "event_record now e =
     \<lparr>er_seq = ne_seq e, er_kind = ne_kind e, er_app = ne_app e, er_subject_id = ne_subject_id e,
      er_payload = ne_payload e, er_created_at = now\<rparr>"

definition insert_or_ignore :: "EventRecord \<Rightarrow> EventRecord list \<Rightarrow> EventRecord list" where
  "insert_or_ignore r rows = (if list_ex (\<lambda>x. er_seq x = er_seq r) rows then rows else rows @ [r])"

definition append_events :: "time \<Rightarrow> NewEvent list \<Rightarrow> EventRecord list \<Rightarrow> EventRecord list \<times> nat" where
  "append_events now events rows =
     (let rows' = fold (\<lambda>e. insert_or_ignore (event_record now e)) events rows
      in (rows', length rows' - length rows))"

definition max_event_seq :: "EventRecord list \<Rightarrow> int" where
  "max_event_seq rows = (if rows = [] then 0 else Max (set (map er_seq rows)))"

definition count_events :: "EventRecord list \<Rightarrow> nat" where
  "count_events rows = length rows"

definition events_after ::
  "int \<Rightarrow> string option \<Rightarrow> string option \<Rightarrow> nat \<Rightarrow> EventRecord list \<Rightarrow> EventRecord list" where
  "events_after after kind app limit rows =
     order_limit er_seq limit
       (filter (\<lambda>r. after < er_seq r \<and> (case kind of None \<Rightarrow> True | Some k \<Rightarrow> er_kind r = k) \<and>
                    (case app of None \<Rightarrow> True | Some a \<Rightarrow> er_app r = a)) rows)"

definition prune_events :: "time \<Rightarrow> int \<Rightarrow> EventRecord list \<Rightarrow> EventRecord list \<times> nat" where
  "prune_events now days rows =
     (if days \<le> 0 then (rows, 0)
      else let cutoff = now - days * 86400 * micros_per_sec; kept = filter (\<lambda>r. \<not> er_created_at r < cutoff) rows
           in (kept, length rows - length kept))"

text \<open>The three sections of a flush, and the flush that nothing interrupts.\<close>

definition take_pending :: "EventBus \<Rightarrow> NewEvent list \<times> EventBus" where
  "take_pending b =
     (case eb_pending b of None \<Rightarrow> ([], b) | Some q \<Rightarrow> (q, b\<lparr>eb_pending := Some []\<rparr>))"

definition requeue_batch :: "NewEvent list \<Rightarrow> EventBus \<Rightarrow> EventBus" where
  "requeue_batch batch b =
     (case eb_pending b of
        None \<Rightarrow> b
      | Some q \<Rightarrow>
          let all = batch @ q; over = length all - pending_capacity b
          in b\<lparr>eb_pending := Some (drop over all), dropped_before_persist := dropped_before_persist b + over\<rparr>)"

definition persist_pending :: "bool \<Rightarrow> time \<Rightarrow> EventBus \<times> EventRecord list \<Rightarrow> nat option \<times> EventBus \<times> EventRecord list" where
  "persist_pending store_ok now s =
     (let (batch, b) = take_pending (fst s)
      in if batch = [] then (Some 0, b, snd s)
         else if store_ok then (case append_events now batch (snd s) of (rows, n) \<Rightarrow> (Some n, b, rows))
         else (None, requeue_batch batch b, snd s))"

section \<open>Resuming a stream\<close>

definition MAX_LOG_PAGE :: nat where
  "MAX_LOG_PAGE = 500"

definition MAX_LOG_RESUME :: nat where
  "MAX_LOG_RESUME = 10000"

text \<open>One page of the log; \<open>None\<close> is the reset.\<close>

fun read_page :: "event_codec \<Rightarrow> EventRecord list \<Rightarrow> int \<Rightarrow> SeqEvent list \<Rightarrow> (int \<times> SeqEvent list) option" where
  "read_page cd [] cursor out = Some (cursor, out)"
| "read_page cd (r # page) cursor out =
     (if out = [] \<and> er_seq r \<noteq> cursor + 1 then None
      else let out' = (case from_value cd (er_payload r) of Some event \<Rightarrow> out @ [(nat (er_seq r), event)] | None \<Rightarrow> out)
           in if MAX_LOG_RESUME \<le> length out' then None else read_page cd page (er_seq r) out')"

lemma read_page_cursor: "read_page cd page cursor out = Some (c, out') \<Longrightarrow> page \<noteq> [] \<Longrightarrow> c = er_seq (last page)"
proof (induction page arbitrary: cursor out)
  case (Cons r page)
  then show ?case by (cases "page = []") (auto simp: Let_def split: if_splits option.splits)
qed simp

lemma events_after_mem: "r \<in> set (events_after after kind app n rows) \<Longrightarrow> r \<in> set rows \<and> after < er_seq r"
  using set_order_limit by (fastforce simp: events_after_def)

text \<open>\<open>read_ok cursor\<close> says whether the read from that cursor succeeds.\<close>

function log_walk ::
  "event_codec \<Rightarrow> (int \<Rightarrow> bool) \<Rightarrow> EventRecord list \<Rightarrow> nat \<Rightarrow> int \<Rightarrow> SeqEvent list \<Rightarrow> SeqEvent list option" where
  "log_walk cd read_ok rows missing cursor out =
     (if missing \<le> length out then Some out
      else if \<not> read_ok cursor then None
      else let page = events_after cursor None None MAX_LOG_PAGE rows
           in if page = [] then Some out
              else case read_page cd page cursor out of
                     None \<Rightarrow> None
                   | Some (cursor', out') \<Rightarrow> log_walk cd read_ok rows missing cursor' out')"
  by pat_completeness auto
termination
proof (relation "measure (\<lambda>(_, _, rows, _, cursor, _). length (filter (\<lambda>r. cursor < er_seq r) rows))")
  fix cd read_ok rows missing cursor out page cursor' out' x
  assume page: "page = events_after cursor None None MAX_LOG_PAGE rows" "page \<noteq> []"
    and read: "read_page cd page cursor out = Some x" "(cursor', out') = x"
  have c: "cursor' = er_seq (last page)" using read read_page_cursor page(2) by metis
  have l: "last page \<in> set rows" "cursor < er_seq (last page)"
    using events_after_mem page last_in_set by metis+
  have "length (filter (\<lambda>r. cursor' < er_seq r) (filter (\<lambda>r. cursor < er_seq r) rows)) <
      length (filter (\<lambda>r. cursor < er_seq r) rows)"
    using l by (intro length_filter_less [of "last page"]) (auto simp: c)
  moreover have "filter (\<lambda>r. cursor' < er_seq r) (filter (\<lambda>r. cursor < er_seq r) rows) = filter (\<lambda>r. cursor' < er_seq r) rows"
    using l(2) by (auto simp: c intro: filter_cong)
  ultimately show "((cd, read_ok, rows, missing, cursor', out'), cd, read_ok, rows, missing, cursor, out) \<in>
      measure (\<lambda>(_, _, rows, _, cursor, _). length (filter (\<lambda>r. cursor < er_seq r) rows))" by simp
qed simp

declare log_walk.simps [simp del]

text \<open>\<open>Inl\<close> is the reset, with the latest id.\<close>

definition replay_or_log ::
  "event_codec \<Rightarrow> bool \<Rightarrow> (int \<Rightarrow> bool) \<Rightarrow> time \<Rightarrow> nat \<Rightarrow> EventBus \<times> EventRecord list \<Rightarrow>
   (nat + SeqEvent list) \<times> EventBus \<times> EventRecord list" where
  "replay_or_log cd flush_ok read_ok now after s =
     (let latest = latest_seq (fst s);
          covered = (case replay after (fst s) of
              Events (x # xs) \<Rightarrow> if fst x = after + 1 then Some (x # xs) else None
            | _ \<Rightarrow> None)
      in if latest \<le> after then (Inr [], s)
         else case covered of
                Some events \<Rightarrow> (Inr events, s)
              | None \<Rightarrow>
                  if \<not> logs (fst s) then (Inl latest, s)
                  else let s' = snd (persist_pending flush_ok now s)
                       in (case log_walk cd read_ok (snd s') (latest - after) (int after) [] of
                             None \<Rightarrow> Inl latest
                           | Some events \<Rightarrow> Inr events, s'))"

text \<open>
  A page of the log on request, with the cursor of the next one; \<open>None\<close> is the refusal when the log is
  off. The read is taken to succeed.
\<close>

definition event_log ::
  "bool \<Rightarrow> time \<Rightarrow> int option \<Rightarrow> string option \<Rightarrow> string option \<Rightarrow> int option \<Rightarrow> EventBus \<times> EventRecord list \<Rightarrow>
   (EventRecord list \<times> int option) option \<times> EventBus \<times> EventRecord list" where
  "event_log flush_ok now after kind app limit s =
     (if \<not> logs (fst s) then (None, s)
      else let s' = snd (persist_pending flush_ok now s);
               n = nat (min (max (case limit of Some l \<Rightarrow> l | None \<Rightarrow> 100) 1) (int MAX_LOG_PAGE));
               events = events_after (max (case after of Some a \<Rightarrow> a | None \<Rightarrow> 0) 0) kind app n (snd s')
           in (Some (events, if length events = n \<and> events \<noteq> [] then Some (er_seq (last events)) else None), s'))"

text \<open>What a stream writes: a reset marker or an event.\<close>

datatype sse = SseReset nat | Sse SeqEvent

definition resume_stream :: "(JobEvent \<Rightarrow> bool) \<Rightarrow> nat \<Rightarrow> nat + SeqEvent list \<Rightarrow> sse list \<times> nat" where
  "resume_stream keep last_seq r =
     (case r of
        Inl latest \<Rightarrow> ([SseReset latest], latest)
      | Inr events \<Rightarrow>
          (map Sse (filter (\<lambda>x. keep (snd x)) events), if events = [] then last_seq else fst (last events)))"

text \<open>The connect of a client, and the live loop over the events received from the bus.\<close>

definition connect_stream ::
  "event_codec \<Rightarrow> bool \<Rightarrow> (int \<Rightarrow> bool) \<Rightarrow> time \<Rightarrow> (JobEvent \<Rightarrow> bool) \<Rightarrow> nat option \<Rightarrow> EventBus \<times> EventRecord list \<Rightarrow>
   (sse list \<times> nat) \<times> EventBus \<times> EventRecord list" where
  "connect_stream cd flush_ok read_ok now keep after s =
     (case after of
        None \<Rightarrow> (([], 0), s)
      | Some a \<Rightarrow> (case replay_or_log cd flush_ok read_ok now a s of (r, s') \<Rightarrow> (resume_stream keep a r, s')))"

fun live_events :: "nat \<Rightarrow> SeqEvent list \<Rightarrow> sse list \<times> nat" where
  "live_events last_seq [] = ([], last_seq)"
| "live_events last_seq ((seq, event) # rest) =
     (if seq \<le> last_seq then live_events last_seq rest
      else (case live_events seq rest of (out, final) \<Rightarrow> (Sse (seq, event) # out, final)))"

text \<open>The bus of a process that starts over a log: \<open>None\<close> is a log that could not be read.\<close>

definition EVENT_RING_CAPACITY :: nat where
  "EVENT_RING_CAPACITY = 1024"

definition boot_bus :: "bool \<Rightarrow> nat \<Rightarrow> EventRecord list option \<Rightarrow> EventBus" where
  "boot_bus log_enabled cap stored =
     (let b = event_bus_new EVENT_RING_CAPACITY; b' = (if log_enabled then with_log cap b else b)
      in if logs b' then (case stored of Some rows \<Rightarrow> seed_seq (nat (max_event_seq rows)) b' | None \<Rightarrow> b') else b')"

section \<open>The ring holds the latest events\<close>

fun stamped :: "nat \<Rightarrow> JobEvent list \<Rightarrow> SeqEvent list" where
  "stamped n [] = []"
| "stamped n (e # es) = (Suc n, e) # stamped (Suc n) es"

lemma length_stamp [simp]: "length (stamped n es) = length es"
  by (induction es arbitrary: n) auto

lemma stamp_append: "stamped n (xs @ ys) = stamped n xs @ stamped (n + length xs) ys"
  by (induction xs arbitrary: n) auto

lemma drop_stamp: "drop k (stamped n es) = stamped (n + k) (drop k es)"
  by (induction es arbitrary: n k) (auto simp: drop_Cons split: nat.split)

lemma take_stamp: "take k (stamped n es) = stamped n (take k es)"
  by (induction es arbitrary: n k) (auto simp: take_Cons split: nat.split)

lemma stamp_split: "stamped c (take k xs) @ stamped (c + length (take k xs)) (drop k xs) = stamped c xs"
  using stamp_append [of c "take k xs" "drop k xs"] by simp

lemma stamp_above: "x \<in> set (stamped n es) \<Longrightarrow> n < fst x \<and> fst x \<le> n + length es"
  by (induction es arbitrary: n) fastforce+

text \<open>\<open>h\<close> are the events of ids \<open>1\<close>, \<open>2\<close> and so on, of this process and of those before it.\<close>

definition ring_ok :: "JobEvent list \<Rightarrow> EventBus \<Rightarrow> bool" where
  "ring_ok h b \<longleftrightarrow>
     eb_seq b = length h \<and> length (eb_deque b) \<le> length h \<and>
     map bf_event (eb_deque b) = stamped (length h - length (eb_deque b)) (drop (length h - length (eb_deque b)) h) \<and>
     eb_bytes b = sum_list (map bf_bytes (eb_deque b)) \<and> 1 \<le> eb_capacity b \<and>
     length (eb_deque b) \<le> eb_capacity b \<and> (eb_bytes b \<le> eb_max_bytes b \<or> length (eb_deque b) \<le> 1)"

lemma evict_ring_suffix:
  assumes "evict_ring cap max_bytes bytes xs = (ys, sum_bytes)" and "bytes = sum_list (map bf_bytes xs)" and "1 \<le> cap"
  shows "(\<exists>k. ys = drop k xs \<and> k \<le> length xs) \<and> sum_bytes = sum_list (map bf_bytes ys) \<and>
    (length ys \<le> cap \<and> (sum_bytes \<le> max_bytes \<or> length ys \<le> 1)) \<and> (xs \<noteq> [] \<longrightarrow> ys \<noteq> [])"
  using assms(1,2)
proof (induction xs arbitrary: bytes)
  case (Cons x xs)
  show ?case
  proof (cases "cap < length (x # xs) \<or> (max_bytes < bytes \<and> 1 < length (x # xs))")
    case True
    then have "evict_ring cap max_bytes (bytes - bf_bytes x) xs = (ys, sum_bytes)" using Cons.prems(1) by simp
    from Cons.IH [OF this] Cons.prems(2)
    have ih: "\<exists>k. ys = drop k xs \<and> k \<le> length xs" "sum_bytes = sum_list (map bf_bytes ys)"
      "length ys \<le> cap" "sum_bytes \<le> max_bytes \<or> length ys \<le> 1" "xs \<noteq> [] \<longrightarrow> ys \<noteq> []" by auto
    from ih(1) obtain k where "ys = drop (Suc k) (x # xs)" "Suc k \<le> length (x # xs)" by auto
    moreover have "xs \<noteq> []" using True assms(3) by auto
    ultimately show ?thesis using ih by blast
  next
    case False
    then have "ys = drop 0 (x # xs)" "sum_bytes = bytes" using Cons.prems(1) by auto
    with False Cons.prems(2) assms(3) show ?thesis by (simp only: drop_0) force
  qed
qed simp

lemma queue_for_log_ring:
  "eb_seq (queue_for_log cd n e b) = eb_seq b" "eb_deque (queue_for_log cd n e b) = eb_deque b"
  "eb_bytes (queue_for_log cd n e b) = eb_bytes b" "eb_capacity (queue_for_log cd n e b) = eb_capacity b"
  "eb_max_bytes (queue_for_log cd n e b) = eb_max_bytes b" "pending_capacity (queue_for_log cd n e b) = pending_capacity b"
  "logs (queue_for_log cd n e b) = logs b"
  by (simp_all add: queue_for_log_def logs_def Let_def case_prod_beta split: option.split)

lemma emit_ring_ok:
  assumes "ring_ok h b" and "emit_event cd e b = (b', seq)"
  shows "ring_ok (h @ [e]) b' \<and> seq = Suc (length h)"
proof -
  let ?new = "\<lparr>bf_event = (Suc (length h), e), bf_bytes = approx_bytes cd e\<rparr>"
  let ?all = "eb_deque b @ [?new]"
  obtain deque sum_bytes where ev: "evict_ring (eb_capacity b) (eb_max_bytes b) (eb_bytes b + approx_bytes cd e) ?all = (deque, sum_bytes)"
    by (rule prod.exhaust)
  have b: "eb_seq b = length h" "length (eb_deque b) \<le> length h" "eb_bytes b = sum_list (map bf_bytes (eb_deque b))"
    "1 \<le> eb_capacity b"
    and ring: "map bf_event (eb_deque b) = stamped (length h - length (eb_deque b)) (drop (length h - length (eb_deque b)) h)"
    using assms(1) by (auto simp: ring_ok_def)
  have "eb_bytes b + approx_bytes cd e = sum_list (map bf_bytes ?all)" using b(3) by simp
  from evict_ring_suffix [OF ev this b(4)] obtain k where k: "deque = drop k ?all" "k \<le> length ?all"
    and rest: "sum_bytes = sum_list (map bf_bytes deque)" "length deque \<le> eb_capacity b"
      "sum_bytes \<le> eb_max_bytes b \<or> length deque \<le> 1" by blast
  let ?n = "length h - length (eb_deque b)"
  have all: "map bf_event ?all = stamped ?n (drop ?n (h @ [e]))" using ring b(2) by (simp add: stamp_append)
  have "map bf_event deque = stamped (?n + k) (drop (k + ?n) (h @ [e]))"
    by (simp only: k(1) drop_map [symmetric] all drop_stamp drop_drop)
  moreover have "length (h @ [e]) - length deque = ?n + k" using k b(2) by simp
  ultimately have ring': "map bf_event deque = stamped (length (h @ [e]) - length deque) (drop (length (h @ [e]) - length deque) (h @ [e]))"
    by (simp only: add.commute)
  have "b' = (queue_for_log cd (Suc (length h)) e (b\<lparr>eb_seq := Suc (length h)\<rparr>))\<lparr>eb_deque := deque, eb_bytes := sum_bytes\<rparr>"
    and seq: "seq = Suc (length h)"
    using assms(2) ev b(1) by (auto simp: emit_event_def Let_def)
  then have fields: "eb_seq b' = Suc (length h)" "eb_deque b' = deque" "eb_bytes b' = sum_bytes"
      "eb_capacity b' = eb_capacity b" "eb_max_bytes b' = eb_max_bytes b"
    by (simp_all add: queue_for_log_ring)
  have "length deque \<le> length (h @ [e])" using k b(2) by simp
  then show ?thesis using ring' rest b(4) seq unfolding ring_ok_def fields by simp
qed

text \<open>A ring that covers a gap answers it exactly.\<close>

lemma filter_stamp: "filter (\<lambda>x. a < fst x) (stamped n es) = stamped (max n a) (drop (a - n) es)"
proof (induction es arbitrary: n)
  case (Cons e es)
  show ?case
  proof (cases "a \<le> n")
    case True
    then have "filter (\<lambda>x. a < fst x) (stamped n (e # es)) = stamped n (e # es)"
      using stamp_above by (intro filter_True) fastforce
    with True show ?thesis by (simp add: max_def)
  next
    case False
    then have "a - n = Suc (a - Suc n)" by simp
    with False Cons [of "Suc n"] show ?thesis by (simp add: max_def)
  qed
qed simp

lemma replay_exact:
  assumes "ring_ok h b" and "after < length h" and "length h < 2 ^ 64 - 1"
  shows "replay after b =
    (if eb_deque b = [] then Events []
     else if length h - length (eb_deque b) \<le> after then Events (stamped after (drop after h)) else Reset)"
proof (cases "eb_deque b")
  case (Cons f fs)
  let ?n = "length h - length (eb_deque b)"
  have ring: "map bf_event (eb_deque b) = stamped ?n (drop ?n h)" using assms(1) by (simp add: ring_ok_def)
  have "length (eb_deque b) \<le> length h" using assms(1) by (simp add: ring_ok_def)
  with Cons have "drop ?n h \<noteq> []" by simp
  with ring Cons have front: "fst (bf_event f) = Suc ?n" by (cases "drop ?n h") auto
  have "map bf_event (filter (\<lambda>x. after < fst (bf_event x)) (eb_deque b)) = filter (\<lambda>x. after < fst x) (map bf_event (eb_deque b))"
    by (simp add: filter_map comp_def)
  also have "\<dots> = stamped after (drop after h)" if "?n \<le> after"
    using that by (simp add: ring filter_stamp max_def)
  finally show ?thesis using Cons front assms(2,3) by (auto simp: replay_def min_def)
qed (simp add: replay_def)


section \<open>A log that is complete\<close>

definition decodes :: "event_codec \<Rightarrow> nat \<Rightarrow> (int \<times> json) list \<Rightarrow> JobEvent list \<Rightarrow> bool" where
  "decodes cd n cells es \<longleftrightarrow>
     map (\<lambda>(i, v). (i, from_value cd v)) cells = map (\<lambda>(i, e). (int i, Some e)) (stamped n es)"

abbreviation record_cell :: "EventRecord \<Rightarrow> int \<times> json" where
  "record_cell r \<equiv> (er_seq r, er_payload r)"

abbreviation queue_cell :: "NewEvent \<Rightarrow> int \<times> json" where
  "queue_cell e \<equiv> (ne_seq e, ne_payload e)"

lemma decodes_length: "decodes cd n cells es \<Longrightarrow> length cells = length es"
  unfolding decodes_def by (drule arg_cong [where f = length]) simp

lemma decodes_append: "length xs = length es \<Longrightarrow>
    decodes cd n (xs @ ys) (es @ fs) \<longleftrightarrow> decodes cd n xs es \<and> decodes cd (n + length es) ys fs"
  by (simp add: decodes_def stamp_append)

lemma decodes_drop: "decodes cd n cells es \<Longrightarrow> decodes cd (n + k) (drop k cells) (drop k es)"
  unfolding decodes_def by (drule arg_cong [where f = "drop k"]) (simp add: drop_map drop_stamp)

lemma decodes_take: "decodes cd n cells es \<Longrightarrow> decodes cd n (take k cells) (take k es)"
  unfolding decodes_def by (drule arg_cong [where f = "take k"]) (simp add: take_map take_stamp)

lemma decodes_seqs: "decodes cd n cells es \<Longrightarrow> map fst cells = map int [Suc n..<Suc (n + length es)]"
proof (induction cells arbitrary: n es)
  case (Cons c cells)
  then obtain e fs where es: "es = e # fs" by (cases es) (auto simp: decodes_def)
  with Cons.prems have "decodes cd (Suc n) cells fs" "fst c = int (Suc n)" by (auto simp: decodes_def case_prod_beta)
  with Cons.IH [of "Suc n" fs] show ?case by (simp add: es upt_conv_Cons del: upt_Suc)
qed (auto dest: decodes_length)

definition log_complete :: "event_codec \<Rightarrow> JobEvent list \<Rightarrow> EventBus \<times> EventRecord list \<Rightarrow> bool" where
  "log_complete cd h s \<longleftrightarrow>
     ring_ok h (fst s) \<and>
     (case eb_pending (fst s) of
        None \<Rightarrow> False
      | Some q \<Rightarrow> decodes cd 0 (map record_cell (snd s) @ map queue_cell q) h \<and> length q \<le> pending_capacity (fst s))"

lemma log_completeE:
  assumes "log_complete cd h (b, rows)"
  obtains q where "eb_pending b = Some q" "decodes cd 0 (map record_cell rows @ map queue_cell q) h"
    "length q \<le> pending_capacity b" "ring_ok h b"
  using assms by (auto simp: log_complete_def split: option.splits)

text \<open>The steps that keep it: an event while the queue has room, a flush, and a restart with nothing queued.\<close>

inductive kept :: "event_codec \<Rightarrow> JobEvent list \<Rightarrow> EventBus \<times> EventRecord list \<Rightarrow> bool" for cd where
  first: "kept cd [] (boot_bus True cap (Some []), [])"
| emitted: "kept cd h (b, rows) \<Longrightarrow> pending_len b < pending_capacity b \<Longrightarrow> emit_event cd e b = (b', n) \<Longrightarrow>
    kept cd (h @ [e]) (b', rows)"
| flushed: "kept cd h s \<Longrightarrow> persist_pending store_ok now s = (r, s') \<Longrightarrow> kept cd h s'"
| restarted: "kept cd h (b, rows) \<Longrightarrow> pending_len b = 0 \<Longrightarrow> kept cd h (boot_bus True cap (Some rows), rows)"

lemma boot_fields: "eb_deque (boot_bus l cap stored) = []" "eb_bytes (boot_bus l cap stored) = 0"
  "eb_capacity (boot_bus l cap stored) = EVENT_RING_CAPACITY" "eb_pending (boot_bus True cap stored) = Some []"
  "eb_seq (boot_bus True cap (Some rows)) = nat (max_event_seq rows)"
  by (simp_all add: boot_bus_def Let_def logs_def with_log_def event_bus_new_def with_byte_budget_def seed_seq_def
      EVENT_RING_CAPACITY_def split: option.split)

lemma boot_ring_ok: "nat (max_event_seq rows) = length h \<Longrightarrow> ring_ok h (boot_bus True cap (Some rows))"
  by (simp add: ring_ok_def boot_fields EVENT_RING_CAPACITY_def)

lemma max_event_seq_complete:
  assumes "decodes cd 0 (map record_cell rows) h"
  shows "nat (max_event_seq rows) = length h"
proof (cases "rows = []")
  case True
  with decodes_length [OF assms] show ?thesis by (simp add: max_event_seq_def)
next
  case False
  have "map er_seq rows = map int [1..<Suc (length h)]"
    using decodes_seqs [OF assms] by (simp add: comp_def del: upt_Suc)
  then have "set (map er_seq rows) = int ` {1..length h}" by (simp only: set_map set_upt atLeastLessThanSuc_atLeastAtMost)
  moreover have "length h \<noteq> 0" using False decodes_length [OF assms] by (metis length_0_conv length_map)
  ultimately have "Max (set (map er_seq rows)) = int (length h)"
    by (intro Max_eqI) (auto simp: Suc_le_eq intro!: imageI)
  with False show ?thesis by (simp add: max_event_seq_def)
qed

lemma append_events_fresh:
  assumes "distinct (map er_seq rows @ map ne_seq batch)"
  shows "append_events now batch rows = (rows @ map (event_record now) batch, length batch)"
proof -
  have "fold (\<lambda>e. insert_or_ignore (event_record now e)) batch rows = rows @ map (event_record now) batch"
    using assms
  proof (induction batch arbitrary: rows)
    case (Cons e batch)
    then have "ne_seq e \<notin> er_seq ` set rows" by auto
    then have "\<not> list_ex (\<lambda>x. er_seq x = er_seq (event_record now e)) rows"
      by (simp add: list_ex_iff event_record_def image_iff) metis
    moreover have "distinct (map er_seq (rows @ [event_record now e]) @ map ne_seq batch)"
      using Cons.prems by (auto simp: event_record_def)
    ultimately show ?case using Cons.IH [of "rows @ [event_record now e]"] by (simp add: insert_or_ignore_def)
  qed simp
  then show ?thesis by (simp add: append_events_def Let_def)
qed

lemma decodes_distinct: "decodes cd n (map record_cell rows @ map queue_cell q) h \<Longrightarrow> distinct (map er_seq rows @ map ne_seq q)"
  using decodes_seqs [of cd n "map record_cell rows @ map queue_cell q" h]
  by (simp add: comp_def distinct_map del: upt_Suc)


definition codec_ok :: "event_codec \<Rightarrow> bool" where
  "codec_ok cd \<longleftrightarrow> (\<forall>e. case to_value cd e of Inr v \<Rightarrow> from_value cd v = Some e | Inl _ \<Rightarrow> False)"

lemma emit_complete:
  assumes "codec_ok cd" and "log_complete cd h (b, rows)" and room: "pending_len b < pending_capacity b"
    and emit_event: "emit_event cd e b = (b', n)"
  shows "log_complete cd (h @ [e]) (b', rows)"
proof -
  obtain q where q: "eb_pending b = Some q" "decodes cd 0 (map record_cell rows @ map queue_cell q) h" "ring_ok h b"
    by (rule log_completeE [OF assms(2)])
  obtain v where v: "to_value cd e = Inr v" "from_value cd v = Some e"
    using spec [OF assms(1) [unfolded codec_ok_def], of e] by (auto split: sum.splits)
  let ?new = "log_row cd (Suc (length h)) e"
  have len: "length q < pending_capacity b" using room q(1) by (simp add: pending_len_def)
  then have "shed (pending_capacity b) p q = (q, 0, 0, True)" for p by (simp add: shed.simps)
  moreover have seq: "eb_seq b = length h" using q(3) by (simp add: ring_ok_def)
  ultimately have "eb_pending b' = Some (q @ [?new])" "pending_capacity b' = pending_capacity b"
    using emit_event q(1) v(1) by (auto simp: emit_event_def Let_def queue_for_log_def case_prod_beta)
  moreover have "decodes cd 0 ((map record_cell rows @ map queue_cell q) @ [queue_cell ?new]) (h @ [e])"
    using q(2) v decodes_length [OF q(2)] by (subst decodes_append) (simp_all add: decodes_def log_row_def)
  ultimately show ?thesis using emit_ring_ok [OF q(3) emit_event] len by (simp add: log_complete_def)
qed

lemma persist_complete:
  assumes "log_complete cd h (b, rows)" and "persist_pending store_ok now (b, rows) = (r, s')"
  shows "log_complete cd h s' \<and> (store_ok \<longrightarrow> pending_len (fst s') = 0 \<and> eb_deque (fst s') = eb_deque b)"
proof -
  obtain q where q: "eb_pending b = Some q" "decodes cd 0 (map record_cell rows @ map queue_cell q) h" "ring_ok h b"
    "length q \<le> pending_capacity b"
    by (rule log_completeE [OF assms(1)])
  have ring: "ring_ok h (b\<lparr>eb_pending := p\<rparr>)" for p using q(3) by (auto simp: ring_ok_def)
  have rec: "map (record_cell \<circ> event_record now) q = map queue_cell q" by (simp add: event_record_def comp_def)
  show ?thesis
  proof (cases "q = []")
    case True
    with assms(2) q ring [of "Some []"] show ?thesis
      by (auto simp: persist_pending_def take_pending_def log_complete_def pending_len_def)
  next
    case False
    show ?thesis
    proof (cases store_ok)
      case True
      with False assms(2) q(1) have "s' = (b\<lparr>eb_pending := Some []\<rparr>, rows @ map (event_record now) q)"
        by (simp add: persist_pending_def take_pending_def append_events_fresh [OF decodes_distinct [OF q(2)]])
      moreover have "decodes cd 0 (map record_cell (rows @ map (event_record now) q)) h"
        using q(2) unfolding map_append map_map rec .
      ultimately show ?thesis using ring [of "Some []"] by (simp add: log_complete_def pending_len_def)
    next
      case fail: False
      with False assms(2) q(1,4) have "s' = (b\<lparr>eb_pending := Some q\<rparr>, rows)"
        by (auto simp: persist_pending_def take_pending_def requeue_batch_def Let_def)
      with fail q ring [of "Some q"] show ?thesis by (simp add: log_complete_def)
    qed
  qed
qed

lemma kept_complete:
  assumes "codec_ok cd" and "kept cd h s"
  shows "log_complete cd h s"
  using assms(2)
proof (induction rule: kept.induct)
  case (first cap)
  then show ?case
    by (simp add: log_complete_def boot_fields boot_ring_ok decodes_def max_event_seq_def)
next
  case (emitted h b rows e b' n)
  then show ?case using emit_complete [OF assms(1)] by blast
next
  case (flushed h s store_ok now r s')
  then show ?case using persist_complete [of cd h "fst s" "snd s"] by simp
next
  case (restarted h b rows cap)
  then obtain q where q: "eb_pending b = Some q" "decodes cd 0 (map record_cell rows @ map queue_cell q) h"
    using log_completeE by metis
  with restarted have "decodes cd 0 (map record_cell rows) h" by (simp add: pending_len_def)
  with max_event_seq_complete show ?case by (simp add: log_complete_def boot_fields boot_ring_ok)
qed

section \<open>A resume from a complete log\<close>

lemma events_after_complete:
  assumes "decodes cd 0 (map record_cell rows) h"
  shows "events_after (int c) None None n rows = take n (drop c rows)"
proof -
  have seqs: "map er_seq rows = map int [1..<Suc (length h)]"
    using decodes_seqs [OF assms] by (simp add: comp_def del: upt_Suc)
  then have sorted: "sorted (map er_seq rows)" by (simp add: sorted_map del: upt_Suc)
  have "filter (\<lambda>r. int c < er_seq r) rows = drop c rows"
    using seqs
  proof -
    have nth: "er_seq (rows ! i) = int (Suc i)" if "i < length rows" for i
      using that arg_cong [OF seqs, of "\<lambda>xs. xs ! i"] arg_cong [OF seqs, of length] by (simp del: upt_Suc)
    have "filter (\<lambda>r. int c < er_seq r) (take c rows) = []"
      by (auto simp: filter_empty_conv in_set_conv_nth nth)
    moreover have "filter (\<lambda>r. int c < er_seq r) (drop c rows) = drop c rows"
      by (auto simp: filter_id_conv in_set_conv_nth nth)
    ultimately show ?thesis by (metis append_take_drop_id filter_append self_append_conv2)
  qed
  moreover have "sort_key er_seq (drop c rows) = drop c rows"
    using sorted by (intro sort_key_id_if_sorted) (simp add: drop_map [symmetric] sorted_wrt_drop)
  ultimately show ?thesis by (simp add: events_after_def order_limit_def)
qed

lemma read_page_exact:
  "decodes cd c (map record_cell page) es \<Longrightarrow> length out < MAX_LOG_RESUME \<Longrightarrow>
   read_page cd page (int c) out =
     (if length out + length page < MAX_LOG_RESUME then Some (int (c + length page), out @ stamped c es) else None)"
proof (induction page arbitrary: c es out)
  case Nil
  then show ?case using decodes_length [of cd c "[]" es] by simp
next
  case (Cons r page)
  then obtain e fs where es: "es = e # fs" by (cases es) (auto simp: decodes_def)
  with Cons.prems have "decodes cd (Suc c) (map record_cell page) fs" "er_seq r = int (Suc c)"
    "from_value cd (er_payload r) = Some e" by (auto simp: decodes_def)
  with Cons.IH [of "Suc c" fs "out @ [(Suc c, e)]"] Cons.prems(2) show ?case by (simp add: es Let_def nat_add_distrib)
qed


lemma log_walk_exact:
  assumes rows: "decodes cd 0 (map record_cell rows) h" and read: "\<forall>c. read_ok c"
  shows "c \<le> length h \<Longrightarrow> length out < MAX_LOG_RESUME \<Longrightarrow> missing = length out + (length h - c) \<Longrightarrow>
   log_walk cd read_ok rows missing (int c) out =
     (if missing < MAX_LOG_RESUME then Some (out @ stamped c (drop c h)) else None)"
proof (induction "length h - c" arbitrary: c out rule: less_induct)
  case less
  let ?page = "take MAX_LOG_PAGE (drop c rows)" and ?es = "take MAX_LOG_PAGE (drop c h)"
  have len: "length rows = length h" using decodes_length [OF rows] by simp
  show ?case
  proof (cases "c = length h")
    case True
    with less.prems show ?thesis by (subst log_walk.simps) simp
  next
    case False
    have n: "0 < MAX_LOG_PAGE" by (simp add: MAX_LOG_PAGE_def)
    have page: "events_after (int c) None None MAX_LOG_PAGE rows = ?page" by (rule events_after_complete [OF rows])
    have "?page \<noteq> []" using False less.prems(1) n len by simp
    have dec: "decodes cd c (map record_cell ?page) ?es"
      using decodes_take [OF decodes_drop [OF rows, of c], of MAX_LOG_PAGE] by (simp add: drop_map take_map)
    have m: "\<not> missing \<le> length out" using less.prems False by simp
    let ?c = "c + length ?page" and ?out = "out @ stamped c ?es"
    have es: "length ?es = length ?page" using len by simp
    have walk: "log_walk cd read_ok rows missing (int c) out =
        (if length out + length ?page < MAX_LOG_RESUME then log_walk cd read_ok rows missing (int ?c) ?out else None)"
      using m read \<open>?page \<noteq> []\<close>
      by (subst log_walk.simps) (simp add: page read_page_exact [OF dec less.prems(2)] del: take_eq_Nil of_nat_add)
    have c: "?c \<le> length h" "length h - ?c < length h - c" using False less.prems(1) n len by simp_all
    show ?thesis
    proof (cases "length out + length ?page < MAX_LOG_RESUME")
      case True
      have "stamped c ?es @ stamped ?c (drop ?c h) = stamped c (drop c h)"
        using stamp_split [of c "length ?page" "drop c h"] len
        by (cases "length (drop c h) \<le> MAX_LOG_PAGE") (simp_all add: add.commute)
      moreover have "missing = length ?out + (length h - ?c)" using less.prems(3) c(1) es by simp
      moreover have "length ?out < MAX_LOG_RESUME" using True es by simp
      ultimately have "log_walk cd read_ok rows missing (int ?c) ?out =
          (if missing < MAX_LOG_RESUME then Some (out @ stamped c (drop c h)) else None)"
        using less.hyps [OF c(2) c(1), of ?out] by (simp only: append_assoc)
      with walk True show ?thesis by (simp only: if_True)
    next
      case over: False
      with less.prems(3) c(1) have "\<not> missing < MAX_LOG_RESUME" by simp
      with over walk show ?thesis by simp
    qed
  qed
qed


text \<open>The events a process emits, as a live subscriber receives them.\<close>

fun emit_all :: "event_codec \<Rightarrow> JobEvent list \<Rightarrow> EventBus \<Rightarrow> EventBus \<times> SeqEvent list" where
  "emit_all cd [] b = (b, [])"
| "emit_all cd (e # es) b =
     (case emit_event cd e b of (b', seq) \<Rightarrow> case emit_all cd es b' of (b'', sent) \<Rightarrow> (b'', (seq, e) # sent))"

lemma emit_seq: "emit_event cd e b = (b', seq) \<Longrightarrow> seq = Suc (eb_seq b) \<and> eb_seq b' = Suc (eb_seq b)"
  by (auto simp: emit_event_def Let_def case_prod_beta queue_for_log_ring)

lemma emit_all_stamp: "snd (emit_all cd es b) = stamped (eb_seq b) es"
proof (induction es arbitrary: b)
  case (Cons e es)
  obtain b' seq where "emit_event cd e b = (b', seq)" by (rule prod.exhaust)
  with Cons [of b'] emit_seq [OF this] show ?case by (simp add: case_prod_beta)
qed simp

text \<open>
  A client whose last id is ahead of the counter is silenced. After a start on which the log
  could not be read, or after a crash that lost the queued rows, the counter restarts below ids
  that were already sent; a client that comes back with one of those is not told to reset, and
  every live event is withheld from it until the counter has passed its old position.
\<close>

theorem stale_cursor_is_silenced:
  fixes stored :: "EventRecord list option" and cap :: nat and log_enabled :: bool
  defines "b \<equiv> boot_bus log_enabled cap stored"
  assumes "eb_seq b + length es \<le> after"
  shows "let ((sent, last_seq), s') = connect_stream cd flush_ok read_ok now keep (Some after) (b, rows)
         in sent = [] \<and> last_seq = after \<and> s' = (b, rows) \<and>
            live_events last_seq (snd (emit_all cd es b)) = ([], after)"
proof -
  have "live_events after (stamped n es) = ([], after)" if "n + length es \<le> after" for n
    using that by (induction es arbitrary: n) auto
  with assms(2) show ?thesis
    by (simp add: connect_stream_def replay_or_log_def Let_def latest_seq_def resume_stream_def emit_all_stamp)
qed

section \<open>Every event is accounted for\<close>

lemma remove_first_set: "set (remove_first P xs) \<subseteq> set xs"
  by (induction xs) auto

lemma remove_first_distinct: "distinct (map f xs) \<Longrightarrow> distinct (map f (remove_first P xs))"
proof (induction xs)
  case (Cons x xs)
  have "f ` set (remove_first P xs) \<subseteq> f ` set xs" by (rule image_mono [OF remove_first_set])
  with Cons have "f x \<notin> f ` set (remove_first P xs)" by auto
  with Cons show ?case by simp
qed simp

lemma shed_accounts:
  "shed cap p q = (q', d, l, a) \<Longrightarrow>
   length q' + d = length q + of_bool (\<not> a) \<and> l \<le> d \<and> length q' \<le> length q \<and> set q' \<subseteq> set q \<and>
   (distinct (map ne_seq q) \<longrightarrow> distinct (map ne_seq q')) \<and> (a \<and> 1 \<le> cap \<longrightarrow> length q' < cap)"
proof (induction cap p q arbitrary: q' d l a rule: shed.induct)
  case (1 cap p q)
  consider (room) "length q < cap \<or> q = []" | (progress) "\<not> (length q < cap \<or> q = [])" "list_ex is_progress q"
    | (refuse) "\<not> (length q < cap \<or> q = [])" "\<not> list_ex is_progress q" p
    | (oldest) "\<not> (length q < cap \<or> q = [])" "\<not> list_ex is_progress q" "\<not> p" by blast
  then show ?case
  proof cases
    case room
    with 1(3) show ?thesis by (subst (asm) shed.simps) auto
  next
    case progress
    obtain q2 d2 l2 a2 where r: "shed cap p (remove_first is_progress q) = (q2, d2, l2, a2)" by (metis prod_cases4)
    with progress 1(3) have "q' = q2" "d = Suc d2" "l = l2" "a = a2" by (subst (asm) shed.simps, simp)+
    with 1(1) [OF progress r] length_remove_first [OF progress(2)] remove_first_set [of is_progress q]
      remove_first_distinct [of ne_seq q is_progress]
    show ?thesis by auto
  next
    case refuse
    with 1(3) show ?thesis by (subst (asm) shed.simps) auto
  next
    case oldest
    obtain q2 d2 l2 a2 where r: "shed cap p (tl q) = (q2, d2, l2, a2)" by (metis prod_cases4)
    with oldest 1(3) have "q' = q2" "d = Suc d2" "l = Suc l2" "a = a2" by (subst (asm) shed.simps, simp)+
    moreover obtain x xs where "q = x # xs" using oldest(1) by (cases q) auto
    ultimately show ?thesis using 1(2) [OF oldest r] by auto
  qed
qed


text \<open>
  A process with flushes in flight: the batches that were taken from the queue and have neither
  landed nor come back. \<open>n\<close> counts the rows of the log at the start and the events emitted since,
  and the last component the rows that retention has deleted.
\<close>

type_synonym flow_state = "EventBus \<times> EventRecord list \<times> NewEvent list list \<times> nat"

inductive flow :: "event_codec \<Rightarrow> nat \<Rightarrow> flow_state \<Rightarrow> bool" for cd where
  start: "distinct (map er_seq rows) \<Longrightarrow> flow cd (length rows) (boot_bus True cap (Some rows), rows, [], 0)"
| emitted: "flow cd n (b, rows, batches, k) \<Longrightarrow> emit_event cd e b = (b', seq) \<Longrightarrow> flow cd (Suc n) (b', rows, batches, k)"
| taken: "flow cd n (b, rows, batches, k) \<Longrightarrow> take_pending b = (batch, b') \<Longrightarrow> flow cd n (b', rows, batch # batches, k)"
| landed: "flow cd n (b, rows, xs @ batch # ys, k) \<Longrightarrow> flow cd n (b, fst (append_events now batch rows), xs @ ys, k)"
| failed: "flow cd n (b, rows, xs @ batch # ys, k) \<Longrightarrow> flow cd n (requeue_batch batch b, rows, xs @ ys, k)"
| pruned: "flow cd n (b, rows, batches, k) \<Longrightarrow> prune_events now days rows = (rows', gone) \<Longrightarrow>
    flow cd n (b, rows', batches, k + gone)"

definition flow_ok :: "nat \<Rightarrow> flow_state \<Rightarrow> bool" where
  "flow_ok n s \<longleftrightarrow>
     (case s of (b, rows, batches, k) \<Rightarrow>
        \<exists>q. eb_pending b = Some q \<and> 1 \<le> pending_capacity b \<and> length q \<le> pending_capacity b \<and>
          lifecycle_dropped b \<le> dropped_before_persist b \<and>
          distinct (map er_seq rows @ map ne_seq (concat batches @ q)) \<and>
          (\<forall>i\<in>set (map er_seq rows @ map ne_seq (concat batches @ q)). i \<le> int (eb_seq b)) \<and>
          n = length rows + k + length (concat batches) + length q + dropped_before_persist b)"

lemma flow_okI:
  assumes "eb_pending b = Some q" and "1 \<le> pending_capacity b" and "length q \<le> pending_capacity b"
    and "lifecycle_dropped b \<le> dropped_before_persist b"
    and "distinct (map er_seq rows @ map ne_seq (concat batches @ q))"
    and "\<And>i. i \<in> set (map er_seq rows @ map ne_seq (concat batches @ q)) \<Longrightarrow> i \<le> int (eb_seq b)"
    and "n = length rows + k + length (concat batches) + length q + dropped_before_persist b"
  shows "flow_ok n (b, rows, batches, k)"
  using assms unfolding flow_ok_def by blast

lemma flow_okE:
  assumes "flow_ok n (b, rows, batches, k)"
  obtains q where "eb_pending b = Some q" and "1 \<le> pending_capacity b" and "length q \<le> pending_capacity b"
    and "lifecycle_dropped b \<le> dropped_before_persist b"
    and "distinct (map er_seq rows @ map ne_seq (concat batches @ q))"
    and "\<And>i. i \<in> set (map er_seq rows @ map ne_seq (concat batches @ q)) \<Longrightarrow> i \<le> int (eb_seq b)"
    and "n = length rows + k + length (concat batches) + length q + dropped_before_persist b"
  using assms unfolding flow_ok_def by blast

lemma flow_boot:
  assumes "distinct (map er_seq rows)"
  shows "flow_ok (length rows) (boot_bus True cap (Some rows), rows, [], 0)"
proof (rule flow_okI [where q = "[]"])
  fix i assume "i \<in> set (map er_seq rows @ map ne_seq (concat [] @ []))"
  then have i: "i \<in> set (map er_seq rows)" by simp
  then have "i \<le> max_event_seq rows" by (auto simp: max_event_seq_def)
  then show "i \<le> int (eb_seq (boot_bus True cap (Some rows)))" by (simp add: boot_fields)
qed (use assms in \<open>simp_all add: boot_bus_def Let_def logs_def with_log_def event_bus_new_def with_byte_budget_def
    seed_seq_def\<close>)

lemma distinct_shrink: "distinct (xs @ ys) \<Longrightarrow> distinct zs \<Longrightarrow> set zs \<subseteq> set ys \<Longrightarrow> distinct (xs @ zs)"
  by auto

lemma flow_emit:
  assumes "flow_ok n (b, rows, batches, k)" and "emit_event cd e b = (b', seq)"
  shows "flow_ok (Suc n) (b', rows, batches, k)"
  using assms(1)
proof (rule flow_okE)
  fix q
  assume q: "eb_pending b = Some q" "1 \<le> pending_capacity b" "length q \<le> pending_capacity b"
    "lifecycle_dropped b \<le> dropped_before_persist b" "distinct (map er_seq rows @ map ne_seq (concat batches @ q))"
    "\<And>i. i \<in> set (map er_seq rows @ map ne_seq (concat batches @ q)) \<Longrightarrow> i \<le> int (eb_seq b)"
    "n = length rows + k + length (concat batches) + length q + dropped_before_persist b"
  obtain q' d l a where sh: "shed (pending_capacity b) (event_kind e = PROGRESS_KIND) q = (q', d, l, a)"
    by (rule prod_cases4)
  define new where "new = log_row cd (Suc (eb_seq b)) e"
  have new: "ne_seq new = int (Suc (eb_seq b))" by (simp add: new_def log_row_def)
  have b': "eb_pending b' = Some (if a then q' @ [new] else q')" "dropped_before_persist b' = dropped_before_persist b + d"
      "lifecycle_dropped b' = lifecycle_dropped b + l"
    using assms(2) q(1) sh by (auto simp: emit_event_def Let_def queue_for_log_def case_prod_beta new_def)
  have b'': "eb_seq b' = Suc (eb_seq b)" "pending_capacity b' = pending_capacity b"
    using assms(2) by (auto simp: emit_event_def Let_def case_prod_beta queue_for_log_ring)
  have acc: "length q' + d = length q + of_bool (\<not> a)" "l \<le> d" "length q' \<le> length q" "set q' \<subseteq> set q"
    "distinct (map ne_seq q')" "a \<longrightarrow> length q' < pending_capacity b"
    using shed_accounts [OF sh] q(2,5) by auto
  let ?q = "if a then q' @ [new] else q'"
  let ?L = "map er_seq rows @ map ne_seq (concat batches)"
  have sub: "set (map ne_seq q') \<subseteq> set (map ne_seq q)" using acc(4) by auto
  have L: "map er_seq rows @ map ne_seq (concat batches @ z) = ?L @ map ne_seq z" for z by simp
  have d: "distinct (?L @ map ne_seq q')"
    using q(5) acc(5) sub unfolding L by (rule distinct_shrink)
  have le: "i \<le> int (eb_seq b)" if "i \<in> set (?L @ map ne_seq q')" for i
    using that sub q(6) [of i] unfolding L by auto
  then have fresh: "int (Suc (eb_seq b)) \<notin> set (?L @ map ne_seq q')" by fastforce
  show "flow_ok (Suc n) (b', rows, batches, k)"
  proof (rule flow_okI [OF b'(1)])
    show "distinct (map er_seq rows @ map ne_seq (concat batches @ ?q))"
      using d fresh new unfolding L by (cases a) (simp_all del: of_nat_Suc)
    show "i \<le> int (eb_seq b')" if "i \<in> set (map er_seq rows @ map ne_seq (concat batches @ ?q))" for i
    proof -
      have "i \<in> set (?L @ map ne_seq q') \<or> i = ne_seq new" using that unfolding L by (cases a) auto
      with le [of i] new b''(1) show ?thesis by linarith
    qed
  qed (use q acc b' b'' in \<open>auto split: if_splits\<close>)
qed


text \<open>The ids in the log, in flight and in the queue.\<close>

definition held :: "EventRecord list \<Rightarrow> NewEvent list list \<Rightarrow> NewEvent list \<Rightarrow> int list" where
  "held rows batches q = map er_seq rows @ map ne_seq (concat batches @ q)"

lemma distinct_submset: "distinct xs \<Longrightarrow> mset ys \<subseteq># mset xs \<Longrightarrow> distinct ys"
proof -
  assume "distinct xs" "mset ys \<subseteq># mset xs"
  then have "count (mset ys) a \<le> (if a \<in> set xs then 1 else 0)" for a
    using mset_subset_eq_count [of "mset ys" "mset xs" a] by (simp add: distinct_count_atmost_1)
  then have "count (mset ys) a \<le> 1" for a by (rule order_trans) simp
  moreover have "count (mset ys) a = 0 \<longleftrightarrow> a \<notin> set ys" for a by (simp add: count_eq_zero_iff)
  ultimately show "distinct ys" unfolding distinct_count_atmost_1 by (metis le_antisym less_one not_le)
qed

lemma flow_move:
  assumes "flow_ok n (b, rows, batches, k)" and "eb_pending b = Some q" and "eb_pending b' = Some q'"
    and "eb_seq b' = eb_seq b" and "pending_capacity b' = pending_capacity b" and "lifecycle_dropped b' = lifecycle_dropped b"
    and "length q' \<le> pending_capacity b" and "dropped_before_persist b \<le> dropped_before_persist b'"
    and sub: "mset (held rows' batches' q') \<subseteq># mset (held rows batches q)"
    and "length rows' + k' + length (concat batches') + length q' + dropped_before_persist b' =
      length rows + k + length (concat batches) + length q + dropped_before_persist b"
  shows "flow_ok n (b', rows', batches', k')"
  using assms(1)
proof (rule flow_okE)
  fix p
  assume p: "eb_pending b = Some p" "1 \<le> pending_capacity b" "lifecycle_dropped b \<le> dropped_before_persist b"
    "distinct (map er_seq rows @ map ne_seq (concat batches @ p))"
    "\<And>i. i \<in> set (map er_seq rows @ map ne_seq (concat batches @ p)) \<Longrightarrow> i \<le> int (eb_seq b)"
    "n = length rows + k + length (concat batches) + length p + dropped_before_persist b"
  then have pq: "p = q" using assms(2) by simp
  show ?thesis
  proof (rule flow_okI [OF assms(3)])
    show "distinct (map er_seq rows' @ map ne_seq (concat batches' @ q'))"
      using distinct_submset [OF _ sub] p(4) pq by (simp only: held_def)
    show "i \<le> int (eb_seq b')" if "i \<in> set (map er_seq rows' @ map ne_seq (concat batches' @ q'))" for i
    proof -
      have "i \<in> set (map er_seq rows @ map ne_seq (concat batches @ q))"
        using mset_subset_eqD [OF sub, of i] that by (simp only: held_def set_mset_mset)
      with p(5) pq assms(4) show ?thesis by simp
    qed
  qed (use p assms pq in simp_all)
qed

lemma flow_invariant: "flow cd n s \<Longrightarrow> flow_ok n s"
proof (induction rule: flow.induct)
  case (start rows cap)
  then show ?case by (rule flow_boot)
next
  case (emitted n b rows batches k e b' seq)
  then show ?case using flow_emit by blast
next
  case (taken n b rows batches k batch b')
  from taken.IH obtain q where q: "eb_pending b = Some q" by (rule flow_okE)
  with taken have b': "batch = q" "b' = b\<lparr>eb_pending := Some []\<rparr>" by (auto simp: take_pending_def)
  show ?case
    by (rule flow_move [OF taken.IH q]) (simp_all add: b' held_def ac_simps)
next
  case (landed n b rows xs batch ys k now)
  from landed.IH obtain q where q: "eb_pending b = Some q" "length q \<le> pending_capacity b"
    "distinct (map er_seq rows @ map ne_seq (concat (xs @ batch # ys) @ q))" by (rule flow_okE)
  have seq: "map (er_seq \<circ> event_record now) batch = map ne_seq batch" by (simp add: event_record_def)
  have "distinct (map er_seq rows @ map ne_seq batch)"
    by (rule distinct_submset [OF q(3)]) (simp add: ac_simps)
  from append_events_fresh [OF this, of now]
  have rows: "fst (append_events now batch rows) = rows @ map (event_record now) batch" by simp
  show ?case
    unfolding rows
    by (rule flow_move [OF landed.IH q(1) q(1)]) (use q(2) in \<open>simp_all add: held_def seq [unfolded comp_def] comp_def ac_simps\<close>)
next
  case (failed n b rows xs batch ys k)
  from failed.IH obtain q where q: "eb_pending b = Some q" by (rule flow_okE)
  let ?over = "length (batch @ q) - pending_capacity b"
  let ?rest = "drop ?over (batch @ q)"
  have b': "requeue_batch batch b = b\<lparr>eb_pending := Some ?rest, dropped_before_persist := dropped_before_persist b + ?over\<rparr>"
    using q by (simp add: requeue_batch_def Let_def)
  have "mset ?rest \<subseteq># mset (batch @ q)"
    by (subst (2) append_take_drop_id [of ?over, symmetric]) (simp only: mset_append mset_subset_eq_add_right)
  then have sub: "image_mset ne_seq (mset ?rest) \<subseteq># image_mset ne_seq (mset batch) + image_mset ne_seq (mset q)"
    using image_mset_subseteq_mono by fastforce
  show ?case
    unfolding b'
    by (rule flow_move [OF failed.IH q, where q' = ?rest])
      (use sub in \<open>simp_all add: held_def ac_simps subset_mset.add_left_mono del: drop_append\<close>)
next
  case (pruned n b rows batches k now days rows' gone)
  from pruned.IH obtain q where q: "eb_pending b = Some q" "length q \<le> pending_capacity b" by (rule flow_okE)
  from pruned obtain P where rows': "rows' = filter P rows" "gone = length rows - length rows'"
    by (auto simp: prune_events_def Let_def split: if_splits intro: that [of "\<lambda>_. True"])
  have "image_mset er_seq (mset rows') \<subseteq># image_mset er_seq (mset rows)"
    using rows'(1) by (simp add: image_mset_subseteq_mono)
  moreover have "length rows' \<le> length rows" using rows'(1) by simp
  ultimately show ?case
    using q by (intro flow_move [OF pruned.IH q(1) q(1)]) (simp_all add: held_def rows'(2))
qed


text \<open>
  C34. No event is lost without a trace: under any interleaving of emitters, flushes in flight that
  land or fail in any order, and retention, every event emitted since the start is in the log, in a
  batch in flight, in the queue, deleted by retention, or counted as dropped, and no id is in two of
  the first three; the queue keeps within its bound.
\<close>

theorem events_accounted:
  assumes "flow cd n (b, rows, batches, gone)"
  shows "n = length rows + gone + length (concat batches) + pending_len b + dropped_before_persist b \<and>
    distinct (map er_seq rows @ map ne_seq (concat batches) @ map ne_seq (case eb_pending b of Some q \<Rightarrow> q | None \<Rightarrow> [])) \<and>
    pending_len b \<le> pending_capacity b \<and> lifecycle_dropped b \<le> dropped_before_persist b"
proof -
  obtain q where "eb_pending b = Some q" "length q \<le> pending_capacity b" "lifecycle_dropped b \<le> dropped_before_persist b"
    "distinct (map er_seq rows @ map ne_seq (concat batches @ q))"
    "n = length rows + gone + length (concat batches) + length q + dropped_before_persist b"
    by (rule flow_okE [OF flow_invariant [OF assms]])
  then show ?thesis by (simp add: pending_len_def)
qed

text \<open>
  The queue sheds progress samples first, and counts the transitions it has to drop. A batch that
  comes back from a failed flush is cut by age alone: a transition can go while progress samples
  stay, and it is not counted as one.
\<close>

definition demo_row :: "int \<Rightarrow> string \<Rightarrow> NewEvent" where
  "demo_row seq kind = \<lparr>ne_seq = seq, ne_kind = kind, ne_app = ''a'', ne_subject_id = ''s'', ne_payload = JNull\<rparr>"

lemma requeue_drops_transition:
  "let b = (with_log 1 (event_bus_new 8))\<lparr>eb_pending := Some [demo_row 2 ''job.progress'']\<rparr>;
       b' = requeue_batch [demo_row 1 ''job.failed''] b
   in map (map_option (map ne_kind)) [eb_pending b'] = [Some [''job.progress'']] \<and>
      dropped_before_persist b' = 1 \<and> lifecycle_dropped b' = 0"
  by (simp add: with_log_def event_bus_new_def with_byte_budget_def requeue_batch_def Let_def demo_row_def)

section \<open>Examples\<close>

text \<open>A codec that keeps every field.\<close>

definition enc_opt :: "('a \<Rightarrow> json) \<Rightarrow> 'a option \<Rightarrow> json" where
  "enc_opt f x = (case x of None \<Rightarrow> JNull | Some v \<Rightarrow> JArray [f v])"

definition dec_opt :: "(json \<Rightarrow> 'a) \<Rightarrow> json \<Rightarrow> 'a option" where
  "dec_opt g v = (case v of JArray [w] \<Rightarrow> Some (g w) | _ \<Rightarrow> None)"

definition dec_int :: "json \<Rightarrow> int" where
  "dec_int v = (case v of JNegInt i \<Rightarrow> i | _ \<Rightarrow> 0)"

definition dec_string :: "json \<Rightarrow> string" where
  "dec_string v = (case v of JString s \<Rightarrow> s | _ \<Rightarrow> [])"

lemma dec_enc [simp]:
  "dec_int (JNegInt i) = i" "dec_string (JString s) = s"
  "dec_opt g (enc_opt f x) = map_option (\<lambda>v. g (f v)) x"
  by (simp_all add: dec_int_def dec_string_def dec_opt_def enc_opt_def split: option.split)

definition enc_stages :: "JobStages \<Rightarrow> json" where
  "enc_stages st = JArray (JNegInt (st_attempt st) #
     map (enc_opt JNegInt) [run_ms st, index_ms st, hooks_ms st, alerts_ms st, total_ms st])"

definition dec_stages :: "json \<Rightarrow> JobStages" where
  "dec_stages v = (case v of
       JArray [a, r, i, h, l, t] \<Rightarrow>
         \<lparr>st_attempt = dec_int a, run_ms = dec_opt dec_int r, index_ms = dec_opt dec_int i, hooks_ms = dec_opt dec_int h,
          alerts_ms = dec_opt dec_int l, total_ms = dec_opt dec_int t\<rparr>
     | _ \<Rightarrow> \<lparr>st_attempt = 0, run_ms = None, index_ms = None, hooks_ms = None, alerts_ms = None, total_ms = None\<rparr>)"

lemma dec_enc_stages [simp]: "dec_stages (enc_stages st) = st"
  by (cases st) (simp add: dec_stages_def enc_stages_def option.map_ident)

definition enc_event :: "JobEvent \<Rightarrow> json" where
  "enc_event e = JArray
     [JArray (map (\<lambda>w. JPosInt (unat w)) (je_job_id e)), JString (je_app e), JString (je_status e),
      enc_opt (\<lambda>v. v) (je_result e), enc_opt JString (je_error e), enc_opt enc_stages (je_stages e),
      enc_opt JString (je_subject e)]"

definition dec_event :: "json \<Rightarrow> JobEvent option" where
  "dec_event v = (case v of
       JArray [JArray ids, app, status, result, error, stages, subject] \<Rightarrow>
         Some \<lparr>je_job_id = map (\<lambda>v. case v of JPosInt n \<Rightarrow> of_nat n | _ \<Rightarrow> 0) ids, je_app = dec_string app,
               je_status = dec_string status, je_result = dec_opt (\<lambda>v. v) result,
               je_error = dec_opt dec_string error, je_stages = dec_opt dec_stages stages,
               je_subject = dec_opt dec_string subject\<rparr>
     | _ \<Rightarrow> None)"

definition demo_event_codec :: event_codec where
  "demo_event_codec = \<lparr>to_value = (\<lambda>e. Inr (enc_event e)), from_value = dec_event, json_len = (\<lambda>_. 1),
     json_pointer = (\<lambda>_ _. None), uuid_text = (\<lambda>_. ''u'')\<rparr>"

lemma demo_event_codec_ok: "codec_ok demo_event_codec"
  by (simp add: codec_ok_def demo_event_codec_def enc_event_def dec_event_def comp_def option.map_ident)

abbreviation demo_event :: JobEvent where
  "demo_event \<equiv> job_event_new [] ''a'' ''failed''"


text \<open>A client that had seen five events before the log became unreadable misses the next three.\<close>

theorem stale_cursor_is_silenced_witness:
  "let b = boot_bus True 4 None;
       ((sent, last_seq), s') = connect_stream demo_event_codec True (\<lambda>_. True) 7 (\<lambda>_. True) (Some 5) (b, [])
   in sent = [] \<and> live_events last_seq (snd (emit_all demo_event_codec [demo_event, demo_event, demo_event] b)) = ([], 5)"
proof -
  have "eb_seq (boot_bus True 4 None) = 0"
    by (simp add: boot_bus_def Let_def logs_def with_log_def event_bus_new_def with_byte_budget_def)
  then show ?thesis
    using stale_cursor_is_silenced [of True 4 None "[demo_event, demo_event, demo_event]" 5 demo_event_codec True "\<lambda>_. True" 7
        "\<lambda>_. True" "[]"]
    by (auto simp: Let_def case_prod_beta simp del: emit_all.simps)
qed

theorem events_accounted_witness:
  "\<exists>b. flow demo_event_codec 1 (b, [], [], 0) \<and> pending_len b + dropped_before_persist b = 1"
proof -
  obtain b n where "emit_event demo_event_codec demo_event (boot_bus True 4 (Some [])) = (b, n)" by (rule prod.exhaust)
  with flow.emitted [OF flow.start [of "[]"]] have f: "flow demo_event_codec 1 (b, [], [], 0)" by fastforce
  from events_accounted [OF f] f show ?thesis by auto
qed

end
