(* ===== verification/Subscriptions.thy ===== *)
theory Subscriptions
  imports Event_Bus Paging "HOL-Library.AList"
begin

text \<open>
  The cursor subscriptions of \<open>crates/server/src/subscriptions.rs\<close>: selectors, the outbox pass over
  the event log and the cursors it advances (\<open>crates/core/src/storage.rs\<close>). Writing the delivery
  row of an event and sending it is the webhook transport: \<open>err\<close> gives the error of that write, if
  it fails, and \<open>read_ok\<close> says from which cursors the log can be read. The write of a cursor is
  taken to succeed. The pages of the log are one more instance of the paging interface \<open>keyset\<close>.
\<close>

section \<open>Selectors\<close>

record SelectorFilter =
  sf_pointer :: string
  sf_equals :: json

record Selector =
  sel_kinds :: "string list"
  sel_app :: "string option"
  sel_dataset :: "string option"
  sel_filters :: "SelectorFilter list"

definition selector_default :: Selector where
  "selector_default = \<lparr>sel_kinds = [], sel_app = None, sel_dataset = None, sel_filters = []\<rparr>"

datatype selector_error =
    NotAnObject json
  | UnknownField string
  | KindNotString json
  | KindEmpty
  | KindsNotArray json
  | NotAString string json
  | NoPointer json
  | BadPointer string
  | NoEquals json
  | FiltersNotArray json

definition optional_str :: "json option \<Rightarrow> string \<Rightarrow> selector_error + string option" where
  "optional_str v field =
     (case v of
        None \<Rightarrow> Inr None
      | Some JNull \<Rightarrow> Inr None
      | Some (JString s) \<Rightarrow> Inr (if s = [] then None else Some s)
      | Some other \<Rightarrow> Inl (NotAString field other))"

fun parse_kinds :: "json list \<Rightarrow> selector_error + string list" where
  "parse_kinds [] = Inr []"
| "parse_kinds (item # items) =
     (case item of
        JString kind \<Rightarrow>
          if kind = [] then Inl KindEmpty
          else (case parse_kinds items of Inl e \<Rightarrow> Inl e | Inr ks \<Rightarrow> Inr (kind # ks))
      | _ \<Rightarrow> Inl (KindNotString item))"

text \<open>\<open>Value::get\<close> on a string key: nothing but an object has one.\<close>

definition value_get :: "json \<Rightarrow> string \<Rightarrow> json option" where
  "value_get v key = (case v of JObject obj \<Rightarrow> map_of obj key | _ \<Rightarrow> None)"

fun parse_filters :: "json list \<Rightarrow> selector_error + SelectorFilter list" where
  "parse_filters [] = Inr []"
| "parse_filters (item # items) =
     (case value_get item ''pointer'' of
        Some (JString pointer) \<Rightarrow>
          if pointer = [] \<or> hd pointer \<noteq> CHR ''/'' then Inl (BadPointer pointer)
          else (case value_get item ''equals'' of
                  None \<Rightarrow> Inl (NoEquals item)
                | Some equals \<Rightarrow>
                    (case parse_filters items of
                       Inl e \<Rightarrow> Inl e
                     | Inr fs \<Rightarrow> Inr (\<lparr>sf_pointer = pointer, sf_equals = equals\<rparr> # fs)))
      | _ \<Rightarrow> Inl (NoPointer item))"

definition known_field :: "string \<Rightarrow> bool" where
  "known_field key \<longleftrightarrow> key = ''kinds'' \<or> key = ''app'' \<or> key = ''dataset'' \<or> key = ''filters''"

definition parse_object :: "(string \<times> json) list \<Rightarrow> selector_error + Selector" where
  "parse_object obj =
     (case find (\<lambda>kv. \<not> known_field (fst kv)) obj of
        Some kv \<Rightarrow> Inl (UnknownField (fst kv))
      | None \<Rightarrow>
      (case (case map_of obj ''kinds'' of
               None \<Rightarrow> Inr []
             | Some JNull \<Rightarrow> Inr []
             | Some (JArray items) \<Rightarrow> parse_kinds items
             | Some other \<Rightarrow> Inl (KindsNotArray other)) of
        Inl e \<Rightarrow> Inl e
      | Inr kinds \<Rightarrow>
      (case optional_str (map_of obj ''app'') ''selector.app'' of
        Inl e \<Rightarrow> Inl e
      | Inr app \<Rightarrow>
      (case optional_str (map_of obj ''dataset'') ''selector.dataset'' of
        Inl e \<Rightarrow> Inl e
      | Inr dataset \<Rightarrow>
      (case (case map_of obj ''filters'' of
               None \<Rightarrow> Inr []
             | Some JNull \<Rightarrow> Inr []
             | Some (JArray items) \<Rightarrow> parse_filters items
             | Some other \<Rightarrow> Inl (FiltersNotArray other)) of
        Inl e \<Rightarrow> Inl e
      | Inr filters \<Rightarrow>
          Inr \<lparr>sel_kinds = kinds, sel_app = app, sel_dataset = dataset, sel_filters = filters\<rparr>)))))"

definition parse_selector :: "json \<Rightarrow> selector_error + Selector" where
  "parse_selector v =
     (case v of JNull \<Rightarrow> Inr selector_default | JObject obj \<Rightarrow> parse_object obj | other \<Rightarrow> Inl (NotAnObject other))"

definition filter_json :: "SelectorFilter \<Rightarrow> json" where
  "filter_json f = JObject [(''equals'', sf_equals f), (''pointer'', JString (sf_pointer f))]"

definition selector_to_json :: "Selector \<Rightarrow> json" where
  "selector_to_json s = JObject
     ((if sel_kinds s \<noteq> [] then [(''kinds'', JArray (map JString (sel_kinds s)))] else []) @
      (case sel_app s of Some app \<Rightarrow> [(''app'', JString app)] | None \<Rightarrow> []) @
      (case sel_dataset s of Some dataset \<Rightarrow> [(''dataset'', JString dataset)] | None \<Rightarrow> []) @
      (if sel_filters s \<noteq> [] then [(''filters'', JArray (map filter_json (sel_filters s)))] else []))"

definition event_names_dataset :: "event_codec \<Rightarrow> EventRecord \<Rightarrow> string \<Rightarrow> bool" where
  "event_names_dataset cd event dataset \<longleftrightarrow>
     er_subject_id event = dataset \<or> json_pointer cd (er_payload event) ''/result/dataset'' = Some (JString dataset)"

definition selector_matches :: "event_codec \<Rightarrow> Selector \<Rightarrow> EventRecord \<Rightarrow> bool" where
  "selector_matches cd s event \<longleftrightarrow>
     (sel_kinds s = [] \<or> er_kind event \<in> set (sel_kinds s)) \<and>
     (case sel_app s of None \<Rightarrow> True | Some app \<Rightarrow> app = ''*'' \<or> app = er_app event) \<and>
     (case sel_dataset s of None \<Rightarrow> True | Some d \<Rightarrow> d = ''*'' \<or> event_names_dataset cd event d) \<and>
     list_all (\<lambda>f. json_pointer cd (er_payload event) (sf_pointer f) = Some (sf_equals f)) (sel_filters s)"

definition DATASET_CHANGED :: string where
  "DATASET_CHANGED = ''dataset.changed''"

section \<open>Subscriptions and watches\<close>

record Subscription =
  sb_id :: string
  sb_name :: "string option"
  sb_selector :: json
  sb_sink :: string
  sb_url :: string
  sb_secret :: "string option"
  sb_cursor :: int
  sb_enabled :: bool
  sb_principal_id :: "string option"
  sb_created_at :: time
  sb_last_delivered_at :: "time option"
  sb_last_error :: "string option"

record Watch =
  wa_id :: string
  wa_app :: string
  wa_dataset :: string
  wa_url :: string
  wa_secret :: "string option"
  wa_sink :: string
  wa_enabled :: bool
  wa_cursor :: int
  wa_created_at :: time

record outbox =
  ob_subs :: "Subscription list"
  ob_watches :: "Watch list"

definition watch_selector :: "Watch \<Rightarrow> Selector" where
  "watch_selector w =
     \<lparr>sel_kinds = [DATASET_CHANGED], sel_app = Some (wa_app w), sel_dataset = Some (wa_dataset w), sel_filters = []\<rparr>"

record Target =
  tg_id :: string
  delivery_kind :: string
  tg_selector :: Selector
  tg_sink :: string
  tg_url :: string
  tg_secret :: "string option"
  tg_cursor :: int
  is_watch :: bool

definition target_from_subscription :: "Subscription \<Rightarrow> Selector \<Rightarrow> Target" where
  "target_from_subscription sub selector =
     \<lparr>tg_id = sb_id sub, delivery_kind = ''subscription'', tg_selector = selector, tg_sink = sb_sink sub,
      tg_url = sb_url sub, tg_secret = sb_secret sub, tg_cursor = sb_cursor sub, is_watch = False\<rparr>"

definition target_from_watch :: "Watch \<Rightarrow> Target" where
  "target_from_watch w =
     \<lparr>tg_id = wa_id w, delivery_kind = ''change'', tg_selector = watch_selector w, tg_sink = wa_sink w,
      tg_url = wa_url w, tg_secret = wa_secret w, tg_cursor = wa_cursor w, is_watch = True\<rparr>"

definition create_subscription ::
  "string \<Rightarrow> time \<Rightarrow> string option \<Rightarrow> json \<Rightarrow> string \<Rightarrow> string \<Rightarrow> string option \<Rightarrow> int \<Rightarrow> string option \<Rightarrow> outbox \<Rightarrow> outbox" where
  "create_subscription fresh now name selector sink url secret from_seq principal_id ob =
     ob\<lparr>ob_subs := ob_subs ob @
        [\<lparr>sb_id = fresh, sb_name = name, sb_selector = selector, sb_sink = sink, sb_url = url, sb_secret = secret,
          sb_cursor = from_seq, sb_enabled = True, sb_principal_id = principal_id, sb_created_at = now,
          sb_last_delivered_at = None, sb_last_error = None\<rparr>]\<rparr>"

definition get_subscription :: "string \<Rightarrow> outbox \<Rightarrow> Subscription option" where
  "get_subscription i ob = find (\<lambda>r. sb_id r = i) (ob_subs ob)"

definition advance_subscription_cursor :: "time \<Rightarrow> string \<Rightarrow> int \<Rightarrow> outbox \<Rightarrow> outbox" where
  "advance_subscription_cursor now i seq ob =
     ob\<lparr>ob_subs := update_where (\<lambda>r. sb_id r = i \<and> sb_cursor r < seq)
        (\<lambda>r. r\<lparr>sb_cursor := seq, sb_last_delivered_at := Some now, sb_last_error := None\<rparr>) (ob_subs ob)\<rparr>"

definition advance_watch_cursor :: "string \<Rightarrow> int \<Rightarrow> outbox \<Rightarrow> outbox" where
  "advance_watch_cursor i seq ob =
     ob\<lparr>ob_watches := update_where (\<lambda>r. wa_id r = i \<and> wa_cursor r < seq) (\<lambda>r. r\<lparr>wa_cursor := seq\<rparr>) (ob_watches ob)\<rparr>"

definition record_subscription_error :: "string \<Rightarrow> string \<Rightarrow> outbox \<Rightarrow> outbox" where
  "record_subscription_error i err ob =
     ob\<lparr>ob_subs := update_where (\<lambda>r. sb_id r = i) (\<lambda>r. r\<lparr>sb_last_error := Some err\<rparr>) (ob_subs ob)\<rparr>"

text \<open>The flag says whether there was such a row.\<close>

definition set_subscription_enabled :: "string \<Rightarrow> bool \<Rightarrow> outbox \<Rightarrow> outbox \<times> bool" where
  "set_subscription_enabled i enabled ob =
     (ob\<lparr>ob_subs := update_where (\<lambda>r. sb_id r = i) (\<lambda>r. r\<lparr>sb_enabled := enabled\<rparr>) (ob_subs ob)\<rparr>,
      list_ex (\<lambda>r. sb_id r = i) (ob_subs ob))"

definition delete_subscription :: "string \<Rightarrow> outbox \<Rightarrow> outbox \<times> bool" where
  "delete_subscription i ob =
     (ob\<lparr>ob_subs := filter (\<lambda>r. sb_id r \<noteq> i) (ob_subs ob)\<rparr>, list_ex (\<lambda>r. sb_id r = i) (ob_subs ob))"

text \<open>The rows newest first, and the watches oldest first; ties by id. Ids of equal stamps are compared as text.\<close>

definition list_subscriptions :: "bool \<Rightarrow> outbox \<Rightarrow> Subscription list" where
  "list_subscriptions enabled_only ob =
     rev (sort_key (\<lambda>r. (sb_created_at r, sb_id r)) (filter (\<lambda>r. enabled_only \<longrightarrow> sb_enabled r) (ob_subs ob)))"

definition enabled_watches_all :: "outbox \<Rightarrow> Watch list" where
  "enabled_watches_all ob = sort_key (\<lambda>r. (wa_created_at r, wa_id r)) (filter wa_enabled (ob_watches ob))"

definition load_targets :: "outbox \<Rightarrow> Target list" where
  "load_targets ob =
     List.map_filter (\<lambda>sub. case parse_selector (sb_selector sub) of
         Inr selector \<Rightarrow> Some (target_from_subscription sub selector) | Inl _ \<Rightarrow> None) (list_subscriptions True ob) @
     map target_from_watch (enabled_watches_all ob)"

definition delivery_payload :: "event_codec \<Rightarrow> (time \<Rightarrow> string) \<Rightarrow> Target \<Rightarrow> EventRecord \<Rightarrow> json" where
  "delivery_payload cd time_text t event =
     (if is_watch t then
        (case (case json_pointer cd (er_payload event) ''/result'' of Some v \<Rightarrow> v | None \<Rightarrow> er_payload event) of
           JObject obj \<Rightarrow> JObject (AList.update ''watch_id'' (JString (tg_id t)) obj)
         | body \<Rightarrow> body)
      else JObject
        [(''subscription_id'', JString (tg_id t)),
         (''seq'', if 0 \<le> er_seq event then JPosInt (nat (er_seq event)) else JNegInt (er_seq event)),
         (''kind'', JString (er_kind event)), (''app'', JString (er_app event)),
         (''subject_id'', JString (er_subject_id event)), (''created_at'', JString (time_text (er_created_at event))),
         (''payload'', er_payload event)])"

section \<open>The outbox pass\<close>

definition MAX_PAGES_PER_TICK :: nat where
  "MAX_PAGES_PER_TICK = 20"

definition advance_target :: "time \<Rightarrow> Target \<Rightarrow> int \<Rightarrow> outbox \<Rightarrow> outbox" where
  "advance_target now t seq ob =
     (if seq \<le> tg_cursor t then ob
      else if is_watch t then advance_watch_cursor (tg_id t) seq ob
      else advance_subscription_cursor now (tg_id t) seq ob)"

text \<open>
  One page: the events dispatched, the id reached, and the error of the write that failed.
\<close>

fun drain_page ::
  "event_codec \<Rightarrow> Selector \<Rightarrow> (EventRecord \<Rightarrow> string option) \<Rightarrow> EventRecord list \<Rightarrow> int \<Rightarrow> EventRecord list \<times> int \<times> string option" where
  "drain_page cd sel err [] reached = ([], reached, None)"
| "drain_page cd sel err (event # page) reached =
     (if selector_matches cd sel event then
        (case err event of
           Some e \<Rightarrow> ([], reached, Some e)
         | None \<Rightarrow> (case drain_page cd sel err page (er_seq event) of (sent, r, e) \<Rightarrow> (event # sent, r, e)))
      else drain_page cd sel err page (er_seq event))"

text \<open>The pages of one pass over one target, at most as many as are left.\<close>

fun drain_pages ::
  "event_codec \<Rightarrow> (EventRecord \<Rightarrow> string option) \<Rightarrow> (int \<Rightarrow> bool) \<Rightarrow> time \<Rightarrow> nat \<Rightarrow> Target \<Rightarrow> EventRecord list \<Rightarrow> nat \<Rightarrow> int \<Rightarrow>
   outbox \<Rightarrow> EventRecord list \<times> outbox" where
  "drain_pages cd err read_ok now batch t rows 0 cursor ob = ([], ob)"
| "drain_pages cd err read_ok now batch t rows (Suc n) cursor ob =
     (if \<not> read_ok cursor then ([], ob)
      else let page = events_after cursor None None batch rows
           in if page = [] then ([], ob)
              else case drain_page cd (tg_selector t) err page cursor of
                     (sent, reached, Some e) \<Rightarrow>
                       (sent, record_subscription_error (tg_id t) e (advance_target now t reached ob))
                   | (sent, reached, None) \<Rightarrow>
                       (let ob' = advance_target now t reached ob
                        in if length page < batch then (sent, ob')
                           else (case drain_pages cd err read_ok now batch t rows n reached ob' of
                                   (rest, ob'') \<Rightarrow> (sent @ rest, ob''))))"

definition drain_target ::
  "event_codec \<Rightarrow> (EventRecord \<Rightarrow> string option) \<Rightarrow> (int \<Rightarrow> bool) \<Rightarrow> time \<Rightarrow> nat \<Rightarrow> Target \<Rightarrow> EventRecord list \<Rightarrow> outbox \<Rightarrow>
   EventRecord list \<times> outbox" where
  "drain_target cd err read_ok now batch t rows ob =
     drain_pages cd err read_ok now (max batch 1) t rows MAX_PAGES_PER_TICK (tg_cursor t) ob"

text \<open>
  The whole pass: flush, then each target in turn. \<open>err\<close> and \<open>read_ok\<close> may depend on the target.
\<close>

definition drain ::
  "event_codec \<Rightarrow> (Target \<Rightarrow> EventRecord \<Rightarrow> string option) \<Rightarrow> (Target \<Rightarrow> int \<Rightarrow> bool) \<Rightarrow> bool \<Rightarrow> time \<Rightarrow> nat \<Rightarrow>
   EventBus \<times> EventRecord list \<Rightarrow> outbox \<Rightarrow> (Target \<times> EventRecord list) list \<times> (EventBus \<times> EventRecord list) \<times> outbox" where
  "drain cd err read_ok saved now batch s ob =
     (if \<not> logs (fst s) then ([], s, ob)
      else case persist_pending saved now s of
             (None, s') \<Rightarrow> ([], s', ob)
           | (Some _, s') \<Rightarrow>
               let (sent, ob') = fold (\<lambda>t (sent, ob).
                     let (es, ob') = drain_target cd (err t) (read_ok t) now batch t (snd s') ob
                     in (sent @ [(t, es)], ob')) (load_targets ob) ([], ob)
               in (sent, s', ob'))"


section \<open>Selectors survive the store\<close>

definition selector_ok :: "Selector \<Rightarrow> bool" where
  "selector_ok s \<longleftrightarrow>
     [] \<notin> set (sel_kinds s) \<and> sel_app s \<noteq> Some [] \<and> sel_dataset s \<noteq> Some [] \<and>
     (\<forall>f\<in>set (sel_filters s). sf_pointer f \<noteq> [] \<and> hd (sf_pointer f) = CHR ''/'')"

lemma parse_kinds_ok: "parse_kinds items = Inr ks \<Longrightarrow> [] \<notin> set ks"
  by (induction items arbitrary: ks) (auto split: json.splits if_splits sum.splits)

lemma parse_filters_ok:
  "parse_filters items = Inr fs \<Longrightarrow> f \<in> set fs \<Longrightarrow> sf_pointer f \<noteq> [] \<and> hd (sf_pointer f) = CHR ''/''"
proof (induction items arbitrary: fs)
  case (Cons item items)
  then show ?case by (auto split: option.splits json.splits if_splits sum.splits)
qed simp

lemma optional_str_ok: "optional_str v field = Inr s \<Longrightarrow> s \<noteq> Some []"
  by (auto simp: optional_str_def split: option.splits json.splits if_splits)

lemma parse_selector_ok:
  assumes "parse_selector v = Inr s"
  shows "selector_ok s"
proof (cases "\<exists>obj. v = JObject obj")
  case True
  then obtain obj where "parse_object obj = Inr s" using assms by (auto simp: parse_selector_def)
  then have "\<exists>items. sel_kinds s = [] \<or> parse_kinds items = Inr (sel_kinds s)"
    "optional_str (map_of obj ''app'') ''selector.app'' = Inr (sel_app s)"
    "optional_str (map_of obj ''dataset'') ''selector.dataset'' = Inr (sel_dataset s)"
    "\<exists>items. sel_filters s = [] \<or> parse_filters items = Inr (sel_filters s)"
    by (auto simp: parse_object_def split: option.splits sum.splits json.splits)
  then show ?thesis
    unfolding selector_ok_def using parse_kinds_ok parse_filters_ok optional_str_ok by (metis empty_iff list.set(1))
next
  case False
  then show ?thesis using assms by (auto simp: parse_selector_def selector_default_def selector_ok_def split: json.splits)
qed

lemma parse_kinds_print: "[] \<notin> set ks \<Longrightarrow> parse_kinds (map JString ks) = Inr ks"
  by (induction ks) auto

lemma parse_filters_print:
  "\<forall>f\<in>set fs. sf_pointer f \<noteq> [] \<and> hd (sf_pointer f) = CHR ''/'' \<Longrightarrow> parse_filters (map filter_json fs) = Inr fs"
  by (induction fs) (auto simp: filter_json_def value_get_def)

text \<open>
  A selector survives being stored: whatever document a selector was parsed from, the document
  it is written back as parses to the same selector, so what a subscription matches does not change
  when its row is rewritten.
\<close>

theorem selector_roundtrip:
  assumes "parse_selector v = Inr s"
  shows "parse_selector (selector_to_json s) = Inr s"
proof -
  have ok: "selector_ok s" by (rule parse_selector_ok [OF assms])
  obtain kinds app dataset filters where
    s: "s = \<lparr>sel_kinds = kinds, sel_app = app, sel_dataset = dataset, sel_filters = filters\<rparr>" by (cases s)
  have p: "parse_kinds (map JString kinds) = Inr kinds" "parse_filters (map filter_json filters) = Inr filters"
    using ok by (auto simp: s selector_ok_def intro: parse_kinds_print parse_filters_print)
  show ?thesis
    using ok p
    by (cases app; cases dataset; cases "kinds = []"; cases "filters = []")
      (simp_all add: s selector_to_json_def parse_selector_def parse_object_def known_field_def optional_str_def selector_ok_def)
qed

theorem selector_roundtrip_witness:
  "let v = JObject [(''kinds'', JArray [JString ''job.failed'']), (''app'', JString ''crawl''), (''dataset'', JNull)]
   in (case parse_selector v of Inr s \<Rightarrow> parse_selector (selector_to_json s) = Inr s \<and> sel_app s = Some ''crawl'' | Inl _ \<Rightarrow> False)"
proof -
  let ?v = "JObject [(''kinds'', JArray [JString ''job.failed'']), (''app'', JString ''crawl''), (''dataset'', JNull)]"
  have p: "parse_selector ?v = Inr \<lparr>sel_kinds = [''job.failed''], sel_app = Some ''crawl'', sel_dataset = None, sel_filters = []\<rparr>"
    by (simp add: parse_selector_def parse_object_def known_field_def optional_str_def)
  from selector_roundtrip [OF p] show ?thesis by (simp add: p)
qed


section \<open>A pass hands over what it scans\<close>

text \<open>The log read from a cursor is a paged read.\<close>

definition rows_from :: "int \<Rightarrow> EventRecord list \<Rightarrow> EventRecord list" where
  "rows_from c rows = order_asc er_seq (filter (\<lambda>r. c < er_seq r) rows)"

interpretation log_pages: keyset "\<lambda>rows. distinct (map er_seq rows)" "rows_from c"
    "\<lambda>rows after n. events_after (case after of None \<Rightarrow> c | Some k \<Rightarrow> max c k) None None (nat n) rows" er_seq "(<)"
  for c
proof unfold_locales
  fix rows :: "EventRecord list" and n k :: int
  assume d: "distinct (map er_seq rows)"
  show "sorted_wrt (\<lambda>x y. er_seq x < er_seq y) (rows_from c rows)"
    unfolding rows_from_def by (rule order_asc_strict) (use d in \<open>auto simp: distinct_map intro: inj_on_subset\<close>)
  show "events_after (case None of None \<Rightarrow> c | Some k \<Rightarrow> max c k) None None (nat n) rows = take (nat n) (rows_from c rows)"
    by (simp add: events_after_def order_limit_def rows_from_def order_asc_def)
  show "events_after (case Some k of None \<Rightarrow> c | Some k \<Rightarrow> max c k) None None (nat n) rows =
      take (nat n) (filter (\<lambda>r. k < er_seq r) (rows_from c rows))"
    unfolding rows_from_def order_asc_filter [symmetric] filter_filter
    by (simp add: events_after_def order_limit_def order_asc_def conj_commute)
qed auto

lemma rows_after_page:
  assumes "distinct (map er_seq rows)" and "rows_from c rows = xs @ x # ys"
  shows "rows_from (er_seq x) rows = ys"
proof -
  have "x \<in> set (rows_from c rows)" using assms(2) by simp
  then have "c < er_seq x" by (simp add: rows_from_def order_asc_def)
  then have "filter (\<lambda>r. er_seq x < er_seq r) rows = filter (\<lambda>r. er_seq x < er_seq r) (filter (\<lambda>r. c < er_seq r) rows)"
    by (auto intro: filter_cong)
  then have "rows_from (er_seq x) rows = filter (\<lambda>r. er_seq x < er_seq r) (rows_from c rows)"
    by (simp only: rows_from_def order_asc_filter)
  also have "\<dots> = ys" by (rule log_pages.rows_after [OF assms])
  finally show ?thesis .
qed

definition handed :: "event_codec \<Rightarrow> Selector \<Rightarrow> (EventRecord \<Rightarrow> string option) \<Rightarrow> EventRecord \<Rightarrow> bool" where
  "handed cd sel err e \<longleftrightarrow> (selector_matches cd sel e \<longrightarrow> err e = None)"

definition reached_by :: "int \<Rightarrow> EventRecord list \<Rightarrow> int" where
  "reached_by c es = (if es = [] then c else er_seq (last es))"

lemma drain_page_spec:
  "drain_page cd sel err page c =
     (let good = takeWhile (handed cd sel err) page
      in (filter (selector_matches cd sel) good, reached_by c good,
          if good = page then None else err (page ! length good)))"
proof (induction page arbitrary: c)
  case (Cons e page)
  show ?case
  proof (cases "handed cd sel err e")
    case True
    with Cons [of "er_seq e"] show ?thesis
      by (cases "takeWhile (handed cd sel err) page = []")
        (auto simp: handed_def Let_def reached_by_def split: option.split)
  next
    case False
    then show ?thesis by (auto simp: handed_def Let_def reached_by_def)
  qed
qed (simp add: reached_by_def)

definition target_cursor :: "Target \<Rightarrow> outbox \<Rightarrow> int option" where
  "target_cursor t ob =
     (if is_watch t then map_option wa_cursor (find (\<lambda>r. wa_id r = tg_id t) (ob_watches ob))
      else map_option sb_cursor (find (\<lambda>r. sb_id r = tg_id t) (ob_subs ob)))"

lemma find_update_where:
  assumes "\<And>r. k (f r) = k r"
  shows "find (\<lambda>r. k r = i) (update_where p f rows) = map_option (\<lambda>r. if p r then f r else r) (find (\<lambda>r. k r = i) rows)"
  by (induction rows) (auto simp: assms)

lemma find_key: "find (\<lambda>r. k r = i) rows = Some r \<Longrightarrow> k r = i"
  by (induction rows) (auto split: if_splits)

lemma cursor_advance:
  assumes "target_cursor t ob = Some c" and "tg_cursor t \<le> c" and "c \<le> seq"
  shows "target_cursor t (advance_target now t seq ob) = Some seq"
proof (cases "is_watch t")
  case True
  then obtain r where r: "find (\<lambda>r. wa_id r = tg_id t) (ob_watches ob) = Some r" "wa_cursor r = c"
    using assms(1) by (auto simp: target_cursor_def)
  with find_key [OF r(1)] True assms show ?thesis
    by (auto simp: target_cursor_def advance_target_def advance_watch_cursor_def find_update_where)
next
  case False
  then obtain r where r: "find (\<lambda>r. sb_id r = tg_id t) (ob_subs ob) = Some r" "sb_cursor r = c"
    using assms(1) by (auto simp: target_cursor_def)
  with find_key [OF r(1)] False assms show ?thesis
    by (auto simp: target_cursor_def advance_target_def advance_subscription_cursor_def find_update_where)
qed

lemma cursor_error: "target_cursor t (record_subscription_error i e ob) = target_cursor t ob"
  by (simp add: target_cursor_def record_subscription_error_def find_update_where map_option.compositionality comp_def)
    (simp add: option.map_comp comp_def if_distrib cong: if_cong)


lemma takeWhile_stops: "takeWhile P xs \<noteq> xs \<Longrightarrow> takeWhile P (xs @ ys) = takeWhile P xs"
  by (metis takeWhile_append1 takeWhile_eq_all_conv)

lemma takeWhile_goes_on: "takeWhile P xs = xs \<Longrightarrow> takeWhile P (xs @ ys) = xs @ takeWhile P ys"
  by (simp add: takeWhile_eq_all_conv)

lemma reached_by_le:
  assumes "distinct (map er_seq rows)" and "rows_from c rows = xs @ ys"
  shows "c \<le> reached_by c xs"
proof (cases "xs = []")
  case False
  then have "last xs \<in> set (rows_from c rows)" using assms(2) by simp
  then show ?thesis by (simp add: reached_by_def rows_from_def order_asc_def)
qed (simp add: reached_by_def)

lemma drain_pages_spec:
  assumes d: "distinct (map er_seq rows)" and read: "\<forall>c. read_ok c" and batch: "1 \<le> batch"
    and "target_cursor t ob = Some c" and "tg_cursor t \<le> c"
    and "good = takeWhile (handed cd (tg_selector t) err) (take (batch * n) (rows_from c rows))"
  shows "\<exists>ob'. drain_pages cd err read_ok now batch t rows n c ob = (filter (selector_matches cd (tg_selector t)) good, ob') \<and>
    target_cursor t ob' = Some (reached_by c good)"
  using assms(4-6)
proof (induction n arbitrary: c ob good)
  case (Suc n)
  let ?P = "handed cd (tg_selector t) err" and ?m = "selector_matches cd (tg_selector t)"
  define xs where "xs = rows_from c rows"
  define page where "page = take batch xs"
  define g where "g = takeWhile ?P page"
  let ?rest = "take (batch * n) (drop batch xs)" and ?ob = "advance_target now t (reached_by c g) ob"
  have ev: "events_after c None None batch rows = page"
    using log_pages.first_page [OF d, of "int batch" c] by (simp add: page_def xs_def)
  have "drain_page cd (tg_selector t) err page c = (filter ?m g, reached_by c g, if g = page then None else err (page ! length g))"
    by (simp add: drain_page_spec Let_def g_def)
  then have step: "page \<noteq> [] \<Longrightarrow> drain_pages cd err read_ok now batch t rows (Suc n) c ob =
      (case (filter ?m g, reached_by c g, if g = page then None else err (page ! length g)) of
         (sent, reached, Some e) \<Rightarrow> (sent, record_subscription_error (tg_id t) e (advance_target now t reached ob))
       | (sent, reached, None) \<Rightarrow>
           (let ob' = advance_target now t reached ob
            in if length page < batch then (sent, ob')
               else (case drain_pages cd err read_ok now batch t rows n reached ob' of (rest, ob'') \<Rightarrow> (sent @ rest, ob''))))"
    using read by (simp add: ev)
  have scan: "good = takeWhile ?P (page @ ?rest)" using Suc.prems(3) by (simp add: page_def xs_def take_add)
  have "xs = g @ (dropWhile ?P page @ drop batch xs)"
    unfolding g_def by (simp add: append.assoc [symmetric] page_def)
  from reached_by_le [OF d this [unfolded xs_def]] have le: "c \<le> reached_by c g" .
  have adv: "target_cursor t ?ob = Some (reached_by c g)"
    using Suc.prems(1,2) le by (rule cursor_advance)
  consider (empty) "page = []" | (stop) "page \<noteq> []" "g \<noteq> page" | (short) "page \<noteq> []" "g = page" "length page < batch"
    | (full) "page \<noteq> []" "g = page" "\<not> length page < batch" by blast
  then show ?case
  proof cases
    case empty
    then have "xs = []" using batch by (simp add: page_def)
    then have "good = []" using scan empty by simp
    with empty Suc.prems(1) read ev show ?thesis by (simp add: reached_by_def)
  next
    case stop
    then have good: "good = g" using scan takeWhile_stops g_def by metis
    have "length g < length page"
      using stop(2) unfolding g_def by (metis le_neq_implies_less length_takeWhile_le take_all_iff takeWhile_eq_take)
    then have "\<not> ?P (page ! length g)" unfolding g_def by (rule nth_length_takeWhile)
    then obtain e where "err (page ! length g) = Some e" by (auto simp: handed_def)
    with step stop adv show ?thesis by (simp add: good cursor_error)
  next
    case short
    then have "drop batch xs = []" by (simp add: page_def)
    then have "good = g" using scan g_def by simp
    with step short adv show ?thesis by simp
  next
    case full
    let ?r = "reached_by c g" and ?more = "takeWhile ?P ?rest"
    have good: "good = g @ ?more" using scan takeWhile_goes_on full(2) g_def by metis
    have "rows_from c rows = butlast page @ last page # drop batch xs"
      using full(1) unfolding page_def xs_def by (metis append.assoc append_Cons append_Nil append_butlast_last_id append_take_drop_id)
    then have rest: "rows_from ?r rows = drop batch xs" using rows_after_page [OF d] full(1,2) by (simp add: reached_by_def)
    have "tg_cursor t \<le> ?r" using le Suc.prems(2) by simp
    from Suc.IH [OF adv this refl] obtain ob' where
      ih: "drain_pages cd err read_ok now batch t rows n ?r ?ob = (filter ?m ?more, ob')"
      "target_cursor t ob' = Some (reached_by ?r ?more)"
      unfolding rest by blast
    have "reached_by ?r ?more = reached_by c good" using full(1,2) by (simp add: good reached_by_def)
    with step full ih show ?thesis by (simp add: good)
  qed
qed (simp add: reached_by_def)



section \<open>A batch in flight can be passed\<close>

lemma drain_page_sends: "e \<in> set (fst (drain_page cd sel err page c)) \<Longrightarrow> e \<in> set page"
  by (induction page arbitrary: c) (auto split: option.splits if_splits simp: case_prod_beta)

lemma drain_page_reached:
  assumes "\<forall>e\<in>set page. c < er_seq e"
  shows "c \<le> fst (snd (drain_page cd sel err page c))"
proof -
  let ?good = "takeWhile (handed cd sel err) page"
  have "c \<le> reached_by c ?good"
    using assms set_takeWhileD [of _ "handed cd sel err" page] by (force simp: reached_by_def dest: last_in_set)
  then show ?thesis by (simp add: drain_page_spec Let_def)
qed

lemma drain_sends_later:
  "e \<in> set (fst (drain_pages cd err read_ok now batch t rows n c ob)) \<Longrightarrow> c < er_seq e"
proof (induction n arbitrary: c ob)
  case (Suc n)
  let ?page = "events_after c None None batch rows"
  have page: "\<forall>e\<in>set ?page. c < er_seq e" using events_after_mem by blast
  obtain sent reached res where p: "drain_page cd (tg_selector t) err ?page c = (sent, reached, res)" by (rule prod_cases3)
  have sent: "\<forall>e\<in>set sent. c < er_seq e" using drain_page_sends [of _ cd "tg_selector t" err ?page c] p page by auto
  have le: "c \<le> reached" using drain_page_reached [OF page, of cd "tg_selector t" err] p by simp
  show ?case
    using Suc.prems sent le p Suc.IH [of reached "advance_target now t reached ob"]
    by (auto simp: Let_def case_prod_beta split: if_splits option.splits)
qed simp

lemma emit_one_queued:
  assumes "eb_pending b = Some []" and "1 \<le> pending_capacity b" and "emit_event cd e b = (b', seq)"
  shows "eb_pending b' = Some [log_row cd seq e] \<and> seq = Suc (eb_seq b)"
  using assms emit_seq [OF assms(3)]
  by (auto simp: emit_event_def queue_for_log_def shed.simps Let_def case_prod_beta)

lemma sorted_le_last: "sorted xs \<Longrightarrow> x \<in> set xs \<Longrightarrow> x \<le> last xs"
  by (induction xs) auto

lemma rows_from_last:
  assumes "distinct (map er_seq (rows @ [r]))" and "\<forall>x\<in>set rows. er_seq x < er_seq r" and "c < er_seq r"
  shows "rows_from c (rows @ [r]) \<noteq> [] \<and> last (rows_from c (rows @ [r])) = r"
proof -
  let ?xs = "rows_from c (rows @ [r])"
  have r: "r \<in> set ?xs" using assms(3) by (simp add: rows_from_def order_asc_def)
  then have ne: "?xs \<noteq> []" by auto
  have "sorted (map er_seq ?xs)" by (simp add: rows_from_def order_asc_def)
  from sorted_le_last [OF this, of "er_seq r"] have "er_seq r \<le> er_seq (last ?xs)" using r ne by (simp add: last_map)
  moreover have "last ?xs \<in> set (rows @ [r])" using last_in_set [OF ne] by (auto simp: rows_from_def order_asc_def)
  ultimately show ?thesis using assms(2) ne by auto
qed


text \<open>
  An event can be lost to a subscription although it reaches the log. A flush takes the queue
  and then waits for the store; another flush, of an event emitted meanwhile, can commit first. A
  pass that runs in between moves the cursor past the batch that is still in flight, and no later
  pass of that target hands over any event of the batch, whatever the log then holds.
\<close>

theorem inflight_batch_is_skipped:
  assumes "flow cd n (b, rows, batch # batches, gone)" and "eb_pending b = Some []"
    and emit: "emit_event cd e b = (b', seq)" and flush: "persist_pending True now (b', rows) = (r, s)"
    and "\<forall>c. read_ok c" and "target_cursor t ob = Some (tg_cursor t)" and "tg_cursor t < int seq"
    and "length rows < 20 * max psize 1"
  shows "target_cursor t (snd (drain_target cd (\<lambda>_. None) read_ok now psize t (snd s) ob)) = Some (int seq) \<and>
    (\<forall>t' err read_ok' now' psize' rows' ob'. int seq \<le> tg_cursor t' \<longrightarrow>
       er_seq ` set (fst (drain_target cd err read_ok' now' psize' t' rows' ob')) \<inter> ne_seq ` set batch = {})"
proof -
  have cap: "1 \<le> pending_capacity b" and ids: "distinct (map er_seq rows @ map ne_seq (concat (batch # batches) @ []))"
    "\<And>i. i \<in> set (map er_seq rows @ map ne_seq (concat (batch # batches) @ [])) \<Longrightarrow> i \<le> int (eb_seq b)"
    using flow_okE [OF flow_invariant [OF assms(1)]] assms(2) by (metis option.inject)+
  have q: "eb_pending b' = Some [log_row cd seq e]" and seq: "seq = Suc (eb_seq b)"
    using emit_one_queued [OF assms(2) cap emit] by auto
  have row: "er_seq (event_record now (log_row cd seq e)) = int seq" by (simp add: event_record_def log_row_def)
  have old: "\<forall>x\<in>set rows. er_seq x < int seq" using ids(2) seq by fastforce
  have d: "distinct (map er_seq (rows @ [event_record now (log_row cd seq e)]))"
    using ids(1) old by (auto simp: row)
  then have "distinct (map er_seq rows @ map ne_seq [log_row cd seq e])" by (simp add: event_record_def)
  from append_events_fresh [OF this, of now] flush q
  have log: "snd s = rows @ [event_record now (log_row cd seq e)]"
    by (auto simp: persist_pending_def take_pending_def)
  let ?xs = "rows_from (tg_cursor t) (snd s)"
  have last: "?xs \<noteq> []" "er_seq (last ?xs) = int seq"
    using rows_from_last [OF d, of "tg_cursor t"] old assms(7) by (auto simp: log row)
  have "length ?xs \<le> length (snd s)" by (simp add: rows_from_def order_asc_def length_filter_le)
  then have short: "take (max psize 1 * MAX_PAGES_PER_TICK) ?xs = ?xs"
    using assms(8) by (simp add: log MAX_PAGES_PER_TICK_def)
  have good: "?xs = takeWhile (handed cd (tg_selector t) (\<lambda>_. None)) (take (max psize 1 * MAX_PAGES_PER_TICK) ?xs)"
    unfolding short by (rule sym) (simp add: handed_def takeWhile_eq_all_conv)
  have "target_cursor t (snd (drain_target cd (\<lambda>_. None) read_ok now psize t (snd s) ob)) = Some (int seq)"
    using drain_pages_spec [OF d [folded log] assms(5) max.cobounded2 assms(6) order_refl good, of now] last
    by (auto simp: drain_target_def reached_by_def)
  moreover have "er_seq ` set (fst (drain_target cd err read_ok' now' psize' t' rows' ob')) \<inter> ne_seq ` set batch = {}"
    if "int seq \<le> tg_cursor t'" for t' err read_ok' now' psize' rows' ob'
  proof -
    have "ne_seq x < int seq" if "x \<in> set batch" for x
      using ids(2) [of "ne_seq x"] that seq by fastforce
    with that show ?thesis unfolding drain_target_def by (fastforce dest: drain_sends_later)
  qed
  ultimately show ?thesis by blast
qed

section \<open>Examples\<close>

definition demo_selector :: Selector where
  "demo_selector = selector_default\<lparr>sel_kinds := [''job.failed'']\<rparr>"

definition demo_sub :: Subscription where
  "demo_sub = \<lparr>sb_id = ''s'', sb_name = None, sb_selector = selector_to_json demo_selector, sb_sink = ''webhook'', sb_url = ''u'', sb_secret = None,
     sb_cursor = 0, sb_enabled = True, sb_principal_id = None, sb_created_at = 0, sb_last_delivered_at = None, sb_last_error = None\<rparr>"

definition demo_outbox :: outbox where
  "demo_outbox = \<lparr>ob_subs = [demo_sub], ob_watches = []\<rparr>"

definition demo_target :: Target where
  "demo_target = target_from_subscription demo_sub demo_selector"

lemma demo_cursor: "target_cursor demo_target demo_outbox = Some (tg_cursor demo_target)" "tg_cursor demo_target = 0"
  by (simp_all add: target_cursor_def demo_target_def demo_outbox_def target_from_subscription_def demo_sub_def)

definition demo_log :: "EventRecord list" where
  "demo_log = map (\<lambda>(i, k). event_record 0 (demo_row i k)) [(3, ''job.failed''), (1, ''job.failed''), (2, ''job.queued'')]"


theorem inflight_batch_is_skipped_witness:
  "\<exists>b batch b' s. flow demo_event_codec 1 (b, [], [batch], 0) \<and> batch \<noteq> [] \<and>
     emit_event demo_event_codec demo_event b = (b', 2) \<and> snd (persist_pending True 9 (b', [])) = s \<and>
     target_cursor demo_target (snd (drain_target demo_event_codec (\<lambda>_. None) (\<lambda>_. True) 9 10 demo_target (snd s) demo_outbox)) = Some 2"
proof -
  let ?b = "boot_bus True 4 (Some [])"
  obtain b1 n1 where e1: "emit_event demo_event_codec demo_event ?b = (b1, n1)" by (rule prod.exhaust)
  have f1: "flow demo_event_codec 1 (b1, [], [], 0)"
    using flow.emitted [OF flow.start [of "[]" demo_event_codec 4] e1] by simp
  have b: "eb_pending ?b = Some []" "1 \<le> pending_capacity ?b" "eb_seq ?b = 0"
    by (simp_all add: boot_bus_def Let_def logs_def with_log_def event_bus_new_def with_byte_budget_def seed_seq_def
        max_event_seq_def)
  have q1: "eb_pending b1 = Some [log_row demo_event_codec 1 demo_event]" "eb_seq b1 = 1"
    using emit_one_queued [OF b(1,2) e1] emit_seq [OF e1] b(3) by auto
  let ?batch = "[log_row demo_event_codec 1 demo_event]" and ?b2 = "b1\<lparr>eb_pending := Some []\<rparr>"
  have f2: "flow demo_event_codec 1 (?b2, [], [?batch], 0)"
    using flow.taken [OF f1, of ?batch ?b2] q1(1) by (simp add: take_pending_def)
  obtain b' n where e2: "emit_event demo_event_codec demo_event ?b2 = (b', n)" by (rule prod.exhaust)
  have n: "n = 2" using emit_seq [OF e2] q1(2) by simp
  obtain r s where p: "persist_pending True 9 (b', []) = (r, s)" by (rule prod.exhaust)
  have "target_cursor demo_target
      (snd (drain_target demo_event_codec (\<lambda>_. None) (\<lambda>_. True) 9 10 demo_target (snd s) demo_outbox)) = Some (int n)"
    by (rule inflight_batch_is_skipped [OF f2 _ e2 p, THEN conjunct1]) (simp_all add: demo_cursor n)
  with f2 e2 p n show ?thesis by (intro exI [of _ ?b2] exI [of _ ?batch] exI [of _ b'] exI [of _ s]) simp
qed

end
