(* ===== verification/Schedules.thy ===== *)
theory Schedules
  imports Queue_Claims Text
begin

text \<open>
  Recurring schedules: the \<open>schedules\<close> and \<open>schedule_runs\<close> tables of
  \<open>crates/core/src/storage.rs\<close> with every statement issued on them, and the pure decision of
  \<open>crates/server/src/scheduler.rs\<close> about one schedule (\<open>decide\<close> and what it is made of). The cron
  library is a parameter: a parsed expression is the function from a time zone and an instant to
  the first firing strictly after it, and its iterator is that function iterated. \<open>cron_ok\<close> is
  what the library documents of it. The main lemma says that the decision, made by bounded walks
  along the iterator, is the one read off the sets of missed and on-time firings.
\<close>

section \<open>Rows\<close>

type_synonym cron = "string \<Rightarrow> time \<Rightarrow> time option"

record Schedule =
  sc_id :: string
  sc_app :: string
  sc_cron :: string
  sc_params :: json
  sc_enabled :: bool
  sc_priority :: int
  sc_timezone :: "string option"
  sc_misfire_policy :: string
  sc_max_attempts :: "int option"
  sc_budget_usd :: "rat option"
  sc_managed_by :: "string option"
  sc_last_run :: "time option"
  sc_last_skipped_at :: "time option"
  sc_skipped_count :: int
  sc_created_at :: time

record NewSchedule =
  ns_app :: string
  ns_cron :: string
  ns_params :: json
  ns_priority :: int
  ns_timezone :: "string option"
  ns_misfire_policy :: string
  ns_max_attempts :: "int option"
  ns_budget_usd :: "rat option"

record NewScheduleRun =
  nr_schedule_id :: string
  nr_outcome :: string
  nr_reason :: "string option"
  nr_due_at :: "time option"
  nr_job_id :: "uuid option"
  nr_missed :: nat
  nr_detail :: "string option"

record ScheduleRun =
  sr_id :: string
  sr_schedule_id :: string
  sr_outcome :: string
  sr_reason :: "string option"
  sr_due_at :: "time option"
  sr_job_id :: "uuid option"
  sr_missed :: int
  sr_detail :: "string option"
  sr_created_at :: time

definition run_default :: NewScheduleRun where
  "run_default = \<lparr>nr_schedule_id = [], nr_outcome = [], nr_reason = None, nr_due_at = None, nr_job_id = None,
     nr_missed = 0, nr_detail = None\<rparr>"

definition SCHEDULE_PASS_ID :: string where
  "SCHEDULE_PASS_ID = ''*''"

definition SCHEDULE_PASS_HEARTBEAT_ID :: string where
  "SCHEDULE_PASS_HEARTBEAT_ID = ''scheduler-pass''"

definition SCHEDULE_OUTCOME_PASS :: string where
  "SCHEDULE_OUTCOME_PASS = ''pass''"

definition SCHEDULE_OUTCOMES :: "string list" where
  "SCHEDULE_OUTCOMES = [''fired'', ''skipped'', ''held'', ''refused'', ''failed'', ''pass'']"

section \<open>The schedules table\<close>

text \<open>
  The columns an \<open>INSERT\<close> does not name take their declared defaults: no time zone, the policy
  \<open>fire_once\<close>, no attempt budget, no ceiling, no owner, never run, never skipped.
\<close>

definition schedule_row :: "string \<Rightarrow> string \<Rightarrow> string \<Rightarrow> json \<Rightarrow> bool \<Rightarrow> string option \<Rightarrow> time \<Rightarrow> Schedule" where
  "schedule_row i app cron params enabled tag now =
     \<lparr>sc_id = i, sc_app = app, sc_cron = cron, sc_params = params, sc_enabled = enabled, sc_priority = 0,
      sc_timezone = None, sc_misfire_policy = ''fire_once'', sc_max_attempts = None, sc_budget_usd = None,
      sc_managed_by = tag, sc_last_run = None, sc_last_skipped_at = None, sc_skipped_count = 0,
      sc_created_at = now\<rparr>"

definition get_schedule :: "string \<Rightarrow> Schedule list \<Rightarrow> Schedule option" where
  "get_schedule i rows = find (\<lambda>r. sc_id r = i) rows"

definition insert_schedule ::
  "string \<Rightarrow> time \<Rightarrow> NewSchedule \<Rightarrow> Schedule list \<Rightarrow> store_error + Schedule list" where
  "insert_schedule i now s rows =
     (if get_schedule i rows \<noteq> None then Inl UniqueViolation
      else Inr (rows @ [(schedule_row i (ns_app s) (ns_cron s) (ns_params s) True None now)
             \<lparr>sc_priority := ns_priority s, sc_timezone := ns_timezone s,
              sc_misfire_policy := ns_misfire_policy s, sc_max_attempts := ns_max_attempts s,
              sc_budget_usd := ns_budget_usd s\<rparr>]))"

definition create_schedule ::
  "string \<Rightarrow> time \<Rightarrow> NewSchedule \<Rightarrow> Schedule list \<Rightarrow> store_error + Schedule list \<times> Schedule option" where
  "create_schedule i now s rows =
     (case insert_schedule i now s rows of
        Inl e \<Rightarrow> Inl e | Inr rows' \<Rightarrow> Inr (rows', get_schedule i rows'))"

definition seed_schedule :: "string \<Rightarrow> string \<Rightarrow> time \<Rightarrow> Schedule list \<Rightarrow> Schedule list" where
  "seed_schedule app cron now rows =
     (let i = ''static-'' @ app
      in if get_schedule i rows \<noteq> None then rows
         else rows @ [schedule_row i app cron (JObject []) True None now])"

definition list_schedules :: "Schedule list \<Rightarrow> Schedule list" where
  "list_schedules rows = sort_key sc_app rows"

definition set_schedule_enabled :: "string \<Rightarrow> bool \<Rightarrow> Schedule list \<Rightarrow> Schedule list \<times> bool" where
  "set_schedule_enabled i enabled rows =
     (update_where (\<lambda>r. sc_id r = i) (\<lambda>r. r\<lparr>sc_enabled := enabled\<rparr>) rows,
      0 < rows_affected (\<lambda>r. sc_id r = i) rows)"

definition set_schedule_budget :: "string \<Rightarrow> rat option \<Rightarrow> Schedule list \<Rightarrow> Schedule list \<times> bool" where
  "set_schedule_budget i budget rows =
     (update_where (\<lambda>r. sc_id r = i) (\<lambda>r. r\<lparr>sc_budget_usd := budget\<rparr>) rows,
      0 < rows_affected (\<lambda>r. sc_id r = i) rows)"

definition touch_schedule :: "string \<Rightarrow> time \<Rightarrow> Schedule list \<Rightarrow> Schedule list" where
  "touch_schedule i when rows =
     update_where (\<lambda>r. sc_id r = i) (\<lambda>r. r\<lparr>sc_last_run := Some when\<rparr>) rows"

definition record_schedule_skip :: "string \<Rightarrow> time \<Rightarrow> nat \<Rightarrow> Schedule list \<Rightarrow> Schedule list" where
  "record_schedule_skip i when missed rows =
     update_where (\<lambda>r. sc_id r = i)
       (\<lambda>r. r\<lparr>sc_last_skipped_at := Some when, sc_skipped_count := sc_skipped_count r + int missed\<rparr>) rows"

definition delete_schedule :: "string \<Rightarrow> Schedule list \<Rightarrow> Schedule list \<times> bool" where
  "delete_schedule i rows =
     (filter (\<lambda>r. sc_id r \<noteq> i) rows, 0 < rows_affected (\<lambda>r. sc_id r = i) rows)"

section \<open>The decision ledger\<close>

definition ledger_conflict :: "string \<Rightarrow> ScheduleRun list \<Rightarrow> bool" where
  "ledger_conflict i runs \<longleftrightarrow> (\<exists>r\<in>set runs. sr_id r = i)"

definition run_row :: "string \<Rightarrow> time \<Rightarrow> NewScheduleRun \<Rightarrow> ScheduleRun" where
  "run_row i now run =
     \<lparr>sr_id = i, sr_schedule_id = nr_schedule_id run, sr_outcome = nr_outcome run, sr_reason = nr_reason run,
      sr_due_at = nr_due_at run, sr_job_id = nr_job_id run, sr_missed = int (nr_missed run),
      sr_detail = nr_detail run, sr_created_at = now\<rparr>"

definition record_schedule_run ::
  "string \<Rightarrow> time \<Rightarrow> NewScheduleRun \<Rightarrow> ScheduleRun list \<Rightarrow> store_error + ScheduleRun list" where
  "record_schedule_run i now run runs =
     (if ledger_conflict i runs then Inl UniqueViolation else Inr (runs @ [run_row i now run]))"

text \<open>A day of retention in microseconds; \<open>0\<close> days never prunes.\<close>

definition run_cutoff :: "nat \<Rightarrow> time \<Rightarrow> time" where
  "run_cutoff days now = now - int days * 86400 * micros_per_sec"

definition prune_schedule_runs :: "nat \<Rightarrow> time \<Rightarrow> ScheduleRun list \<Rightarrow> ScheduleRun list \<times> nat" where
  "prune_schedule_runs days now runs =
     (if days = 0 then (runs, 0)
      else let old = (\<lambda>r. sr_created_at r < run_cutoff days now \<and> sr_schedule_id r \<noteq> SCHEDULE_PASS_ID)
           in (filter (\<lambda>r. \<not> old r) runs, rows_affected old runs))"

definition mark_schedule_pass :: "time \<Rightarrow> ScheduleRun list \<Rightarrow> ScheduleRun list" where
  "mark_schedule_pass done_at runs =
     (if ledger_conflict SCHEDULE_PASS_HEARTBEAT_ID runs
      then update_where (\<lambda>r. sr_id r = SCHEDULE_PASS_HEARTBEAT_ID) (\<lambda>r. r\<lparr>sr_created_at := done_at\<rparr>) runs
      else runs @ [run_row SCHEDULE_PASS_HEARTBEAT_ID done_at
             (run_default\<lparr>nr_schedule_id := SCHEDULE_PASS_ID, nr_outcome := SCHEDULE_OUTCOME_PASS\<rparr>)])"

definition schedule_pass_heartbeat :: "ScheduleRun list \<Rightarrow> time option" where
  "schedule_pass_heartbeat runs =
     map_option sr_created_at (find (\<lambda>r. sr_id r = SCHEDULE_PASS_HEARTBEAT_ID) runs)"

section \<open>The newest run of a schedule\<close>

definition latest_job_for_schedule :: "string \<Rightarrow> store \<Rightarrow> (uuid \<times> JobStatus) option" where
  "latest_job_for_schedule i s =
     (case rev (sort_key (\<lambda>r. (j_created_at r, j_id r)) (filter (\<lambda>r. j_schedule_id r = Some i) (jobs s))) of
        [] \<Rightarrow> None
      | r # _ \<Rightarrow> Some (j_id r, j_status r))"

definition run_holds_slot :: "JobStatus option \<Rightarrow> bool" where
  "run_holds_slot status \<longleftrightarrow> status \<in> {Some Queued, Some Running, Some Waiting}"

record LatestRun =
  lr_job_id :: "uuid option"
  lr_status :: "JobStatus option"
  lr_holds_slot :: bool

definition latest_run :: "string \<Rightarrow> store \<Rightarrow> LatestRun" where
  "latest_run i s =
     (let latest = latest_job_for_schedule i s
      in \<lparr>lr_job_id = map_option fst latest, lr_status = map_option snd latest,
          lr_holds_slot = run_holds_slot (map_option snd latest)\<rparr>)"

section \<open>The decision\<close>

datatype Action = ActIdle | ActFire nat | ActSkip nat | ActSkipThenFire nat

definition MAX_MISFIRE_SCAN :: nat where
  "MAX_MISFIRE_SCAN = 10000"

definition COLLAPSE_LOG_CAP :: nat where
  "COLLAPSE_LOG_CAP = 64"

definition schedule_reference :: "Schedule \<Rightarrow> time" where
  "schedule_reference s =
     (case (sc_last_run s, sc_last_skipped_at s) of
        (Some a, Some b) \<Rightarrow> max a b
      | (Some a, None) \<Rightarrow> a
      | (None, Some b) \<Rightarrow> b
      | (None, None) \<Rightarrow> sc_created_at s)"

definition misfire_cutoff :: "time option \<Rightarrow> time \<Rightarrow> int \<Rightarrow> time" where
  "misfire_cutoff last_pass now grace = (case last_pass of Some t \<Rightarrow> t | None \<Rightarrow> now - grace)"

text \<open>
  The counting loop shared by \<open>collapse_count\<close> and \<open>missed_count\<close>: from \<open>t\<close>, count the firings up
  to \<open>bound\<close>, stopping at the cap.
\<close>

function count_firings :: "nat \<Rightarrow> (time \<Rightarrow> time option) \<Rightarrow> time \<Rightarrow> time \<Rightarrow> nat \<Rightarrow> nat" where
  "count_firings cap nxt bound t n =
     (case nxt t of
        None \<Rightarrow> n
      | Some fire \<Rightarrow>
          if bound < fire then n
          else if cap \<le> n + 1 then n + 1
          else count_firings cap nxt bound fire (n + 1))"
  by pat_completeness auto
termination
  by (relation "measure (\<lambda>(cap, nxt, bound, t, n). cap - n)") auto

declare count_firings.simps [simp del]

definition collapse_count :: "(time \<Rightarrow> time option) \<Rightarrow> time \<Rightarrow> time \<Rightarrow> nat" where
  "collapse_count nxt reference now =
     (case nxt reference of
        None \<Rightarrow> 0
      | Some first \<Rightarrow> count_firings COLLAPSE_LOG_CAP nxt now first 0)"

definition missed_count :: "(time \<Rightarrow> time option) \<Rightarrow> time \<Rightarrow> time \<Rightarrow> time \<Rightarrow> nat" where
  "missed_count nxt reference cutoff now = count_firings MAX_MISFIRE_SCAN nxt (min cutoff now) reference 0"

definition has_due_on_time_firing :: "(time \<Rightarrow> time option) \<Rightarrow> time \<Rightarrow> time \<Rightarrow> time \<Rightarrow> bool" where
  "has_due_on_time_firing nxt reference cutoff now \<longleftrightarrow>
     (case nxt (max reference cutoff) of Some fire \<Rightarrow> fire \<le> now | None \<Rightarrow> False)"

definition decide :: "cron \<Rightarrow> string \<Rightarrow> time \<Rightarrow> time \<Rightarrow> bool \<Rightarrow> time \<Rightarrow> Action" where
  "decide cron tz reference now misfire_skip cutoff =
     (if \<not> (case cron tz reference of Some fire \<Rightarrow> fire \<le> now | None \<Rightarrow> False) then ActIdle
      else if \<not> misfire_skip then ActFire (collapse_count (cron tz) reference now)
      else let missed = missed_count (cron tz) reference cutoff now
           in if missed = 0 then ActFire (collapse_count (cron tz) reference now)
              else if has_due_on_time_firing (cron tz) reference cutoff now then ActSkipThenFire missed
              else ActSkip missed)"

definition pending_firing :: "cron \<Rightarrow> string \<Rightarrow> time \<Rightarrow> time option" where
  "pending_firing cron tz reference = cron tz reference"

definition STALE_PASS_TICKS :: nat where
  "STALE_PASS_TICKS = 4"

definition STALE_PASS_FLOOR_SECS :: nat where
  "STALE_PASS_FLOOR_SECS = 60"

definition pass_is_stale :: "time option \<Rightarrow> time \<Rightarrow> nat \<Rightarrow> bool" where
  "pass_is_stale last_pass_at now tick_secs =
     (case last_pass_at of
        None \<Rightarrow> True
      | Some t \<Rightarrow> int (max (max tick_secs 1 * STALE_PASS_TICKS) STALE_PASS_FLOOR_SECS) * micros_per_sec < now - t)"

section \<open>What the cron library promises\<close>

definition cron_ok :: "(time \<Rightarrow> time option) \<Rightarrow> bool" where
  "cron_ok nxt \<longleftrightarrow>
     (\<forall>t u. nxt t = Some u \<longrightarrow> t < u \<and> (\<forall>s. t \<le> s \<longrightarrow> s < u \<longrightarrow> nxt s = Some u)) \<and>
     (\<forall>t s. nxt t = None \<longrightarrow> t \<le> s \<longrightarrow> nxt s = None)"

definition firings :: "(time \<Rightarrow> time option) \<Rightarrow> time \<Rightarrow> time \<Rightarrow> time set" where
  "firings nxt a b = {u. a < u \<and> u \<le> b \<and> (\<exists>t. nxt t = Some u)}"

lemma finite_firings [simp]: "finite (firings nxt a b)"
  by (rule finite_subset [of _ "{a<..b}"]) (auto simp: firings_def)

lemma firings_empty_interval: "b \<le> a \<Longrightarrow> firings nxt a b = {}"
  by (auto simp: firings_def)

lemma cron_later: "cron_ok nxt \<Longrightarrow> nxt t = Some u \<Longrightarrow> t < u"
  unfolding cron_ok_def by blast

lemma cron_stable: "cron_ok nxt \<Longrightarrow> nxt t = Some u \<Longrightarrow> t \<le> s \<Longrightarrow> s < u \<Longrightarrow> nxt s = Some u"
  unfolding cron_ok_def by blast

lemma cron_ended: "cron_ok nxt \<Longrightarrow> nxt t = None \<Longrightarrow> t \<le> s \<Longrightarrow> nxt s = None"
  unfolding cron_ok_def by blast

lemma cron_next_before:
  assumes ok: "cron_ok nxt" and u: "nxt t = Some u" and v: "nxt s = Some v" and "t < v"
  shows "u \<le> v"
proof (cases "s \<le> t")
  case True
  then show ?thesis using cron_stable [OF ok v True \<open>t < v\<close>] u by simp
next
  case False
  show ?thesis
  proof (rule ccontr)
    assume "\<not> u \<le> v"
    then have "t \<le> s" "s < u" using False cron_later [OF ok v] by simp_all
    then show False using cron_stable [OF ok u] v \<open>\<not> u \<le> v\<close> by simp
  qed
qed

lemma cron_none:
  assumes ok: "cron_ok nxt" and t: "nxt t = None" and v: "nxt s = Some v"
  shows "v \<le> t"
proof (rule ccontr)
  assume "\<not> v \<le> t"
  show False
  proof (cases "t \<le> s")
    case True
    then show False using cron_ended [OF ok t True] v by simp
  next
    case False
    then show False using cron_stable [OF ok v, of t] t \<open>\<not> v \<le> t\<close> by simp
  qed
qed

lemma firings_empty_iff:
  assumes ok: "cron_ok nxt"
  shows "firings nxt a b = {} \<longleftrightarrow> \<not> (case nxt a of Some u \<Rightarrow> u \<le> b | None \<Rightarrow> False)"
proof (cases "nxt a")
  case None
  have "x \<notin> firings nxt a b" for x
    using cron_none [OF ok None] unfolding firings_def by (auto dest: leD)
  then show ?thesis using None by auto
next
  case (Some u)
  have "a < u" by (rule cron_later [OF ok Some])
  then have "u \<le> b \<Longrightarrow> u \<in> firings nxt a b" using Some unfolding firings_def by blast
  moreover have "x \<in> firings nxt a b \<Longrightarrow> u \<le> b" for x
    using cron_next_before [OF ok Some] unfolding firings_def by (auto intro: order_trans)
  ultimately show ?thesis using Some by auto
qed

lemma firings_step:
  assumes ok: "cron_ok nxt" and u: "nxt a = Some u" and "u \<le> b"
  shows "firings nxt a b = insert u (firings nxt u b)" and "u \<notin> firings nxt u b"
proof -
  have au: "a < u" by (rule cron_later [OF ok u])
  show "firings nxt a b = insert u (firings nxt u b)"
  proof (intro set_eqI iffI)
    fix x assume "x \<in> firings nxt a b"
    then obtain s where x: "a < x" "x \<le> b" "nxt s = Some x" unfolding firings_def by blast
    then show "x \<in> insert u (firings nxt u b)"
      using cron_next_before [OF ok u x(3) x(1)] unfolding firings_def by auto
  next
    fix x assume "x \<in> insert u (firings nxt u b)"
    then show "x \<in> firings nxt a b" using au u \<open>u \<le> b\<close> unfolding firings_def by auto
  qed
  show "u \<notin> firings nxt u b" by (simp add: firings_def)
qed

lemma count_firings_exact:
  assumes "cron_ok nxt" and "n < cap"
  shows "count_firings cap nxt b t n = min cap (n + card (firings nxt t b))"
  using assms
proof (induction cap nxt b t n rule: count_firings.induct)
  case (1 cap nxt b t n)
  show ?case
  proof (cases "case nxt t of Some u \<Rightarrow> u \<le> b | None \<Rightarrow> False")
    case False
    then have "firings nxt t b = {}" using firings_empty_iff [OF 1(2)] by blast
    then show ?thesis using False 1(3)
      by (subst count_firings.simps) (auto split: option.splits)
  next
    case True
    then obtain u where u: "nxt t = Some u" "u \<le> b" by (auto split: option.splits)
    have card: "card (firings nxt t b) = Suc (card (firings nxt u b))"
      using firings_step [OF 1(2) u] by simp
    show ?thesis
      using u card 1(1) [OF u(1)] 1(2,3)
      by (subst count_firings.simps) (auto simp: not_le)
  qed
qed

lemma collapse_count_exact:
  assumes "cron_ok nxt" and "firings nxt a now \<noteq> {}"
  shows "collapse_count nxt a now = min COLLAPSE_LOG_CAP (card (firings nxt a now) - 1)"
proof -
  obtain u where u: "nxt a = Some u" "u \<le> now"
    using firings_empty_iff [OF assms(1)] assms(2) by (auto split: option.splits)
  then show ?thesis
    using count_firings_exact [OF assms(1), of 0 COLLAPSE_LOG_CAP now u] firings_step [OF assms(1) u]
    by (simp add: collapse_count_def COLLAPSE_LOG_CAP_def)
qed

lemma missed_count_exact:
  assumes "cron_ok nxt"
  shows "missed_count nxt a cutoff now = min MAX_MISFIRE_SCAN (card (firings nxt a (min cutoff now)))"
  using count_firings_exact [OF assms, of 0 MAX_MISFIRE_SCAN] by (simp add: missed_count_def MAX_MISFIRE_SCAN_def)

lemma on_time_exact:
  assumes "cron_ok nxt"
  shows "has_due_on_time_firing nxt a cutoff now \<longleftrightarrow> firings nxt a now - firings nxt a (min cutoff now) \<noteq> {}"
proof -
  have "firings nxt a now - firings nxt a (min cutoff now) = firings nxt (max a cutoff) now"
    by (auto simp: firings_def)
  then show ?thesis using firings_empty_iff [OF assms, of "max a cutoff" now]
    by (simp add: has_due_on_time_firing_def)
qed

definition decide_spec :: "cron \<Rightarrow> string \<Rightarrow> time \<Rightarrow> time \<Rightarrow> bool \<Rightarrow> time \<Rightarrow> Action" where
  "decide_spec cron tz reference now misfire_skip cutoff =
     (let due = firings (cron tz) reference now;
          missed = (if misfire_skip then firings (cron tz) reference (min cutoff now) else {})
      in if due = {} then ActIdle
         else if missed = {} then ActFire (min 64 (card due - 1))
         else if due - missed = {} then ActSkip (min 10000 (card missed))
         else ActSkipThenFire (min 10000 (card missed)))"

lemma decide_is_spec:
  assumes "cron_ok (cron tz)"
  shows "decide cron tz reference now misfire_skip cutoff = decide_spec cron tz reference now misfire_skip cutoff"
proof -
  define D where "D = firings (cron tz) reference now"
  define M where "M = firings (cron tz) reference (min cutoff now)"
  have M: "missed_count (cron tz) reference cutoff now = min MAX_MISFIRE_SCAN (card M)"
    by (simp add: M_def missed_count_exact [OF assms])
  have zero: "min MAX_MISFIRE_SCAN (card M) = 0 \<longleftrightarrow> M = {}"
    using finite_firings [of "cron tz" reference "min cutoff now"] unfolding M_def [symmetric]
    by (cases "M = {}") (auto simp: MAX_MISFIRE_SCAN_def min_def card_eq_0_iff)
  have D: "D = {} \<longleftrightarrow> \<not> (case cron tz reference of Some fire \<Rightarrow> fire \<le> now | None \<Rightarrow> False)"
    by (simp add: D_def firings_empty_iff [OF assms])
  have C: "D \<noteq> {} \<Longrightarrow> collapse_count (cron tz) reference now = min COLLAPSE_LOG_CAP (card D - 1)"
    by (simp add: D_def collapse_count_exact [OF assms])
  have T: "has_due_on_time_firing (cron tz) reference cutoff now \<longleftrightarrow> D - M \<noteq> {}"
    by (simp add: D_def M_def on_time_exact [OF assms])
  show ?thesis
    unfolding decide_def decide_spec_def D [symmetric] D_def [symmetric] M_def [symmetric] M T Let_def
    using C zero by (auto simp: COLLAPSE_LOG_CAP_def MAX_MISFIRE_SCAN_def)
qed

end
