(* ===== verification/Scheduler.thy ===== *)
theory Scheduler
  imports Schedules Registry
begin

text \<open>
  The scheduler of \<open>crates/server/src/scheduler.rs\<close>: the admission verdict of one schedule, one
  schedule's step (decide, gate, act, record), the pass over the table with its containment of
  failures, and the tick. It composes with the job queue: a firing is an \<open>enqueue_dedup\<close> of
  \<open>Job_Store\<close>, and the overlap guard reads the queue.

  What surrounds the code is a parameter. \<open>sched_env\<close> holds the cron and time-zone libraries, the
  registered apps (trait objects), the JSON-schema library and the stored health of the sources.
  \<open>step_io\<close> holds what one step meets: the statements that fail and with which error, a panic of an
  app's code, the fresh identifiers, the clock, the shutdown token, and \<open>io_others\<close>, what other
  requests did to the tables between the pass's read of the table and this step.
\<close>

section \<open>The environment\<close>

datatype SourceState = Healthy | Suspect | Degraded | Quarantined | Probation | Retired | Unknown

record sched_env =
  parse_cron :: "string \<Rightarrow> string + cron"
  known_tz :: "string \<Rightarrow> bool"
  apps :: registry
  schema_errors :: "json \<Rightarrow> json \<Rightarrow> string list option"
  health_state :: "string \<Rightarrow> string \<Rightarrow> SourceState"
  store_error_text :: "store_error \<Rightarrow> string"
  schedule_tick_secs :: nat

record sched_world =
  w_store :: store
  w_schedules :: "Schedule list"
  w_runs :: "ScheduleRun list"

datatype sched_call = CPanic | CLatest | CSkip | CGet | CEnqueue | CTouch | CLedger

record step_io =
  io_fault :: "sched_call \<Rightarrow> string option"
  io_job :: uuid
  io_clock :: time
  io_run_id :: "nat \<Rightarrow> string"
  io_others :: "sched_world \<Rightarrow> sched_world"
  io_shutdown :: bool

section \<open>Effective params\<close>

definition schedule_params :: "sched_env \<Rightarrow> string \<Rightarrow> json \<Rightarrow> json" where
  "schedule_params env app params =
     (let defaults = (case apps env app of Some a \<Rightarrow> ap_default_params a | None \<Rightarrow> JNull)
      in merge_params defaults (if params = JNull \<or> params = JObject [] then None else Some params))"

definition validate_schedule_params :: "sched_env \<Rightarrow> string \<Rightarrow> json \<Rightarrow> string + json" where
  "validate_schedule_params env app params =
     (let effective = schedule_params env app params
      in case validate_app_params (apps env) (validate_params (schema_errors env)) app effective of
           Some e \<Rightarrow> Inl e
         | None \<Rightarrow> Inr effective)"

section \<open>Admission\<close>

datatype ScheduleAdmission =
    AdmDisabled
  | AdmInvalidCron
  | AdmUnregisteredApp
  | AdmInvalidParams string
  | AdmRetired string
  | AdmOverlapping
  | AdmFire json

fun admission_health :: "ScheduleAdmission \<Rightarrow> string" where
  "admission_health AdmDisabled = ''disabled''"
| "admission_health AdmInvalidCron = ''invalid_cron''"
| "admission_health AdmUnregisteredApp = ''unregistered_app''"
| "admission_health (AdmInvalidParams _) = ''invalid_params''"
| "admission_health (AdmRetired _) = ''retired''"
| "admission_health AdmOverlapping = ''overlapping''"
| "admission_health (AdmFire _) = ''ok''"

definition parse_tz :: "sched_env \<Rightarrow> string option \<Rightarrow> string" where
  "parse_tz env name = (case name of Some n \<Rightarrow> if known_tz env n then n else ''UTC'' | None \<Rightarrow> ''UTC'')"

definition project_next_run :: "sched_env \<Rightarrow> Schedule \<Rightarrow> time option" where
  "project_next_run env s =
     (case parse_cron env (sc_cron s) of
        Inl _ \<Rightarrow> None
      | Inr cron \<Rightarrow> cron (parse_tz env (sc_timezone s)) (schedule_reference s))"

definition RETIRABLE_APP :: string where
  "RETIRABLE_APP = ''extractor''"

definition EXTRACTOR_DEFAULT_DATASET :: string where
  "EXTRACTOR_DEFAULT_DATASET = ''extracted''"

definition retirement_dataset :: "string \<Rightarrow> json \<Rightarrow> string option" where
  "retirement_dataset app params =
     (if app = RETIRABLE_APP
      then Some (case Option.bind (as_object params) (\<lambda>obj. Option.bind (map_of obj ''dataset'') as_str) of
                   Some d \<Rightarrow> d
                 | None \<Rightarrow> EXTRACTOR_DEFAULT_DATASET)
      else None)"

definition schedule_blocked_by_retirement :: "string \<Rightarrow> json \<Rightarrow> SourceState \<Rightarrow> bool" where
  "schedule_blocked_by_retirement app params stored \<longleftrightarrow>
     retirement_dataset app params \<noteq> None \<and> stored = Retired"

definition admit_overlap :: "step_io \<Rightarrow> Schedule \<Rightarrow> json \<Rightarrow> sched_world \<Rightarrow> string + ScheduleAdmission" where
  "admit_overlap io s params w =
     (case io_fault io CLatest of
        Some e \<Rightarrow> Inl e
      | None \<Rightarrow> if lr_holds_slot (latest_run (sc_id s) (w_store w)) then Inr AdmOverlapping
                else Inr (AdmFire params))"

definition admit :: "sched_env \<Rightarrow> step_io \<Rightarrow> Schedule \<Rightarrow> sched_world \<Rightarrow> string + ScheduleAdmission" where
  "admit env io s w =
     (if \<not> sc_enabled s then Inr AdmDisabled
      else if project_next_run env s = None then Inr AdmInvalidCron
      else if apps env (sc_app s) = None then Inr AdmUnregisteredApp
      else case io_fault io CPanic of
        Some e \<Rightarrow> Inl e
      | None \<Rightarrow>
          (case validate_schedule_params env (sc_app s) (sc_params s) of
             Inl reason \<Rightarrow> Inr (AdmInvalidParams reason)
           | Inr params \<Rightarrow>
               let blocked = (\<lambda>dataset. schedule_blocked_by_retirement (sc_app s) params
                                (health_state env (sc_app s) dataset))
               in (case retirement_dataset (sc_app s) params of
                     Some dataset \<Rightarrow> if blocked dataset then Inr (AdmRetired dataset)
                                      else admit_overlap io s params w
                   | None \<Rightarrow> admit_overlap io s params w)))"

section \<open>One schedule's step\<close>

datatype SchedStep = StepIdle | StepFired | StepSkipped | StepSkippedAndFired | StepHeld | StepRefused

definition DEFAULT_SCHEDULE_MAX_ATTEMPTS :: int where
  "DEFAULT_SCHEDULE_MAX_ATTEMPTS = 3"

definition refusal :: "string \<Rightarrow> string \<Rightarrow> time option \<Rightarrow> NewScheduleRun" where
  "refusal i reason due_at =
     run_default\<lparr>nr_schedule_id := i, nr_outcome := ''refused'', nr_reason := Some reason, nr_due_at := due_at\<rparr>"

definition record_decision :: "step_io \<Rightarrow> nat \<Rightarrow> NewScheduleRun \<Rightarrow> sched_world \<Rightarrow> sched_world" where
  "record_decision io k run w =
     (case io_fault io CLedger of
        Some e \<Rightarrow> w
      | None \<Rightarrow>
          (case record_schedule_run (io_run_id io k) (io_clock io) run (w_runs w) of
             Inl _ \<Rightarrow> w
           | Inr runs \<Rightarrow> w\<lparr>w_runs := runs\<rparr>))"

definition still_firable :: "Schedule option \<Rightarrow> bool" where
  "still_firable live_row = (case live_row of Some s \<Rightarrow> sc_enabled s | None \<Rightarrow> False)"

definition firing_budget :: "Schedule option \<Rightarrow> Schedule \<Rightarrow> rat option" where
  "firing_budget live_row snapshot =
     (case live_row of Some s \<Rightarrow> sc_budget_usd s | None \<Rightarrow> sc_budget_usd snapshot)"

definition firing_options :: "sched_env \<Rightarrow> Schedule \<Rightarrow> Schedule option \<Rightarrow> json \<Rightarrow> EnqueueOptions" where
  "firing_options env s live_row params =
     \<lparr>o_params = params,
      o_max_attempts = (case sc_max_attempts s of Some n \<Rightarrow> n | None \<Rightarrow> DEFAULT_SCHEDULE_MAX_ATTEMPTS),
      o_delay_secs = 0, o_priority = sc_priority s, o_callback_url = None, o_callback_secret = None,
      o_budget_usd = firing_budget live_row s, o_idempotency_key = None, o_schedule_id = Some (sc_id s),
      o_trigger_id = None, o_source_job_id = None, o_target_key = target_key_for (apps env) (sc_app s) params,
      o_workflow_run_id = None, o_workflow_step = None, o_root_id = None\<rparr>"

definition skipped_run :: "Schedule \<Rightarrow> string \<Rightarrow> time option \<Rightarrow> nat \<Rightarrow> string option \<Rightarrow> NewScheduleRun" where
  "skipped_run s reason due_at missed detail =
     run_default\<lparr>nr_schedule_id := sc_id s, nr_outcome := ''skipped'', nr_reason := Some reason,
       nr_due_at := due_at, nr_missed := missed, nr_detail := detail\<rparr>"

text \<open>Recording an advance past missed firings, alone or after the firing of the same tick.\<close>

definition step_skip ::
  "step_io \<Rightarrow> nat \<Rightarrow> Schedule \<Rightarrow> string \<Rightarrow> time option \<Rightarrow> time \<Rightarrow> nat \<Rightarrow> string option \<Rightarrow> SchedStep \<Rightarrow>
   sched_world \<Rightarrow> sched_world \<times> (string + SchedStep)" where
  "step_skip io k s reason due_at now missed detail outcome w =
     (case io_fault io CSkip of
        Some e \<Rightarrow> (w, Inl e)
      | None \<Rightarrow>
          (record_decision io k (skipped_run s reason due_at missed detail)
             (w\<lparr>w_schedules := record_schedule_skip (sc_id s) now missed (w_schedules w)\<rparr>),
           Inr outcome))"

definition step_hold ::
  "step_io \<Rightarrow> Schedule \<Rightarrow> string \<Rightarrow> time option \<Rightarrow> sched_world \<Rightarrow> sched_world \<times> (string + SchedStep)" where
  "step_hold io s reason due_at w =
     (let holder = (case io_fault io CLatest of
                      Some e \<Rightarrow> None
                    | None \<Rightarrow> lr_job_id (latest_run (sc_id s) (w_store w)))
      in (record_decision io 0
            (run_default\<lparr>nr_schedule_id := sc_id s, nr_outcome := ''held'', nr_reason := Some reason,
               nr_due_at := due_at, nr_job_id := holder\<rparr>) w,
          Inr StepHeld))"

definition fired_run :: "Schedule \<Rightarrow> string \<Rightarrow> time option \<Rightarrow> uuid \<Rightarrow> nat \<Rightarrow> NewScheduleRun" where
  "fired_run s reason due_at job collapsed =
     run_default\<lparr>nr_schedule_id := sc_id s, nr_outcome := ''fired'', nr_reason := Some reason,
       nr_due_at := due_at, nr_job_id := Some job,
       nr_detail := (if 0 < collapsed then Some (''collapsed '' @ decimal collapsed @ '' missed firings'')
                     else None)\<rparr>"

definition step_fire ::
  "sched_env \<Rightarrow> step_io \<Rightarrow> Schedule \<Rightarrow> json \<Rightarrow> string \<Rightarrow> time option \<Rightarrow> time \<Rightarrow> nat \<Rightarrow> nat \<Rightarrow>
   sched_world \<Rightarrow> sched_world \<times> (string + SchedStep)" where
  "step_fire env io s params reason due_at now missed collapsed w =
     (case io_fault io CGet of
        Some e \<Rightarrow> (w, Inl e)
      | None \<Rightarrow>
          let live_row = get_schedule (sc_id s) (w_schedules w)
          in if \<not> still_firable live_row
             then (record_decision io 0 (refusal (sc_id s) (admission_health AdmDisabled) due_at) w, Inr StepRefused)
             else case io_fault io CEnqueue of
               Some e \<Rightarrow> (w, Inl e)
             | None \<Rightarrow>
                 (case enqueue_dedup (io_job io) (io_clock io) (sc_app s) (firing_options env s live_row params)
                         (w_store w) of
                    (store', Inl e) \<Rightarrow> (w\<lparr>w_store := store'\<rparr>, Inl (store_error_text env e))
                  | (store', Inr (job, _)) \<Rightarrow>
                      (case io_fault io CTouch of
                         Some e \<Rightarrow> (w\<lparr>w_store := store'\<rparr>, Inl e)
                       | None \<Rightarrow>
                           let w' = record_decision io 0 (fired_run s reason due_at (j_id job) collapsed)
                                      (w\<lparr>w_store := store',
                                         w_schedules := touch_schedule (sc_id s) now (w_schedules w)\<rparr>)
                           in if missed = 0 then (w', Inr StepFired)
                              else step_skip io 1 s reason due_at now missed None StepSkippedAndFired w')))"

definition step_admitted ::
  "sched_env \<Rightarrow> step_io \<Rightarrow> Schedule \<Rightarrow> time option \<Rightarrow> time \<Rightarrow> nat \<Rightarrow> nat \<Rightarrow> bool \<Rightarrow> ScheduleAdmission \<Rightarrow>
   sched_world \<Rightarrow> sched_world \<times> (string + SchedStep)" where
  "step_admitted env io s due_at now missed collapsed fires verdict w =
     (let reason = admission_health verdict;
          refused = (\<lambda>detail. (record_decision io 0 ((refusal (sc_id s) reason due_at)\<lparr>nr_detail := detail\<rparr>) w,
                               Inr StepRefused))
      in case verdict of
           AdmDisabled \<Rightarrow> refused None
         | AdmInvalidCron \<Rightarrow> refused None
         | AdmUnregisteredApp \<Rightarrow> refused None
         | AdmInvalidParams detail \<Rightarrow> refused (Some detail)
         | AdmRetired dataset \<Rightarrow>
             step_skip io 0 s reason due_at now (missed + collapsed + (if fires then 1 else 0)) (Some dataset)
               StepSkipped w
         | AdmOverlapping \<Rightarrow>
             if \<not> fires then step_skip io 0 s reason due_at now missed None StepSkipped w
             else step_hold io s reason due_at w
         | AdmFire params \<Rightarrow>
             if \<not> fires then step_skip io 0 s reason due_at now missed None StepSkipped w
             else step_fire env io s params reason due_at now missed collapsed w)"

definition reconcile_schedule ::
  "sched_env \<Rightarrow> step_io \<Rightarrow> Schedule \<Rightarrow> cron \<Rightarrow> time \<Rightarrow> time \<Rightarrow> sched_world \<Rightarrow>
   sched_world \<times> (string + SchedStep)" where
  "reconcile_schedule env io s cron cutoff now w =
     (let tz = parse_tz env (sc_timezone s);
          reference = schedule_reference s;
          due_at = pending_firing cron tz reference;
          act = (\<lambda>missed collapsed fires.
                   case admit env io s w of
                     Inl e \<Rightarrow> (w, Inl e)
                   | Inr verdict \<Rightarrow> step_admitted env io s due_at now missed collapsed fires verdict w)
      in case decide cron tz reference now (sc_misfire_policy s = ''skip'') cutoff of
           ActIdle \<Rightarrow> (w, Inr StepIdle)
         | ActFire collapsed \<Rightarrow> act 0 collapsed True
         | ActSkip missed \<Rightarrow> act missed 0 False
         | ActSkipThenFire missed \<Rightarrow> act missed 0 True)"

section \<open>The pass\<close>

record PassTally =
  considered :: nat
  pt_fired :: nat
  pt_skipped :: nat
  pt_held :: nat
  pt_refused :: nat
  pt_failed :: nat
  stopped_early :: bool

definition tally_default :: PassTally where
  "tally_default = \<lparr>considered = 0, pt_fired = 0, pt_skipped = 0, pt_held = 0, pt_refused = 0, pt_failed = 0,
     stopped_early = False\<rparr>"

definition absorb :: "string + SchedStep \<Rightarrow> PassTally \<Rightarrow> PassTally" where
  "absorb result t =
     (let t = t\<lparr>considered := considered t + 1\<rparr>
      in case result of
           Inr StepIdle \<Rightarrow> t
         | Inr StepFired \<Rightarrow> t\<lparr>pt_fired := pt_fired t + 1\<rparr>
         | Inr StepSkipped \<Rightarrow> t\<lparr>pt_skipped := pt_skipped t + 1\<rparr>
         | Inr StepSkippedAndFired \<Rightarrow> t\<lparr>pt_skipped := pt_skipped t + 1, pt_fired := pt_fired t + 1\<rparr>
         | Inr StepHeld \<Rightarrow> t\<lparr>pt_held := pt_held t + 1\<rparr>
         | Inr StepRefused \<Rightarrow> t\<lparr>pt_refused := pt_refused t + 1\<rparr>
         | Inl e \<Rightarrow> t\<lparr>pt_failed := pt_failed t + 1\<rparr>)"

definition acted :: "PassTally \<Rightarrow> bool" where
  "acted t \<longleftrightarrow> 0 < pt_fired t + pt_skipped t + pt_held t + pt_refused t + pt_failed t \<or> stopped_early t"

definition cached_cron ::
  "sched_env \<Rightarrow> string \<Rightarrow> (string \<rightharpoonup> cron) \<Rightarrow> (string + cron) \<times> (string \<rightharpoonup> cron)" where
  "cached_cron env expr cache =
     (case cache expr of
        Some cron \<Rightarrow> (Inr cron, cache)
      | None \<Rightarrow>
          (case parse_cron env expr of
             Inr cron \<Rightarrow> (Inr cron, cache(expr \<mapsto> cron))
           | Inl e \<Rightarrow> (Inl e, cache)))"

definition failed_run :: "string \<Rightarrow> string \<Rightarrow> NewScheduleRun" where
  "failed_run i e = run_default\<lparr>nr_schedule_id := i, nr_outcome := ''failed'', nr_detail := Some e\<rparr>"

text \<open>One enabled row of the pass: the cached parse, the contained step, the record of its failure.\<close>

definition pass_row ::
  "sched_env \<Rightarrow> step_io \<Rightarrow> time \<Rightarrow> time \<Rightarrow> Schedule \<Rightarrow> (string + cron) \<Rightarrow> sched_world \<Rightarrow>
   sched_world \<times> (string + SchedStep)" where
  "pass_row env io cutoff now s cron w =
     (case cron of
        Inl e \<Rightarrow>
          (record_decision io 0
             ((refusal (sc_id s) (admission_health AdmInvalidCron) None)\<lparr>nr_detail := Some e\<rparr>) w,
           Inr StepRefused)
      | Inr c \<Rightarrow>
          (case reconcile_schedule env io s c cutoff now w of
             (w', Inl e) \<Rightarrow> (record_decision io 2 (failed_run (sc_id s) e) w', Inl e)
           | (w', Inr outcome) \<Rightarrow> (w', Inr outcome)))"

fun reconcile_rows ::
  "sched_env \<Rightarrow> (string \<Rightarrow> step_io) \<Rightarrow> time \<Rightarrow> time \<Rightarrow> Schedule list \<Rightarrow>
   (string \<rightharpoonup> cron) \<times> PassTally \<times> sched_world \<Rightarrow> (string \<rightharpoonup> cron) \<times> PassTally \<times> sched_world" where
  "reconcile_rows env ios cutoff now [] acc = acc"
| "reconcile_rows env ios cutoff now (s # rest) (cache, tally, w) =
     (if \<not> sc_enabled s then reconcile_rows env ios cutoff now rest (cache, tally, w)
      else
        let io = ios (sc_id s); w = io_others io w
        in if io_shutdown io then (cache, tally\<lparr>stopped_early := True\<rparr>, w)
           else let (cron, cache) = cached_cron env (sc_cron s) cache;
                    (w, outcome) = pass_row env io cutoff now s cron w
                in reconcile_rows env ios cutoff now rest (cache, absorb outcome tally, w))"

definition pass_grace :: "sched_env \<Rightarrow> int" where
  "pass_grace env = int (max (schedule_tick_secs env) 1) * 2 * micros_per_sec"

definition reconcile ::
  "sched_env \<Rightarrow> (string \<Rightarrow> step_io) \<Rightarrow> string option \<Rightarrow> time option \<Rightarrow> time \<Rightarrow> (string \<rightharpoonup> cron) \<Rightarrow>
   sched_world \<Rightarrow> (string \<rightharpoonup> cron) \<times> sched_world \<times> (string + PassTally)" where
  "reconcile env ios list_fault last_pass now cache w =
     (let cutoff = misfire_cutoff last_pass now (pass_grace env)
      in case list_fault of
           Some e \<Rightarrow> (cache, w, Inl e)
         | None \<Rightarrow>
             (case reconcile_rows env ios cutoff now (list_schedules (w_schedules w)) (cache, tally_default, w) of
                (cache', tally, w') \<Rightarrow> (cache', w', Inr tally)))"

section \<open>The tick\<close>

record sched_loop =
  sl_world :: sched_world
  sl_last_pass :: "time option"
  sl_cache :: "string \<rightharpoonup> cron"

record tick_io =
  ti_steps :: "string \<Rightarrow> step_io"
  ti_list_fault :: "string option"
  ti_pass_fault :: "string option"
  ti_riders :: "sched_world \<Rightarrow> sched_world"
  ti_panic :: bool

text \<open>
  The pass, its heartbeat, then the work that rides the tick (\<open>ti_riders\<close>), which may panic
  (\<open>ti_panic\<close>). Only a completed pass moves the heartbeat; only a tick that returns from a completed
  pass moves \<open>last_pass\<close>.
\<close>

definition tick_once :: "sched_env \<Rightarrow> tick_io \<Rightarrow> time \<Rightarrow> sched_loop \<Rightarrow> sched_loop \<times> bool" where
  "tick_once env io now st =
     (case reconcile env (ti_steps io) (ti_list_fault io) (sl_last_pass st) now (sl_cache st) (sl_world st) of
        (cache, w, result) \<Rightarrow>
          let completed = \<not> isl result;
              w = (if completed \<and> ti_pass_fault io = None then w\<lparr>w_runs := mark_schedule_pass now (w_runs w)\<rparr>
                   else w)
          in (st\<lparr>sl_world := ti_riders io w, sl_cache := cache\<rparr>, completed))"

definition run_tick :: "sched_env \<Rightarrow> tick_io \<Rightarrow> time \<Rightarrow> sched_loop \<Rightarrow> sched_loop" where
  "run_tick env io now st =
     (case tick_once env io now st of
        (st', completed) \<Rightarrow> if \<not> ti_panic io \<and> completed then st'\<lparr>sl_last_pass := Some now\<rparr> else st')"

definition scheduler_liveness :: "sched_env \<Rightarrow> time \<Rightarrow> sched_world \<Rightarrow> time option \<times> bool" where
  "scheduler_liveness env now w =
     (let last_pass_at = schedule_pass_heartbeat (w_runs w)
      in (last_pass_at, pass_is_stale last_pass_at now (schedule_tick_secs env)))"

section \<open>What a step writes\<close>

definition scheduled :: "string \<Rightarrow> sched_world \<Rightarrow> job_row list" where
  "scheduled i w = filter (\<lambda>r. j_schedule_id r = Some i) (jobs (w_store w))"

lemma record_decision_frame [simp]:
  "w_store (record_decision io k run w) = w_store w"
  "w_schedules (record_decision io k run w) = w_schedules w"
  by (simp_all add: record_decision_def split: option.splits sum.splits)

lemma scheduled_record_decision [simp]: "scheduled i (record_decision io k run w) = scheduled i w"
  by (simp add: scheduled_def)

lemma latest_run_scheduled:
  "scheduled i w = scheduled i w' \<Longrightarrow> latest_run i (w_store w) = latest_run i (w_store w')"
  by (simp add: latest_run_def latest_job_for_schedule_def scheduled_def)

lemma admit_cong:
  "scheduled (sc_id s) w = scheduled (sc_id s) w' \<Longrightarrow> admit env io s w = admit env io s w'"
proof -
  assume "scheduled (sc_id s) w = scheduled (sc_id s) w'"
  then have "admit_overlap io s params w = admit_overlap io s params w'" for params
    using latest_run_scheduled [of "sc_id s" w w'] by (simp add: admit_overlap_def)
  then show ?thesis unfolding admit_def by presburger
qed

text \<open>The one job a firing adds to the queue.\<close>

definition fired_job :: "sched_env \<Rightarrow> step_io \<Rightarrow> Schedule \<Rightarrow> json \<Rightarrow> sched_world \<Rightarrow> job_row" where
  "fired_job env io s params w =
     new_job_row (io_job io) (io_clock io) (sc_app s)
       (firing_options env s (get_schedule (sc_id s) (w_schedules w)) params) None"

lemma fired_job_schedule [simp]: "j_schedule_id (fired_job env io s params w) = Some (sc_id s)"
  by (simp add: fired_job_def new_job_row_def firing_options_def)

lemma fired_job_id [simp]: "j_id (fired_job env io s params w) = io_job io"
  by (simp add: fired_job_def new_job_row_def)

lemma enqueue_firing:
  "enqueue_dedup (io_job io) (io_clock io) (sc_app s)
     (firing_options env s (get_schedule (sc_id s) (w_schedules w)) params) (w_store w) =
   (if io_job io \<in> j_id ` set (jobs (w_store w)) then (w_store w, Inl UniqueViolation)
    else ((w_store w)\<lparr>jobs := jobs (w_store w) @ [fired_job env io s params w]\<rparr>,
          Inr (fired_job env io s params w, True)))"
proof -
  have "insert_conflict (fired_job env io s params w) (w_store w) \<longleftrightarrow> io_job io \<in> j_id ` set (jobs (w_store w))"
    by (force simp: insert_conflict_def fired_job_def new_job_row_def firing_options_def)
  then show ?thesis
    unfolding enqueue_dedup_def enqueue_dedup_as_def enqueue_new_def enqueue_insert_def fired_job_def [symmetric]
    by (simp add: firing_options_def Let_def)
qed

text \<open>
  \<open>writes\<close> is the frame of a step: the rows of the \<open>schedules\<close> table other than its own are as they
  were, and the queue grows by at most the one job of its own firing.
\<close>

definition own_row_update :: "string \<Rightarrow> Schedule list \<Rightarrow> Schedule list \<Rightarrow> bool" where
  "own_row_update i rows rows' \<longleftrightarrow>
     (\<exists>f. (\<forall>r. sc_id (f r) = sc_id r) \<and> rows' = update_where (\<lambda>r. sc_id r = i) f rows)"

lemma own_row_update_refl [simp]: "own_row_update i rows rows"
  unfolding own_row_update_def by (rule exI [of _ "\<lambda>r. r"]) (simp add: update_where_def)

lemma own_row_update_trans:
  assumes "own_row_update i rows rows'" and "own_row_update i rows' rows''"
  shows "own_row_update i rows rows''"
proof -
  obtain f g where f: "\<forall>r. sc_id (f r) = sc_id r" "rows' = update_where (\<lambda>r. sc_id r = i) f rows"
    and g: "\<forall>r. sc_id (g r) = sc_id r" "rows'' = update_where (\<lambda>r. sc_id r = i) g rows'"
    using assms by (auto simp: own_row_update_def)
  have "rows'' = update_where (\<lambda>r. sc_id r = i) (\<lambda>r. g (f r)) rows"
    using f(1) by (auto simp: g(2) f(2) update_where_def)
  moreover have "\<forall>r. sc_id (g (f r)) = sc_id r" by (simp add: f(1) g(1))
  ultimately show ?thesis unfolding own_row_update_def by (intro exI [of _ "\<lambda>r. g (f r)"]) simp
qed

lemma own_row_update_touch [simp]: "own_row_update i rows (touch_schedule i t rows)"
  unfolding own_row_update_def touch_schedule_def
  by (rule exI [of _ "\<lambda>r. r\<lparr>sc_last_run := Some t\<rparr>"]) simp

lemma own_row_update_skip [simp]: "own_row_update i rows (record_schedule_skip i t n rows)"
  unfolding own_row_update_def record_schedule_skip_def
  by (rule exI [of _ "\<lambda>r. r\<lparr>sc_last_skipped_at := Some t, sc_skipped_count := sc_skipped_count r + int n\<rparr>"]) simp

lemma own_row_update_get:
  "own_row_update i rows rows' \<Longrightarrow> j \<noteq> i \<Longrightarrow> get_schedule j rows' = get_schedule j rows"
proof -
  assume "own_row_update i rows rows'" and ne: "j \<noteq> i"
  then obtain f where "\<forall>r. sc_id (f r) = sc_id r" "rows' = update_where (\<lambda>r. sc_id r = i) f rows"
    by (auto simp: own_row_update_def)
  then show ?thesis using ne by (induction rows arbitrary: rows') (auto simp: get_schedule_def)
qed

lemma own_row_update_ids: "own_row_update i rows rows' \<Longrightarrow> map sc_id rows' = map sc_id rows"
  unfolding own_row_update_def by (auto intro: map_update_where_same)

definition writes :: "step_io \<Rightarrow> string \<Rightarrow> sched_world \<Rightarrow> sched_world \<Rightarrow> bool" where
  "writes io i w w' \<longleftrightarrow>
     own_row_update i (w_schedules w) (w_schedules w') \<and>
     (jobs (w_store w') = jobs (w_store w) \<or>
      (\<exists>r. jobs (w_store w') = jobs (w_store w) @ [r] \<and> j_schedule_id r = Some i \<and> j_id r = io_job io))"

lemma writes_refl [simp]: "writes io i w w"
  by (simp add: writes_def)

lemma writes_record_decision [simp]: "writes io i w (record_decision io' k run w') = writes io i w w'"
  by (simp add: writes_def)

lemma step_skip_writes:
  "writes io i w w' \<Longrightarrow> sc_id s = i \<Longrightarrow>
   writes io i w (fst (step_skip io' k s reason due_at now missed detail outcome w'))"
  using own_row_update_trans [OF _ own_row_update_skip]
  by (auto simp: step_skip_def writes_def split: option.splits)

lemma step_fire_writes: "writes io (sc_id s) w (fst (step_fire env io s params reason due_at now missed collapsed w))"
proof -
  have "writes io (sc_id s) w
      (w\<lparr>w_store := (w_store w)\<lparr>jobs := jobs (w_store w) @ [fired_job env io s params w]\<rparr>,
         w_schedules := touch_schedule (sc_id s) now (w_schedules w)\<rparr>)"
    by (simp add: writes_def)
  moreover have "writes io (sc_id s) w
      (w\<lparr>w_store := (w_store w)\<lparr>jobs := jobs (w_store w) @ [fired_job env io s params w]\<rparr>\<rparr>)"
    by (simp add: writes_def)
  ultimately show ?thesis
    by (auto simp: step_fire_def enqueue_firing Let_def intro!: step_skip_writes split: option.splits)
qed

lemma step_admitted_writes:
  "writes io (sc_id s) w (fst (step_admitted env io s due_at now missed collapsed fires verdict w))"
  by (cases verdict)
    (simp_all add: step_admitted_def step_skip_writes step_hold_def step_fire_writes Let_def)

lemma reconcile_schedule_writes: "writes io (sc_id s) w (fst (reconcile_schedule env io s cron cutoff now w))"
  by (simp add: reconcile_schedule_def step_admitted_writes Let_def split: Action.splits sum.splits)

lemma pass_row_writes: "writes io (sc_id s) w (fst (pass_row env io cutoff now s cron w))"
  using reconcile_schedule_writes [of io s w env _ cutoff now]
  by (simp add: pass_row_def split: sum.splits prod.splits) (metis fst_conv)

lemma writes_other:
  assumes "writes io i w w'" and "j \<noteq> i"
  shows "get_schedule j (w_schedules w') = get_schedule j (w_schedules w)" and "scheduled j w' = scheduled j w"
  using assms own_row_update_get by (auto simp: writes_def scheduled_def)

section \<open>What a step makes of a firing\<close>

text \<open>
  \<open>moves_on\<close>: the schedule's cron reference is where it was and its jobs are as many, or the
  reference is the instant of the pass and the jobs are at most one more.
\<close>

definition sc_static :: "Schedule \<Rightarrow> string \<times> string option \<times> time" where
  "sc_static s = (sc_cron s, sc_timezone s, sc_created_at s)"

definition moves_on :: "string \<Rightarrow> time \<Rightarrow> sched_world \<Rightarrow> sched_world \<Rightarrow> bool" where
  "moves_on i now w w' \<longleftrightarrow>
     (\<forall>row. get_schedule i (w_schedules w) = Some row \<longrightarrow> schedule_reference row \<le> now \<longrightarrow>
        (\<exists>row'. get_schedule i (w_schedules w') = Some row' \<and> sc_static row' = sc_static row \<and>
           (schedule_reference row' = schedule_reference row \<and> length (scheduled i w') = length (scheduled i w) \<or>
            schedule_reference row' = now \<and> length (scheduled i w') \<le> Suc (length (scheduled i w)))))"

lemma get_schedule_touch [simp]:
  "get_schedule i (touch_schedule i t rows) = map_option (\<lambda>r. r\<lparr>sc_last_run := Some t\<rparr>) (get_schedule i rows)"
  by (induction rows) (auto simp: get_schedule_def touch_schedule_def)

lemma get_schedule_skip [simp]:
  "get_schedule i (record_schedule_skip i t n rows) =
     map_option (\<lambda>r. r\<lparr>sc_last_skipped_at := Some t, sc_skipped_count := sc_skipped_count r + int n\<rparr>)
       (get_schedule i rows)"
  by (induction rows) (auto simp: get_schedule_def record_schedule_skip_def)

lemma reference_touch:
  "schedule_reference r \<le> t \<Longrightarrow> schedule_reference (r\<lparr>sc_last_run := Some t\<rparr>) = t"
  by (auto simp: schedule_reference_def split: option.splits)

lemma reference_skip:
  "schedule_reference r \<le> t \<Longrightarrow>
   schedule_reference (r\<lparr>sc_last_skipped_at := Some t, sc_skipped_count := n\<rparr>) = t"
  by (auto simp: schedule_reference_def split: option.splits)

lemma moves_on_refl [simp]: "moves_on i now w w"
  by (auto simp: moves_on_def)

lemma moves_on_record_decision [simp]: "moves_on i now w (record_decision io k run w') = moves_on i now w w'"
  by (simp add: moves_on_def)

lemma moves_on_skip:
  assumes "moves_on i now w w'" and "sc_id s = i"
  shows "moves_on i now w (fst (step_skip io k s reason due_at now missed detail outcome w'))"
proof (cases "io_fault io CSkip")
  case None
  let ?f = "\<lambda>r. r\<lparr>sc_last_skipped_at := Some now, sc_skipped_count := sc_skipped_count r + int missed\<rparr>"
  have "schedule_reference (?f r) = now" if "schedule_reference r \<le> now" for r
    by (rule reference_skip [OF that])
  moreover have "sc_static (?f r) = sc_static r" for r by (simp add: sc_static_def)
  moreover have "fst (step_skip io k s reason due_at now missed detail outcome w') =
      record_decision io k (skipped_run s reason due_at missed detail)
        (w'\<lparr>w_schedules := record_schedule_skip i now missed (w_schedules w')\<rparr>)"
    by (simp add: step_skip_def None assms(2))
  moreover have "scheduled i (w'\<lparr>w_schedules := x\<rparr>) = scheduled i w'" for x by (simp add: scheduled_def)
  ultimately show ?thesis
    using assms(1) unfolding moves_on_def by (fastforce simp del: sched_world.update_convs)
qed (use assms in \<open>simp add: step_skip_def\<close>)

lemma moves_on_fire:
  assumes "io_fault io CTouch = None"
  shows "moves_on (sc_id s) now w (fst (step_fire env io s params reason due_at now missed collapsed w))"
proof -
  have "moves_on (sc_id s) now w
      (w\<lparr>w_store := (w_store w)\<lparr>jobs := jobs (w_store w) @ [fired_job env io s params w]\<rparr>,
         w_schedules := touch_schedule (sc_id s) now (w_schedules w)\<rparr>)"
    by (auto simp: moves_on_def scheduled_def reference_touch sc_static_def)
  then show ?thesis
    using assms by (auto simp: step_fire_def enqueue_firing Let_def intro!: moves_on_skip split: option.splits)
qed

lemma moves_on_admitted:
  "io_fault io CTouch = None \<Longrightarrow>
   moves_on (sc_id s) now w (fst (step_admitted env io s due_at now missed collapsed fires verdict w))"
  by (cases verdict) (simp_all add: step_admitted_def moves_on_skip step_hold_def moves_on_fire Let_def)

text \<open>A step that does anything at all has a firing between the reference and now.\<close>

lemma step_has_firing:
  assumes "cron_ok (cron (parse_tz env (sc_timezone s)))"
    and "firings (cron (parse_tz env (sc_timezone s))) (schedule_reference s) now = {}"
  shows "reconcile_schedule env io s cron cutoff now w = (w, Inr StepIdle)"
  using assms by (simp add: reconcile_schedule_def decide_is_spec decide_spec_def Let_def)

lemma reconcile_schedule_moves_on:
  "io_fault io CTouch = None \<Longrightarrow> moves_on (sc_id s) now w (fst (reconcile_schedule env io s cron cutoff now w))"
  by (simp add: reconcile_schedule_def moves_on_admitted Let_def split: Action.splits sum.splits)

lemma pass_row_moves_on:
  assumes "io_fault io CTouch = None"
  shows "moves_on (sc_id s) now w (fst (pass_row env io cutoff now s cron w))"
  using reconcile_schedule_moves_on [OF assms, of s now w env _ cutoff]
  by (simp add: pass_row_def split: sum.splits prod.splits) (metis fst_conv)

section \<open>Passes and runs\<close>

fun run_ticks :: "sched_env \<Rightarrow> (tick_io \<times> time) list \<Rightarrow> sched_loop \<Rightarrow> sched_loop" where
  "run_ticks env [] st = st"
| "run_ticks env ((io, now) # ticks) st = run_ticks env ticks (run_tick env io now st)"

definition cache_ok :: "sched_env \<Rightarrow> (string \<rightharpoonup> cron) \<Rightarrow> bool" where
  "cache_ok env cache \<longleftrightarrow> (\<forall>e c. cache e = Some c \<longrightarrow> parse_cron env e = Inr c)"

lemma cached_cron_ok:
  assumes "cache_ok env cache"
  shows "fst (cached_cron env e cache) = parse_cron env e" and "cache_ok env (snd (cached_cron env e cache))"
  using assms by (auto simp: cached_cron_def cache_ok_def split: option.splits sum.splits)

text \<open>What other requests may do without adding runs to schedule \<open>i\<close> or moving its reference.\<close>

definition leaves :: "string \<Rightarrow> (sched_world \<Rightarrow> sched_world) \<Rightarrow> bool" where
  "leaves i f \<longleftrightarrow>
     (\<forall>w. length (scheduled i (f w)) = length (scheduled i w) \<and>
          map_option (\<lambda>r. (sc_static r, sc_last_run r, sc_last_skipped_at r)) (get_schedule i (w_schedules (f w))) =
          map_option (\<lambda>r. (sc_static r, sc_last_run r, sc_last_skipped_at r)) (get_schedule i (w_schedules w)) \<and>
          (distinct (map sc_id (w_schedules w)) \<longrightarrow> distinct (map sc_id (w_schedules (f w)))))"

text \<open>
  \<open>runs_within\<close>: since the reference was \<open>t0\<close> and the schedule had \<open>n0\<close> jobs, it got at most one
  job per firing that its reference has passed. The last argument is the reference now.
\<close>

definition runs_within ::
  "(time \<Rightarrow> time option) \<Rightarrow> string \<Rightarrow> string \<times> string option \<times> time \<Rightarrow> time \<Rightarrow> nat \<Rightarrow> time \<Rightarrow> sched_world \<Rightarrow> time \<Rightarrow> bool" where
  "runs_within nxt i static t0 n0 T w t \<longleftrightarrow>
     (\<exists>row. get_schedule i (w_schedules w) = Some row \<and> sc_static row = static \<and> schedule_reference row = t) \<and>
     t0 \<le> t \<and> t \<le> T \<and> distinct (map sc_id (w_schedules w)) \<and>
     length (scheduled i w) \<le> n0 + card (firings nxt t0 t)"

lemma reference_cong:
  "sc_static r = sc_static s \<Longrightarrow> sc_last_run r = sc_last_run s \<Longrightarrow> sc_last_skipped_at r = sc_last_skipped_at s \<Longrightarrow>
   schedule_reference r = schedule_reference s"
  by (auto simp: schedule_reference_def sc_static_def split: option.splits)

lemma runs_within_leaves:
  assumes "runs_within nxt i static t0 n0 T w t" and "leaves i f"
  shows "runs_within nxt i static t0 n0 T (f w) t"
proof -
  obtain row where row: "get_schedule i (w_schedules w) = Some row" "sc_static row = static"
      "schedule_reference row = t"
    using assms(1) by (auto simp: runs_within_def)
  have f: "map_option (\<lambda>r. (sc_static r, sc_last_run r, sc_last_skipped_at r)) (get_schedule i (w_schedules (f w))) =
      Some (sc_static row, sc_last_run row, sc_last_skipped_at row)"
    using assms(2) row(1) by (simp add: leaves_def)
  then obtain row' where "get_schedule i (w_schedules (f w)) = Some row'" "sc_static row' = sc_static row"
      "sc_last_run row' = sc_last_run row" "sc_last_skipped_at row' = sc_last_skipped_at row"
    by auto
  moreover from this have "schedule_reference row' = schedule_reference row" by (intro reference_cong)
  ultimately show ?thesis
    using assms row(2,3) unfolding runs_within_def leaves_def by auto
qed

lemma runs_within_other:
  assumes "runs_within nxt i static t0 n0 T w t" and "writes io j w w'" and "j \<noteq> i"
  shows "runs_within nxt i static t0 n0 T w' t"
  using assms writes_other [OF assms(2), of i] own_row_update_ids
  unfolding runs_within_def writes_def by auto

lemma firings_mono: "b \<le> b' \<Longrightarrow> firings nxt a b \<subseteq> firings nxt a b'"
  by (auto simp: firings_def)

lemma firings_grow:
  assumes "firings nxt t now \<noteq> {}" and "t0 \<le> t"
  shows "t < now" and "Suc (card (firings nxt t0 t)) \<le> card (firings nxt t0 now)"
proof -
  obtain u where u: "t < u" "u \<le> now" "\<exists>s. nxt s = Some u" using assms(1) by (auto simp: firings_def)
  then show "t < now" by simp
  have "insert u (firings nxt t0 t) \<subseteq> firings nxt t0 now" using u assms(2) by (auto simp: firings_def)
  then have "card (insert u (firings nxt t0 t)) \<le> card (firings nxt t0 now)" by (intro card_mono) simp_all
  moreover have "u \<notin> firings nxt t0 t" using u by (simp add: firings_def)
  ultimately show "Suc (card (firings nxt t0 t)) \<le> card (firings nxt t0 now)" by simp
qed

lemma runs_within_own:
  assumes inv: "runs_within (c (parse_tz env (sc_timezone s))) i static t0 n0 T w t"
    and s: "sc_id s = i" "schedule_reference s = t" and now: "now \<le> T"
    and c: "cron_ok (c (parse_tz env (sc_timezone s)))" and io: "io_fault io CTouch = None"
  shows "\<exists>t'. runs_within (c (parse_tz env (sc_timezone s))) i static t0 n0 T
              (fst (pass_row env io cutoff now s (Inr c) w)) t'"
proof (cases "firings (c (parse_tz env (sc_timezone s))) t now = {}")
  case True
  then have "fst (pass_row env io cutoff now s (Inr c) w) = w"
    using step_has_firing [of c env s now io cutoff w] c s(2) by (simp add: pass_row_def)
  then show ?thesis using inv by auto
next
  case False
  let ?w = "fst (pass_row env io cutoff now s (Inr c) w)" and ?n = "c (parse_tz env (sc_timezone s))"
  obtain row where row: "get_schedule i (w_schedules w) = Some row" "sc_static row = static" "schedule_reference row = t"
    using inv by (auto simp: runs_within_def)
  have t0: "t0 \<le> t" and len: "length (scheduled i w) \<le> n0 + card (firings ?n t0 t)" using inv by (auto simp: runs_within_def)
  have lt: "t < now" by (rule firings_grow(1) [OF False t0])
  have ids: "distinct (map sc_id (w_schedules ?w))"
    using inv own_row_update_ids pass_row_writes [of io s w env cutoff now "Inr c"]
    unfolding runs_within_def writes_def by auto
  have "moves_on i now w ?w" using pass_row_moves_on [OF io] s(1) by blast
  then obtain row' where row': "get_schedule i (w_schedules ?w) = Some row'" "sc_static row' = static"
    and eff: "schedule_reference row' = t \<and> length (scheduled i ?w) = length (scheduled i w) \<or>
        schedule_reference row' = now \<and> length (scheduled i ?w) \<le> Suc (length (scheduled i w))"
    using row lt unfolding moves_on_def by fastforce
  from eff have "length (scheduled i ?w) \<le> n0 + card (firings ?n t0 (schedule_reference row'))"
    using len firings_grow(2) [OF False t0] by auto
  then have "runs_within ?n i static t0 n0 T ?w (schedule_reference row')"
    using row' eff t0 lt now inv ids unfolding runs_within_def by auto
  then show ?thesis by blast
qed

lemma reconcile_rows_Cons:
  assumes "sc_enabled s" and "\<not> io_shutdown (ios (sc_id s))" and "cache_ok env cache"
  shows "reconcile_rows env ios cutoff now (s # rest) (cache, tally, w) =
    (case pass_row env (ios (sc_id s)) cutoff now s (parse_cron env (sc_cron s)) (io_others (ios (sc_id s)) w) of
       (w', r) \<Rightarrow> reconcile_rows env ios cutoff now rest
                    (snd (cached_cron env (sc_cron s) cache), absorb r tally, w'))"
  using assms cached_cron_ok(1) [OF assms(3), of "sc_cron s"]
  by (cases "cached_cron env (sc_cron s) cache") (simp add: Let_def)

lemma reconcile_rows_runs_within:
  assumes "runs_within (c (parse_tz env tz)) i (expr, tz, created) t0 n0 T w t"
    and "parse_cron env expr = Inr c" and "cron_ok (c (parse_tz env tz))" and "now \<le> T"
    and "io_fault (ios i) CTouch = None" and "\<forall>j. leaves i (io_others (ios j))"
    and "distinct (map sc_id rows)"
    and "\<forall>s\<in>set rows. sc_id s = i \<longrightarrow> sc_static s = (expr, tz, created) \<and> schedule_reference s = t"
    and "cache_ok env cache"
  shows "\<exists>t'. runs_within (c (parse_tz env tz)) i (expr, tz, created) t0 n0 T
           (snd (snd (reconcile_rows env ios cutoff now rows (cache, tally, w)))) t'
       \<and> cache_ok env (fst (reconcile_rows env ios cutoff now rows (cache, tally, w)))"
  using assms
proof (induction rows arbitrary: cache tally w t)
  case (Cons s rest)
  let ?io = "ios (sc_id s)" and ?w = "io_others (ios (sc_id s)) w"
  note rest_distinct = Cons.prems(7)
  have w1: "runs_within (c (parse_tz env tz)) i (expr, tz, created) t0 n0 T ?w t"
    using runs_within_leaves [OF Cons.prems(1)] Cons.prems(6) by blast
  consider "\<not> sc_enabled s" | "sc_enabled s" "io_shutdown ?io" | "sc_enabled s" "\<not> io_shutdown ?io" by blast
  then show ?case
  proof cases
    case 1
    then show ?thesis using Cons.IH [OF Cons.prems(1-6)] Cons.prems(7-9) by simp
  next
    case 2
    then show ?thesis using w1 Cons.prems(9) by (auto simp: Let_def)
  next
    case 3
    obtain w' r where step: "pass_row env ?io cutoff now s (parse_cron env (sc_cron s)) ?w = (w', r)" by fastforce
    have cache': "cache_ok env (snd (cached_cron env (sc_cron s) cache))" by (rule cached_cron_ok(2) [OF Cons.prems(9)])
    obtain t' where t': "runs_within (c (parse_tz env tz)) i (expr, tz, created) t0 n0 T w' t'"
      "\<forall>s\<in>set rest. sc_id s = i \<longrightarrow> sc_static s = (expr, tz, created) \<and> schedule_reference s = t'"
    proof (cases "sc_id s = i")
      case False
      have "runs_within (c (parse_tz env tz)) i (expr, tz, created) t0 n0 T w' t"
        using runs_within_other [OF w1 _ False] pass_row_writes [of ?io s ?w env cutoff now] step by (metis fst_conv)
      then show ?thesis using that Cons.prems(8) by simp
    next
      case True
      then have s: "sc_cron s = expr" "sc_timezone s = tz" "schedule_reference s = t"
        using Cons.prems(8) by (auto simp: sc_static_def)
      have "\<exists>t'. runs_within (c (parse_tz env tz)) i (expr, tz, created) t0 n0 T w' t'"
        using runs_within_own [of c env s i "(expr, tz, created)" t0 n0 T ?w t now ?io cutoff] w1 True s step
          Cons.prems(2-5) by simp
      moreover have "\<forall>s\<in>set rest. sc_id s \<noteq> i" using rest_distinct True by (auto simp: image_iff)
      ultimately show ?thesis using that by blast
    qed
    show ?thesis
      using Cons.IH [OF t'(1) Cons.prems(2-6) _ t'(2) cache', of "absorb r tally"] rest_distinct
      unfolding reconcile_rows_Cons [where ios = ios and rest = rest, OF 3(1) 3(2) Cons.prems(9)] by (simp add: step)
  qed
qed auto

lemma get_schedule_mem:
  assumes "distinct (map sc_id rows)" and "s \<in> set rows"
  shows "get_schedule (sc_id s) rows = Some s"
  using assms find_distinct_key [of sc_id rows s] by (simp add: get_schedule_def)

lemma list_schedules_props [simp]:
  "set (list_schedules rows) = set rows"
  "distinct (map sc_id (list_schedules rows)) \<longleftrightarrow> distinct (map sc_id rows)"
proof -
  show "set (list_schedules rows) = set rows" by (simp add: list_schedules_def)
  have "mset (map sc_id (list_schedules rows)) = mset (map sc_id rows)" by (simp add: list_schedules_def)
  then show "distinct (map sc_id (list_schedules rows)) \<longleftrightarrow> distinct (map sc_id rows)"
    using mset_eq_imp_distinct_iff by blast
qed

lemma scheduled_runs_update [simp]: "scheduled i (w\<lparr>w_runs := x\<rparr>) = scheduled i w"
  by (simp add: scheduled_def)

lemma run_tick_runs_within:
  assumes inv: "runs_within (c (parse_tz env tz)) i (expr, tz, created) t0 n0 T (sl_world st) t"
    and "parse_cron env expr = Inr c" and "cron_ok (c (parse_tz env tz))" and "now \<le> T"
    and "io_fault (ti_steps io i) CTouch = None" and "\<forall>j. leaves i (io_others (ti_steps io j))"
    and riders: "leaves i (ti_riders io)" and cache: "cache_ok env (sl_cache st)"
  shows "\<exists>t'. runs_within (c (parse_tz env tz)) i (expr, tz, created) t0 n0 T (sl_world (run_tick env io now st)) t'
       \<and> cache_ok env (sl_cache (run_tick env io now st))"
proof (cases "ti_list_fault io")
  case None
  let ?rows = "list_schedules (w_schedules (sl_world st))"
  let ?cutoff = "misfire_cutoff (sl_last_pass st) now (pass_grace env)"
  obtain cache' tally w' where pass: "reconcile_rows env (ti_steps io) ?cutoff now ?rows
      (sl_cache st, tally_default, sl_world st) = (cache', tally, w')"
    by (metis prod_cases3)
  have ids: "distinct (map sc_id (w_schedules (sl_world st)))" using inv by (simp add: runs_within_def)
  then have rows: "\<forall>s\<in>set ?rows. sc_id s = i \<longrightarrow> sc_static s = (expr, tz, created) \<and> schedule_reference s = t"
    using inv get_schedule_mem [OF ids] unfolding runs_within_def by fastforce
  obtain t' where t': "runs_within (c (parse_tz env tz)) i (expr, tz, created) t0 n0 T w' t'" "cache_ok env cache'"
    using reconcile_rows_runs_within [OF inv assms(2-6) _ rows cache, of ?cutoff tally_default] ids pass by auto
  then have "runs_within (c (parse_tz env tz)) i (expr, tz, created) t0 n0 T (w'\<lparr>w_runs := x\<rparr>) t'" for x
    by (simp add: runs_within_def)
  then have "runs_within (c (parse_tz env tz)) i (expr, tz, created) t0 n0 T (ti_riders io (w'\<lparr>w_runs := x\<rparr>)) t'" for x
    by (rule runs_within_leaves [OF _ riders])
  moreover have "runs_within (c (parse_tz env tz)) i (expr, tz, created) t0 n0 T (ti_riders io w') t'"
    by (rule runs_within_leaves [OF t'(1) riders])
  ultimately show ?thesis
    using t'(2) None pass
    by (intro exI [of _ t']) (auto simp: run_tick_def tick_once_def reconcile_def Let_def)
next
  case (Some e)
  then show ?thesis using runs_within_leaves [OF inv riders] cache
    by (auto simp: run_tick_def tick_once_def reconcile_def Let_def)
qed

lemma run_ticks_runs_within:
  assumes "runs_within (c (parse_tz env tz)) i (expr, tz, created) t0 n0 T (sl_world st) t"
    and "parse_cron env expr = Inr c" and "cron_ok (c (parse_tz env tz))"
    and "\<forall>(io, now)\<in>set ticks. now \<le> T \<and> io_fault (ti_steps io i) CTouch = None \<and>
           (\<forall>j. leaves i (io_others (ti_steps io j))) \<and> leaves i (ti_riders io)"
    and "cache_ok env (sl_cache st)"
  shows "\<exists>t'. runs_within (c (parse_tz env tz)) i (expr, tz, created) t0 n0 T (sl_world (run_ticks env ticks st)) t'"
  using assms
proof (induction ticks arbitrary: st t)
  case (Cons x ticks)
  obtain io now where x: "x = (io, now)" by fastforce
  show ?case
    using run_tick_runs_within [OF Cons.prems(1-3), of now io] Cons.IH Cons.prems(2-5) by (auto simp: x)
qed auto

text \<open>
  The durable heartbeat and the instant the next pass measures from part company when what rides the
  tick panics after a completed pass.
\<close>

lemma heartbeat_marked: "schedule_pass_heartbeat (mark_schedule_pass t runs) = Some t"
proof (cases "ledger_conflict SCHEDULE_PASS_HEARTBEAT_ID runs")
  case True
  then have "find (\<lambda>r. sr_id r = SCHEDULE_PASS_HEARTBEAT_ID) runs \<noteq> None"
    by (auto simp: ledger_conflict_def find_None_iff)
  then obtain r where r: "find (\<lambda>r. sr_id r = SCHEDULE_PASS_HEARTBEAT_ID) runs = Some r" by auto
  have "find (\<lambda>r. sr_id r = SCHEDULE_PASS_HEARTBEAT_ID) (mark_schedule_pass t runs) = Some (r\<lparr>sr_created_at := t\<rparr>)"
    using True find_Some_mem [OF r] r
    by (simp add: mark_schedule_pass_def find_update_where_same [of runs _ "\<lambda>r. sr_id r = SCHEDULE_PASS_HEARTBEAT_ID"])
  then show ?thesis by (simp add: schedule_pass_heartbeat_def)
next
  case False
  then have "find (\<lambda>r. sr_id r = SCHEDULE_PASS_HEARTBEAT_ID) (runs @ [x]) =
      (if sr_id x = SCHEDULE_PASS_HEARTBEAT_ID then Some x else None)" for x
    by (induction runs) (auto simp: ledger_conflict_def)
  then show ?thesis using False by (simp add: schedule_pass_heartbeat_def mark_schedule_pass_def run_row_def)
qed

lemma rider_panic_parts_the_marks:
  assumes "ti_panic io" and "ti_list_fault io = None" and "ti_pass_fault io = None" and "ti_riders io = id"
  shows "sl_last_pass (run_tick env io now st) = sl_last_pass st"
    and "schedule_pass_heartbeat (w_runs (sl_world (run_tick env io now st))) = Some now"
  using assms by (simp_all add: run_tick_def tick_once_def reconcile_def Let_def heartbeat_marked split: prod.split)

section \<open>The schedules of a pass do not disturb each other\<close>

definition quiet :: "(string \<Rightarrow> step_io) \<Rightarrow> bool" where
  "quiet ios \<longleftrightarrow> (\<forall>j. io_others (ios j) = id \<and> \<not> io_shutdown (ios j))"

lemma reconcile_rows_cache_ok:
  "cache_ok env cache \<Longrightarrow> cache_ok env (fst (reconcile_rows env ios cutoff now rows (cache, tally, w)))"
proof (induction rows arbitrary: cache tally w)
  case (Cons s rest)
  then show ?case
    using cached_cron_ok(2) [OF Cons.prems, of "sc_cron s"]
    by (auto simp: Let_def split: prod.splits)
qed simp

lemma reconcile_rows_append:
  assumes "quiet ios"
  shows "reconcile_rows env ios cutoff now (xs @ ys) acc =
    reconcile_rows env ios cutoff now ys (reconcile_rows env ios cutoff now xs acc)"
proof (induction xs arbitrary: acc)
  case (Cons s xs)
  obtain cache tally w where acc: "acc = (cache, tally, w)" by (metis prod_cases3)
  show ?case using assms Cons.IH by (auto simp: acc quiet_def Let_def split: prod.splits)
qed simp

lemma pass_considers:
  assumes "quiet ios"
  shows "considered (fst (snd (reconcile_rows env ios cutoff now rows (cache, tally, w)))) =
    considered tally + length (filter sc_enabled rows)"
proof (induction rows arbitrary: cache tally w)
  case (Cons s rest)
  have "considered (absorb r t) = considered t + 1" for r t
    by (simp add: absorb_def Let_def split: sum.splits SchedStep.splits)
  then show ?case using assms Cons.IH by (auto simp: quiet_def Let_def split: prod.splits)
qed simp

definition job_ids :: "sched_world \<Rightarrow> uuid set" where
  "job_ids w = j_id ` set (jobs (w_store w))"

definition spared :: "string \<Rightarrow> uuid \<Rightarrow> sched_world \<Rightarrow> sched_world \<Rightarrow> bool" where
  "spared i j w w' \<longleftrightarrow>
     get_schedule i (w_schedules w') = get_schedule i (w_schedules w) \<and>
     scheduled i w' = scheduled i w \<and> (j \<in> job_ids w' \<longleftrightarrow> j \<in> job_ids w)"

lemma pass_others:
  assumes "quiet ios" and "cache_ok env cache" and "\<forall>s\<in>set rows. sc_id s \<noteq> i \<and> io_job (ios (sc_id s)) \<noteq> j"
  shows "spared i j w (snd (snd (reconcile_rows env ios cutoff now rows (cache, tally, w))))"
  using assms(2,3)
proof (induction rows arbitrary: cache tally w)
  case (Cons s rest)
  show ?case
  proof (cases "sc_enabled s")
    case True
    let ?io = "ios (sc_id s)"
    have io: "io_others ?io = id" "\<not> io_shutdown ?io" using assms(1) by (simp_all add: quiet_def)
    obtain w1 r where step: "pass_row env ?io cutoff now s (parse_cron env (sc_cron s)) w = (w1, r)" by fastforce
    have writes: "writes ?io (sc_id s) w w1"
      using pass_row_writes [of ?io s w env cutoff now "parse_cron env (sc_cron s)"] step by simp
    then have ids: "j \<in> job_ids w1 \<longleftrightarrow> j \<in> job_ids w"
      using Cons.prems(2) by (auto simp: writes_def job_ids_def)
    have ne: "i \<noteq> sc_id s" using Cons.prems(2) by auto
    show ?thesis
      using Cons.IH [OF cached_cron_ok(2) [OF Cons.prems(1), of "sc_cron s"]] Cons.prems(2) ids
        writes_other [OF writes ne] unfolding spared_def
        reconcile_rows_Cons [where ios = ios and rest = rest, OF True io(2) Cons.prems(1)] io(1) id_apply step
      by simp
  qed (use Cons in simp)
qed (simp add: spared_def)

lemma decide_fires:
  assumes "cron_ok (cron tz)" and "u \<in> firings (cron tz) reference now" and "skip \<longrightarrow> cutoff < u"
  shows "\<exists>n. decide cron tz reference now skip cutoff = ActFire n \<or>
             decide cron tz reference now skip cutoff = ActSkipThenFire n"
proof -
  have "skip \<Longrightarrow> u \<notin> firings (cron tz) reference (min cutoff now)" using assms(3) by (auto simp: firings_def)
  then show ?thesis using assms(2) unfolding decide_is_spec [of cron tz, OF assms(1)] decide_spec_def Let_def by auto
qed

lemma step_fire_effect:
  assumes "io_fault io CGet = None" "io_fault io CEnqueue = None" "io_fault io CTouch = None"
    and "get_schedule (sc_id s) (w_schedules w) = Some row" and "sc_enabled row" and "io_job io \<notin> job_ids w"
    and w'_def: "w' = fst (step_fire env io s params reason due_at now missed collapsed w)"
  shows "scheduled (sc_id s) w' = scheduled (sc_id s) w @ [fired_job env io s params w]
    \<and> map_option sc_last_run (get_schedule (sc_id s) (w_schedules w')) = Some (Some now)"
proof -
  define w1 where "w1 = w\<lparr>w_store := (w_store w)\<lparr>jobs := jobs (w_store w) @ [fired_job env io s params w]\<rparr>,
         w_schedules := touch_schedule (sc_id s) now (w_schedules w)\<rparr>"
  have w1: "scheduled (sc_id s) w1 = scheduled (sc_id s) w @ [fired_job env io s params w]"
    "map_option sc_last_run (get_schedule (sc_id s) (w_schedules w1)) = Some (Some now)"
    by (simp_all add: w1_def scheduled_def assms(4))
  define w2 where "w2 = record_decision io 0 (fired_run s reason due_at (io_job io) collapsed) w1"
  have w2: "scheduled (sc_id s) w2 = scheduled (sc_id s) w1" "w_schedules w2 = w_schedules w1" by (simp_all add: w2_def)
  have skip: "scheduled i (fst (step_skip io k s reason due_at now missed d oc v)) = scheduled i v"
    "map_option sc_last_run (get_schedule i (w_schedules (fst (step_skip io k s reason due_at now missed d oc v)))) =
      map_option sc_last_run (get_schedule i (w_schedules v))" if "i = sc_id s" for i k d oc v
    using that by (simp_all add: step_skip_def scheduled_def option.map_comp comp_def split: option.splits)
  have "w' = (if missed = 0 then w2 else fst (step_skip io 1 s reason due_at now missed None StepSkippedAndFired w2))"
    using assms(1-6) unfolding w'_def step_fire_def Let_def enqueue_firing w2_def w1_def
    by (simp add: still_firable_def job_ids_def)
  then show ?thesis using w1 w2 skip [OF refl] by (simp del: map_option_eq_Some)
qed

lemma pass_row_fires:
  assumes c: "cron_ok (c (parse_tz env (sc_timezone s)))"
    and due: "u \<in> firings (c (parse_tz env (sc_timezone s))) (schedule_reference s) now"
    and on_time: "sc_misfire_policy s = ''skip'' \<longrightarrow> cutoff < u"
    and adm: "admit env io s w = Inr (AdmFire params)"
    and io: "io_fault io CGet = None" "io_fault io CEnqueue = None" "io_fault io CTouch = None"
    and row: "get_schedule (sc_id s) (w_schedules w) = Some row" "sc_enabled row" and new: "io_job io \<notin> job_ids w"
    and w': "w' = fst (pass_row env io cutoff now s (Inr c) w)"
  shows "scheduled (sc_id s) w' = scheduled (sc_id s) w @ [fired_job env io s params w]
    \<and> map_option sc_last_run (get_schedule (sc_id s) (w_schedules w')) = Some (Some now)"
proof -
  let ?tz = "parse_tz env (sc_timezone s)"
  obtain missed collapsed where
    "fst (reconcile_schedule env io s c cutoff now w) =
     fst (step_fire env io s params ''ok'' (c ?tz (schedule_reference s)) now missed collapsed w)"
    using decide_fires [of c ?tz u "schedule_reference s" now "sc_misfire_policy s = ''skip''" cutoff, OF c due on_time] adm
    by (auto simp: reconcile_schedule_def step_admitted_def pending_firing_def Let_def)
  note effect = step_fire_effect [OF io row new this]
  obtain w1 r where step: "reconcile_schedule env io s c cutoff now w = (w1, r)" by fastforce
  have "w_store w' = w_store w1" "w_schedules w' = w_schedules w1"
    by (simp_all add: w' pass_row_def step split: sum.split)
  then show ?thesis using effect by (simp add: step scheduled_def)
qed

section \<open>Properties\<close>

text \<open>
  C36. The scheduler's classification of one schedule is exact. Made by walking the cron iterator
  with caps (64 for the backlog it folds into one run, 10000 for the firings it skips) and by one
  step from the later of the reference and the cutoff, it is the one read off the sets: nothing is
  due when no firing lies in the interval after the reference up to now; under \<open>fire_once\<close>, or when
  no firing is at or before the cutoff, one run is due and it folds in the other firings; under
  \<open>skip\<close> the firings at or before the cutoff are skipped, and a run is due as well exactly when a
  later firing shares the tick, however long the backlog.
\<close>

theorem decide_exact:
  assumes "cron_ok (cron tz)"
  shows "decide cron tz reference now misfire_skip cutoff =
    (let due = firings (cron tz) reference now;
         missed = (if misfire_skip then firings (cron tz) reference (min cutoff now) else {})
     in if due = {} then ActIdle
        else if missed = {} then ActFire (min 64 (card due - 1))
        else if due - missed = {} then ActSkip (min 10000 (card missed))
        else ActSkipThenFire (min 10000 (card missed)))"
  using decide_is_spec [of cron tz, OF assms] by (simp add: decide_spec_def)

text \<open>A firing every ten microseconds.\<close>

definition demo_cron :: cron where
  "demo_cron tz t = Some (10 * (t div 10 + 1))"

lemma demo_cron_ok: "cron_ok (demo_cron tz)"
proof -
  have "t < 10 * (t div 10 + 1)" for t :: int by presburger
  moreover have "s div 10 = t div 10" if "t \<le> s" "s < 10 * (t div 10 + 1)" for s t :: int
    using that by presburger
  ultimately show ?thesis unfolding cron_ok_def demo_cron_def by simp
qed

theorem decide_exact_witness:
  "decide demo_cron ''UTC'' 5 35 True 20 = ActSkipThenFire 2 \<and>
   (let due = firings (demo_cron ''UTC'') 5 35; missed = firings (demo_cron ''UTC'') 5 20
    in \<not> (due = {} \<or> missed = {} \<or> due - missed = {}) \<and> min 10000 (card missed) = 2)"
proof -
  have d: "decide demo_cron ''UTC'' 5 35 True 20 = ActSkipThenFire 2"
    by (simp add: decide_def demo_cron_def missed_count_def count_firings.simps MAX_MISFIRE_SCAN_def
        has_due_on_time_firing_def)
  show ?thesis
    using decide_exact [of demo_cron "''UTC''", OF demo_cron_ok, of 5 35 True 20] d
    by (simp add: Let_def split: if_splits)
qed

text \<open>
  C37. A firing runs at most once. Over any run of the scheduler, whatever statements fail other than
  the one that stamps \<open>last_run\<close>, whatever panics, and whatever other requests do short of adding
  runs to the schedule or moving its reference, the jobs the schedule gets are at most as many as
  the firings of its cron between its reference at the start and the last instant of the run. The
  clock may even go backwards.
\<close>

theorem each_firing_runs_at_most_once:
  assumes row: "get_schedule i (w_schedules (sl_world st)) = Some row"
    and ids: "distinct (map sc_id (w_schedules (sl_world st)))"
    and cron: "parse_cron env (sc_cron row) = Inr c" "cron_ok (c (parse_tz env (sc_timezone row)))"
    and cache: "cache_ok env (sl_cache st)" and start: "schedule_reference row \<le> T"
    and ticks: "\<forall>(io, now)\<in>set ticks. now \<le> T \<and> io_fault (ti_steps io i) CTouch = None \<and>
                  (\<forall>j. leaves i (io_others (ti_steps io j))) \<and> leaves i (ti_riders io)"
  shows "length (scheduled i (sl_world (run_ticks env ticks st))) \<le>
         length (scheduled i (sl_world st)) + card (firings (c (parse_tz env (sc_timezone row))) (schedule_reference row) T)"
proof -
  let ?nxt = "c (parse_tz env (sc_timezone row))" and ?t0 = "schedule_reference row"
  have "runs_within ?nxt i (sc_cron row, sc_timezone row, sc_created_at row) ?t0 (length (scheduled i (sl_world st))) T
      (sl_world st) ?t0"
    using row ids start by (simp add: runs_within_def sc_static_def)
  then obtain t where t: "runs_within ?nxt i (sc_cron row, sc_timezone row, sc_created_at row) ?t0
      (length (scheduled i (sl_world st))) T (sl_world (run_ticks env ticks st)) t"
    using run_ticks_runs_within [OF _ cron ticks cache] by blast
  have "card (firings ?nxt ?t0 t) \<le> card (firings ?nxt ?t0 T)"
    using t by (intro card_mono finite_firings firings_mono) (simp add: runs_within_def)
  then show ?thesis using t by (simp add: runs_within_def)
qed

text \<open>
  A node with one registered app and two schedules, at the instant when both are due: the first
  step meets an app that panics, the second has nothing wrong with it.
\<close>

definition demo_sched_env :: sched_env where
  "demo_sched_env = \<lparr>parse_cron = (\<lambda>_. Inr demo_cron), known_tz = (\<lambda>_. False),
     apps = (\<lambda>_. Some \<lparr>ap_default_params = JObject [], ap_params_schema = None, ap_target_key = (\<lambda>_. None)\<rparr>),
     schema_errors = (\<lambda>_ _. None), health_state = (\<lambda>_ _. Healthy), store_error_text = (\<lambda>_. ''unique''),
     schedule_tick_secs = 15\<rparr>"

definition demo_schedule :: "string \<Rightarrow> Schedule" where
  "demo_schedule i = schedule_row i ''app'' ''0 * * * * *'' (JObject []) True None 5"

definition demo_sched_world :: sched_world where
  "demo_sched_world = \<lparr>w_store = empty_store, w_schedules = [demo_schedule ''a'', demo_schedule ''b''], w_runs = []\<rparr>"

definition demo_ios :: "string \<Rightarrow> step_io" where
  "demo_ios i = \<lparr>io_fault = (\<lambda>c. if i = ''a'' \<and> c = CPanic then Some ''boom'' else None),
     io_job = (if i = ''a'' then [1] else [2]), io_clock = 12, io_run_id = (\<lambda>k. i @ decimal k),
     io_others = id, io_shutdown = False\<rparr>"

definition demo_sched_loop :: sched_loop where
  "demo_sched_loop = \<lparr>sl_world = demo_sched_world, sl_last_pass = None, sl_cache = Map.empty\<rparr>"

definition demo_tick :: tick_io where
  "demo_tick = \<lparr>ti_steps = demo_ios, ti_list_fault = None, ti_pass_fault = None, ti_riders = id,
     ti_panic = False\<rparr>"

lemma leaves_id [simp]: "leaves i id"
  by (simp add: leaves_def)

lemma demo_sched_simps [simp]:
  "parse_cron demo_sched_env e = Inr demo_cron" "get_schedule ''b'' (w_schedules demo_sched_world) = Some (demo_schedule ''b'')"
  "sc_id (demo_schedule i) = i" "schedule_reference (demo_schedule i) = 5" "sc_enabled (demo_schedule i)"
  "sc_misfire_policy (demo_schedule i) = ''fire_once''" "cache_ok demo_sched_env Map.empty"
  by (simp_all add: demo_sched_env_def demo_sched_world_def get_schedule_def demo_schedule_def schedule_row_def
      schedule_reference_def cache_ok_def)

theorem each_firing_runs_at_most_once_witness:
  "length (scheduled ''b'' (sl_world (run_ticks demo_sched_env [(demo_tick, 12), (demo_tick, 11)] demo_sched_loop))) \<le>
   length (scheduled ''b'' demo_sched_world) + card (firings (demo_cron ''UTC'') 5 12)"
proof -
  have "\<forall>(io, now)\<in>set [(demo_tick, 12 :: int), (demo_tick, 11)]. now \<le> 12 \<and> io_fault (ti_steps io ''b'') CTouch = None \<and>
      (\<forall>j. leaves ''b'' (io_others (ti_steps io j))) \<and> leaves ''b'' (ti_riders io)"
    by (simp add: demo_tick_def demo_ios_def)
  moreover have "parse_tz demo_sched_env (sc_timezone (demo_schedule ''b'')) = ''UTC''"
    by (simp add: parse_tz_def demo_schedule_def schedule_row_def)
  moreover have "distinct (map sc_id (w_schedules (sl_world demo_sched_loop)))"
    by (simp add: demo_sched_loop_def demo_sched_world_def)
  ultimately show ?thesis
    using each_firing_runs_at_most_once [of "''b''" demo_sched_loop "demo_schedule ''b''" demo_sched_env demo_cron 12
        "[(demo_tick, 12), (demo_tick, 11)]"] demo_cron_ok
    by (simp add: demo_sched_loop_def del: run_ticks.simps)
qed



text \<open>
  Under the policy \<open>skip\<close> a firing that the overlap guard held is never run, although the guard
  leaves the row alone so that the firing stays due until the run before it ends: the instant of the
  pass that held it is the next pass's cutoff, so the next pass takes the firing for one that was
  missed. Whatever the state of the queue at that pass, when no further firing has come since, it
  counts the firing as skipped, moves the reference past it and enqueues nothing.
\<close>

theorem held_firing_is_skipped:
  assumes cron: "cron_ok (cron (parse_tz env (sc_timezone s)))" and policy: "sc_misfire_policy s = ''skip''"
    and held: "reconcile_schedule env io s cron cutoff now w = (w', Inr StepHeld)"
    and later: "now \<le> now'" "firings (cron (parse_tz env (sc_timezone s))) now now' = {}"
    and adm: "admit env io' s v = Inr AdmOverlapping \<or> admit env io' s v = Inr (AdmFire params)"
    and io': "io_fault io' CSkip = None" and row: "get_schedule (sc_id s) (w_schedules v) = Some s"
  shows "w_schedules w' = w_schedules w \<and>
    (\<exists>v'. reconcile_schedule env io' s cron (misfire_cutoff (Some now) now' grace) now' v = (v', Inr StepSkipped) \<and>
      jobs (w_store v') = jobs (w_store v) \<and>
      map_option schedule_reference (get_schedule (sc_id s) (w_schedules v')) = Some now')"
proof -
  let ?n = "cron (parse_tz env (sc_timezone s))" and ?t = "schedule_reference s"
  have due: "firings ?n ?t now \<noteq> {}"
    using held step_has_firing [of cron env s now io cutoff w, OF cron] by auto
  have same: "firings ?n ?t now' = firings ?n ?t now" and lt: "?t < now"
    using later due by (force simp: firings_def)+
  have "w_schedules w' = w_schedules w"
    using held by (auto simp: reconcile_schedule_def step_admitted_def step_skip_def step_hold_def step_fire_def
        enqueue_firing Let_def split: Action.splits sum.splits ScheduleAdmission.splits if_splits option.splits)
  moreover obtain n where n: "decide cron (parse_tz env (sc_timezone s)) ?t now' True now = ActSkip n"
    using due same later(1) unfolding decide_is_spec [of cron "parse_tz env (sc_timezone s)", OF cron] decide_spec_def Let_def
    by (auto simp: min_absorb1)
  moreover have "schedule_reference (s\<lparr>sc_last_skipped_at := Some now', sc_skipped_count := m\<rparr>) = now'" for m
    using lt later(1) by (intro reference_skip) simp
  ultimately show ?thesis
    using adm io' row policy
    by (auto simp: reconcile_schedule_def misfire_cutoff_def step_admitted_def step_skip_def Let_def)
qed

definition demo_skip_schedule :: Schedule where
  "demo_skip_schedule = (demo_schedule ''b'')\<lparr>sc_misfire_policy := ''skip''\<rparr>"

definition demo_busy_world :: "JobStatus \<Rightarrow> sched_world" where
  "demo_busy_world status = \<lparr>w_store = empty_store\<lparr>jobs :=
       [(new_job_row [7] 6 ''app'' (firing_options demo_sched_env demo_skip_schedule None JNull) None)\<lparr>j_status := status\<rparr>]\<rparr>,
     w_schedules = [demo_skip_schedule], w_runs = []\<rparr>"

theorem held_firing_is_skipped_witness:
  "\<exists>w' v'. reconcile_schedule demo_sched_env (demo_ios ''b'') demo_skip_schedule demo_cron 8 12 (demo_busy_world Running) =
      (w', Inr StepHeld) \<and> w_schedules w' = [demo_skip_schedule] \<and>
    reconcile_schedule demo_sched_env (demo_ios ''b'') demo_skip_schedule demo_cron (misfire_cutoff (Some 12) 15 30) 15
      (demo_busy_world Succeeded) = (v', Inr StepSkipped) \<and>
    jobs (w_store v') = jobs (w_store (demo_busy_world Succeeded)) \<and>
    map_option schedule_reference (get_schedule ''b'' (w_schedules v')) = Some 15"
proof -
  let ?s = demo_skip_schedule and ?io = "demo_ios ''b''"
  have s: "sc_misfire_policy ?s = ''skip''" "sc_id ?s = ''b''" "schedule_reference ?s = 5" "sc_timezone ?s = None"
    by (simp_all add: demo_skip_schedule_def demo_schedule_def schedule_row_def schedule_reference_def)
  have tz: "parse_tz demo_sched_env None = ''UTC''" by (simp add: parse_tz_def)
  have d: "decide demo_cron ''UTC'' 5 12 True 8 = ActFire 0"
    by (simp add: decide_def demo_cron_def missed_count_def count_firings.simps MAX_MISFIRE_SCAN_def
        collapse_count_def COLLAPSE_LOG_CAP_def)
  have "admit demo_sched_env ?io ?s (demo_busy_world Running) = Inr AdmOverlapping" by code_simp
  then obtain w' where held: "reconcile_schedule demo_sched_env ?io ?s demo_cron 8 12 (demo_busy_world Running) = (w', Inr StepHeld)"
    using d by (auto simp: reconcile_schedule_def s tz step_admitted_def step_hold_def Let_def)
  have "firings (demo_cron (parse_tz demo_sched_env (sc_timezone ?s))) 12 15 = {}"
    unfolding firings_empty_iff [OF demo_cron_ok] by (simp add: demo_cron_def)
  moreover have "admit demo_sched_env ?io ?s (demo_busy_world Succeeded) = Inr (AdmFire (JObject []))" by code_simp
  moreover have "get_schedule (sc_id ?s) (w_schedules (demo_busy_world Succeeded)) = Some ?s"
    "io_fault ?io CSkip = None" "w_schedules (demo_busy_world Running) = [?s]"
    by (simp_all add: demo_busy_world_def get_schedule_def demo_ios_def)
  ultimately show ?thesis
    using held_firing_is_skipped [where cron = demo_cron and env = demo_sched_env and s = ?s, OF demo_cron_ok s(1) held,
        of 15 ?io "demo_busy_world Succeeded" "JObject []" 30] held
    by (auto simp: s(2))
qed

end
