(* ===== verification/Catalog_Sync.thy ===== *)
theory Catalog_Sync
  imports Schedules
begin

text \<open>
  The reconcilers that own rows of the \<open>schedules\<close> table. The catalog's diff of desired against
  actual state (\<open>reconcile_plan\<close> of \<open>crates/core/src/catalog.rs\<close>) and its application; the rows
  that the configured peers ask for (\<open>crates/core/src/config.rs\<close>) and their application
  (\<open>crates/server/src/scheduler.rs\<close>); and the writes they share, each fenced on \<open>managed_by\<close>
  (\<open>crates/core/src/storage.rs\<close>). A statement that fails does so by a parameter.
\<close>

section \<open>Managed rows\<close>

definition CATALOG_MANAGED_BY :: string where
  "CATALOG_MANAGED_BY = ''catalog''"

definition PEER_MANAGED_BY :: string where
  "PEER_MANAGED_BY = ''peer''"

text \<open>\<open>id = ? AND managed_by = ?\<close>, which no row with a null owner satisfies.\<close>

definition owned :: "string \<Rightarrow> string \<Rightarrow> Schedule \<Rightarrow> bool" where
  "owned i tag r \<longleftrightarrow> sc_id r = i \<and> sc_managed_by r = Some tag"

text \<open>\<open>INSERT \<dots> ON CONFLICT(id) DO UPDATE \<dots> WHERE schedules.managed_by = excluded.managed_by\<close>.\<close>

definition upsert_owned :: "Schedule \<Rightarrow> string \<Rightarrow> (Schedule \<Rightarrow> Schedule) \<Rightarrow> Schedule list \<Rightarrow> Schedule list \<times> bool" where
  "upsert_owned new tag f rows =
     (if get_schedule (sc_id new) rows = None then (rows @ [new], True)
      else (update_where (owned (sc_id new) tag) f rows, 0 < rows_affected (owned (sc_id new) tag) rows))"

definition create_managed_schedule ::
  "string \<Rightarrow> string \<Rightarrow> string \<Rightarrow> time \<Rightarrow> Schedule list \<Rightarrow> Schedule list \<times> Schedule option" where
  "create_managed_schedule app cron tag now rows =
     (let i = ''catalog-'' @ app;
          rows' = fst (upsert_owned (schedule_row i app cron (JObject []) True (Some tag) now) tag
                         (\<lambda>r. r\<lparr>sc_cron := cron, sc_enabled := True\<rparr>) rows)
      in (rows', get_schedule i rows'))"

definition set_managed_schedule_cron ::
  "string \<Rightarrow> string \<Rightarrow> string \<Rightarrow> Schedule list \<Rightarrow> Schedule list \<times> bool" where
  "set_managed_schedule_cron i cron tag rows =
     (update_where (owned i tag) (\<lambda>r. r\<lparr>sc_cron := cron, sc_enabled := True\<rparr>) rows,
      0 < rows_affected (owned i tag) rows)"

definition set_managed_schedule_enabled ::
  "string \<Rightarrow> bool \<Rightarrow> string \<Rightarrow> Schedule list \<Rightarrow> Schedule list \<times> bool" where
  "set_managed_schedule_enabled i enabled tag rows =
     (update_where (owned i tag) (\<lambda>r. r\<lparr>sc_enabled := enabled\<rparr>) rows,
      0 < rows_affected (owned i tag) rows)"

definition upsert_managed_schedule ::
  "string \<Rightarrow> string \<Rightarrow> string \<Rightarrow> json \<Rightarrow> bool \<Rightarrow> string \<Rightarrow> time \<Rightarrow> Schedule list \<Rightarrow> Schedule list \<times> bool" where
  "upsert_managed_schedule i app cron params enabled tag now rows =
     upsert_owned (schedule_row i app cron params enabled (Some tag) now) tag
       (\<lambda>r. r\<lparr>sc_cron := cron, sc_params := params, sc_enabled := enabled\<rparr>) rows"

section \<open>The catalog's plan\<close>

text \<open>The columns of a catalog row that the reconciler reads.\<close>

record Source =
  src_id :: string
  src_app :: string
  src_cron :: string
  src_status :: string

record PlanCreate =
  pc_source_id :: string
  pc_app :: string
  pc_cron :: string

record PlanUpdate =
  pu_schedule_id :: string
  pu_app :: string
  pu_from_cron :: string
  pu_to_cron :: string
  pu_re_enable :: bool

record PlanDisable =
  pd_schedule_id :: string
  pd_app :: string
  pd_reason :: string

record PlanOrphan =
  po_schedule_id :: string
  po_app :: string
  po_reason :: string

record ReconcilePlan =
  plan_create :: "PlanCreate list"
  plan_update :: "PlanUpdate list"
  plan_disable :: "PlanDisable list"
  plan_orphan :: "PlanOrphan list"
  covered_by_untagged :: nat
  in_sync :: nat

definition plan_default :: ReconcilePlan where
  "plan_default = \<lparr>plan_create = [], plan_update = [], plan_disable = [], plan_orphan = [],
     covered_by_untagged = 0, in_sync = 0\<rparr>"

definition plan_is_empty :: "ReconcilePlan \<Rightarrow> bool" where
  "plan_is_empty p \<longleftrightarrow> plan_create p = [] \<and> plan_update p = [] \<and> plan_disable p = [] \<and> plan_orphan p = []"

definition is_scheduled :: "Source \<Rightarrow> bool" where
  "is_scheduled s \<longleftrightarrow> trim (src_cron s) \<noteq> []"

definition is_live :: "Source \<Rightarrow> bool" where
  "is_live s \<longleftrightarrow> src_status s = ''live''"

fun managed_rows ::
  "Schedule list \<Rightarrow> (string \<times> Schedule) list \<times> PlanOrphan list \<Rightarrow> (string \<times> Schedule) list \<times> PlanOrphan list" where
  "managed_rows [] acc = acc"
| "managed_rows (s # rest) (m, orphans) =
     managed_rows rest
       (if sc_managed_by s \<noteq> Some CATALOG_MANAGED_BY then (m, orphans)
        else if map_of m (sc_app s) \<noteq> None
        then (m, orphans @ [\<lparr>po_schedule_id = sc_id s, po_app = sc_app s,
                             po_reason = ''duplicate catalog-managed schedule for this app''\<rparr>])
        else (btree_insert (sc_app s) s m, orphans))"

fun desired_rows :: "Source list \<Rightarrow> (string \<times> Source) list \<Rightarrow> (string \<times> Source) list" where
  "desired_rows [] m = m"
| "desired_rows (s # rest) m =
     desired_rows rest
       (if is_live s \<and> src_app s \<noteq> [] \<and> is_scheduled s \<and> map_of m (src_app s) = None
        then btree_insert (src_app s) s m else m)"

definition cataloged_apps :: "Source list \<Rightarrow> string list" where
  "cataloged_apps sources = filter (\<lambda>a. a \<noteq> []) (map src_app sources)"

definition serves :: "string \<Rightarrow> string \<Rightarrow> Schedule \<Rightarrow> bool" where
  "serves app cron s \<longleftrightarrow> sc_managed_by s = None \<and> sc_enabled s \<and> sc_app s = app \<and> trim (sc_cron s) = cron"

definition plan_desired ::
  "Schedule list \<Rightarrow> (string \<times> Schedule) list \<Rightarrow> string \<times> Source \<Rightarrow> ReconcilePlan \<Rightarrow> ReconcilePlan" where
  "plan_desired schedules managed = (\<lambda>(app, src) p.
     (let want = trim (src_cron src)
      in case map_of managed app of
           Some m \<Rightarrow>
             if trim (sc_cron m) = want \<and> sc_enabled m then p\<lparr>in_sync := in_sync p + 1\<rparr>
             else p\<lparr>plan_update := plan_update p @
                      [\<lparr>pu_schedule_id = sc_id m, pu_app = app, pu_from_cron = sc_cron m, pu_to_cron = want,
                        pu_re_enable = (\<not> sc_enabled m)\<rparr>]\<rparr>
         | None \<Rightarrow>
             if list_ex (serves app want) schedules then p\<lparr>covered_by_untagged := covered_by_untagged p + 1\<rparr>
             else p\<lparr>plan_create := plan_create p @
                      [\<lparr>pc_source_id = src_id src, pc_app = app, pc_cron = want\<rparr>]\<rparr>))"

definition plan_managed ::
  "Source list \<Rightarrow> (string \<times> Source) list \<Rightarrow> string \<times> Schedule \<Rightarrow> ReconcilePlan \<Rightarrow> ReconcilePlan" where
  "plan_managed sources desired = (\<lambda>(app, m) p.
     if map_of desired app \<noteq> None then p
     else if app \<in> set (cataloged_apps sources)
     then if sc_enabled m
          then let status = (case find (\<lambda>s. src_app s = app) sources of Some s \<Rightarrow> src_status s | None \<Rightarrow> ''?'')
               in p\<lparr>plan_disable := plan_disable p @
                      [\<lparr>pd_schedule_id = sc_id m, pd_app = app,
                        pd_reason = (if status = ''live'' then ''source no longer declares a cron''
                                     else ''catalog status is '' @ [CHR 0x27] @ status @ [CHR 0x27])\<rparr>]\<rparr>
          else p\<lparr>in_sync := in_sync p + 1\<rparr>
     else p\<lparr>plan_orphan := plan_orphan p @
              [\<lparr>po_schedule_id = sc_id m, po_app = app,
                po_reason = ''no catalog row for this app (row deleted?)''\<rparr>]\<rparr>)"

definition reconcile_plan :: "Source list \<Rightarrow> Schedule list \<Rightarrow> ReconcilePlan" where
  "reconcile_plan sources schedules =
     (let (managed, orphans) = managed_rows schedules ([], []);
          desired = desired_rows sources []
      in fold (plan_managed sources desired) managed
           (fold (plan_desired schedules managed) desired (plan_default\<lparr>plan_orphan := orphans\<rparr>)))"

definition catalog_reconcile_plan :: "Source list \<Rightarrow> Schedule list \<Rightarrow> ReconcilePlan" where
  "catalog_reconcile_plan sources rows = reconcile_plan sources (list_schedules rows)"

section \<open>Applying a plan\<close>

record applied =
  ap_created :: nat
  ap_updated :: nat
  ap_disabled :: nat
  ap_errors :: "string list"

datatype plan_call = PCreate string | PUpdate string | PDisable string

definition apply_create ::
  "(plan_call \<Rightarrow> string option) \<Rightarrow> time \<Rightarrow> PlanCreate \<Rightarrow> Schedule list \<times> applied \<Rightarrow> Schedule list \<times> applied" where
  "apply_create fault now c = (\<lambda>(rows, a).
     case fault (PCreate (pc_app c)) of
       Some e \<Rightarrow> (rows, a\<lparr>ap_errors := ap_errors a @ [''create '' @ pc_app c @ '': '' @ e]\<rparr>)
     | None \<Rightarrow>
         (fst (create_managed_schedule (pc_app c) (pc_cron c) CATALOG_MANAGED_BY now rows),
          a\<lparr>ap_created := ap_created a + 1\<rparr>))"

definition apply_update ::
  "(plan_call \<Rightarrow> string option) \<Rightarrow> PlanUpdate \<Rightarrow> Schedule list \<times> applied \<Rightarrow> Schedule list \<times> applied" where
  "apply_update fault u = (\<lambda>(rows, a).
     let failed = (\<lambda>e. a\<lparr>ap_errors := ap_errors a @ [''update '' @ pu_schedule_id u @ '': '' @ e]\<rparr>)
     in case fault (PUpdate (pu_schedule_id u)) of
          Some e \<Rightarrow> (rows, failed e)
        | None \<Rightarrow>
            (case set_managed_schedule_cron (pu_schedule_id u) (pu_to_cron u) CATALOG_MANAGED_BY rows of
               (rows', True) \<Rightarrow> (rows', a\<lparr>ap_updated := ap_updated a + 1\<rparr>)
             | (rows', False) \<Rightarrow> (rows', failed ''row missing or not catalog-managed (fence)'')))"

definition apply_disable ::
  "(plan_call \<Rightarrow> string option) \<Rightarrow> PlanDisable \<Rightarrow> Schedule list \<times> applied \<Rightarrow> Schedule list \<times> applied" where
  "apply_disable fault d = (\<lambda>(rows, a).
     let failed = (\<lambda>e. a\<lparr>ap_errors := ap_errors a @ [''disable '' @ pd_schedule_id d @ '': '' @ e]\<rparr>)
     in case fault (PDisable (pd_schedule_id d)) of
          Some e \<Rightarrow> (rows, failed e)
        | None \<Rightarrow>
            (case set_managed_schedule_enabled (pd_schedule_id d) False CATALOG_MANAGED_BY rows of
               (rows', True) \<Rightarrow> (rows', a\<lparr>ap_disabled := ap_disabled a + 1\<rparr>)
             | (rows', False) \<Rightarrow> (rows', failed ''row missing or not catalog-managed (fence)'')))"

definition apply_reconcile_plan ::
  "(plan_call \<Rightarrow> string option) \<Rightarrow> time \<Rightarrow> ReconcilePlan \<Rightarrow> Schedule list \<Rightarrow> Schedule list \<times> applied" where
  "apply_reconcile_plan fault now plan rows =
     fold (apply_disable fault) (plan_disable plan)
       (fold (apply_update fault) (plan_update plan)
          (fold (apply_create fault now) (plan_create plan)
             (rows, \<lparr>ap_created = 0, ap_updated = 0, ap_disabled = 0, ap_errors = []\<rparr>)))"

definition boot_reconcile ::
  "bool \<Rightarrow> (plan_call \<Rightarrow> string option) \<Rightarrow> time \<Rightarrow> Source list option \<Rightarrow> Schedule list \<Rightarrow> Schedule list" where
  "boot_reconcile auto_reconcile fault now catalog rows =
     (case catalog of
        None \<Rightarrow> rows
      | Some sources \<Rightarrow>
          let plan = catalog_reconcile_plan sources rows
          in if plan_is_empty plan \<or> \<not> auto_reconcile then rows
             else fst (apply_reconcile_plan fault now plan rows))"

section \<open>The rows the peers ask for\<close>

record PeerConfig =
  peer_name :: string
  peer_url :: string
  peer_public_key :: string
  peer_pull :: "string list"
  peer_every :: string
  peer_allow_unsigned :: bool
  peer_max_penalty_secs :: nat
  peer_api_key :: "string option"
  peer_namespace :: "string option"
  peer_enabled :: bool

datatype PullStream = StreamDataset string string | StreamWeather | StreamRecipes

fun stream_param :: "PullStream \<Rightarrow> string" where
  "stream_param (StreamDataset _ _) = ''datasets''"
| "stream_param StreamWeather = ''weather''"
| "stream_param StreamRecipes = ''recipes''"

fun stream_slug :: "PullStream \<Rightarrow> string" where
  "stream_slug (StreamDataset app dataset) = ''datasets-'' @ app @ ''-'' @ dataset"
| "stream_slug StreamWeather = ''weather''"
| "stream_slug StreamRecipes = ''recipes''"

definition pull_name_ok :: "string \<Rightarrow> bool" where
  "pull_name_ok s \<longleftrightarrow>
     s \<noteq> [] \<and>
     list_all (\<lambda>c. CHR ''0'' \<le> c \<and> c \<le> CHR ''9'' \<or> CHR ''A'' \<le> c \<and> c \<le> CHR ''Z'' \<or> CHR ''a'' \<le> c \<and> c \<le> CHR ''z''
                   \<or> c = CHR ''_'' \<or> c = CHR ''-'' \<or> c = CHR ''.'') s"

definition parse_pull :: "string \<Rightarrow> PullStream option" where
  "parse_pull text_entry =
     (let e = trim text_entry
      in if e = ''weather'' then Some StreamWeather
         else if e = ''recipes'' then Some StreamRecipes
         else case strip_prefix ''datasets:'' e of
           None \<Rightarrow> None
         | Some spec \<Rightarrow>
             (case split_first ''/'' spec of
                None \<Rightarrow> None
              | Some (app, dataset) \<Rightarrow>
                  if pull_name_ok app \<and> pull_name_ok dataset then Some (StreamDataset app dataset) else None))"

definition PEER_DEFAULT_EVERY_SECS :: nat where
  "PEER_DEFAULT_EVERY_SECS = 900"

text \<open>The product wraps in the release build.\<close>

definition parse_every :: "string \<Rightarrow> nat option" where
  "parse_every every =
     (let e = trim every
      in if e = [] then Some PEER_DEFAULT_EVERY_SECS
         else let c = List.last e;
                  parsed = (\<lambda>digits mult. case parse_u64 (trim digits) of
                              Some n \<Rightarrow> if 0 < n then Some (n * mult mod 2 ^ 64) else None
                            | None \<Rightarrow> None)
              in if c = CHR ''s'' then parsed (butlast e) 1
                 else if c = CHR ''m'' then parsed (butlast e) 60
                 else if c = CHR ''h'' then parsed (butlast e) 3600
                 else if CHR ''0'' \<le> c \<and> c \<le> CHR ''9'' then parsed e 1
                 else None)"

definition peer_cron :: "nat \<Rightarrow> string option" where
  "peer_cron every_secs =
     (if every_secs < 60 then None
      else if every_secs < 3600
      then let minutes = every_secs div 60
           in if every_secs mod 60 \<noteq> 0 \<or> 60 mod minutes \<noteq> 0 then None
              else Some (''0 */'' @ decimal minutes @ '' * * * *'')
      else if every_secs \<le> 86400
      then let hours = every_secs div 3600
           in if every_secs mod 3600 \<noteq> 0 \<or> 24 mod hours \<noteq> 0 then None
              else Some (''0 0 */'' @ decimal hours @ '' * * *'')
      else None)"

function strip_all :: "string \<Rightarrow> string \<Rightarrow> string" where
  "strip_all p s = (case strip_prefix p s of
      None \<Rightarrow> s
    | Some rest \<Rightarrow> if length rest < length s then strip_all p rest else s)"
  by pat_completeness auto
termination
  by (relation "measure (\<lambda>(p, s). length s)") auto

definition peer_label :: "nat \<Rightarrow> PeerConfig \<Rightarrow> string" where
  "peer_label index p =
     (if trim (peer_name p) \<noteq> [] then trim (peer_name p)
      else let host = takeWhile (\<lambda>c. c \<noteq> CHR ''/'') (strip_all ''https://'' (strip_all ''http://'' (trim (peer_url p))))
           in if host \<noteq> [] then map (\<lambda>c. if c = CHR '':'' then CHR ''-'' else c) host
              else ''peer'' @ decimal index)"

fun peer_streams :: "string list \<Rightarrow> string + PullStream list" where
  "peer_streams [] = Inr []"
| "peer_streams (e # es) =
     (case parse_pull e of
        None \<Rightarrow> Inl e
      | Some s \<Rightarrow> (case peer_streams es of Inl bad \<Rightarrow> Inl bad | Inr ss \<Rightarrow> Inr (s # ss)))"

record PeerSchedule =
  ps_id :: string
  ps_cron :: string
  ps_params :: json
  ps_enabled :: bool

definition peer_schedule_id :: "string \<Rightarrow> string \<Rightarrow> string" where
  "peer_schedule_id label slug = ''peer-'' @ label @ ''-'' @ slug"

definition put_trimmed :: "string \<Rightarrow> string option \<Rightarrow> (string \<times> json) list \<Rightarrow> (string \<times> json) list" where
  "put_trimmed k v obj =
     (case v of Some x \<Rightarrow> if trim x \<noteq> [] then btree_insert k (JString (trim x)) obj else obj | None \<Rightarrow> obj)"

definition peer_params :: "PeerConfig \<Rightarrow> string \<Rightarrow> PullStream \<Rightarrow> json" where
  "peer_params p label stream =
     (let base = [(''allow_unsigned'', JBool (peer_allow_unsigned p)),
                  (''max_penalty_secs'', JPosInt (peer_max_penalty_secs p)),
                  (''peer_name'', JString label), (''public_key'', JString (trim (peer_public_key p))),
                  (''stream'', JString (stream_param stream)), (''url'', JString (trim (peer_url p)))];
          with_datasets = (case stream of
                    StreamDataset app dataset \<Rightarrow>
                      btree_insert ''datasets'' (JArray [JString (app @ ''/'' @ dataset)]) base
                  | _ \<Rightarrow> base)
      in JObject (put_trimmed ''api_key'' (peer_api_key p) (put_trimmed ''namespace'' (peer_namespace p) with_datasets)))"

definition peer_rows :: "nat \<times> PeerConfig \<Rightarrow> PeerSchedule list" where
  "peer_rows = (\<lambda>(i, p).
     let label = peer_label i p
     in case (peer_streams (peer_pull p), parse_every (peer_every p)) of
          (Inr streams, Some secs) \<Rightarrow>
            (case peer_cron secs of
               None \<Rightarrow> []
             | Some cron \<Rightarrow>
                 map (\<lambda>stream. \<lparr>ps_id = peer_schedule_id label (stream_slug stream), ps_cron = cron,
                        ps_params = peer_params p label stream, ps_enabled = peer_enabled p\<rparr>) streams)
        | _ \<Rightarrow> [])"

definition peer_reconcile_plan :: "PeerConfig list \<Rightarrow> PeerSchedule list" where
  "peer_reconcile_plan peers = concat (map peer_rows (enumerate 0 peers))"

datatype peer_call = PUpsert string | PList | PStop string

fun upsert_peers ::
  "(peer_call \<Rightarrow> string option) \<Rightarrow> time \<Rightarrow> PeerSchedule list \<Rightarrow> nat \<Rightarrow> Schedule list \<Rightarrow>
   Schedule list \<times> (string + nat)" where
  "upsert_peers fault now [] n rows = (rows, Inr n)"
| "upsert_peers fault now (p # ps) n rows =
     (case fault (PUpsert (ps_id p)) of
        Some e \<Rightarrow> (rows, Inl e)
      | None \<Rightarrow>
          upsert_peers fault now ps (n + 1)
            (fst (upsert_managed_schedule (ps_id p) ''peer'' (ps_cron p) (ps_params p) (ps_enabled p) PEER_MANAGED_BY
                    now rows)))"

fun stop_peers ::
  "(peer_call \<Rightarrow> string option) \<Rightarrow> string list \<Rightarrow> Schedule list \<Rightarrow> nat \<Rightarrow> Schedule list \<Rightarrow>
   Schedule list \<times> (string + nat)" where
  "stop_peers fault wanted [] n rows = (rows, Inr n)"
| "stop_peers fault wanted (s # snapshot) n rows =
     (if sc_managed_by s \<noteq> Some PEER_MANAGED_BY \<or> sc_id s \<in> set wanted \<or> \<not> sc_enabled s
      then stop_peers fault wanted snapshot n rows
      else case fault (PStop (sc_id s)) of
        Some e \<Rightarrow> (rows, Inl e)
      | None \<Rightarrow>
          stop_peers fault wanted snapshot n (fst (set_managed_schedule_enabled (sc_id s) False PEER_MANAGED_BY rows)))"

definition apply_peer_schedules ::
  "(peer_call \<Rightarrow> string option) \<Rightarrow> time \<Rightarrow> PeerSchedule list \<Rightarrow> Schedule list \<Rightarrow> Schedule list \<times> (string + nat)" where
  "apply_peer_schedules fault now plan rows =
     (case upsert_peers fault now plan 0 rows of
        (rows', Inl e) \<Rightarrow> (rows', Inl e)
      | (rows', Inr n) \<Rightarrow>
          (case fault PList of
             Some e \<Rightarrow> (rows', Inl e)
           | None \<Rightarrow> stop_peers fault (map ps_id plan) (list_schedules rows') n rows'))"

definition peer_boot_reconcile ::
  "(peer_call \<Rightarrow> string option) \<Rightarrow> time \<Rightarrow> PeerConfig list \<Rightarrow> Schedule list \<Rightarrow> Schedule list" where
  "peer_boot_reconcile fault now peers rows =
     (let plan = peer_reconcile_plan peers
      in if plan = [] then rows else fst (apply_peer_schedules fault now plan rows))"

section \<open>The fence\<close>

definition not_owned :: "string \<Rightarrow> Schedule list \<Rightarrow> Schedule list" where
  "not_owned tag rows = filter (\<lambda>r. sc_managed_by r \<noteq> Some tag) rows"

lemma not_owned_update:
  "(\<And>r. sc_managed_by (f r) = sc_managed_by r) \<Longrightarrow> not_owned tag (update_where (owned i tag) f rows) = not_owned tag rows"
  by (induction rows) (auto simp: not_owned_def owned_def)

lemma not_owned_upsert:
  "(\<And>r. sc_managed_by (f r) = sc_managed_by r) \<Longrightarrow> sc_managed_by new = Some tag \<Longrightarrow>
   not_owned tag (fst (upsert_owned new tag f rows)) = not_owned tag rows"
  using not_owned_update [of f tag "sc_id new" rows] by (auto simp: upsert_owned_def not_owned_def)

lemma apply_create_rows:
  "fst (apply_create fault now c acc) =
     (if fault (PCreate (pc_app c)) = None
      then fst (create_managed_schedule (pc_app c) (pc_cron c) CATALOG_MANAGED_BY now (fst acc)) else fst acc)"
  by (cases acc) (auto simp: apply_create_def)

lemma apply_update_rows:
  "fst (apply_update fault u acc) =
     (if fault (PUpdate (pu_schedule_id u)) = None
      then update_where (owned (pu_schedule_id u) CATALOG_MANAGED_BY)
             (\<lambda>r. r\<lparr>sc_cron := pu_to_cron u, sc_enabled := True\<rparr>) (fst acc) else fst acc)"
  by (cases acc) (auto simp: apply_update_def set_managed_schedule_cron_def Let_def split: bool.split)

lemma apply_disable_rows:
  "fst (apply_disable fault d acc) =
     (if fault (PDisable (pd_schedule_id d)) = None
      then update_where (owned (pd_schedule_id d) CATALOG_MANAGED_BY) (\<lambda>r. r\<lparr>sc_enabled := False\<rparr>) (fst acc)
      else fst acc)"
  by (cases acc) (auto simp: apply_disable_def set_managed_schedule_enabled_def Let_def split: bool.split)

lemma apply_fences:
  "not_owned CATALOG_MANAGED_BY (fst (apply_create fault now c acc)) = not_owned CATALOG_MANAGED_BY (fst acc)"
  "not_owned CATALOG_MANAGED_BY (fst (apply_update fault u acc)) = not_owned CATALOG_MANAGED_BY (fst acc)"
  "not_owned CATALOG_MANAGED_BY (fst (apply_disable fault d acc)) = not_owned CATALOG_MANAGED_BY (fst acc)"
  by (simp_all add: apply_create_rows apply_update_rows apply_disable_rows create_managed_schedule_def Let_def
      not_owned_upsert not_owned_update schedule_row_def)

lemma fold_keeps: "(\<And>x acc. g (f x acc) = g acc) \<Longrightarrow> g (fold f xs acc) = g acc"
  by (induction xs arbitrary: acc) auto

lemma apply_plan_fence:
  "not_owned CATALOG_MANAGED_BY (fst (apply_reconcile_plan fault now plan rows)) = not_owned CATALOG_MANAGED_BY rows"
proof -
  let ?g = "\<lambda>acc :: Schedule list \<times> applied. not_owned CATALOG_MANAGED_BY (fst acc)"
  have "?g (fold (apply_create fault now) xs acc) = ?g acc" "?g (fold (apply_update fault) ys acc) = ?g acc"
    "?g (fold (apply_disable fault) zs acc) = ?g acc" for xs ys zs acc
    by (rule fold_keeps, rule apply_fences)+
  then show ?thesis by (simp add: apply_reconcile_plan_def)
qed

lemma upsert_peers_fence:
  "not_owned PEER_MANAGED_BY (fst (upsert_peers fault now ps n rows)) = not_owned PEER_MANAGED_BY rows"
  by (induction ps arbitrary: n rows)
    (auto simp: upsert_managed_schedule_def not_owned_upsert schedule_row_def split: option.split)

lemma stop_peers_fence:
  "not_owned PEER_MANAGED_BY (fst (stop_peers fault wanted snapshot n rows)) = not_owned PEER_MANAGED_BY rows"
  by (induction snapshot arbitrary: rows)
    (auto simp: set_managed_schedule_enabled_def not_owned_update split: option.split)

lemma apply_peer_schedules_fence:
  "not_owned PEER_MANAGED_BY (fst (apply_peer_schedules fault now plan rows)) = not_owned PEER_MANAGED_BY rows"
  using upsert_peers_fence [of fault now plan 0 rows] stop_peers_fence
  by (simp add: apply_peer_schedules_def split: prod.split sum.split option.split) (metis fst_conv)

section \<open>What a plan contains\<close>

definition managed_row :: "Schedule list \<Rightarrow> string \<Rightarrow> Schedule option" where
  "managed_row rows a = find (\<lambda>s. sc_managed_by s = Some CATALOG_MANAGED_BY \<and> sc_app s = a) rows"

definition wanted :: "Source list \<Rightarrow> string \<Rightarrow> Source option" where
  "wanted sources a = find (\<lambda>s. is_live s \<and> src_app s \<noteq> [] \<and> is_scheduled s \<and> src_app s = a) sources"

lemma managed_rows_map:
  "btree_ok m \<Longrightarrow> btree_ok (fst (managed_rows rows (m, orphans))) \<and>
   map_of (fst (managed_rows rows (m, orphans))) a = (case map_of m a of Some s \<Rightarrow> Some s | None \<Rightarrow> managed_row rows a)"
proof (induction rows arbitrary: m orphans)
  case (Cons s rest)
  then show ?case by (auto simp: managed_row_def split: option.splits)
qed (auto simp: managed_row_def split: option.splits)

lemma desired_rows_map:
  "btree_ok m \<Longrightarrow> btree_ok (desired_rows sources m) \<and>
   map_of (desired_rows sources m) a = (case map_of m a of Some s \<Rightarrow> Some s | None \<Rightarrow> wanted sources a)"
proof (induction sources arbitrary: m)
  case (Cons s rest)
  then show ?case by (auto simp: wanted_def split: option.splits)
qed (auto simp: wanted_def split: option.splits)

lemma btree_mem: "btree_ok m \<Longrightarrow> (k, v) \<in> set m \<longleftrightarrow> map_of m k = Some v"
  unfolding btree_ok_def by (metis map_of_eq_Some_iff strict_sorted_iff)

lemma fold_plan_desired:
  shows "set (plan_create (fold (plan_desired schedules managed) ds p)) = set (plan_create p) \<union>
      {\<lparr>pc_source_id = src_id src, pc_app = app, pc_cron = trim (src_cron src)\<rparr> | app src.
        (app, src) \<in> set ds \<and> map_of managed app = None \<and> \<not> list_ex (serves app (trim (src_cron src))) schedules}"
    and "set (plan_update (fold (plan_desired schedules managed) ds p)) = set (plan_update p) \<union>
      {\<lparr>pu_schedule_id = sc_id m, pu_app = app, pu_from_cron = sc_cron m, pu_to_cron = trim (src_cron src),
        pu_re_enable = (\<not> sc_enabled m)\<rparr> | app src m.
        (app, src) \<in> set ds \<and> map_of managed app = Some m \<and> \<not> (trim (sc_cron m) = trim (src_cron src) \<and> sc_enabled m)}"
    and "plan_disable (fold (plan_desired schedules managed) ds p) = plan_disable p"
  by (induction ds arbitrary: p) (auto simp: plan_desired_def Let_def split: option.splits prod.splits)

lemma fold_plan_managed:
  shows "plan_create (fold (plan_managed sources desired) ms p) = plan_create p" and "plan_update (fold (plan_managed sources desired) ms p) = plan_update p"
    and "(\<lambda>d. (pd_schedule_id d, pd_app d)) ` set (plan_disable (fold (plan_managed sources desired) ms p)) =
      (\<lambda>d. (pd_schedule_id d, pd_app d)) ` set (plan_disable p) \<union>
      {(sc_id m, app) | app m. (app, m) \<in> set ms \<and> map_of desired app = None \<and> app \<in> set (cataloged_apps sources) \<and> sc_enabled m}"
  by (induction ms arbitrary: p) (auto simp: plan_managed_def Let_def split: prod.splits)

lemma plan_contents:
  shows "set (plan_create (reconcile_plan sources rows)) =
      {\<lparr>pc_source_id = src_id src, pc_app = a, pc_cron = trim (src_cron src)\<rparr> | a src.
        wanted sources a = Some src \<and> managed_row rows a = None \<and> \<not> list_ex (serves a (trim (src_cron src))) rows}"
    and "set (plan_update (reconcile_plan sources rows)) =
      {\<lparr>pu_schedule_id = sc_id m, pu_app = a, pu_from_cron = sc_cron m, pu_to_cron = trim (src_cron src),
        pu_re_enable = (\<not> sc_enabled m)\<rparr> | a src m.
        wanted sources a = Some src \<and> managed_row rows a = Some m \<and> \<not> (trim (sc_cron m) = trim (src_cron src) \<and> sc_enabled m)}"
    and "(\<lambda>d. (pd_schedule_id d, pd_app d)) ` set (plan_disable (reconcile_plan sources rows)) =
      {(sc_id m, a) | a m. managed_row rows a = Some m \<and> wanted sources a = None \<and> a \<in> set (cataloged_apps sources) \<and> sc_enabled m}"
proof -
  define M D where "M = fst (managed_rows rows ([], []))" and "D = desired_rows sources []"
  obtain orphans where o: "managed_rows rows ([], []) = (M, orphans)" unfolding M_def by (metis prod.collapse)
  have ok: "btree_ok ([] :: (string \<times> Schedule) list)" "btree_ok ([] :: (string \<times> Source) list)" by (simp_all add: btree_ok_def)
  have M: "btree_ok M" "map_of M a = managed_row rows a" for a
    using managed_rows_map [OF ok(1), of rows "[]" a] by (simp_all add: M_def)
  have D: "btree_ok D" "map_of D a = wanted sources a" for a
    using desired_rows_map [OF ok(2), of sources a] by (simp_all add: D_def)
  have plan: "reconcile_plan sources rows = fold (plan_managed sources D) M
      (fold (plan_desired rows M) D (plan_default\<lparr>plan_orphan := orphans\<rparr>))"
    by (simp add: reconcile_plan_def o D_def Let_def)
  have empty: "plan_create (plan_default\<lparr>plan_orphan := orphans\<rparr>) = []" "plan_update (plan_default\<lparr>plan_orphan := orphans\<rparr>) = []"
    "plan_disable (plan_default\<lparr>plan_orphan := orphans\<rparr>) = []"
    by (simp_all add: plan_default_def)
  note mem = btree_mem [OF M(1)] btree_mem [OF D(1)]
  show "set (plan_create (reconcile_plan sources rows)) =
      {\<lparr>pc_source_id = src_id src, pc_app = a, pc_cron = trim (src_cron src)\<rparr> | a src.
        wanted sources a = Some src \<and> managed_row rows a = None \<and> \<not> list_ex (serves a (trim (src_cron src))) rows}"
    unfolding plan fold_plan_managed fold_plan_desired empty mem M D by simp
  show "set (plan_update (reconcile_plan sources rows)) =
      {\<lparr>pu_schedule_id = sc_id m, pu_app = a, pu_from_cron = sc_cron m, pu_to_cron = trim (src_cron src),
        pu_re_enable = (\<not> sc_enabled m)\<rparr> | a src m.
        wanted sources a = Some src \<and> managed_row rows a = Some m \<and> \<not> (trim (sc_cron m) = trim (src_cron src) \<and> sc_enabled m)}"
    unfolding plan fold_plan_managed fold_plan_desired empty mem M D by simp
  show "(\<lambda>d. (pd_schedule_id d, pd_app d)) ` set (plan_disable (reconcile_plan sources rows)) =
      {(sc_id m, a) | a m. managed_row rows a = Some m \<and> wanted sources a = None \<and> a \<in> set (cataloged_apps sources) \<and> sc_enabled m}"
    unfolding plan fold_plan_managed fold_plan_desired empty mem M D by simp
qed

section \<open>Applying the catalog's plan\<close>

definition app_settled :: "Source list \<Rightarrow> Schedule list \<Rightarrow> string \<Rightarrow> bool" where
  "app_settled sources rows a =
     (case wanted sources a of
        Some src \<Rightarrow>
          (case managed_row rows a of
             Some m \<Rightarrow> trim (sc_cron m) = trim (src_cron src) \<and> sc_enabled m
           | None \<Rightarrow> list_ex (serves a (trim (src_cron src))) rows)
      | None \<Rightarrow>
          (case managed_row rows a of
             Some m \<Rightarrow> a \<in> set (cataloged_apps sources) \<longrightarrow> \<not> sc_enabled m
           | None \<Rightarrow> True))"

definition nothing_to_do :: "ReconcilePlan \<Rightarrow> bool" where
  "nothing_to_do p \<longleftrightarrow> plan_create p = [] \<and> plan_update p = [] \<and> plan_disable p = []"

lemma settled_plan: "\<forall>a. app_settled sources rows a \<Longrightarrow> nothing_to_do (reconcile_plan sources rows)"
proof -
  assume app_settled: "\<forall>a. app_settled sources rows a"
  have "set (plan_create (reconcile_plan sources rows)) = {}" "set (plan_update (reconcile_plan sources rows)) = {}"
    unfolding plan_contents using app_settled unfolding app_settled_def by (force split: option.splits)+
  moreover have "(\<lambda>d. (pd_schedule_id d, pd_app d)) ` set (plan_disable (reconcile_plan sources rows)) = {}"
    unfolding plan_contents using app_settled unfolding app_settled_def by (force split: option.splits)
  ultimately show ?thesis unfolding nothing_to_do_def by simp
qed

lemma unsettled_planned:
  assumes "\<not> app_settled sources rows a"
  shows "a \<in> pc_app ` set (plan_create (reconcile_plan sources rows)) \<or>
    a \<in> pu_app ` set (plan_update (reconcile_plan sources rows)) \<or>
    a \<in> pd_app ` set (plan_disable (reconcile_plan sources rows))"
proof -
  have disable: "(sc_id m, a) \<in> (\<lambda>d. (pd_schedule_id d, pd_app d)) ` set (plan_disable (reconcile_plan sources rows)) \<Longrightarrow>
      a \<in> pd_app ` set (plan_disable (reconcile_plan sources rows))" for m by auto
  show ?thesis
  proof (cases "wanted sources a")
    case None
    then obtain m where "managed_row rows a = Some m" "a \<in> set (cataloged_apps sources)" "sc_enabled m"
      using assms by (auto simp: app_settled_def split: option.splits)
    then show ?thesis using None disable unfolding plan_contents(3) by blast
  next
    case (Some src)
    note src = Some
    show ?thesis
    proof (cases "managed_row rows a")
      case None
      then have "\<not> list_ex (serves a (trim (src_cron src))) rows" using assms src by (simp add: app_settled_def)
      then have "\<lparr>pc_source_id = src_id src, pc_app = a, pc_cron = trim (src_cron src)\<rparr>
          \<in> set (plan_create (reconcile_plan sources rows))"
        using src None unfolding plan_contents(1) by blast
      then show ?thesis by force
    next
      case (Some m)
      then have "\<not> (trim (sc_cron m) = trim (src_cron src) \<and> sc_enabled m)" using assms src by (simp add: app_settled_def)
      then have "\<lparr>pu_schedule_id = sc_id m, pu_app = a, pu_from_cron = sc_cron m, pu_to_cron = trim (src_cron src),
          pu_re_enable = (\<not> sc_enabled m)\<rparr> \<in> set (plan_update (reconcile_plan sources rows))"
        using src Some unfolding plan_contents(2) by blast
      then show ?thesis by force
    qed
  qed
qed

definition reserved_ids :: "Schedule list \<Rightarrow> bool" where
  "reserved_ids rows \<longleftrightarrow>
     (\<forall>s\<in>set rows. \<forall>a. sc_id s = ''catalog-'' @ a \<longrightarrow> sc_managed_by s = Some CATALOG_MANAGED_BY \<and> sc_app s = a)"

definition table_ok :: "Schedule list \<Rightarrow> bool" where
  "table_ok rows \<longleftrightarrow> distinct (map sc_id rows) \<and> reserved_ids rows"

definition row_id :: "Schedule list \<Rightarrow> string \<Rightarrow> string option" where
  "row_id rows a = map_option sc_id (managed_row rows a)"

lemma managed_row_Some:
  "managed_row rows a = Some m \<Longrightarrow> m \<in> set rows \<and> sc_managed_by m = Some CATALOG_MANAGED_BY \<and> sc_app m = a"
  unfolding managed_row_def by (drule find_Some_mem) simp

lemma managed_row_update:
  assumes ids: "distinct (map sc_id rows)" and i: "row_id rows a = Some i"
    and f: "\<And>r. sc_id (f r) = sc_id r \<and> sc_app (f r) = sc_app r \<and> sc_managed_by (f r) = sc_managed_by r"
  shows "managed_row (update_where (owned i CATALOG_MANAGED_BY) f rows) b =
    (if b = a then map_option f (managed_row rows a) else managed_row rows b)"
proof -
  obtain m where m: "managed_row rows a = Some m" "sc_id m = i" using i by (auto simp: row_id_def)
  have upd: "managed_row (update_where (owned i CATALOG_MANAGED_BY) f rows) b =
      map_option (\<lambda>r. if owned i CATALOG_MANAGED_BY r then f r else r) (managed_row rows b)"
    unfolding managed_row_def by (rule find_update_where_same) (simp add: f)
  show ?thesis
  proof (cases "managed_row rows b")
    case (Some x)
    have "sc_id x = i \<longleftrightarrow> b = a"
      using managed_row_Some [OF Some] managed_row_Some [OF m(1)] m(2) distinct_key_eq [OF ids] Some m(1)
      by (metis option.inject)
    then show ?thesis using managed_row_Some [OF Some] Some unfolding upd
      by (cases "b = a") (simp_all add: owned_def)
  qed (use m in \<open>auto simp: upd\<close>)
qed

lemma managed_row_append:
  "managed_row (rows @ [new]) b =
     (case managed_row rows b of
        Some m \<Rightarrow> Some m
      | None \<Rightarrow> if sc_managed_by new = Some CATALOG_MANAGED_BY \<and> sc_app new = b then Some new else None)"
  by (induction rows) (auto simp: managed_row_def)

lemma table_ok_update:
  assumes "table_ok rows"
    and "\<And>r. sc_id (f r) = sc_id r \<and> sc_app (f r) = sc_app r \<and> sc_managed_by (f r) = sc_managed_by r"
  shows "table_ok (update_where p f rows)"
proof -
  have "map sc_id (update_where p f rows) = map sc_id rows" by (rule map_update_where_same) (simp add: assms(2))
  moreover have "reserved_ids (update_where p f rows)"
    using assms by (auto simp: table_ok_def reserved_ids_def set_update_where split: if_splits)
  ultimately show ?thesis using assms(1) by (simp add: table_ok_def)
qed

lemma serves_not_owned:
  "not_owned CATALOG_MANAGED_BY rows' = not_owned CATALOG_MANAGED_BY rows \<Longrightarrow>
   list_ex (serves a c) rows' = list_ex (serves a c) rows"
proof -
  have "list_ex (serves a c) xs \<longleftrightarrow> (\<exists>r\<in>set (not_owned CATALOG_MANAGED_BY xs). serves a c r)" for xs
    by (auto simp: list_ex_iff not_owned_def serves_def)
  then show "not_owned CATALOG_MANAGED_BY rows' = not_owned CATALOG_MANAGED_BY rows \<Longrightarrow> ?thesis" by simp
qed

lemma settled_cong:
  "managed_row rows' a = managed_row rows a \<Longrightarrow>
   not_owned CATALOG_MANAGED_BY rows' = not_owned CATALOG_MANAGED_BY rows \<Longrightarrow>
   app_settled sources rows' a = app_settled sources rows a"
proof -
  assume same: "managed_row rows' a = managed_row rows a"
    and rest: "not_owned CATALOG_MANAGED_BY rows' = not_owned CATALOG_MANAGED_BY rows"
  have "list_ex (serves a c) rows' = list_ex (serves a c) rows" for c by (rule serves_not_owned [OF rest])
  then show ?thesis unfolding app_settled_def same by presburger
qed

lemma schedule_row_fields [simp]:
  "sc_id (schedule_row i app cron params enabled tag now) = i"
  "sc_app (schedule_row i app cron params enabled tag now) = app"
  "sc_cron (schedule_row i app cron params enabled tag now) = cron"
  "sc_enabled (schedule_row i app cron params enabled tag now) = enabled"
  "sc_managed_by (schedule_row i app cron params enabled tag now) = tag"
  by (simp_all add: schedule_row_def)

text \<open>One correct write for app \<open>a\<close>: \<open>a\<close> is settled by it, no other app is disturbed.\<close>

definition settles :: "Source list \<Rightarrow> string \<Rightarrow> Schedule list \<Rightarrow> Schedule list \<Rightarrow> bool" where
  "settles sources a rows rows' \<longleftrightarrow>
     table_ok rows' \<and> app_settled sources rows' a \<and> (\<forall>b. b \<noteq> a \<longrightarrow> app_settled sources rows b \<longrightarrow> app_settled sources rows' b) \<and>
     (\<forall>b. b \<noteq> a \<longrightarrow> row_id rows' b = row_id rows b) \<and>
     (row_id rows a = None \<longrightarrow> row_id rows' a = Some (''catalog-'' @ a)) \<and>
     (\<forall>i. row_id rows a = Some i \<longrightarrow> row_id rows' a = Some i)"

lemma update_settles:
  assumes ok: "table_ok rows" and i: "row_id rows a = Some i"
    and f: "\<And>r. sc_id (f r) = sc_id r \<and> sc_app (f r) = sc_app r \<and> sc_managed_by (f r) = sc_managed_by r"
    and good: "\<And>m. case wanted sources a of Some src \<Rightarrow> trim (sc_cron (f m)) = trim (src_cron src) \<and> sc_enabled (f m)
                                          | None \<Rightarrow> \<not> sc_enabled (f m)"
  shows "settles sources a rows (update_where (owned i CATALOG_MANAGED_BY) f rows)"
proof -
  have ids: "distinct (map sc_id rows)" using ok by (simp add: table_ok_def)
  note row = managed_row_update [OF ids i f]
  obtain m where m: "managed_row rows a = Some m" "sc_id m = i" using i by (auto simp: row_id_def)
  have fence: "not_owned CATALOG_MANAGED_BY (update_where (owned i CATALOG_MANAGED_BY) f rows) = not_owned CATALOG_MANAGED_BY rows"
    by (rule not_owned_update) (simp add: f)
  have "app_settled sources (update_where (owned i CATALOG_MANAGED_BY) f rows) a"
    using good [of m] by (simp add: app_settled_def row m split: option.splits)
  moreover have "b \<noteq> a \<Longrightarrow> app_settled sources (update_where (owned i CATALOG_MANAGED_BY) f rows) b = app_settled sources rows b" for b
    by (rule settled_cong [OF _ fence]) (simp add: row)
  ultimately show ?thesis
    using table_ok_update [OF ok f] m by (auto simp: settles_def row_id_def row f)
qed

lemma create_settles:
  assumes ok: "table_ok rows" and i: "row_id rows a \<in> {None, Some (''catalog-'' @ a)}" and src: "wanted sources a = Some src"
  shows "settles sources a rows (fst (create_managed_schedule a (trim (src_cron src)) CATALOG_MANAGED_BY now rows))"
proof -
  let ?i = "''catalog-'' @ a" and ?c = "trim (src_cron src)"
  let ?new = "schedule_row ?i a ?c (JObject []) True (Some CATALOG_MANAGED_BY) now"
  have new: "sc_id ?new = ?i" "sc_app ?new = a" "sc_managed_by ?new = Some CATALOG_MANAGED_BY" "sc_cron ?new = ?c"
    "sc_enabled ?new" by simp_all
  show ?thesis
  proof (cases "get_schedule ?i rows")
    case None
    then have fresh_id: "\<forall>r\<in>set rows. sc_id r \<noteq> ?i" by (simp add: get_schedule_def find_None_iff)
    have none: "managed_row rows a = None"
      using i fresh_id managed_row_Some [of rows a] by (fastforce simp: row_id_def)
    have rows': "fst (create_managed_schedule a ?c CATALOG_MANAGED_BY now rows) = rows @ [?new]"
      using None by (simp add: create_managed_schedule_def upsert_owned_def Let_def new)
    have row: "managed_row (rows @ [?new]) b = (if b = a then Some ?new else managed_row rows b)" for b
      using none new by (simp add: managed_row_append split: option.split)
    have fence: "not_owned CATALOG_MANAGED_BY (rows @ [?new]) = not_owned CATALOG_MANAGED_BY rows"
      by (simp add: not_owned_def new)
    have "table_ok (rows @ [?new])"
      using ok fresh_id new by (auto simp: table_ok_def reserved_ids_def)
    moreover have "b \<noteq> a \<Longrightarrow> app_settled sources (rows @ [?new]) b = app_settled sources rows b" for b
      using row [of b] by (intro settled_cong [OF _ fence]) simp
    moreover have "app_settled sources (rows @ [?new]) a" using row [of a] by (simp add: app_settled_def src)
    ultimately show ?thesis unfolding rows' settles_def row_id_def row using none by simp
  next
    case (Some r)
    then have r: "r \<in> set rows" "sc_id r = ?i" by (auto simp: get_schedule_def dest: find_Some_mem)
    then have "sc_managed_by r = Some CATALOG_MANAGED_BY" "sc_app r = a"
      using ok by (auto simp: table_ok_def reserved_ids_def)
    then have "managed_row rows a \<noteq> None" using r(1) by (auto simp: managed_row_def find_None_iff)
    then have i': "row_id rows a = Some ?i" using i by (auto simp: row_id_def)
    have "fst (create_managed_schedule a ?c CATALOG_MANAGED_BY now rows) =
        update_where (owned ?i CATALOG_MANAGED_BY) (\<lambda>r. r\<lparr>sc_cron := ?c, sc_enabled := True\<rparr>) rows"
      using Some by (simp add: create_managed_schedule_def upsert_owned_def Let_def new)
    then show ?thesis using update_settles [OF ok i', of "\<lambda>r. r\<lparr>sc_cron := ?c, sc_enabled := True\<rparr>" sources] src by simp
  qed
qed

lemma fold_settles:
  assumes step: "\<And>x acc. x \<in> set xs \<Longrightarrow> K (fst acc) \<Longrightarrow>
      K (fst (f x acc)) \<and> app_settled sources (fst (f x acc)) (app x) \<and>
      (\<forall>b. b \<noteq> app x \<longrightarrow> app_settled sources (fst acc) b \<longrightarrow> app_settled sources (fst (f x acc)) b)"
    and "K (fst acc)"
  shows "K (fst (fold f xs acc)) \<and>
    (\<forall>b. app_settled sources (fst acc) b \<or> b \<in> app ` set xs \<longrightarrow> app_settled sources (fst (fold f xs acc)) b)"
  using assms
proof (induction xs arbitrary: acc)
  case (Cons x xs)
  have x: "K (fst (f x acc))" "app_settled sources (fst (f x acc)) (app x)"
    "\<forall>b. b \<noteq> app x \<longrightarrow> app_settled sources (fst acc) b \<longrightarrow> app_settled sources (fst (f x acc)) b"
    using Cons.prems(1) [of x acc] Cons.prems(2) by auto
  have IH: "K (fst (fold f xs (f x acc))) \<and>
      (\<forall>b. app_settled sources (fst (f x acc)) b \<or> b \<in> app ` set xs \<longrightarrow> app_settled sources (fst (fold f xs (f x acc))) b)"
    by (rule Cons.IH [OF _ x(1)]) (use Cons.prems(1) in simp)
  have "app_settled sources (fst acc) b \<or> b \<in> app ` set (x # xs) \<Longrightarrow> app_settled sources (fst (f x acc)) b \<or> b \<in> app ` set xs" for b
    using x(2,3) by auto
  then show ?case using IH by (simp del: list.set) blast
qed auto

definition plan_matches :: "Source list \<Rightarrow> ReconcilePlan \<Rightarrow> Schedule list \<Rightarrow> bool" where
  "plan_matches sources p rows \<longleftrightarrow> table_ok rows \<and>
     (\<forall>c\<in>set (plan_create p). row_id rows (pc_app c) \<in> {None, Some (''catalog-'' @ pc_app c)} \<and>
        (\<exists>src. wanted sources (pc_app c) = Some src \<and> pc_cron c = trim (src_cron src))) \<and>
     (\<forall>u\<in>set (plan_update p). row_id rows (pu_app u) = Some (pu_schedule_id u) \<and>
        (\<exists>src. wanted sources (pu_app u) = Some src \<and> pu_to_cron u = trim (src_cron src))) \<and>
     (\<forall>d\<in>set (plan_disable p). row_id rows (pd_app d) = Some (pd_schedule_id d) \<and> wanted sources (pd_app d) = None)"

lemma managed_row_list [simp]: "managed_row (list_schedules rows) a = managed_row rows a"
proof -
  have find: "find q xs = (case filter q xs of [] \<Rightarrow> None | x # _ \<Rightarrow> Some x)" for q and xs :: "Schedule list"
    by (induction xs) auto
  have split: "filter (\<lambda>s. sc_managed_by s = Some CATALOG_MANAGED_BY \<and> sc_app s = a) xs =
      filter (\<lambda>s. sc_managed_by s = Some CATALOG_MANAGED_BY) (filter (\<lambda>s. sc_app s = a) xs)" for xs
    by (simp add: conj_commute)
  have "filter (\<lambda>s. sc_app s = a) (sort_key sc_app rows) = filter (\<lambda>s. sc_app s = a) rows" by (rule sort_key_stable)
  then show ?thesis unfolding managed_row_def find list_schedules_def split by simp
qed

lemma settled_list [simp]: "app_settled sources (list_schedules rows) a = app_settled sources rows a"
proof -
  have "list_ex P (list_schedules rows) = list_ex P rows" for P by (simp add: list_ex_iff list_schedules_def)
  then show ?thesis unfolding app_settled_def managed_row_list by presburger
qed

lemma plan_matches_initially:
  assumes "table_ok rows"
  shows "plan_matches sources (catalog_reconcile_plan sources rows) rows"
proof -
  let ?p = "reconcile_plan sources (list_schedules rows)"
  have "c \<in> set (plan_create ?p) \<Longrightarrow> row_id rows (pc_app c) \<in> {None, Some (''catalog-'' @ pc_app c)} \<and>
      (\<exists>src. wanted sources (pc_app c) = Some src \<and> pc_cron c = trim (src_cron src))" for c
    unfolding plan_contents managed_row_list row_id_def by auto
  moreover have "u \<in> set (plan_update ?p) \<Longrightarrow> row_id rows (pu_app u) = Some (pu_schedule_id u) \<and>
      (\<exists>src. wanted sources (pu_app u) = Some src \<and> pu_to_cron u = trim (src_cron src))" for u
    unfolding plan_contents managed_row_list row_id_def by auto
  moreover have "row_id rows (pd_app d) = Some (pd_schedule_id d) \<and> wanted sources (pd_app d) = None"
    if "d \<in> set (plan_disable ?p)" for d
  proof -
    have "(pd_schedule_id d, pd_app d) \<in> (\<lambda>d. (pd_schedule_id d, pd_app d)) ` set (plan_disable ?p)" using that by blast
    then show ?thesis unfolding plan_contents managed_row_list row_id_def by auto
  qed
  ultimately show ?thesis using assms unfolding plan_matches_def catalog_reconcile_plan_def by blast
qed

lemma settles_fits:
  assumes "plan_matches sources p rows" and "settles sources a rows rows'"
  shows "plan_matches sources p rows'"
proof -
  have same: "row_id rows b = Some i \<Longrightarrow> row_id rows' b = Some i" for b i
    using assms(2) by (cases "b = a") (auto simp: settles_def)
  have "row_id rows b \<in> {None, Some (''catalog-'' @ b)} \<Longrightarrow> row_id rows' b \<in> {None, Some (''catalog-'' @ b)}" for b
    using assms(2) by (cases "b = a") (auto simp: settles_def)
  then show ?thesis
    using assms same unfolding plan_matches_def by (auto simp: settles_def)
qed

lemma settles_step:
  assumes "plan_matches sources p rows" and "settles sources a rows rows'"
  shows "plan_matches sources p rows' \<and> app_settled sources rows' a \<and>
    (\<forall>b. b \<noteq> a \<longrightarrow> app_settled sources rows b \<longrightarrow> app_settled sources rows' b)"
  using settles_fits [OF assms] assms(2) by (auto simp: settles_def)

lemma create_step:
  assumes "plan_matches sources p (fst acc)" and "c \<in> set (plan_create p)"
  shows "settles sources (pc_app c) (fst acc) (fst (apply_create (\<lambda>_. None) now c acc))"
  using assms create_settles [of "fst acc" "pc_app c" sources _ now]
  unfolding plan_matches_def apply_create_rows by auto

lemma update_step:
  assumes "plan_matches sources p (fst acc)" and "u \<in> set (plan_update p)"
  shows "settles sources (pu_app u) (fst acc) (fst (apply_update (\<lambda>_. None) u acc))"
  using assms update_settles [of "fst acc" "pu_app u" "pu_schedule_id u" "\<lambda>r. r\<lparr>sc_cron := pu_to_cron u, sc_enabled := True\<rparr>" sources]
  unfolding plan_matches_def apply_update_rows by auto

lemma disable_step:
  assumes "plan_matches sources p (fst acc)" and "d \<in> set (plan_disable p)"
  shows "settles sources (pd_app d) (fst acc) (fst (apply_disable (\<lambda>_. None) d acc))"
  using assms update_settles [of "fst acc" "pd_app d" "pd_schedule_id d" "\<lambda>r. r\<lparr>sc_enabled := False\<rparr>" sources]
  unfolding plan_matches_def apply_disable_rows by auto

lemma apply_plan_settles:
  assumes "table_ok rows"
  shows "app_settled sources (fst (apply_reconcile_plan (\<lambda>_. None) now (catalog_reconcile_plan sources rows) rows)) a"
proof -
  define p where "p = catalog_reconcile_plan sources rows"
  define acc where "acc = (rows, \<lparr>ap_created = 0, ap_updated = 0, ap_disabled = 0, ap_errors = []\<rparr>)"
  define acc1 where "acc1 = fold (apply_create (\<lambda>_. None) now) (plan_create p) acc"
  define acc2 where "acc2 = fold (apply_update (\<lambda>_. None)) (plan_update p) acc1"
  define acc3 where "acc3 = fold (apply_disable (\<lambda>_. None)) (plan_disable p) acc2"
  have fits: "plan_matches sources p (fst acc)" using plan_matches_initially [OF assms] by (simp add: p_def acc_def)
  have 1: "plan_matches sources p (fst acc1) \<and>
      (\<forall>b. app_settled sources (fst acc) b \<or> b \<in> pc_app ` set (plan_create p) \<longrightarrow> app_settled sources (fst acc1) b)"
    unfolding acc1_def
    by (rule fold_settles [where K = "plan_matches sources p" and app = pc_app, OF _ fits])
      (rule settles_step, assumption, rule create_step)
  have 2: "plan_matches sources p (fst acc2) \<and>
      (\<forall>b. app_settled sources (fst acc1) b \<or> b \<in> pu_app ` set (plan_update p) \<longrightarrow> app_settled sources (fst acc2) b)"
    unfolding acc2_def
    by (rule fold_settles [where K = "plan_matches sources p" and app = pu_app, OF _ conjunct1 [OF 1]])
      (rule settles_step, assumption, rule update_step)
  have 3: "plan_matches sources p (fst acc3) \<and>
      (\<forall>b. app_settled sources (fst acc2) b \<or> b \<in> pd_app ` set (plan_disable p) \<longrightarrow> app_settled sources (fst acc3) b)"
    unfolding acc3_def
    by (rule fold_settles [where K = "plan_matches sources p" and app = pd_app, OF _ conjunct1 [OF 2]])
      (rule settles_step, assumption, rule disable_step)
  have "app_settled sources rows a \<or> a \<in> pc_app ` set (plan_create p) \<or> a \<in> pu_app ` set (plan_update p) \<or>
      a \<in> pd_app ` set (plan_disable p)"
    using unsettled_planned [of sources "list_schedules rows" a] by (auto simp: p_def catalog_reconcile_plan_def)
  then have "app_settled sources (fst acc3) a" using 1 2 3 by (auto simp: acc_def)
  then show ?thesis by (simp add: apply_reconcile_plan_def p_def [symmetric] acc_def [symmetric] acc1_def [symmetric]
        acc2_def [symmetric] acc3_def [symmetric])
qed

lemma create_table_ok:
  assumes "table_ok rows"
  shows "table_ok (fst (create_managed_schedule a c CATALOG_MANAGED_BY now rows))"
proof (cases "get_schedule (''catalog-'' @ a) rows")
  case None
  then show ?thesis
    using assms by (auto simp: create_managed_schedule_def upsert_owned_def Let_def table_ok_def reserved_ids_def
        get_schedule_def find_None_iff)
next
  case (Some r)
  then show ?thesis
    using table_ok_update [OF assms, of "\<lambda>r. r\<lparr>sc_cron := c, sc_enabled := True\<rparr>"]
    by (auto simp: create_managed_schedule_def upsert_owned_def Let_def)
qed

lemma apply_table_ok:
  assumes "table_ok rows"
  shows "table_ok (fst (apply_reconcile_plan fault now plan rows))"
proof -
  have fold: "(\<And>x acc. table_ok (fst acc) \<Longrightarrow> table_ok (fst (f x acc))) \<Longrightarrow> table_ok (fst acc) \<Longrightarrow>
      table_ok (fst (fold f xs acc))" for f xs and acc :: "Schedule list \<times> applied"
    by (induction xs arbitrary: acc) auto
  show ?thesis
    unfolding apply_reconcile_plan_def
    by (intro fold)
      (simp_all add: apply_create_rows apply_update_rows apply_disable_rows create_table_ok table_ok_update assms)
qed

definition stale_peer :: "string list \<Rightarrow> Schedule \<Rightarrow> bool" where
  "stale_peer ids s \<longleftrightarrow> sc_managed_by s = Some PEER_MANAGED_BY \<and> sc_id s \<notin> set ids \<and> sc_enabled s"

lemma stop_peers_off:
  assumes "\<And>c. fault c = None"
  shows "\<forall>r\<in>set rows. stale_peer ids r \<longrightarrow> (\<exists>s\<in>set snapshot. stale_peer ids s \<and> sc_id s = sc_id r) \<Longrightarrow>
    \<forall>r\<in>set (fst (stop_peers fault ids snapshot n rows)). \<not> stale_peer ids r"
proof (induction snapshot arbitrary: rows)
  case (Cons s snapshot)
  show ?case
  proof (cases "stale_peer ids s")
    case False
    then have "\<forall>r\<in>set rows. stale_peer ids r \<longrightarrow> (\<exists>s\<in>set snapshot. stale_peer ids s \<and> sc_id s = sc_id r)"
      using Cons.prems by auto
    moreover have "fst (stop_peers fault ids (s # snapshot) n rows) = fst (stop_peers fault ids snapshot n rows)"
      using False by (simp add: stale_peer_def)
    ultimately show ?thesis using Cons.IH by simp
  next
    case True
    let ?rows = "update_where (owned (sc_id s) PEER_MANAGED_BY) (\<lambda>r. r\<lparr>sc_enabled := False\<rparr>) rows"
    have "\<exists>s'\<in>set snapshot. stale_peer ids s' \<and> sc_id s' = sc_id r" if "r \<in> set ?rows" "stale_peer ids r" for r
    proof -
      have "r \<in> set rows" "sc_id r \<noteq> sc_id s"
        using that by (auto simp: set_update_where stale_peer_def owned_def split: if_splits)
      then show ?thesis using Cons.prems that(2) by auto
    qed
    moreover have "fst (stop_peers fault ids (s # snapshot) n rows) = fst (stop_peers fault ids snapshot n ?rows)"
      using True assms by (simp add: stale_peer_def set_managed_schedule_enabled_def)
    ultimately show ?thesis using Cons.IH [of ?rows] by simp
  qed
qed auto

lemma upsert_peers_ok: "(\<And>c. fault c = None) \<Longrightarrow> \<exists>rows' k. upsert_peers fault now ps n rows = (rows', Inr k)"
  by (induction ps arbitrary: n rows) auto

section \<open>Properties\<close>

text \<open>
  C39. Reconciling with the catalog converges, also after an apply that failed half-way. On a table
  with unique ids in which the ids \<open>catalog-\<close>\<^emph>\<open>app\<close> are the catalog's, an apply without failures
  leaves nothing to create, update or disable; and after an apply in which any statements failed,
  one more without failures leaves nothing to do.
\<close>

theorem catalog_apply_converges:
  assumes "distinct (map sc_id rows)" and "reserved_ids rows"
  shows "nothing_to_do (catalog_reconcile_plan sources
      (fst (apply_reconcile_plan (\<lambda>_. None) now (catalog_reconcile_plan sources rows) rows))) \<and>
    (let partly = fst (apply_reconcile_plan fault now (catalog_reconcile_plan sources rows) rows)
     in nothing_to_do (catalog_reconcile_plan sources
          (fst (apply_reconcile_plan (\<lambda>_. None) now' (catalog_reconcile_plan sources partly) partly))))"
proof -
  have once: "nothing_to_do (catalog_reconcile_plan sources
      (fst (apply_reconcile_plan (\<lambda>_. None) t (catalog_reconcile_plan sources rs) rs)))" if "table_ok rs" for rs t
    using apply_plan_settles [OF that] unfolding catalog_reconcile_plan_def [of _ "fst _"]
    by (intro settled_plan) simp
  have ok: "table_ok rows" using assms by (simp add: table_ok_def)
  show ?thesis using once [OF ok] once [OF apply_table_ok [OF ok]] by (simp add: Let_def)
qed

definition demo_sources :: "Source list" where
  "demo_sources = [\<lparr>src_id = ''s1'', src_app = ''a'', src_cron = ''0 9 '', src_status = ''live''\<rparr>,
                   \<lparr>src_id = ''s2'', src_app = ''b'', src_cron = ''0 5'', src_status = ''live''\<rparr>,
                   \<lparr>src_id = ''s3'', src_app = ''c'', src_cron = '''', src_status = ''planned''\<rparr>]"

definition demo_managed :: "Schedule list" where
  "demo_managed = [schedule_row ''catalog-a'' ''a'' ''0 7'' (JObject []) True (Some CATALOG_MANAGED_BY) 1,
                   schedule_row ''catalog-c'' ''c'' ''0 7'' (JObject []) True (Some CATALOG_MANAGED_BY) 1,
                   schedule_row ''mine'' ''a'' ''0 7'' (JObject []) True None 1]"

theorem catalog_apply_converges_witness:
  "plan_create (catalog_reconcile_plan demo_sources demo_managed) \<noteq> [] \<and>
   plan_update (catalog_reconcile_plan demo_sources demo_managed) \<noteq> [] \<and>
   plan_disable (catalog_reconcile_plan demo_sources demo_managed) \<noteq> [] \<and>
   nothing_to_do (catalog_reconcile_plan demo_sources
     (fst (apply_reconcile_plan (\<lambda>_. None) 2 (catalog_reconcile_plan demo_sources demo_managed) demo_managed)))"
proof -
  have "plan_create (catalog_reconcile_plan demo_sources demo_managed) \<noteq> []"
    "plan_update (catalog_reconcile_plan demo_sources demo_managed) \<noteq> []"
    "plan_disable (catalog_reconcile_plan demo_sources demo_managed) \<noteq> []"
    by code_simp+
  moreover have "distinct (map sc_id demo_managed)" "reserved_ids demo_managed"
    by (auto simp: demo_managed_def reserved_ids_def)
  ultimately show ?thesis using catalog_apply_converges [of demo_managed demo_sources 2 "\<lambda>_. None" 3] by simp
qed

text \<open>
  C40. The fence: whatever plan it is handed and whatever fails, applying a catalog plan changes no
  row that the catalog does not own, and reconciling the peers at boot changes no row that the peers
  do not own: those rows stay, as they were and in their order.
\<close>

theorem reconcilers_keep_to_their_rows:
  "filter (\<lambda>r. sc_managed_by r \<noteq> Some CATALOG_MANAGED_BY) (fst (apply_reconcile_plan fault now plan rows)) =
     filter (\<lambda>r. sc_managed_by r \<noteq> Some CATALOG_MANAGED_BY) rows \<and>
   filter (\<lambda>r. sc_managed_by r \<noteq> Some PEER_MANAGED_BY) (peer_boot_reconcile fault' now peers rows) =
     filter (\<lambda>r. sc_managed_by r \<noteq> Some PEER_MANAGED_BY) rows"
  using apply_plan_fence [of fault now plan rows] apply_peer_schedules_fence [of fault' now "peer_reconcile_plan peers" rows]
  by (simp add: not_owned_def peer_boot_reconcile_def Let_def)

text \<open>
  A peer's schedules are stopped when its row leaves the configuration, except when it was the
  last one. At a boot without failures that still has a peer to schedule, every row owned by the
  peers that no configured peer asks for ends up disabled. A boot whose configuration asks for no
  schedule returns before it looks at the table, so every such row keeps firing.
\<close>

theorem last_removed_peer_keeps_pulling:
  assumes "\<forall>c. fault c = None"
  shows "(peer_reconcile_plan peers \<noteq> [] \<longrightarrow>
      (\<forall>r\<in>set (peer_boot_reconcile fault now peers rows).
         sc_managed_by r = Some PEER_MANAGED_BY \<and> sc_id r \<notin> ps_id ` set (peer_reconcile_plan peers) \<longrightarrow> \<not> sc_enabled r)) \<and>
    (peer_reconcile_plan peers = [] \<longrightarrow> peer_boot_reconcile fault now peers rows = rows)"
proof -
  let ?p = "peer_reconcile_plan peers"
  obtain rows' k where up: "upsert_peers fault now ?p 0 rows = (rows', Inr k)"
    using upsert_peers_ok [of fault now ?p 0 rows] assms by auto
  have "\<forall>r\<in>set (fst (stop_peers fault (map ps_id ?p) (list_schedules rows') k rows')). \<not> stale_peer (map ps_id ?p) r"
    by (rule stop_peers_off) (use assms in \<open>auto simp: list_schedules_def\<close>)
  moreover have "?p \<noteq> [] \<Longrightarrow> peer_boot_reconcile fault now peers rows =
      fst (stop_peers fault (map ps_id ?p) (list_schedules rows') k rows')"
    using assms by (simp add: peer_boot_reconcile_def apply_peer_schedules_def up Let_def)
  ultimately show ?thesis
    by (auto simp: stale_peer_def peer_boot_reconcile_def Let_def)
qed

definition demo_peer :: PeerConfig where
  "demo_peer = \<lparr>peer_name = ''vps'', peer_url = ''https://vps:8088'', peer_public_key = '''', peer_pull = [''weather''],
     peer_every = '''', peer_allow_unsigned = False, peer_max_penalty_secs = 60, peer_api_key = None,
     peer_namespace = None, peer_enabled = True\<rparr>"

definition demo_peer_rows :: "Schedule list" where
  "demo_peer_rows = [schedule_row ''peer-old-weather'' ''peer'' ''0 */15 * * * *'' (JObject []) True (Some PEER_MANAGED_BY) 1]"

theorem last_removed_peer_keeps_pulling_witness:
  "\<not> list_ex (\<lambda>r. sc_id r = ''peer-old-weather'' \<and> sc_enabled r)
       (peer_boot_reconcile (\<lambda>_. None) 2 [demo_peer] demo_peer_rows) \<and>
   peer_boot_reconcile (\<lambda>_. None) 2 [] demo_peer_rows = demo_peer_rows"
proof -
  have plan: "map ps_id (peer_reconcile_plan [demo_peer]) = [''peer-vps-weather'']" by code_simp
  then have ids: "ps_id ` set (peer_reconcile_plan [demo_peer]) = {''peer-vps-weather''}"
    by (metis list.set(1) list.set(2) list.set_map)
  have owner: "\<forall>r\<in>set (peer_boot_reconcile (\<lambda>_. None) 2 [demo_peer] demo_peer_rows). sc_managed_by r = Some PEER_MANAGED_BY"
    by code_simp
  have "peer_reconcile_plan [demo_peer] \<noteq> []" "peer_reconcile_plan [] = []" using plan by (auto simp: peer_reconcile_plan_def)
  then show ?thesis
    using last_removed_peer_keeps_pulling [of "\<lambda>_. None" "[demo_peer]" 2 demo_peer_rows] owner ids
      last_removed_peer_keeps_pulling [of "\<lambda>_. None" "[]" 2 demo_peer_rows]
    by (auto simp: list_ex_iff)
qed

end
