(* ===== verification/Run_Outcome.thy ===== *)
theory Run_Outcome
  imports Event_Bus Registry Queue_Recovery
begin

text \<open>
  One run of a job, from its claim to the verdict on it: \<open>execute\<close> of
  \<open>crates/server/src/worker.rs\<close> with what it calls around the app (the cassette checks of
  \<open>crates/core/src/vcr.rs\<close>, the checkpoint hand-out, the meaning of a fired cancellation, the match
  on the outcome, \<open>finalize\<close>), the same verdicts for a run reported by a remote executor, and the
  passes that end runs from outside (the reaper, the expiry of parked jobs). The app is a function
  argument: it may do anything to the store and end in any outcome. What leaves the store is a list of
  effects in the order the code produces them. The main lemmas say that a run which lost its
  row changes nothing unless it is suspended, what each outcome makes of the row and of the
  checkpoint, and that a remote report and a local outcome have the same verdict.
\<close>

section \<open>Documents\<close>

definition json_get :: "string \<Rightarrow> json \<Rightarrow> json option" where
  "json_get k v = (case v of JObject m \<Rightarrow> map_of m k | _ \<Rightarrow> None)"

text \<open>The bytes of the dash the messages use.\<close>

definition em_dash :: string where
  "em_dash = [CHR 0xE2, CHR 0x80, CHR 0x94]"

section \<open>Recording and replay\<close>

datatype ReplayFidelity = Full | Partial | Unreplayable

fun replay_fidelity_as_str :: "ReplayFidelity \<Rightarrow> string" where
  "replay_fidelity_as_str Full = ''full''"
| "replay_fidelity_as_str Partial = ''partial''"
| "replay_fidelity_as_str Unreplayable = ''unreplayable''"

definition REPLAY_BYPASS_APPS :: "(string \<times> ReplayFidelity \<times> string) list" where
  "REPLAY_BYPASS_APPS =
     [
      (''extractor'', Partial,
       ''its `archive` mode pulls the Wayback CDX index and each snapshot body through the raw HTTP client (an archive read must not escalate to a live render); its `urls` and dataset modes go through the chokepoint and do replay''),
      (''transact'', Unreplayable,
       ''a transact run IS a browser session '' @ em_dash @ '' navigate, fill, capture evidence '' @ em_dash @ '' driven straight off `engines.browser`, with no `FetchOutcome` to record; replaying it would open a live Chrome against the live page''),
      (''crawl'', Unreplayable,
       ''the crawler owns its own frontier, robots and concurrency and meters itself per host, so every page it fetches goes through its own metering client''),
      (''ca-grants'', Unreplayable,
       ''the CKAN datastore API: a POST with a JSON body, which the tiered fetcher never issues '' @ em_dash @ '' and it is the app's whole payload''),
      (''census-bfs'', Unreplayable,
       ''the Census BFS API: raw JSON, and the app's whole payload''),
      (''census-density'', Unreplayable,
       ''the Census CBP API: raw JSON, and the app's whole payload''),
      (''census-nesd'', Unreplayable,
       ''the Census NESD API: raw JSON, and the app's whole payload''),
      (''census-nonemp'', Unreplayable,
       ''the Census nonemployer API: raw JSON, and the app's whole payload''),
      (''cms-fee-schedule'', Unreplayable,
       ''the CMS release ZIP, pulled as capped bytes '' @ em_dash @ '' binary, not a document''),
      (''cordis'', Unreplayable,
       ''the CORDIS API: raw JSON, and the app's whole payload''),
      (''eu-sedia'', Unreplayable,
       ''the SEDIA search API: a POST with a JSON body''),
      (''grants-gov'', Unreplayable,
       ''the Search2 API: a POST with a JSON body, walked page by page''),
      (''hackernews'', Unreplayable,
       ''fetches its page off the raw HTTP client '' @ em_dash @ '' it predates the chokepoint, and the migration is banked rather than done (see the raw-engine inventory)''),
      (''mpsv-ciselniky'', Unreplayable,
       ''the four MPSV codebook documents: raw JSON, and the app's whole payload''),
      (''mpsv-ispv'', Unreplayable,
       ''the ISPV wage API: raw JSON, and the app's whole payload''),
      (''mpsv-vpm'', Unreplayable,
       ''a ~188 MB bulk feed under a per-request timeout, plus an ARES company lookup '' @ em_dash @ '' both raw APIs''),
      (''peer'', Unreplayable,
       ''conditional GET (`etag`) over a peer node's change feed; the tiered request carries no validator, so the 304 path a mirror walks exists only raw''),
      (''smlouvy-dump-watch'', Unreplayable,
       ''the contract-registry dump, fetched raw'')
     ]"

definition replay_fidelity :: "string \<Rightarrow> ReplayFidelity" where
  "replay_fidelity app =
     (case find (\<lambda>(name, _, _). name = app) REPLAY_BYPASS_APPS of
        None \<Rightarrow> Full | Some (_, grade, _) \<Rightarrow> grade)"

definition replay_bypass_reason :: "string \<Rightarrow> string option" where
  "replay_bypass_reason app =
     map_option (\<lambda>(_, _, why). why) (find (\<lambda>(name, _, _). name = app) REPLAY_BYPASS_APPS)"

text \<open>\<open>quoted\<close> is the debug form of a string.\<close>

definition refuse_replay :: "(string \<Rightarrow> string) \<Rightarrow> string \<Rightarrow> Error option" where
  "refuse_replay quoted app =
     (case replay_fidelity app of
        Unreplayable \<Rightarrow>
          Some (BadRequest (''app '' @ quoted app @ '' cannot be replayed: '' @
            (case replay_bypass_reason app of
               Some why \<Rightarrow> why | None \<Rightarrow> ''it drives engines outside the chokepoint'') @
            '' '' @ em_dash @ '' a `replay_of` run of it would drive live engines while its result claimed '' @
            ''to come from recorded bytes. Record/replay covers what goes through AppContext::fetch / '' @
            ''AppContext::research''))
      | _ \<Rightarrow> None)"

definition replay_stamp :: "(uuid \<Rightarrow> string) \<Rightarrow> string \<Rightarrow> uuid \<Rightarrow> nat \<Rightarrow> (string \<times> json) list" where
  "replay_stamp text_of app replay_of unreadable =
     (let m1 = btree_insert ''vcr_replay_of'' (JString (text_of replay_of)) [];
          m2 = btree_insert ''vcr_replay_fidelity'' (JString (replay_fidelity_as_str (replay_fidelity app))) m1;
          m3 = (case replay_bypass_reason app of
                  Some why \<Rightarrow> btree_insert ''vcr_replay_bypass'' (JString why) m2 | None \<Rightarrow> m2)
      in if unreadable > 0 then btree_insert ''vcr_cassette_unreadable_lines'' (JPosInt unreadable) m3
         else m3)"

text \<open>\<open>parse_uuid\<close> is the parser of the \<open>uuid\<close> library, \<open>Inl\<close> its error.\<close>

definition vcr_params ::
  "(string \<Rightarrow> string + uuid) \<Rightarrow> (string \<Rightarrow> string) \<Rightarrow> (json \<Rightarrow> string) \<Rightarrow> json \<Rightarrow> string + bool \<times> uuid option" where
  "vcr_params parse_uuid quoted json_text params =
     (let record = (case json_get ''record'' params of Some (JBool b) \<Rightarrow> b | _ \<Rightarrow> False);
          replay_of = (case json_get ''replay_of'' params of
              None \<Rightarrow> Inr None
            | Some JNull \<Rightarrow> Inr None
            | Some (JString t) \<Rightarrow>
                (case parse_uuid t of
                   Inr u \<Rightarrow> Inr (Some u)
                 | Inl e \<Rightarrow> Inl (''vcr: replay_of is not a job uuid ('' @ quoted t @ ''): '' @ e))
            | Some other \<Rightarrow> Inl (''vcr: replay_of must be a job-id string, got '' @ json_text other))
      in case replay_of of
           Inl msg \<Rightarrow> Inl msg
         | Inr r \<Rightarrow>
             if record \<and> r \<noteq> None
             then Inl (''vcr: a job cannot both record and replay '' @ em_dash @
                       '' a replay's cassette IS the record'')
             else Inr (record, r))"

section \<open>Yields\<close>

record YieldEntry =
  ye_dataset :: string
  ye_new :: "int option"
  ye_changed :: "int option"
  ye_unchanged :: "int option"
  ye_removed :: "int option"

definition MAX_YIELD_ENTRIES :: nat where
  "MAX_YIELD_ENTRIES = 16"

definition MAX_YIELD_DEPTH :: nat where
  "MAX_YIELD_DEPTH = 3"

text \<open>A number is an \<open>i64\<close> when it is an integer below \<open>2 ^ 63\<close>; a list never has that many elements.\<close>

definition yield_count :: "json option \<Rightarrow> int option" where
  "yield_count v =
     (case v of
        Some (JPosInt n) \<Rightarrow> if n < 2 ^ 63 then Some (int n) else None
      | Some (JArray a) \<Rightarrow> Some (int (length a))
      | _ \<Rightarrow> None)"

definition yield_entry :: "string \<Rightarrow> json \<Rightarrow> YieldEntry list" where
  "yield_entry path v =
     (let n = yield_count (json_get ''new'' v); c = yield_count (json_get ''changed'' v)
      in if n \<noteq> None \<or> c \<noteq> None
         then [\<lparr>ye_dataset = path, ye_new = n, ye_changed = c,
                ye_unchanged = yield_count (json_get ''unchanged'' v),
                ye_removed = yield_count (json_get ''removed'' v)\<rparr>]
         else [])"

fun walk_yields :: "json \<Rightarrow> string \<Rightarrow> nat \<Rightarrow> YieldEntry list \<Rightarrow> YieldEntry list"
  and walk_children :: "(string \<times> json) list \<Rightarrow> string \<Rightarrow> nat \<Rightarrow> YieldEntry list \<Rightarrow> YieldEntry list" where
  "walk_yields (JObject obj) path depth out =
     (if length out \<ge> MAX_YIELD_ENTRIES \<or> depth > MAX_YIELD_DEPTH then out
      else walk_children obj path depth (out @ yield_entry path (JObject obj)))"
| "walk_yields _ path depth out = out"
| "walk_children [] path depth out = out"
| "walk_children ((key, child) # rest) path depth out =
     walk_children rest path depth
       (case child of
          JObject obj \<Rightarrow>
            walk_yields child (if path = [] then key else path @ ''.'' @ key) (depth + 1) out
        | _ \<Rightarrow> out)"

definition extract_yields :: "json \<Rightarrow> YieldEntry list" where
  "extract_yields result = walk_yields result [] 0 []"

section \<open>What a fired token means\<close>

datatype CancelKind = User | ShutdownSuspend

fun cancel_kind :: "bool \<Rightarrow> bool \<Rightarrow> CancelKind" where
  "cancel_kind True _ = User"
| "cancel_kind False True = ShutdownSuspend"
| "cancel_kind False False = User"

type_synonym intents = "(uuid \<times> CancelKind) list"

fun mark_user :: "uuid \<Rightarrow> intents \<Rightarrow> intents" where
  "mark_user i [] = []"
| "mark_user i ((job, kind) # rest) =
     (if job = i then (job, User) # rest else (job, kind) # mark_user i rest)"

definition claim_user_cancel :: "uuid \<Rightarrow> intents \<Rightarrow> intents \<times> CancelKind" where
  "claim_user_cancel i intents =
     (case find (\<lambda>(job, _). job = i) intents of
        Some (_, ShutdownSuspend) \<Rightarrow> (intents, ShutdownSuspend)
      | Some (_, User) \<Rightarrow> (mark_user i intents, User)
      | None \<Rightarrow> (intents @ [(i, User)], User))"

definition resolve_cancel :: "uuid \<Rightarrow> bool \<Rightarrow> intents \<Rightarrow> intents \<times> CancelKind" where
  "resolve_cancel i shutting_down intents =
     (let claimed = list_ex (\<lambda>(job, kind). job = i \<and> kind = User) intents;
          kind = cancel_kind claimed shutting_down;
          rest = filter (\<lambda>(job, _). job \<noteq> i) intents
      in (if kind = ShutdownSuspend then rest @ [(i, ShutdownSuspend)] else rest, kind))"

definition forget_cancel_intent :: "uuid \<Rightarrow> intents \<Rightarrow> intents" where
  "forget_cancel_intent i intents = filter (\<lambda>(job, _). job \<noteq> i) intents"

section \<open>Effects, configuration and surroundings\<close>

text \<open>
  What a run does besides its writes to the queue: events published, the worker woken, the yield
  recorded, the post-run work handed to the fan-out pool, the parts of that work (the index, the
  hooks and the alerts as one), deliveries, triggers, lineage, workflow barriers. The deliveries
  and triggers are the calls, made with the row as it was read.
\<close>

datatype effect =
    Publish JobEvent
  | Wake
  | RecordYield uuid string "YieldEntry list"
  | ApplySchedules string "json list" nat
  | Fanout job_row JobStages
  | Derive job_row json
  | RecordStages uuid string JobStages
  | DrainSubscriptions
  | ClearProgress uuid
  | ResultHook string "string option" job_row
  | LineageFailure job_row
  | FailureHook string "string option" job_row
  | HealthHooks uuid
  | TerminalTriggers job_row
  | StepTerminal job_row

record run_config =
  rc_max_resume_failures :: int
  rc_waiting_expiry_secs :: nat
  rc_waiting_expire_batch :: int
  rc_job_timeout_secs :: nat
  rc_stale_after_secs :: nat
  rc_max_app_schedules :: nat
  rc_failure_url :: "string option"
  rc_failure_secret :: "string option"

text \<open>
  The surroundings of one run: the clock at the outcome and at the write, the JSON and identifier
  libraries, the governance pause, the loader of cassettes (the number of unreadable lines), what
  other tasks do to the store between the outcome's write and the next statement, and which of
  the statements (the outcome's write, the clearing, loading and counting of a checkpoint, a read
  of the row) the database refuses.
\<close>

record run_env =
  re_now :: time
  re_write_now :: time
  re_json_text :: "json \<Rightarrow> string"
  re_json_parse :: "string \<Rightarrow> json option"
  re_quoted :: "string \<Rightarrow> string"
  re_parse_uuid :: "string \<Rightarrow> string + uuid"
  re_uuid_text :: "uuid \<Rightarrow> string"
  re_cost_paused :: "string \<Rightarrow> bool"
  re_cassette :: "string \<Rightarrow> uuid \<Rightarrow> Error + nat"
  re_between :: "store \<Rightarrow> store"
  re_write_fails :: bool
  re_clear_fails :: bool
  re_load_fails :: bool
  re_bump_fails :: bool
  re_read_fails :: bool

section \<open>Checkpoints\<close>

definition load_restore :: "run_config \<Rightarrow> run_env \<Rightarrow> job_row \<Rightarrow> store \<Rightarrow> store \<times> json option" where
  "load_restore cfg env job s =
     (let limit = rc_max_resume_failures cfg
      in if limit \<le> 0 then (s, None)
         else if re_load_fails env then (s, None)
         else case load_checkpoint (re_json_parse env) (j_id job) s of
                None \<Rightarrow> (s, None)
              | Some (checkpoint, failures) \<Rightarrow>
                  if failures \<ge> limit
                  then (if re_clear_fails env then s else clear_checkpoint (j_id job) s, None)
                  else (if re_bump_fails env then s else fst (bump_checkpoint_resumes (j_id job) s),
                        Some checkpoint))"

record CheckpointFailures =
  cf_stale_lineage :: nat
  cf_storage_error :: nat

definition cf_total :: "CheckpointFailures \<Rightarrow> nat" where
  "cf_total f = cf_stale_lineage f + cf_storage_error f"

definition checkpoint_failure_stamp :: "CheckpointFailures \<Rightarrow> json option" where
  "checkpoint_failure_stamp f =
     (if cf_total f = 0 then None
      else Some (JObject [(''stale_lineage'', JPosInt (cf_stale_lineage f)),
                          (''storage_error'', JPosInt (cf_storage_error f)),
                          (''total'', JPosInt (cf_total f))]))"

definition carry_checkpoint_failures :: "json \<Rightarrow> CheckpointFailures \<Rightarrow> json \<times> json option" where
  "carry_checkpoint_failures result f =
     (case checkpoint_failure_stamp f of
        None \<Rightarrow> (result, None)
      | Some block \<Rightarrow>
          (case result of
             JObject m \<Rightarrow> (JObject (btree_insert ''checkpoint_failures'' block m), None)
           | _ \<Rightarrow> (result, Some block)))"

section \<open>Announcing an outcome\<close>

definition dispatch :: "job_row \<Rightarrow> effect list" where
  "dispatch job =
     (case j_callback_url job of
        None \<Rightarrow> [] | Some url \<Rightarrow> [ResultHook url (j_callback_secret job) job])"

definition terminal_event :: "job_row \<Rightarrow> JobStages option \<Rightarrow> JobEvent" where
  "terminal_event job stages =
     (job_event_new (j_id job) (j_app job) (job_status_as_str (j_status job)))
       \<lparr>je_result := j_result job, je_error := j_error job, je_stages := stages\<rparr>"

definition finalize_with_stages ::
  "run_config \<Rightarrow> run_env \<Rightarrow> uuid \<Rightarrow> JobStages option \<Rightarrow> store \<Rightarrow> store \<times> effect list" where
  "finalize_with_stages cfg env i stages s =
     (case (if re_read_fails env then None else get_job i s) of
        None \<Rightarrow> (s, [ClearProgress i])
      | Some job \<Rightarrow>
          (if (j_status job = Failed \<or> j_status job = Cancelled) \<and> \<not> re_clear_fails env
           then clear_checkpoint (j_id job) s else s,
           [ClearProgress i, Publish (terminal_event job stages)] @ dispatch job @
           (if j_status job = Failed
            then LineageFailure job #
                 (case rc_failure_url cfg of
                    None \<Rightarrow> [] | Some url \<Rightarrow> [FailureHook url (rc_failure_secret cfg) job])
            else []) @
           [HealthHooks (j_id job), TerminalTriggers job, StepTerminal job]))"

definition finalize :: "run_config \<Rightarrow> run_env \<Rightarrow> uuid \<Rightarrow> store \<Rightarrow> store \<times> effect list" where
  "finalize cfg env i s = finalize_with_stages cfg env i None s"

definition fanout_owns_outcome :: "job_row option \<Rightarrow> int \<Rightarrow> bool" where
  "fanout_owns_outcome row attempt \<longleftrightarrow>
     (case row of None \<Rightarrow> False | Some j \<Rightarrow> j_attempts j = attempt \<and> j_status j = Succeeded)"

text \<open>
  The post-run work of a completed job, later and on another task. \<open>timed\<close> is the watch closed
  over the three timed stages; the second read of the row is \<open>finalize_with_stages\<close>'s own.
\<close>

definition finalize_fanout ::
  "run_config \<Rightarrow> run_env \<Rightarrow> (JobStages \<Rightarrow> JobStages) \<Rightarrow> job_row \<Rightarrow> JobStages \<Rightarrow> store \<Rightarrow> store \<times> effect list" where
  "finalize_fanout cfg env timed job stages s =
     (let row = get_job (j_id job) s
      in if re_read_fails env then (s, [])
         else if \<not> fanout_owns_outcome row (j_attempts job) then (s, [])
         else let result = (case row of
                              Some j \<Rightarrow> (case j_result j of Some v \<Rightarrow> v | None \<Rightarrow> JNull) | None \<Rightarrow> JNull);
                  st = timed stages;
                  (s', es) = finalize_with_stages cfg env (j_id job) (Some st) (re_between env s)
              in (s', Derive job result # RecordStages (j_id job) (j_app job) st # es @ [DrainSubscriptions]))"

section \<open>Outcomes\<close>

datatype Outcome = Finished "Error + json" | Panicked string | TimedOut | TokenFired

definition panic_error :: "string option \<Rightarrow> string option \<Rightarrow> string" where
  "panic_error payload location =
     (let msg = (case payload of Some m \<Rightarrow> m | None \<Rightarrow> ''<non-string panic payload>'')
      in case location of
           Some loc \<Rightarrow> ''panicked: '' @ msg @ '' (at '' @ loc @ '')''
         | None \<Rightarrow> ''panicked: '' @ msg)"

text \<open>
  What the race of the app against the timeout, the token and the heartbeat ends with: the
  outcome, the checkpoint saves that did not land, the schedules the app asked for, the measured
  run time, and whether the process was shutting down.
\<close>

record run_report =
  rp_outcome :: Outcome
  rp_failures :: CheckpointFailures
  rp_requests :: "json list"
  rp_run_ms :: int
  rp_shutting_down :: bool

definition waiting_deadline :: "time \<Rightarrow> nat \<Rightarrow> time option" where
  "waiting_deadline now expiry_secs =
     (if expiry_secs > 0 then Some (now + int expiry_secs * micros_per_sec) else None)"

definition park_domain_events :: "string \<Rightarrow> json \<Rightarrow> JobEvent list" where
  "park_domain_events app request =
     (case json_get ''transaction_id'' request of
        Some (JString tx) \<Rightarrow> [job_event_domain ''transaction.pending'' app tx request]
      | _ \<Rightarrow> [])"

definition terminal_failure_reason :: "(json \<Rightarrow> string) \<Rightarrow> Error \<Rightarrow> string \<Rightarrow> bool \<Rightarrow> string" where
  "terminal_failure_reason json_text err app cost_paused =
     (case err of
        BudgetExhausted m \<Rightarrow>
          if cost_paused
          then ''paused by governance: a DataHub `cost:pause` tag on '' @ app @ [CHR 0x27] @
               ''s datasets holds this app's paid work, so the job ran with a $0 Claude budget and '' @
               ''refused the first metered call. Nothing was spent and no budget was exhausted '' @ em_dash @
               '' clear the tag (the next governance poll releases the pause) and re-run.''
          else error_text json_text err
      | _ \<Rightarrow> error_text json_text err)"

text \<open>The result a completed run stores: stamped when it replayed, and with the saves that were lost.\<close>

definition stored_result :: "(string \<times> json) list option \<Rightarrow> CheckpointFailures \<Rightarrow> json \<Rightarrow> json" where
  "stored_result stamp failures result =
     fst (carry_checkpoint_failures
       (case (stamp, result) of
          (Some st, JObject m) \<Rightarrow> JObject (foldl (\<lambda>acc (k, v). btree_insert k v acc) m st)
        | _ \<Rightarrow> result) failures)"

definition stages_new :: "int \<Rightarrow> int option \<Rightarrow> JobStages" where
  "stages_new attempt ms =
     \<lparr>st_attempt = attempt, run_ms = ms, index_ms = None, hooks_ms = None, alerts_ms = None,
      total_ms = None\<rparr>"

definition record_yield :: "job_row \<Rightarrow> json \<Rightarrow> effect list" where
  "record_yield job result =
     (let ys = extract_yields result in if ys = [] then [] else [RecordYield (j_id job) (j_app job) ys])"

text \<open>
  The arm of a failure that may be retried, which the code has three times: an error of the app, a
  panic, the timeout. A failed write falls through to \<open>finalize\<close>.
\<close>

definition fail_arm ::
  "run_config \<Rightarrow> run_env \<Rightarrow> job_row \<Rightarrow> FailReason \<Rightarrow> store \<Rightarrow> store \<times> effect list" where
  "fail_arm cfg env job reason s =
     (if re_write_fails env then finalize cfg env (j_id job) (re_between env s)
      else case fail (re_json_text env) (re_write_now env) (j_id job) (j_attempts job) reason s of
             (s', Some Queued) \<Rightarrow> (s', [Wake])
           | (s', None) \<Rightarrow> (s', [])
           | (s', Some _) \<Rightarrow> finalize cfg env (j_id job) (re_between env s'))"

definition await_arm :: "run_config \<Rightarrow> run_env \<Rightarrow> job_row \<Rightarrow> json \<Rightarrow> store \<Rightarrow> store \<times> effect list" where
  "await_arm cfg env job request s =
     (let expires = waiting_deadline (re_now env) (rc_waiting_expiry_secs cfg)
      in if re_write_fails env then (s, [])
         else case await_input (re_write_now env) (j_id job) (j_attempts job) request expires s of
                (s', False) \<Rightarrow> (s', [])
              | (s', True) \<Rightarrow>
                  (s', Publish ((job_event_new (j_id job) (j_app job) ''waiting'')\<lparr>je_result := Some request\<rparr>)
                       # map Publish (park_domain_events (j_app job) request)))"

definition terminal_arm :: "run_config \<Rightarrow> run_env \<Rightarrow> job_row \<Rightarrow> Error \<Rightarrow> store \<Rightarrow> store \<times> effect list" where
  "terminal_arm cfg env job e s =
     (let reason = terminal_failure_reason (re_json_text env) e (j_app job) (re_cost_paused env (j_app job))
      in if re_write_fails env then finalize cfg env (j_id job) (re_between env s)
         else case fail_permanently (re_write_now env) (j_id job) (j_attempts job) reason s of
                (s', True) \<Rightarrow> finalize cfg env (j_id job) (re_between env s')
              | (s', False) \<Rightarrow> (s', []))"

definition complete_arm ::
  "run_env \<Rightarrow> job_row \<Rightarrow> json \<Rightarrow> int option \<Rightarrow> store \<Rightarrow> store \<times> effect list \<times> bool" where
  "complete_arm env job result ms s =
     (if re_write_fails env then (s, [], False)
      else case complete (re_write_now env) (j_id job) (j_attempts job) result s of
             (s', False) \<Rightarrow> (s', [], False)
           | (s', True) \<Rightarrow>
               (if re_clear_fails env then re_between env s' else clear_checkpoint (j_id job) (re_between env s'),
                record_yield job result @ [Fanout job (stages_new (j_attempts job) ms)], True))"

definition suspend_arm :: "run_env \<Rightarrow> job_row \<Rightarrow> store \<Rightarrow> store \<times> effect list" where
  "suspend_arm env job s =
     (if re_write_fails env then (s, [])
      else case reset (re_write_now env) (j_id job) s of
             (s', Some _) \<Rightarrow> (s', [Publish (job_event_new (j_id job) (j_app job) ''queued'')])
           | (s', None) \<Rightarrow> (s', []))"

definition cancel_arm :: "run_env \<Rightarrow> job_row \<Rightarrow> store \<Rightarrow> store \<times> effect list" where
  "cancel_arm env job s =
     (if re_write_fails env then (s, [])
      else case cancel_running (re_write_now env) (j_id job) (j_attempts job) s of
             (s', True) \<Rightarrow>
               (if re_clear_fails env then re_between env s' else clear_checkpoint (j_id job) (re_between env s'),
                [Publish (job_event_new (j_id job) (j_app job) ''cancelled'')])
           | (s', False) \<Rightarrow> (s', []))"

definition settle ::
  "run_config \<Rightarrow> run_env \<Rightarrow> job_row \<Rightarrow> CancelKind option \<Rightarrow> (string \<times> json) list option \<Rightarrow> run_report
    \<Rightarrow> store \<Rightarrow> store \<times> effect list" where
  "settle cfg env job cancelled_by stamp report s =
     (case rp_outcome report of
        TokenFired \<Rightarrow>
          if cancelled_by = Some ShutdownSuspend then suspend_arm env job s else cancel_arm env job s
      | Finished (Inr result) \<Rightarrow>
          (case complete_arm env job (stored_result stamp (rp_failures report) result)
                  (Some (rp_run_ms report)) s of
             (s', es, _) \<Rightarrow> (s', es))
      | Finished (Inl e) \<Rightarrow>
          (case awaited_request e of
             Some request \<Rightarrow> await_arm cfg env job request s
           | None \<Rightarrow>
               if is_terminal_for_job e then terminal_arm cfg env job e s
               else fail_arm cfg env job (Typed e) s)
      | Panicked err \<Rightarrow> fail_arm cfg env job (Text err) s
      | TimedOut \<Rightarrow>
          fail_arm cfg env job (Text (''timed out after '' @ decimal (rc_job_timeout_secs cfg) @ ''s'')) s)"

section \<open>A run\<close>

text \<open>A run refused before it starts: the failure is written, whatever it answers, and announced.\<close>

definition refuse_run :: "run_config \<Rightarrow> run_env \<Rightarrow> job_row \<Rightarrow> string \<Rightarrow> store \<Rightarrow> store \<times> effect list" where
  "refuse_run cfg env job msg s =
     finalize cfg env (j_id job) (re_between env
       (if re_write_fails env then s
        else fst (fail_permanently (re_write_now env) (j_id job) (j_attempts job) msg s)))"

text \<open>Whether a replay can be served: the message it is refused with, or the stamp its result will carry.\<close>

definition replay_ready ::
  "run_env \<Rightarrow> job_row \<Rightarrow> uuid option \<Rightarrow> string + (string \<times> json) list option" where
  "replay_ready env job replay_of =
     (case replay_of of
        None \<Rightarrow> Inr None
      | Some replay_id \<Rightarrow>
          (case refuse_replay (re_quoted env) (j_app job) of
             Some e \<Rightarrow> Inl (error_text (re_json_text env) e)
           | None \<Rightarrow>
               (case re_cassette env (j_app job) replay_id of
                  Inl e \<Rightarrow> Inl (error_text (re_json_text env) e)
                | Inr unreadable \<Rightarrow>
                    Inr (Some (replay_stamp (re_uuid_text env) (j_app job) replay_id unreadable)))))"

text \<open>
  \<open>run\<close> is the app and everything else that happens to the store and to the cancel intents until
  its race is decided, given the restored checkpoint.
\<close>

definition execute ::
  "run_config \<Rightarrow> run_env \<Rightarrow> registry \<Rightarrow> job_row \<Rightarrow> (json option \<Rightarrow> store \<times> intents \<Rightarrow> (store \<times> intents) \<times> run_report)
    \<Rightarrow> store \<times> intents \<Rightarrow> (store \<times> intents) \<times> effect list" where
  "execute cfg env apps job run st =
     (let s = fst st; intents = snd st
      in case apps (j_app job) of
           None \<Rightarrow> (case refuse_run cfg env job ''app not registered'' s of (s', es) \<Rightarrow> ((s', intents), es))
         | Some app \<Rightarrow>
             (case vcr_params (re_parse_uuid env) (re_quoted env) (re_json_text env) (j_params job) of
                Inl msg \<Rightarrow> (case refuse_run cfg env job msg s of (s', es) \<Rightarrow> ((s', intents), es))
              | Inr (vcr_record, replay_of) \<Rightarrow>
                  (case replay_ready env job replay_of of
                     Inl msg \<Rightarrow> (case refuse_run cfg env job msg s of (s', es) \<Rightarrow> ((s', intents), es))
                   | Inr stamp \<Rightarrow>
                       let (s1, restored) = load_restore cfg env job s;
                           ((s2, intents2), report) = run restored (s1, intents);
                           (intents3, cancelled_by) =
                             (if rp_outcome report = TokenFired
                              then (case resolve_cancel (j_id job) (rp_shutting_down report) intents2 of
                                      (ins, k) \<Rightarrow> (ins, Some k))
                              else (intents2, None));
                           scheds =
                             (case rp_outcome report of
                                Finished (Inr _) \<Rightarrow>
                                  if rp_requests report = [] then []
                                  else [ApplySchedules (j_app job) (rp_requests report) (rc_max_app_schedules cfg)]
                              | _ \<Rightarrow> []);
                           (s3, es) = settle cfg env job cancelled_by stamp report s2
                       in ((s3, intents3), scheds @ es))))"

section \<open>A remote report, the reaper and the expiry sweep\<close>

definition publish_running :: "job_row \<Rightarrow> effect list" where
  "publish_running job = [Publish (job_event_new (j_id job) (j_app job) ''running'')]"

definition finish_from_executor ::
  "run_config \<Rightarrow> run_env \<Rightarrow> job_row \<Rightarrow> string + json \<Rightarrow> int option \<Rightarrow> store
    \<Rightarrow> store \<times> effect list \<times> string" where
  "finish_from_executor cfg env job outcome ms s =
     (case outcome of
        Inr result \<Rightarrow>
          (case complete_arm env job result ms s of
             (s', es, ok) \<Rightarrow> (s', es, if ok then ''succeeded'' else ''stale''))
      | Inl err \<Rightarrow>
          if re_write_fails env then (s, [], ''stale'')
          else case fail (re_json_text env) (re_write_now env) (j_id job) (j_attempts job) (Text err) s of
                 (s', Some Queued) \<Rightarrow> (s', [Wake], ''queued'')
               | (s', None) \<Rightarrow> (s', [], ''stale'')
               | (s', Some _) \<Rightarrow>
                   (case finalize cfg env (j_id job) (re_between env s') of
                      (s'', es) \<Rightarrow> (s'', es, ''failed'')))"

fun finalize_each :: "run_config \<Rightarrow> run_env \<Rightarrow> (uuid \<times> string) list \<Rightarrow> store \<Rightarrow> store \<times> effect list" where
  "finalize_each cfg env [] s = (s, [])"
| "finalize_each cfg env ((i, app) # rest) s =
     (case finalize cfg env i (re_between env s) of
        (s1, es) \<Rightarrow> (case finalize_each cfg env rest s1 of (s2, es') \<Rightarrow> (s2, es @ es')))"

definition WAITING_EXPIRED_REASON :: string where
  "WAITING_EXPIRED_REASON = ''awaited input not provided before waiting_expires_at''"

definition expire_waiting_once :: "run_config \<Rightarrow> run_env \<Rightarrow> store \<Rightarrow> store \<times> effect list" where
  "expire_waiting_once cfg env s =
     (if rc_waiting_expire_batch cfg \<le> 0 \<or> re_write_fails env then (s, [])
      else case expire_waiting (re_write_now env) WAITING_EXPIRED_REASON (rc_waiting_expire_batch cfg) s of
             (s', gone) \<Rightarrow> finalize_each cfg env gone s')"

fun route_reaped ::
  "run_config \<Rightarrow> run_env \<Rightarrow> (uuid \<times> string \<times> JobStatus) list \<Rightarrow> store \<Rightarrow> store \<times> effect list" where
  "route_reaped cfg env [] s = (s, [])"
| "route_reaped cfg env ((i, app, status) # rest) s =
     (case (if status = Queued then (s, [Publish (job_event_new i app ''queued''), Wake])
            else finalize cfg env i (re_between env s)) of
        (s1, es) \<Rightarrow> (case route_reaped cfg env rest s1 of (s2, es') \<Rightarrow> (s2, es @ es')))"

text \<open>
  One pass, after the pruning of the two decision ledgers. \<open>sweep\<close> is \<open>reap_stale\<close> with its clocks
  and what other tasks do between its verdicts, at the configured age; \<open>None\<close> is its failure.
\<close>

definition reap_once ::
  "run_config \<Rightarrow> run_env \<Rightarrow> (int \<Rightarrow> store \<Rightarrow> (store \<times> (uuid \<times> string \<times> JobStatus) list) option) \<Rightarrow> store
    \<Rightarrow> store \<times> effect list" where
  "reap_once cfg env sweep s =
     (case expire_waiting_once cfg env s of
        (s1, es) \<Rightarrow>
          if rc_stale_after_secs cfg = 0 then (s1, es)
          else case sweep (int (rc_stale_after_secs cfg)) (re_between env s1) of
                 None \<Rightarrow> (s1, es)
               | Some (s2, reaped) \<Rightarrow>
                   (case route_reaped cfg env reaped s2 of (s3, es') \<Rightarrow> (s3, es @ es')))"

section \<open>The fence\<close>

text \<open>A run still holds its job when a row is running under its attempt.\<close>

definition holds_row :: "job_row \<Rightarrow> store \<Rightarrow> bool" where
  "holds_row job s \<longleftrightarrow> list_ex (owns (j_id job) (j_attempts job)) (jobs s)"

lemma holds_row_iff: "holds_row job s \<longleftrightarrow> 0 < rows_affected (owns (j_id job) (j_attempts job)) (jobs s)"
  by (simp add: holds_row_def rows_affected_pos list_ex_iff)

lemma not_held_update:
  "\<not> holds_row job s \<Longrightarrow> update_jobs (owns (j_id job) (j_attempts job)) f s = s"
  by (simp add: holds_row_def list_ex_iff update_jobs_def update_where_none)

lemma not_held_fail: "\<not> holds_row job s \<Longrightarrow> fail jt now (j_id job) (j_attempts job) reason s = (s, None)"
proof (cases "get_job (j_id job) s")
  case None
  then show ?thesis by (simp add: fail_def)
next
  case (Some r)
  assume "\<not> holds_row job s"
  then have "\<not> owns (j_id job) (j_attempts job) r"
    using get_job_Some [OF Some] by (auto simp: holds_row_def list_ex_iff)
  then show ?thesis
    using get_job_Some [OF Some] by (auto simp: fail_def Some fail_from_def owns_def)
qed

lemma not_held_writes:
  assumes "\<not> holds_row job s"
  shows "complete now (j_id job) (j_attempts job) res s = (s, False)"
    "fail_permanently now (j_id job) (j_attempts job) err s = (s, False)"
    "cancel_running now (j_id job) (j_attempts job) s = (s, False)"
    "await_input now (j_id job) (j_attempts job) request ex s = (s, False)"
  using not_held_update [OF assms] assms
  by (simp_all add: complete_def fail_permanently_def fail_permanently_because_def cancel_running_def
      await_input_def holds_row_iff)

lemmas arm_defs = fail_arm_def await_arm_def terminal_arm_def complete_arm_def cancel_arm_def


section \<open>What a run makes of its row\<close>

lemma held_update:
  assumes s: "store_ok s" and r: "get_job (j_id job) s = Some r" "j_status r = Running"
      "j_attempts r = j_attempts job" and f: "\<And>x. j_id (f x) = j_id x"
  shows "get_job (j_id job) (update_jobs (owns (j_id job) (j_attempts job)) f s) = Some (f r)"
    "0 < rows_affected (owns (j_id job) (j_attempts job)) (jobs s)"
proof -
  have mem: "r \<in> set (jobs s)" "j_id r = j_id job" using get_job_Some [OF r(1)] by auto
  have own: "owns (j_id r) (j_attempts r) r" using r(2) by (simp add: owns_def)
  note by_id = owns_by_id [OF s mem(1) own, unfolded mem(2) r(3)]
  show "get_job (j_id job) (update_jobs (owns (j_id job) (j_attempts job)) f s) = Some (f r)"
    using get_after_update [OF s mem(1), of f] f by (simp add: mem(2) by_id(1))
  show "0 < rows_affected (owns (j_id job) (j_attempts job)) (jobs s)" by (rule by_id(2))
qed

definition fail_status :: "FailReason \<Rightarrow> job_row \<Rightarrow> JobStatus" where
  "fail_status reason r =
     (case fail_verdict reason (j_attempts r) of
        Never _ \<Rightarrow> Failed
      | After _ _ \<Rightarrow> if j_attempts r < j_max_attempts r then Queued else Failed)"

lemma fail_status_cases: "fail_status reason r = Failed \<or> fail_status reason r = Queued"
  by (simp add: fail_status_def split: Requeue.splits)

lemma held_fail:
  assumes s: "store_ok s" and r: "get_job (j_id job) s = Some r" "j_status r = Running"
      "j_attempts r = j_attempts job"
  obtains q s' where "fail jt now (j_id job) (j_attempts job) reason s = (s', Some (fail_status reason r))"
    "get_job (j_id job) s' = Some q" "j_status q = fail_status reason r" "j_attempts q = j_attempts r"
    "j_callback_url q = j_callback_url r" "checkpoints s' = checkpoints s"
proof -
  have upd: "get_job (j_id job) (update_jobs (owns (j_id job) (j_attempts job)) f s) = Some (f r)"
    if "\<And>x. j_id (f x) = j_id x" for f using held_update(1) [OF s r that] .
  have pos: "0 < rows_affected (owns (j_id job) (j_attempts job)) (jobs s)"
    using held_update(2) [OF s r, of id] by simp
  show thesis
  proof (cases "fail_status reason r")
    case Queued
    then obtain d why where v: "fail_verdict reason (j_attempts r) = After d why" "j_attempts r < j_max_attempts r"
      by (auto simp: fail_status_def split: Requeue.splits if_splits)
    let ?f = "requeue_set (fail_reason_text jt reason)
      (requeue_available_at now (j_id job) (j_attempts r) d) why
      (case fail_reason_error reason of None \<Rightarrow> None | Some e \<Rightarrow> cause_kind e)"
    show thesis
      by (rule that [of "update_jobs (owns (j_id job) (j_attempts job)) ?f s" "?f r"])
         (use r v pos Queued upd [of ?f] in \<open>simp_all add: fail_def fail_from_def Let_def requeue_set_def\<close>)
  next
    case Failed
    obtain why where f: "fail jt now (j_id job) (j_attempts job) reason s =
        (update_jobs (owns (j_id job) (j_attempts job)) (failed_set now (fail_reason_text jt reason) (fst why) (snd why)) s,
         Some Failed)"
    proof (cases "fail_verdict reason (j_attempts r)")
      case (Never w)
      then show thesis
        using r pos that [of "(Some w, case fail_reason_error reason of None \<Rightarrow> None | Some e \<Rightarrow> cause_kind e)"]
        by (simp add: fail_def fail_from_def Let_def fail_permanently_because_def)
    next
      case (After d w)
      then have "\<not> j_attempts r < j_max_attempts r" using Failed by (auto simp: fail_status_def)
      then show thesis
        using r pos After that [of "(None, None)"]
        by (simp add: fail_def fail_from_def Let_def fail_permanently_def fail_permanently_because_def)
    qed
    show thesis
      by (rule that [OF f [folded Failed] upd]) (simp_all add: failed_set_def Failed)
  qed (use fail_status_cases [of reason r] in auto)
qed

text \<open>The status a run that holds its row gives it.\<close>

definition outcome_status :: "CancelKind option \<Rightarrow> Outcome \<Rightarrow> job_row \<Rightarrow> JobStatus" where
  "outcome_status cancelled_by out r =
     (case out of
        TokenFired \<Rightarrow> if cancelled_by = Some ShutdownSuspend then Queued else Cancelled
      | Finished (Inr _) \<Rightarrow> Succeeded
      | Finished (Inl e) \<Rightarrow>
          if awaited_request e \<noteq> None then Waiting
          else if is_terminal_for_job e then Failed
          else fail_status (Typed e) r
      | _ \<Rightarrow> fail_status (Text []) r)"

lemma fail_status_Text: "fail_status (Text t) r = fail_status (Text u) r"
  by (simp add: fail_status_def fail_verdict_def)

lemma get_job_clear [simp]: "get_job i (clear_checkpoint j s) = get_job i s"
  by (simp add: get_job_def)

lemma cleared_find [simp]: "find (\<lambda>c. cp_job_id c = i) (checkpoints (clear_checkpoint i s)) = None"
  by (auto simp: clear_checkpoint_def find_None_iff)

lemma clear_checkpoint_load [simp]: "load_checkpoint parse i (clear_checkpoint i s) = None"
  by (simp add: load_checkpoint_def)

text \<open>What the verdict on a row leaves: the row, and its checkpoint gone exactly when the job is over.\<close>

definition verdict_lands :: "job_row \<Rightarrow> JobStatus \<Rightarrow> job_row \<Rightarrow> store \<Rightarrow> store \<Rightarrow> bool" where
  "verdict_lands job st r s s' \<longleftrightarrow>
     (case get_job (j_id job) s' of
        None \<Rightarrow> False
      | Some q \<Rightarrow> j_status q = st \<and> j_attempts q = j_attempts r) \<and>
     (if is_terminal st then find (\<lambda>c. cp_job_id c = j_id job) (checkpoints s') = None
      else checkpoints s' = checkpoints s)"

lemma finalize_lands:
  assumes "get_job (j_id job) s' = Some q" "j_status q = Failed" "j_attempts q = j_attempts r"
    "\<not> re_read_fails env" "\<not> re_clear_fails env"
  shows "verdict_lands job Failed r s (fst (finalize cfg env (j_id job) s'))"
  using assms get_job_Some [OF assms(1)]
  by (auto simp: finalize_def finalize_with_stages_def verdict_lands_def)


section \<open>A small run\<close>

definition run_demo_cfg :: run_config where
  "run_demo_cfg = \<lparr>rc_max_resume_failures = 3, rc_waiting_expiry_secs = 0, rc_waiting_expire_batch = 10,
     rc_job_timeout_secs = 900, rc_stale_after_secs = 120, rc_max_app_schedules = 20,
     rc_failure_url = None, rc_failure_secret = None\<rparr>"

definition run_demo_env :: "bool \<Rightarrow> run_env" where
  "run_demo_env refused = \<lparr>re_now = 20, re_write_now = 20, re_json_text = (\<lambda>_. ''v''),
     re_json_parse = (\<lambda>_. Some JNull), re_quoted = (\<lambda>x. x), re_parse_uuid = (\<lambda>_. Inl ''e''),
     re_uuid_text = (\<lambda>_. ''u''), re_cost_paused = (\<lambda>_. False), re_cassette = (\<lambda>_ _. Inr 0),
     re_between = (\<lambda>x. x), re_write_fails = refused, re_clear_fails = False, re_load_fails = False,
     re_bump_fails = False, re_read_fails = False\<rparr>"

definition run_demo_report :: "Outcome \<Rightarrow> run_report" where
  "run_demo_report out = \<lparr>rp_outcome = out, rp_failures = \<lparr>cf_stale_lineage = 0, cf_storage_error = 0\<rparr>,
     rp_requests = [], rp_run_ms = 5, rp_shutting_down = True\<rparr>"

text \<open>Its first attempt, and the store in which a remote executor runs its second.\<close>

definition run_demo_job :: job_row where
  "run_demo_job = the (get_job [1] demo_s3)"

definition run_demo_taken :: store where
  "run_demo_taken = fst (claim_next_for_executor (\<lambda>t. of_int t) ''x'' [''a''] [] 0 9 demo_s4)"

lemma run_demo_taken_reachable: "queue_reachable run_demo_taken"
  unfolding run_demo_taken_def
  by (rule reachable_steps [OF demo_reachable(4)]) (rule r_into_rtranclp, rule queue_step.claim_executor)

lemma run_demo_facts:
  "get_job [1] demo_s3 = Some run_demo_job" "j_id run_demo_job = [1]" "j_status run_demo_job = Running"
  "j_attempts run_demo_job = 1" "\<not> holds_row run_demo_job run_demo_taken"
  by code_simp+

lemma run_demo_taken_row:
  obtains r where "get_job [1] run_demo_taken = Some r" "j_status r = Running" "j_attempts r = 2"
    "j_executor_id r = Some ''x''"
proof -
  have "get_job [1] run_demo_taken \<noteq> None \<and> j_status (the (get_job [1] run_demo_taken)) = Running \<and>
      j_attempts (the (get_job [1] run_demo_taken)) = 2 \<and>
      j_executor_id (the (get_job [1] run_demo_taken)) = Some ''x''"
    by code_simp
  then show thesis using that by auto
qed



section \<open>Suspending a run that lost its job\<close>

text \<open>
  C14. The suspend is the one outcome without the fence: a run whose row was taken from it and is
  running under another attempt (after a reap or a reset, here or on a remote executor) and
  that is then told to stop by a shutdown re-queues that other attempt. The row is queued again
  while it is being worked on, and the live attempt's result is discarded when it arrives.
\<close>

theorem stale_suspend_requeues_the_live_attempt:
  assumes "queue_reachable s" and "get_job (j_id job) s = Some r" and "j_status r = Running"
    and "j_attempts r \<noteq> j_attempts job" and "\<not> re_write_fails env"
    and "rp_outcome report = TokenFired"
    and "settle cfg env job (Some ShutdownSuspend) stamp report s = (s', es)"
  shows "\<exists>q. get_job (j_id job) s' = Some q \<and> j_status q = Queued \<and> j_attempts q = j_attempts r \<and>
    complete t (j_id job) (j_attempts r) result s' = (s', False)"
proof -
  have s: "store_ok s" using reachable_ok [OF assms(1)] .
  let ?p = "\<lambda>x. j_id x = j_id job \<and> j_status x = Running"
  have s': "s' = fst (reset (re_write_now env) (j_id job) s)"
    using assms(5-7) by (auto simp: settle_def suspend_arm_def split: prod.splits option.splits)
  then have step: "queue_step s s'" using queue_step.reset by simp
  have q: "get_job (j_id job) s' = Some (requeue_fresh (re_write_now env) r)"
    using assms(2,3) get_job_Some [OF assms(2)]
    by (simp add: s' reset_def Let_def get_job_def find_update_where_same requeue_fresh_def)
  have ok: "store_ok s'" using queue_step_ok [OF step s] by simp
  have "\<not> holds_row (r\<lparr>j_id := j_id job\<rparr>) s'"
  proof
    assume "holds_row (r\<lparr>j_id := j_id job\<rparr>) s'"
    then obtain x where x: "x \<in> set (jobs s')" "owns (j_id job) (j_attempts r) x"
      by (auto simp: holds_row_def list_ex_iff)
    then have "x = requeue_fresh (re_write_now env) r"
      using q get_job_iff [OF ok, of "j_id job" x] by (simp add: owns_def)
    with x(2) show False by (simp add: owns_def requeue_fresh_def)
  qed
  from not_held_writes(1) [OF this] q show ?thesis by (simp add: requeue_fresh_def)
qed

theorem stale_suspend_requeues_the_live_attempt_witness:
  "\<exists>q. get_job [1] (fst (settle run_demo_cfg (run_demo_env False) run_demo_job (Some ShutdownSuspend) None
      (run_demo_report TokenFired) run_demo_taken)) = Some q \<and> j_status q = Queued \<and> j_attempts q = 2"
proof -
  obtain r where r: "get_job [1] run_demo_taken = Some r" "j_status r = Running" "j_attempts r = 2"
    by (rule run_demo_taken_row)
  obtain s' es where st: "settle run_demo_cfg (run_demo_env False) run_demo_job (Some ShutdownSuspend) None
      (run_demo_report TokenFired) run_demo_taken = (s', es)" by (rule prod.exhaust)
  show ?thesis
    using stale_suspend_requeues_the_live_attempt [OF run_demo_taken_reachable, of run_demo_job r, OF _ _ _ _ _ st]
      r run_demo_facts st by (auto simp: run_demo_env_def run_demo_report_def)
qed

section \<open>Remote reports\<close>

lemma stored_result_plain: "cf_total f = 0 \<Longrightarrow> stored_result None f v = v"
  by (simp add: stored_result_def carry_checkpoint_failures_def checkpoint_failure_stamp_def)

lemma held_row:
  assumes "store_ok s" "holds_row job s"
  obtains r where "get_job (j_id job) s = Some r" "j_status r = Running" "j_attempts r = j_attempts job"
  using assms get_job_iff [OF assms(1)] by (auto simp: holds_row_def list_ex_iff owns_def)



section \<open>Verdicts the database refused\<close>

definition is_failure :: "Outcome \<Rightarrow> bool" where
  "is_failure out \<longleftrightarrow>
     (case out of
        Finished (Inl e) \<Rightarrow> awaited_request e = None
      | Finished (Inr _) \<Rightarrow> False
      | Panicked _ \<Rightarrow> True
      | TimedOut \<Rightarrow> True
      | TokenFired \<Rightarrow> False)"

text \<open>
  When the database refuses the write of a failure, the run announces its job all the same,
  as it still is: the terminal event says \<open>running\<close>, and a caller's callback is called with the
  running row as the job's terminal report. A result whose write is refused is not announced.
\<close>

theorem unpersisted_failure_is_announced:
  assumes "re_write_fails env" and "\<not> re_read_fails env" and "re_between env = (\<lambda>x. x)"
    and "get_job (j_id job) s = Some r" and "j_status r = Running" and "j_callback_url r = Some url"
    and "is_failure (rp_outcome report)" and "settle cfg env job cancelled_by stamp report s = (s', es)"
  shows "s' = s \<and> Publish (terminal_event r None) \<in> set es \<and> je_status (terminal_event r None) = ''running'' \<and>
    ResultHook url (j_callback_secret r) r \<in> set es \<and>
    settle cfg env job cancelled_by stamp (report\<lparr>rp_outcome := Finished (Inr v)\<rparr>) s = (s, [])"
proof -
  have fin: "finalize cfg env (j_id job) s = (s, [ClearProgress (j_id job), Publish (terminal_event r None),
      ResultHook url (j_callback_secret r) r, HealthHooks (j_id r), TerminalTriggers r, StepTerminal r])"
    using assms(2,4-6) by (simp add: finalize_def finalize_with_stages_def dispatch_def)
  have "settle cfg env job cancelled_by stamp report s = finalize cfg env (j_id job) s"
    using assms(1,3,7)
    by (auto simp: settle_def is_failure_def arm_defs Let_def split: Outcome.splits sum.splits)
  moreover have "settle cfg env job cancelled_by stamp (report\<lparr>rp_outcome := Finished (Inr v)\<rparr>) s = (s, [])"
    using assms(1) by (simp add: settle_def complete_arm_def)
  ultimately show ?thesis
    using assms(5,8) by (auto simp: fin terminal_event_def job_event_new_def)
qed

definition run_demo_hooked :: store where
  "run_demo_hooked = fst (claim_next (\<lambda>t. of_int t) [] 0 5
     (fst (enqueue_dedup_as [1] 0 ''a'' ((demo_opts None)\<lparr>o_callback_url := Some ''u''\<rparr>) None empty_store)))"

theorem unpersisted_failure_is_announced_witness:
  "list_ex (\<lambda>e. case e of ResultHook url sec r \<Rightarrow> j_status r = Running | _ \<Rightarrow> False)
     (snd (settle run_demo_cfg (run_demo_env True) run_demo_job None None (run_demo_report TimedOut) run_demo_hooked))"
proof -
  have "get_job [1] run_demo_hooked \<noteq> None \<and> j_status (the (get_job [1] run_demo_hooked)) = Running \<and>
      j_callback_url (the (get_job [1] run_demo_hooked)) = Some ''u''"
    by code_simp
  then obtain r where r: "get_job [1] run_demo_hooked = Some r" "j_status r = Running" "j_callback_url r = Some ''u''"
    by auto
  obtain s' es where st: "settle run_demo_cfg (run_demo_env True) run_demo_job None None
      (run_demo_report TimedOut) run_demo_hooked = (s', es)" by (rule prod.exhaust)
  have "ResultHook ''u'' (j_callback_secret r) r \<in> set es"
    using unpersisted_failure_is_announced [OF _ _ _ _ _ _ _ st, of r "''u''" JNull] r run_demo_facts(2)
    by (simp add: run_demo_env_def run_demo_report_def is_failure_def)
  then show ?thesis using st r(2) by (auto simp: list_ex_iff intro!: bexI [of _ "ResultHook ''u'' (j_callback_secret r) r"])
qed

section \<open>The life of a checkpoint\<close>

text \<open>The checkpoint of a job is readable and has been handed out \<open>n\<close> times.\<close>

definition handed_out :: "run_env \<Rightarrow> uuid \<Rightarrow> int \<Rightarrow> store \<Rightarrow> bool" where
  "handed_out env i n s \<longleftrightarrow>
     (case find (\<lambda>c. cp_job_id c = i) (checkpoints s) of
        None \<Rightarrow> False
      | Some c \<Rightarrow> cp_resume_failures c = n \<and> re_json_parse env (cp_state c) \<noteq> None)"

lemma handed_out_checkpoints: "checkpoints s' = checkpoints s \<Longrightarrow> handed_out env i n s' = handed_out env i n s"
  by (simp add: handed_out_def)

lemma handed_out_save:
  assumes "handed_out env i n s" "\<And>v. re_json_parse env (re_json_text env v) \<noteq> None"
  shows "handed_out env i n (fst (save_checkpoint (re_json_text env) now i a state s))"
  using assms
  by (auto simp: handed_out_def save_checkpoint_def Let_def find_update_where_same dest: find_Some_mem
      split: option.splits)

lemma claim_next_checkpoints [simp]: "checkpoints (fst (claim_next jd blocked coeff now s)) = checkpoints s"
  by (cases rule: claim_next_cases [of jd blocked coeff now s]) auto

lemma suspend_checkpoints [simp]: "checkpoints (fst (suspend_arm env job s)) = checkpoints s"
  by (auto simp: suspend_arm_def reset_def Let_def split: option.splits)

lemma bump_differs [simp]: "(c = c\<lparr>cp_resume_failures := cp_resume_failures c + 1\<rparr>) = False"
  by (cases c) simp

lemma load_restore_handed_out:
  assumes "handed_out env (j_id job) n s" "0 < rc_max_resume_failures cfg" "\<not> re_load_fails env"
    "\<not> re_bump_fails env" "\<not> re_clear_fails env"
  shows "if n < rc_max_resume_failures cfg
    then snd (load_restore cfg env job s) \<noteq> None \<and> handed_out env (j_id job) (n + 1) (fst (load_restore cfg env job s))
    else snd (load_restore cfg env job s) = None \<and>
      find (\<lambda>c. cp_job_id c = j_id job) (checkpoints (fst (load_restore cfg env job s))) = None"
  using assms
  by (auto simp: handed_out_def load_restore_def Let_def load_checkpoint_def bump_checkpoint_resumes_def
      find_update_where_same dest: find_Some_mem split: option.splits)

text \<open>
  One boot of the server as a long job sees it, from its start to its next start: the run saves
  its progress, the shutdown suspends it, and the next boot claims it again.
\<close>

definition suspended_boot ::
  "run_env \<Rightarrow> (time \<Rightarrow> rat) \<Rightarrow> rat \<Rightarrow> job_row \<Rightarrow> (nat \<Rightarrow> json) \<Rightarrow> nat \<Rightarrow> store \<Rightarrow> store" where
  "suspended_boot env jd coeff job progress k s =
     fst (claim_next jd [] coeff (re_now env) (fst (suspend_arm env job
       (fst (save_checkpoint (re_json_text env) (re_now env) (j_id job) (j_attempts job + int k) (progress k) s)))))"

fun restored_states ::
  "run_config \<Rightarrow> run_env \<Rightarrow> job_row \<Rightarrow> (nat \<Rightarrow> store \<Rightarrow> store) \<Rightarrow> nat \<Rightarrow> nat \<Rightarrow> store \<Rightarrow> json option list" where
  "restored_states cfg env job life k 0 s = []"
| "restored_states cfg env job life k (Suc n) s =
     (case load_restore cfg env job s of
        (s', restored) \<Rightarrow> restored # restored_states cfg env job life (Suc k) n (life k s'))"

lemma restored_states_spend:
  assumes life: "\<And>k n s. handed_out env (j_id job) n s \<Longrightarrow> handed_out env (j_id job) n (life k s)"
    and m: "0 < rc_max_resume_failures cfg" "\<not> re_load_fails env" "\<not> re_bump_fails env" "\<not> re_clear_fails env"
  shows "handed_out env (j_id job) (rc_max_resume_failures cfg - int n) s \<Longrightarrow>
    map (\<lambda>x. x = None) (restored_states cfg env job life k (Suc n) s) = replicate n False @ [True]"
proof (induction n arbitrary: k s)
  case 0
  then show ?case
    using load_restore_handed_out [OF "0.prems" m] by (cases "load_restore cfg env job s") simp
next
  case (Suc n)
  obtain s' x where l: "load_restore cfg env job s = (s', x)" by (rule prod.exhaust)
  have "x \<noteq> None" "handed_out env (j_id job) (rc_max_resume_failures cfg - int n) s'"
    using load_restore_handed_out [OF Suc.prems m] by (simp_all add: l algebra_simps)
  then show ?case using Suc.IH [where s = "life k s'" and k = "Suc k"] life by (simp add: l)
qed

text \<open>
  The escape from a poisoned checkpoint also takes a healthy one. The counter it reads counts
  hand-outs, is kept by every save and is reset only when the job is over, so a job that
  outlives \<open>max_resume_failures\<close> orderly shutdowns, making and saving progress in each and failing
  in none, is given its checkpoint that many times and then starts from nothing.
\<close>

theorem suspended_job_loses_its_checkpoint:
  assumes "handed_out env (j_id job) 0 s" and "rc_max_resume_failures cfg = int m" and "0 < m"
    and "\<not> re_load_fails env" and "\<not> re_bump_fails env" and "\<not> re_clear_fails env"
    and "\<And>v. re_json_parse env (re_json_text env v) \<noteq> None"
  shows "map (\<lambda>x. x = None) (restored_states cfg env job (suspended_boot env jd coeff job progress) 0 (Suc m) s)
    = replicate m False @ [True]"
proof (rule restored_states_spend)
  show "handed_out env (j_id job) n (suspended_boot env jd coeff job progress k s)"
    if "handed_out env (j_id job) n s" for k n s
    using handed_out_save [OF that assms(7)]
    by (simp add: suspended_boot_def handed_out_checkpoints [OF claim_next_checkpoints]
        handed_out_checkpoints [OF suspend_checkpoints])
qed (use assms in simp_all)

definition run_demo_saved :: store where
  "run_demo_saved = demo_s3\<lparr>checkpoints := [\<lparr>cp_job_id = [1], cp_state = ''v'', cp_attempt = 1,
     cp_resume_failures = 0, cp_updated_at = 6\<rparr>]\<rparr>"

theorem suspended_job_loses_its_checkpoint_witness:
  "map (\<lambda>x. x = None) (restored_states run_demo_cfg (run_demo_env False) run_demo_job
     (suspended_boot (run_demo_env False) (\<lambda>t. of_int t) 0 run_demo_job (\<lambda>k. JPosInt k)) 0 4
     run_demo_saved) = [False, False, False, True]"
proof -
  have "handed_out (run_demo_env False) (j_id run_demo_job) 0 run_demo_saved"
    by (simp add: handed_out_def run_demo_saved_def run_demo_facts run_demo_env_def)
  from suspended_job_loses_its_checkpoint [OF this, of run_demo_cfg 3 "\<lambda>t. of_int t" 0 "\<lambda>k. JPosInt k"]
  show ?thesis by (simp add: run_demo_cfg_def run_demo_env_def numeral_eq_Suc)
qed

section \<open>A run is made of the queue's operations\<close>

lemma walk_yields_bounded:
  "length out \<le> MAX_YIELD_ENTRIES \<Longrightarrow> length (walk_yields v path depth out) \<le> MAX_YIELD_ENTRIES"
  "length out \<le> MAX_YIELD_ENTRIES \<Longrightarrow> length (walk_children obj path depth out) \<le> MAX_YIELD_ENTRIES"
proof (induction v path depth out and obj path depth out rule: walk_yields_walk_children.induct)
  case (1 obj path depth out)
  then show ?case by (auto simp: yield_entry_def Let_def)
qed (auto split: json.splits)

lemma extract_yields_bounded: "length (extract_yields result) \<le> MAX_YIELD_ENTRIES"
  by (simp add: extract_yields_def walk_yields_bounded)

lemma finalize_steps: "queue_step\<^sup>*\<^sup>* s (fst (finalize_with_stages cfg env i stages s))"
  by (auto simp: finalize_with_stages_def intro: queue_step.clear_checkpoint split: option.splits)

lemma between_steps:
  assumes "\<And>x. queue_step\<^sup>*\<^sup>* x (re_between env x)" and "queue_step s s'"
  shows "queue_step\<^sup>*\<^sup>* s (re_between env s')" "queue_step\<^sup>*\<^sup>* s (clear_checkpoint i (re_between env s'))"
    "queue_step\<^sup>*\<^sup>* s (fst (finalize cfg env i (re_between env s')))"
proof -
  show b: "queue_step\<^sup>*\<^sup>* s (re_between env s')"
    using assms(1) [of s'] assms(2) by (rule converse_rtranclp_into_rtranclp [rotated])
  show "queue_step\<^sup>*\<^sup>* s (clear_checkpoint i (re_between env s'))"
    using b queue_step.clear_checkpoint by (rule rtranclp.rtrancl_into_rtrancl)
  show "queue_step\<^sup>*\<^sup>* s (fst (finalize cfg env i (re_between env s')))"
    unfolding finalize_def using b finalize_steps by (rule rtranclp_trans)
qed

lemma between_finalize:
  assumes "\<And>x. queue_step\<^sup>*\<^sup>* x (re_between env x)"
  shows "queue_step\<^sup>*\<^sup>* s (fst (finalize cfg env i (re_between env s)))"
  unfolding finalize_def using assms finalize_steps by (rule rtranclp_trans)

lemma fail_arm_steps:
  assumes "\<And>x. queue_step\<^sup>*\<^sup>* x (re_between env x)"
  shows "queue_step\<^sup>*\<^sup>* s (fst (fail_arm cfg env job reason s))"
proof -
  obtain s' out where f: "fail (re_json_text env) (re_write_now env) (j_id job) (j_attempts job) reason s = (s', out)"
    by (rule prod.exhaust)
  have st: "queue_step s s'"
    using queue_step.fail [of s "re_json_text env" "re_write_now env" "j_id job" "j_attempts job" reason] f by simp
  show ?thesis
    using between_finalize [OF assms, of s cfg "j_id job"] between_steps(3) [OF assms st, of cfg "j_id job"] st
    by (auto simp: fail_arm_def f split: option.splits JobStatus.splits)
qed

lemma terminal_arm_steps:
  assumes "\<And>x. queue_step\<^sup>*\<^sup>* x (re_between env x)"
  shows "queue_step\<^sup>*\<^sup>* s (fst (terminal_arm cfg env job e s))"
proof -
  let ?why = "terminal_failure_reason (re_json_text env) e (j_app job) (re_cost_paused env (j_app job))"
  obtain s' out where f: "fail_permanently (re_write_now env) (j_id job) (j_attempts job) ?why s = (s', out)"
    by (rule prod.exhaust)
  have st: "queue_step s s'"
    using queue_step.fail_permanently [of s "re_write_now env" "j_id job" "j_attempts job" ?why] f by simp
  show ?thesis
    using between_finalize [OF assms, of s cfg "j_id job"] between_steps(3) [OF assms st, of cfg "j_id job"] st
    by (auto simp: terminal_arm_def Let_def f split: bool.splits)
qed

lemma complete_arm_steps:
  assumes "\<And>x. queue_step\<^sup>*\<^sup>* x (re_between env x)"
  shows "queue_step\<^sup>*\<^sup>* s (fst (complete_arm env job result ms s))"
proof -
  obtain s' out where f: "complete (re_write_now env) (j_id job) (j_attempts job) result s = (s', out)"
    by (rule prod.exhaust)
  have st: "queue_step s s'"
    using queue_step.complete [of s "re_write_now env" "j_id job" "j_attempts job" result] f by simp
  show ?thesis
    using between_steps [OF assms st] st by (auto simp: complete_arm_def f split: bool.splits)
qed

lemma cancel_arm_steps:
  assumes "\<And>x. queue_step\<^sup>*\<^sup>* x (re_between env x)"
  shows "queue_step\<^sup>*\<^sup>* s (fst (cancel_arm env job s))"
proof -
  obtain s' out where f: "cancel_running (re_write_now env) (j_id job) (j_attempts job) s = (s', out)"
    by (rule prod.exhaust)
  have st: "queue_step s s'"
    using queue_step.cancel_running [of s "re_write_now env" "j_id job" "j_attempts job"] f by simp
  show ?thesis
    using between_steps [OF assms st] st by (auto simp: cancel_arm_def f split: bool.splits)
qed

lemma suspend_arm_steps: "queue_step\<^sup>*\<^sup>* s (fst (suspend_arm env job s))"
  using queue_step.reset [of s "re_write_now env" "j_id job"]
  by (auto simp: suspend_arm_def split: option.splits prod.splits)

lemma await_arm_steps: "queue_step\<^sup>*\<^sup>* s (fst (await_arm cfg env job request s))"
  using queue_step.await [of s "re_write_now env" "j_id job" "j_attempts job" request]
  by (auto simp: await_arm_def Let_def split: bool.splits prod.splits) (metis fst_conv r_into_rtranclp)+

lemma settle_steps:
  assumes "\<And>x. queue_step\<^sup>*\<^sup>* x (re_between env x)"
  shows "queue_step\<^sup>*\<^sup>* s (fst (settle cfg env job cancelled_by stamp report s))"
  using fail_arm_steps [OF assms] terminal_arm_steps [OF assms] cancel_arm_steps [OF assms]
    complete_arm_steps [OF assms, of s job "stored_result stamp (rp_failures report) v" for v] await_arm_steps suspend_arm_steps
  by (auto simp: settle_def split: Outcome.splits sum.splits option.splits prod.splits) (metis fst_conv)+

lemma load_restore_steps: "queue_step\<^sup>*\<^sup>* s (fst (load_restore cfg env job s))"
  by (auto simp: load_restore_def Let_def intro: queue_step.clear_checkpoint queue_step.bump_checkpoint
      split: option.splits)

end
