(* ===== verification/Worker.thy ===== *)
theory Worker
  imports Run_Outcome "HOL-Library.AList"
begin

text \<open>
  The worker loop of \<open>crates/server/src/worker.rs\<close> as a step relation: the claim loop with its
  permits and per-app counts, the task of each claimed job from its registration to its
  clean-up, the registry of cancellation tokens, the shutdown and its drain, and the door that
  cancels a running job (\<open>crates/server/src/routes/jobs.rs\<close>). Between any two steps other tasks may
  act on the store. A token is named by the job and the attempt it was made for. The main lemma is
  the invariant of the loop; the others say when an operator's cancel is honoured and when it is lost.
\<close>

section \<open>State\<close>

record worker_config =
  wc_concurrency :: nat
  wc_default_app_concurrency :: nat
  wc_app_concurrency :: "(string \<times> nat) list"

text \<open>
  A task: spawned by the claim, registered, then either its outcome is settled or its cancellation is
  first resolved, and then it is cleaned up.
\<close>

datatype phase = Spawned | Executing | Resolved CancelKind | Settled

record task =
  tk_job :: job_row
  tk_phase :: phase

record worker =
  wk_store :: store
  w_intents :: intents
  w_cancels :: "(uuid \<times> int) list"
  w_fired :: "(uuid \<times> int) list"
  w_running :: "(string \<times> nat) list"
  w_permits :: nat
  w_blocked :: "string list option"
  w_tasks :: "task list"
  w_shutdown :: bool

definition concurrency :: "worker_config \<Rightarrow> nat" where
  "concurrency wc = max (wc_concurrency wc) 1"

definition worker_start :: "worker_config \<Rightarrow> store \<Rightarrow> worker" where
  "worker_start wc s =
     \<lparr>wk_store = s, w_intents = [], w_cancels = [], w_fired = [], w_running = [],
      w_permits = concurrency wc, w_blocked = None, w_tasks = [], w_shutdown = False\<rparr>"

section \<open>The claim loop\<close>

definition app_limit :: "worker_config \<Rightarrow> string \<Rightarrow> nat" where
  "app_limit wc app =
     (case map_of (wc_app_concurrency wc) app of
        Some n \<Rightarrow> n | None \<Rightarrow> wc_default_app_concurrency wc)"

definition blocked_apps :: "worker_config \<Rightarrow> (string \<times> nat) list \<Rightarrow> string list" where
  "blocked_apps wc counts =
     map fst (filter (\<lambda>(app, n). app_limit wc app > 0 \<and> n \<ge> app_limit wc app) counts)"

definition running_count :: "string \<Rightarrow> (string \<times> nat) list \<Rightarrow> nat" where
  "running_count app counts = (case map_of counts app of Some n \<Rightarrow> n | None \<Rightarrow> 0)"

text \<open>
  One pass: a permit is taken and the capped apps are read; then the claim, which returns the
  permit when it finds no job or fails.
\<close>

definition claim_look :: "worker_config \<Rightarrow> worker \<Rightarrow> worker" where
  "claim_look wc w =
     w\<lparr>w_permits := w_permits w - 1, w_blocked := Some (blocked_apps wc (w_running w))\<rparr>"

definition claim_take :: "(time \<Rightarrow> rat) \<Rightarrow> rat \<Rightarrow> time \<Rightarrow> string list \<Rightarrow> worker \<Rightarrow> worker" where
  "claim_take jd aging now blocked w =
     (case claim_next jd blocked aging now (wk_store w) of
        (s, Some job) \<Rightarrow>
          w\<lparr>wk_store := s, w_blocked := None,
            w_running := AList.update (j_app job) (running_count (j_app job) (w_running w) + 1) (w_running w),
            w_tasks := w_tasks w @ [\<lparr>tk_job = job, tk_phase = Spawned\<rparr>]\<rparr>
      | (s, None) \<Rightarrow> w\<lparr>wk_store := s, w_blocked := None, w_permits := w_permits w + 1\<rparr>)"

definition claim_failed :: "worker \<Rightarrow> worker" where
  "claim_failed w = w\<lparr>w_blocked := None, w_permits := w_permits w + 1\<rparr>"

section \<open>The task of a claimed job\<close>

definition set_phase :: "nat \<Rightarrow> phase \<Rightarrow> worker \<Rightarrow> worker" where
  "set_phase n p w = w\<lparr>w_tasks := (w_tasks w)[n := (w_tasks w ! n)\<lparr>tk_phase := p\<rparr>]\<rparr>"

definition task_job :: "nat \<Rightarrow> worker \<Rightarrow> job_row" where
  "task_job n w = tk_job (w_tasks w ! n)"

definition task_register :: "nat \<Rightarrow> worker \<Rightarrow> worker" where
  "task_register n w =
     (let job = task_job n w
      in set_phase n Executing (w\<lparr>w_cancels := AList.update (j_id job) (j_attempts job) (w_cancels w)\<rparr>))"

definition task_resolve :: "nat \<Rightarrow> worker \<Rightarrow> worker" where
  "task_resolve n w =
     (case resolve_cancel (j_id (task_job n w)) (w_shutdown w) (w_intents w) of
        (intents, kind) \<Rightarrow> set_phase n (Resolved kind) (w\<lparr>w_intents := intents\<rparr>))"

definition task_settle ::
  "run_config \<Rightarrow> run_env \<Rightarrow> (string \<times> json) list option \<Rightarrow> run_report \<Rightarrow> nat \<Rightarrow> worker \<Rightarrow> worker" where
  "task_settle cfg env stamp report n w =
     (let kind = (case tk_phase (w_tasks w ! n) of Resolved k \<Rightarrow> Some k | _ \<Rightarrow> None)
      in set_phase n Settled
           (w\<lparr>wk_store := fst (settle cfg env (task_job n w) kind stamp report (wk_store w))\<rparr>))"

definition task_refuse :: "run_config \<Rightarrow> run_env \<Rightarrow> string \<Rightarrow> nat \<Rightarrow> worker \<Rightarrow> worker" where
  "task_refuse cfg env msg n w =
     set_phase n Settled (w\<lparr>wk_store := fst (refuse_run cfg env (task_job n w) msg (wk_store w))\<rparr>)"

text \<open>The end of the task: its own token leaves the registry, the job's intent is dropped.\<close>

definition task_end :: "nat \<Rightarrow> worker \<Rightarrow> worker" where
  "task_end n w =
     (let job = task_job n w
      in w\<lparr>w_cancels := (if map_of (w_cancels w) (j_id job) = Some (j_attempts job)
                         then AList.delete (j_id job) (w_cancels w) else w_cancels w),
           w_intents := forget_cancel_intent (j_id job) (w_intents w),
           w_running := (case map_of (w_running w) (j_app job) of
                           None \<Rightarrow> w_running w
                         | Some k \<Rightarrow> AList.update (j_app job) (k - 1) (w_running w)),
           w_tasks := take n (w_tasks w) @ drop (Suc n) (w_tasks w),
           w_permits := w_permits w + 1\<rparr>)"

section \<open>The doors\<close>

text \<open>
  The part of \<open>DELETE /jobs/{id}\<close> that is about a running job: the intent is claimed and the token
  fired, under the lock of the registry.
\<close>

definition door_running :: "uuid \<Rightarrow> worker \<Rightarrow> worker \<times> CancelKind option" where
  "door_running i w =
     (case map_of (w_cancels w) i of
        None \<Rightarrow> (w, None)
      | Some attempt \<Rightarrow>
          (case claim_user_cancel i (w_intents w) of
             (intents, kind) \<Rightarrow>
               (w\<lparr>w_intents := intents, w_fired := (i, attempt) # w_fired w\<rparr>, Some kind)))"

datatype cancel_answer =
    CancelledNow | Stopping | SuspendedInstead | AlreadyTerminal | JobNotFound

definition cancel_door :: "time \<Rightarrow> uuid \<Rightarrow> worker \<Rightarrow> worker \<times> cancel_answer" where
  "cancel_door now i w =
     (case cancel now i (wk_store w) of
        (s, Some app) \<Rightarrow> (w\<lparr>wk_store := s\<rparr>, CancelledNow)
      | (s, None) \<Rightarrow>
          (case door_running i (w\<lparr>wk_store := s\<rparr>) of
             (w', Some User) \<Rightarrow> (w', Stopping)
           | (w', Some ShutdownSuspend) \<Rightarrow> (w', SuspendedInstead)
           | (w', None) \<Rightarrow> (w', if get_job i (wk_store w') = None then JobNotFound else AlreadyTerminal)))"

section \<open>Shutdown\<close>

definition drain_grace :: "nat \<Rightarrow> nat" where
  "drain_grace total_secs = min (min (max (total_secs div 5) 1) 10) (max total_secs 1)"

definition clean_window :: "nat \<Rightarrow> nat" where
  "clean_window total_secs = total_secs - drain_grace total_secs"

definition fire_all :: "worker \<Rightarrow> worker" where
  "fire_all w = w\<lparr>w_fired := w_cancels w @ w_fired w\<rparr>"

definition RECOVERY_REASON_DRAIN :: string where
  "RECOVERY_REASON_DRAIN = ''drain deadline reached (shutdown)''"

definition drain_deadline ::
  "(json \<Rightarrow> string) \<Rightarrow> (nat \<Rightarrow> duration) \<Rightarrow> (nat \<Rightarrow> time) \<Rightarrow> (nat \<Rightarrow> store \<Rightarrow> store) \<Rightarrow> worker \<Rightarrow> worker" where
  "drain_deadline json_text elapsed now others w =
     w\<lparr>wk_store := fst (recover_stuck_with_reason json_text elapsed now others RECOVERY_REASON_DRAIN (wk_store w))\<rparr>"

text \<open>
  The drain: when the permits do not all come back in the clean window, every registered token is
  fired; when they do not come back in the grace either, what still runs is recovered. \<open>grace\<close> is
  what the tasks do in the grace.
\<close>

definition worker_drain ::
  "(json \<Rightarrow> string) \<Rightarrow> (nat \<Rightarrow> duration) \<Rightarrow> (nat \<Rightarrow> time) \<Rightarrow> (nat \<Rightarrow> store \<Rightarrow> store) \<Rightarrow> bool \<Rightarrow> (worker \<Rightarrow> worker)
    \<Rightarrow> worker \<Rightarrow> worker" where
  "worker_drain json_text elapsed now others clean grace w =
     (if clean then w
      else let w' = grace (fire_all w)
           in if w_tasks w' = [] then w' else drain_deadline json_text elapsed now others w')"

lemma drain_windows:
  "1 \<le> drain_grace secs \<and> drain_grace secs \<le> 10 \<and> clean_window secs + drain_grace secs = max secs 1"
  by (auto simp: drain_grace_def clean_window_def)

section \<open>Failing claims\<close>

record ClaimOutage =
  co_consecutive :: nat
  co_last_report :: "duration option"

definition CLAIM_OUTAGE_REPORT_EVERY :: duration where
  "CLAIM_OUTAGE_REPORT_EVERY = from_secs 300"

definition outage_default :: ClaimOutage where
  "outage_default = \<lparr>co_consecutive = 0, co_last_report = None\<rparr>"

definition outage_failed :: "duration \<Rightarrow> ClaimOutage \<Rightarrow> ClaimOutage \<times> bool" where
  "outage_failed now co =
     (let loud = (case co_last_report co of
                   None \<Rightarrow> True | Some t \<Rightarrow> now - t \<ge> CLAIM_OUTAGE_REPORT_EVERY)
      in (\<lparr>co_consecutive = co_consecutive co + 1,
           co_last_report = (if loud then Some now else co_last_report co)\<rparr>, loud))"

definition outage_recovered :: "ClaimOutage \<Rightarrow> ClaimOutage \<times> nat" where
  "outage_recovered co = (outage_default, co_consecutive co)"

text \<open>The failures of one outage, at the instants of a list: the state after them and the reports.\<close>

fun outage_run :: "duration list \<Rightarrow> ClaimOutage \<Rightarrow> ClaimOutage \<times> nat" where
  "outage_run [] co = (co, 0)"
| "outage_run (t # ts) co =
     (case outage_failed t co of
        (co1, loud) \<Rightarrow>
          (case outage_run ts co1 of (co2, n) \<Rightarrow> (co2, n + (if loud then 1 else 0))))"

lemma outage_consecutive: "co_consecutive (fst (outage_run ts co)) = co_consecutive co + length ts"
proof (induction ts arbitrary: co)
  case (Cons t ts)
  have "co_consecutive (fst (outage_failed t co)) = Suc (co_consecutive co)"
    by (simp add: outage_failed_def Let_def)
  then show ?case using Cons [of "fst (outage_failed t co)"] by (simp add: split_beta)
qed simp

lemma outage_reports_after:
  assumes "sorted (t0 # ts)" "co_last_report co = Some t0"
  shows "snd (outage_run ts co) * CLAIM_OUTAGE_REPORT_EVERY \<le> last (t0 # ts) - t0"
  using assms
proof (induction ts arbitrary: co t0)
  case (Cons t ts)
  have le: "t0 \<le> t" "t \<le> last (t # ts)" using Cons.prems(1) by (auto simp: last_conv_nth)
  obtain co2 n where run: "outage_run ts (fst (outage_failed t co)) = (co2, n)" by (rule prod.exhaust)
  show ?case
  proof (cases "t - t0 \<ge> CLAIM_OUTAGE_REPORT_EVERY")
    case True
    then have f: "outage_failed t co = (\<lparr>co_consecutive = co_consecutive co + 1, co_last_report = Some t\<rparr>, True)"
      using Cons.prems(2) by (simp add: outage_failed_def Let_def)
    have "n * CLAIM_OUTAGE_REPORT_EVERY \<le> last (t # ts) - t"
      using Cons.IH [of t "fst (outage_failed t co)"] Cons.prems(1) run by (simp add: f)
    then show ?thesis using True le f run by (auto simp: algebra_simps)
  next
    case False
    then have f: "outage_failed t co = (\<lparr>co_consecutive = co_consecutive co + 1, co_last_report = Some t0\<rparr>, False)"
      using Cons.prems(2) by (simp add: outage_failed_def Let_def)
    have "n * CLAIM_OUTAGE_REPORT_EVERY \<le> last (t0 # ts) - t0"
      using Cons.IH [of t0 "fst (outage_failed t co)"] Cons.prems(1) run by (simp add: f)
    also have "\<dots> \<le> last (t0 # t # ts) - t0" using le by (auto simp: diff_le_mono)
    finally show ?thesis using f run by auto
  qed
qed simp

text \<open>
  An outage of the claim is reported at once and then at most once in every five minutes, however
  often the loop polls, and no failure of it is lost: the length the recovery reports is the
  number of failures.
\<close>

theorem claim_outage_is_reported_sparsely:
  assumes "sorted (t0 # ts)"
  shows "(snd (outage_run (t0 # ts) outage_default) - 1) * CLAIM_OUTAGE_REPORT_EVERY \<le> last (t0 # ts) - t0 \<and>
    1 \<le> snd (outage_run (t0 # ts) outage_default) \<and>
    outage_recovered (fst (outage_run (t0 # ts) outage_default)) = (outage_default, Suc (length ts))"
proof -
  let ?co = "\<lparr>co_consecutive = 1, co_last_report = Some t0\<rparr>"
  obtain co n where run: "outage_run ts ?co = (co, n)" by (rule prod.exhaust)
  have "outage_run (t0 # ts) outage_default = (co, n + 1)"
    using run by (simp add: outage_failed_def outage_default_def)
  moreover have "n * CLAIM_OUTAGE_REPORT_EVERY \<le> last (t0 # ts) - t0"
    using outage_reports_after [OF assms, of ?co] run by simp
  moreover have "co_consecutive co = Suc (length ts)" using outage_consecutive [of ts ?co] run by simp
  ultimately show ?thesis by (simp add: outage_recovered_def)
qed

theorem claim_outage_is_reported_sparsely_witness:
  "snd (outage_run [0, 1, 2] outage_default) = 1"
proof -
  have "(snd (outage_run [0, 1, 2] outage_default) - 1) * CLAIM_OUTAGE_REPORT_EVERY \<le> 2 \<and>
      1 \<le> snd (outage_run [0, 1, 2] outage_default)"
    using claim_outage_is_reported_sparsely [of 0 "[1, 2]"] by simp
  then show ?thesis
    by (cases "snd (outage_run [0, 1, 2] outage_default) - 1")
       (auto simp: CLAIM_OUTAGE_REPORT_EVERY_def from_secs_def nanos_per_sec_def)
qed

section \<open>Steps\<close>

definition phase_of :: "nat \<Rightarrow> worker \<Rightarrow> phase" where
  "phase_of n w = tk_phase (w_tasks w ! n)"

inductive worker_step :: "worker_config \<Rightarrow> run_config \<Rightarrow> worker \<Rightarrow> worker \<Rightarrow> bool" for wc cfg where
  others: "queue_step (wk_store w) s \<Longrightarrow> worker_step wc cfg w (w\<lparr>wk_store := s\<rparr>)"
| look: "0 < w_permits w \<Longrightarrow> w_blocked w = None \<Longrightarrow> \<not> w_shutdown w \<Longrightarrow>
    worker_step wc cfg w (claim_look wc w)"
| take: "w_blocked w = Some b \<Longrightarrow> worker_step wc cfg w (claim_take jd aging now b w)"
| claim_error: "w_blocked w = Some b \<Longrightarrow> worker_step wc cfg w (claim_failed w)"
| register: "n < length (w_tasks w) \<Longrightarrow> phase_of n w = Spawned \<Longrightarrow> worker_step wc cfg w (task_register n w)"
| resolve: "n < length (w_tasks w) \<Longrightarrow> phase_of n w = Executing \<Longrightarrow>
    (j_id (task_job n w), j_attempts (task_job n w)) \<in> set (w_fired w) \<Longrightarrow>
    worker_step wc cfg w (task_resolve n w)"
| settle: "n < length (w_tasks w) \<Longrightarrow>
    (phase_of n w = Executing \<and> rp_outcome report \<noteq> TokenFired) \<or>
    (phase_of n w = Resolved kind \<and> rp_outcome report = TokenFired) \<Longrightarrow>
    (\<And>x. queue_step\<^sup>*\<^sup>* x (re_between env x)) \<Longrightarrow>
    worker_step wc cfg w (task_settle cfg env stamp report n w)"
| refuse: "n < length (w_tasks w) \<Longrightarrow> phase_of n w = Executing \<Longrightarrow>
    (\<And>x. queue_step\<^sup>*\<^sup>* x (re_between env x)) \<Longrightarrow> worker_step wc cfg w (task_refuse cfg env msg n w)"
| finish: "n < length (w_tasks w) \<Longrightarrow> phase_of n w = Settled \<Longrightarrow> worker_step wc cfg w (task_end n w)"
| door: "worker_step wc cfg w (fst (door_running i w))"
| shutdown: "worker_step wc cfg w (w\<lparr>w_shutdown := True\<rparr>)"
| fire: "w_shutdown w \<Longrightarrow> worker_step wc cfg w (fire_all w)"

definition worker_reachable :: "worker_config \<Rightarrow> run_config \<Rightarrow> worker \<Rightarrow> bool" where
  "worker_reachable wc cfg w \<longleftrightarrow>
     (\<exists>s. queue_reachable s \<and> (worker_step wc cfg)\<^sup>*\<^sup>* (worker_start wc s) w)"

section \<open>The invariant of the loop\<close>

definition task_jobs :: "worker \<Rightarrow> job_row list" where
  "task_jobs w = map tk_job (w_tasks w)"

definition counts_ok :: "worker_config \<Rightarrow> worker \<Rightarrow> bool" where
  "counts_ok wc w \<longleftrightarrow>
     w_permits w + length (task_jobs w) + (if w_blocked w = None then 0 else 1) = concurrency wc \<and>
     distinct (map fst (w_running w)) \<and>
     (\<forall>a. running_count a (w_running w) = count_list (map j_app (task_jobs w)) a) \<and>
     (\<forall>a. 0 < app_limit wc a \<longrightarrow> running_count a (w_running w) \<le> app_limit wc a) \<and>
     (\<forall>b. w_blocked w = Some b \<longrightarrow>
        (\<forall>a. a \<notin> set b \<longrightarrow> 0 < app_limit wc a \<longrightarrow> running_count a (w_running w) < app_limit wc a))"

definition handshake_ok :: "worker \<Rightarrow> bool" where
  "handshake_ok w \<longleftrightarrow>
     distinct (map fst (w_intents w)) \<and> fst ` set (w_intents w) \<subseteq> j_id ` set (task_jobs w) \<and>
     distinct (map fst (w_cancels w)) \<and>
     set (w_cancels w) \<subseteq> (\<lambda>r. (j_id r, j_attempts r)) ` set (task_jobs w)"

lemma running_count_update:
  "running_count a (AList.update b n counts) = (if a = b then n else running_count a counts)"
  by (simp add: running_count_def update_conv')

lemma blocked_apps_sound:
  assumes "distinct (map fst counts)" "a \<notin> set (blocked_apps wc counts)" "0 < app_limit wc a"
  shows "running_count a counts < app_limit wc a"
proof (cases "map_of counts a")
  case (Some n)
  then have "(a, n) \<in> set counts" by (rule map_of_SomeD)
  then have "\<not> n \<ge> app_limit wc a" using assms(2,3) by (force simp: blocked_apps_def)
  then show ?thesis by (simp add: running_count_def Some)
qed (simp add: running_count_def assms(3))

lemma task_jobs_phase [simp]:
  assumes "n < length (w_tasks w)"
  shows "task_jobs (set_phase n p w) = task_jobs w"
proof -
  have "(map tk_job (w_tasks w))[n := map tk_job (w_tasks w) ! n] = map tk_job (w_tasks w)"
    by (rule list_update_id)
  then show ?thesis using assms by (simp add: task_jobs_def set_phase_def map_update)
qed

lemma set_phase_keeps [simp]:
  "wk_store (set_phase n p w) = wk_store w" "w_intents (set_phase n p w) = w_intents w"
  "w_cancels (set_phase n p w) = w_cancels w" "w_running (set_phase n p w) = w_running w"
  "w_permits (set_phase n p w) = w_permits w" "w_blocked (set_phase n p w) = w_blocked w"
  "w_shutdown (set_phase n p w) = w_shutdown w" "w_fired (set_phase n p w) = w_fired w"
  by (simp_all add: set_phase_def)

lemma task_jobs_fields [simp]:
  "task_jobs (w\<lparr>wk_store := s\<rparr>) = task_jobs w" "task_jobs (w\<lparr>w_intents := ins\<rparr>) = task_jobs w"
  "task_jobs (w\<lparr>w_cancels := cs\<rparr>) = task_jobs w" "task_jobs (w\<lparr>w_fired := fs\<rparr>) = task_jobs w"
  "task_jobs (w\<lparr>w_running := rs\<rparr>) = task_jobs w" "task_jobs (w\<lparr>w_permits := k\<rparr>) = task_jobs w"
  "task_jobs (w\<lparr>w_blocked := b\<rparr>) = task_jobs w" "task_jobs (w\<lparr>w_shutdown := d\<rparr>) = task_jobs w"
  by (simp_all add: task_jobs_def)

lemma intents_shrink:
  "distinct (map fst ins) \<Longrightarrow> distinct (map fst (filter p ins))"
  "fst ` set (filter (\<lambda>(job, _). job \<noteq> i) ins) = fst ` set ins - {i}"
  by (auto simp: distinct_map_filter)

lemma mark_user_keys [simp]: "map fst (mark_user i ins) = map fst ins"
  by (induction i ins rule: mark_user.induct) auto

lemma claim_user_cancel_keys:
  assumes "distinct (map fst ins)"
  shows "distinct (map fst (fst (claim_user_cancel i ins)))"
    "fst ` set (fst (claim_user_cancel i ins)) \<subseteq> insert i (fst ` set ins)"
proof -
  have "fst ` set (mark_user i ins) = fst ` set ins" using mark_user_keys [of i ins] by (metis set_map)
  then show "distinct (map fst (fst (claim_user_cancel i ins)))"
      "fst ` set (fst (claim_user_cancel i ins)) \<subseteq> insert i (fst ` set ins)"
    using assms
    by (auto simp: claim_user_cancel_def find_None_iff split: option.splits CancelKind.splits)
qed

lemma resolve_cancel_keys:
  assumes "distinct (map fst ins)"
  shows "distinct (map fst (fst (resolve_cancel i sd ins)))"
    "fst ` set (fst (resolve_cancel i sd ins)) \<subseteq> insert i (fst ` set ins)"
  using assms intents_shrink [of ins] by (auto simp: resolve_cancel_def Let_def)

lemma set_phase_ok:
  assumes "n < length (w_tasks w)"
  shows "counts_ok wc (set_phase n p w) = counts_ok wc w" "handshake_ok (set_phase n p w) = handshake_ok w"
  by (simp_all add: counts_ok_def handshake_ok_def assms)

lemma store_ok_fields [simp]:
  "counts_ok wc (w\<lparr>wk_store := s\<rparr>) = counts_ok wc w" "handshake_ok (w\<lparr>wk_store := s\<rparr>) = handshake_ok w"
  "counts_ok wc (w\<lparr>w_intents := ins\<rparr>) = counts_ok wc w" "counts_ok wc (w\<lparr>w_cancels := cs\<rparr>) = counts_ok wc w"
  "counts_ok wc (w\<lparr>w_fired := fs\<rparr>) = counts_ok wc w" "handshake_ok (w\<lparr>w_fired := fs\<rparr>) = handshake_ok w"
  "counts_ok wc (w\<lparr>w_shutdown := d\<rparr>) = counts_ok wc w" "handshake_ok (w\<lparr>w_shutdown := d\<rparr>) = handshake_ok w"
  "handshake_ok (w\<lparr>w_permits := k\<rparr>) = handshake_ok w" "handshake_ok (w\<lparr>w_blocked := b\<rparr>) = handshake_ok w"
  "handshake_ok (w\<lparr>w_running := rs\<rparr>) = handshake_ok w"
  by (simp_all add: counts_ok_def handshake_ok_def)

lemma claim_look_ok:
  assumes "counts_ok wc w" "0 < w_permits w" "w_blocked w = None"
  shows "counts_ok wc (claim_look wc w)"
  using assms by (auto simp: counts_ok_def claim_look_def dest: blocked_apps_sound)

lemma claim_take_ok:
  assumes "counts_ok wc w" "handshake_ok w" "queue_reachable (wk_store w)" "w_blocked w = Some b"
  shows "counts_ok wc (claim_take jd aging now b w) \<and> handshake_ok (claim_take jd aging now b w) \<and>
    queue_reachable (wk_store (claim_take jd aging now b w))"
proof -
  obtain s out where c: "claim_next jd b aging now (wk_store w) = (s, out)" by (rule prod.exhaust)
  have "queue_step\<^sup>*\<^sup>* (wk_store w) s" using claim_step [OF c] by blast
  then have q: "queue_reachable s" by (rule reachable_steps [OF assms(3)])
  show ?thesis
  proof (cases out)
    case None
    then show ?thesis
      using assms q by (auto simp: claim_take_def c counts_ok_def handshake_ok_def)
  next
    case (Some job)
    have "j_app job \<notin> set b"
      using claim_result(3) [OF reachable_ok [OF assms(3)] c [unfolded Some]]
      by (auto simp: claimable_def claim_set_def)
    then show ?thesis
      using assms q
      by (auto simp: claim_take_def c Some counts_ok_def handshake_ok_def task_jobs_def running_count_update
          distinct_update Suc_le_eq)
  qed
qed

lemma claim_failed_ok:
  assumes "counts_ok wc w" "w_blocked w = Some b"
  shows "counts_ok wc (claim_failed w)"
  using assms by (auto simp: counts_ok_def claim_failed_def)

lemma task_job_mem: "n < length (w_tasks w) \<Longrightarrow> task_job n w \<in> set (task_jobs w)"
  by (auto simp: task_job_def task_jobs_def)

lemma handshake_intents:
  assumes "handshake_ok w" "distinct (map fst ins)" "fst ` set ins \<subseteq> j_id ` set (task_jobs w)"
  shows "handshake_ok (w\<lparr>w_intents := ins\<rparr>)"
  using assms by (simp add: handshake_ok_def)

lemma task_register_ok:
  assumes "handshake_ok w" "n < length (w_tasks w)"
  shows "handshake_ok (task_register n w)"
proof -
  let ?job = "task_job n w"
  have "set (AList.update (j_id ?job) (j_attempts ?job) (w_cancels w)) \<subseteq>
      insert (j_id ?job, j_attempts ?job) (set (w_cancels w))"
  proof
    fix x assume x: "x \<in> set (AList.update (j_id ?job) (j_attempts ?job) (w_cancels w))"
    have d: "distinct (map fst (AList.update (j_id ?job) (j_attempts ?job) (w_cancels w)))"
      using assms(1) by (simp add: handshake_ok_def distinct_update)
    from x d have "map_of (AList.update (j_id ?job) (j_attempts ?job) (w_cancels w)) (fst x) = Some (snd x)" by simp
    then show "x \<in> insert (j_id ?job, j_attempts ?job) (set (w_cancels w))"
      by (cases x) (auto simp: update_conv' split: if_splits dest: map_of_SomeD)
  qed
  then have "handshake_ok (w\<lparr>w_cancels := AList.update (j_id ?job) (j_attempts ?job) (w_cancels w)\<rparr>)"
    using assms(1) task_job_mem [OF assms(2)] by (auto simp: handshake_ok_def distinct_update)
  then show ?thesis
    using assms(2) by (simp add: task_register_def Let_def set_phase_ok)
qed

lemma task_resolve_ok:
  assumes "handshake_ok w" "n < length (w_tasks w)"
  shows "handshake_ok (task_resolve n w)"
proof -
  let ?ins = "fst (resolve_cancel (j_id (task_job n w)) (w_shutdown w) (w_intents w))"
  have d: "distinct (map fst (w_intents w))" using assms(1) by (simp add: handshake_ok_def)
  have "fst ` set ?ins \<subseteq> j_id ` set (task_jobs w)"
    using resolve_cancel_keys(2) [OF d, of "j_id (task_job n w)" "w_shutdown w"] assms(1) task_job_mem [OF assms(2)]
    by (auto simp: handshake_ok_def)
  then show ?thesis
    using handshake_intents [OF assms(1) resolve_cancel_keys(1) [OF d]] assms(2)
    by (simp add: task_resolve_def split_beta set_phase_ok)
qed

lemma door_running_ok:
  assumes "handshake_ok w"
  shows "handshake_ok (fst (door_running i w))"
proof (cases "map_of (w_cancels w) i")
  case None
  then show ?thesis by (simp add: door_running_def assms)
next
  case (Some a)
  have d: "distinct (map fst (w_intents w))" using assms by (simp add: handshake_ok_def)
  have "i \<in> j_id ` set (task_jobs w)"
    using assms map_of_SomeD [OF Some] by (force simp: handshake_ok_def)
  then have "fst ` set (fst (claim_user_cancel i (w_intents w))) \<subseteq> j_id ` set (task_jobs w)"
    using claim_user_cancel_keys(2) [OF d, of i] assms by (auto simp: handshake_ok_def)
  then show ?thesis
    using handshake_intents [OF assms claim_user_cancel_keys(1) [OF d]]
    by (simp add: door_running_def Some split_beta handshake_ok_def)
qed

lemma task_jobs_end:
  assumes "n < length (w_tasks w)"
  obtains xs ys where "task_jobs w = xs @ task_job n w # ys" "task_jobs (task_end n w) = xs @ ys"
proof -
  have "w_tasks w = take n (w_tasks w) @ w_tasks w ! n # drop (Suc n) (w_tasks w)"
    using assms by (rule id_take_nth_drop)
  then have "task_jobs w = map tk_job (take n (w_tasks w)) @ task_job n w # map tk_job (drop (Suc n) (w_tasks w))"
    unfolding task_jobs_def task_job_def by (metis list.simps(9) map_append)
  then show thesis
    by (rule that) (simp add: task_jobs_def task_end_def Let_def)
qed

lemma task_end_fields [simp]:
  "w_permits (task_end n w) = w_permits w + 1" "w_blocked (task_end n w) = w_blocked w"
  "wk_store (task_end n w) = wk_store w"
  "w_intents (task_end n w) = forget_cancel_intent (j_id (task_job n w)) (w_intents w)"
  by (simp_all add: task_end_def Let_def)

lemma task_end_counts:
  assumes "counts_ok wc w" "n < length (w_tasks w)"
  shows "counts_ok wc (task_end n w)"
proof -
  let ?job = "task_job n w"
  obtain xs ys where jobs: "task_jobs w = xs @ ?job # ys" "task_jobs (task_end n w) = xs @ ys"
    by (rule task_jobs_end [OF assms(2)])
  have count: "running_count a (w_running w) = count_list (map j_app (task_jobs w)) a" for a
    using assms(1) by (simp add: counts_ok_def)
  have "0 < running_count (j_app ?job) (w_running w)" by (simp add: count jobs)
  then obtain k where k: "map_of (w_running w) (j_app ?job) = Some k"
    by (auto simp: running_count_def split: option.splits)
  have run: "w_running (task_end n w) = AList.update (j_app ?job) (k - 1) (w_running w)"
    by (simp add: task_end_def Let_def k)
  have rc: "running_count (j_app ?job) (w_running w) = k" by (simp add: running_count_def k)
  have after: "running_count a (w_running (task_end n w)) = count_list (map j_app (task_jobs (task_end n w))) a" for a
    using count [of a] rc by (auto simp: run running_count_update jobs)
  have le: "running_count a (w_running (task_end n w)) \<le> running_count a (w_running w)" for a
    by (auto simp: after count jobs)
  have "distinct (map fst (w_running (task_end n w)))"
    using assms(1) by (simp add: run counts_ok_def distinct_update)
  moreover have "w_permits (task_end n w) + length (task_jobs (task_end n w)) +
      (if w_blocked (task_end n w) = None then 0 else 1) = concurrency wc"
    using assms(1) by (simp add: counts_ok_def jobs)
  moreover have "running_count a (w_running (task_end n w)) \<le> app_limit wc a" if "0 < app_limit wc a" for a
    using assms(1) that le [of a] by (auto simp: counts_ok_def dest!: spec [of _ a])
  moreover have "running_count a (w_running (task_end n w)) < app_limit wc a"
    if "w_blocked (task_end n w) = Some b" "a \<notin> set b" "0 < app_limit wc a" for a b
  proof -
    have "running_count a (w_running w) < app_limit wc a"
      using assms(1) that unfolding counts_ok_def task_end_fields by blast
    with le [of a] show ?thesis by simp
  qed
  ultimately show ?thesis using after unfolding counts_ok_def by blast
qed

lemma task_end_handshake:
  assumes "handshake_ok w" "n < length (w_tasks w)"
  shows "handshake_ok (task_end n w)"
proof -
  let ?job = "task_job n w"
  obtain xs ys where jobs: "task_jobs w = xs @ ?job # ys" "task_jobs (task_end n w) = xs @ ys"
    by (rule task_jobs_end [OF assms(2)])
  have d: "distinct (map fst (w_intents w))" "distinct (map fst (w_cancels w))"
    using assms(1) by (simp_all add: handshake_ok_def)
  have "fst ` set (w_intents (task_end n w)) \<subseteq> j_id ` set (task_jobs (task_end n w))"
    using assms(1) by (auto simp: handshake_ok_def jobs forget_cancel_intent_def)
  moreover have "distinct (map fst (w_intents (task_end n w)))"
    using intents_shrink(1) [OF d(1)] by (simp add: forget_cancel_intent_def)
  moreover have "distinct (map fst (w_cancels (task_end n w)))"
    using d(2) by (simp add: task_end_def Let_def distinct_delete)
  moreover have "set (w_cancels (task_end n w)) \<subseteq> (\<lambda>r. (j_id r, j_attempts r)) ` set (xs @ ys)"
  proof
    fix x assume x: "x \<in> set (w_cancels (task_end n w))"
    have mem: "x \<in> set (w_cancels w)" and ne: "x \<noteq> (j_id ?job, j_attempts ?job)"
      using x d(2) by (auto simp: task_end_def Let_def AList.delete_eq split: if_splits)
    then show "x \<in> (\<lambda>r. (j_id r, j_attempts r)) ` set (xs @ ys)"
      using assms(1) by (auto simp: handshake_ok_def jobs)
  qed
  ultimately show ?thesis by (simp add: handshake_ok_def jobs(2))
qed

lemma refuse_steps:
  assumes "\<And>x. queue_step\<^sup>*\<^sup>* x (re_between env x)"
  shows "queue_step\<^sup>*\<^sup>* s (fst (refuse_run cfg env job msg s))"
  using between_finalize [OF assms, of s cfg "j_id job"]
    between_steps(3) [OF assms queue_step.fail_permanently [of s "re_write_now env" "j_id job" "j_attempts job" msg],
      of cfg "j_id job"]
  by (auto simp: refuse_run_def)

lemma worker_step_ok:
  assumes "worker_step wc cfg w w'" "counts_ok wc w" "handshake_ok w" "queue_reachable (wk_store w)"
  shows "counts_ok wc w' \<and> handshake_ok w' \<and> queue_reachable (wk_store w')"
  using assms
proof (induction rule: worker_step.induct)
  case (others w s)
  have "queue_step\<^sup>*\<^sup>* (wk_store w) s" using others.hyps by blast
  then show ?case using others.prems reachable_steps by simp
next
  case (look w)
  then show ?case using claim_look_ok by (simp add: claim_look_def)
next
  case (take w b jd aging now)
  then show ?case by (intro claim_take_ok)
next
  case (claim_error w b)
  then show ?case using claim_failed_ok by (simp add: claim_failed_def)
next
  case (register n w)
  then show ?case
    using task_register_ok by (simp add: task_register_def Let_def set_phase_ok)
next
  case (resolve n w)
  then show ?case
    using task_resolve_ok by (simp add: task_resolve_def split_beta set_phase_ok)
next
  case (settle n w report kind env stamp)
  then show ?case
    using reachable_steps [OF settle.prems(3) settle_steps] by (simp add: task_settle_def Let_def set_phase_ok)
next
  case (refuse n w env msg)
  then show ?case
    using reachable_steps [OF refuse.prems(3) refuse_steps] by (simp add: task_refuse_def set_phase_ok)
next
  case (finish n w)
  then show ?case using task_end_counts task_end_handshake by simp
next
  case (door w i)
  then show ?case
    using door_running_ok by (auto simp: door_running_def split_beta split: option.splits)
qed (simp_all add: fire_all_def)

lemma worker_reachable_ok:
  assumes "worker_reachable wc cfg w"
  shows "counts_ok wc w \<and> handshake_ok w \<and> queue_reachable (wk_store w)"
proof -
  obtain s where s: "queue_reachable s" "(worker_step wc cfg)\<^sup>*\<^sup>* (worker_start wc s) w"
    using assms by (auto simp: worker_reachable_def)
  from s(2) show ?thesis
  proof (induction rule: rtranclp_induct)
    case base
    show ?case
      by (simp add: worker_start_def counts_ok_def handshake_ok_def task_jobs_def running_count_def s(1))
  next
    case (step y z)
    then show ?case using worker_step_ok by blast
  qed
qed

text \<open>
  C10. However the claim loop, the tasks, the doors, the shutdown and all other users of the queue
  interleave, the worker never has more jobs in flight than its concurrency and never more of one
  app than that app's limit, its counts are exact, and the permits, the jobs in flight and the
  claim under way add up, so that none is ever lost. The queue's own invariant holds throughout, and
  the table of cancel intents is bounded by the jobs in flight, with one entry for a job.
\<close>

theorem worker_loop_invariant:
  assumes "worker_reachable wc cfg w"
  shows "w_permits w + length (w_tasks w) + (if w_blocked w = None then 0 else 1) = max (wc_concurrency wc) 1 \<and>
    running_count a (w_running w) = length (filter (\<lambda>r. j_app r = a) (task_jobs w)) \<and>
    (app_limit wc a = 0 \<or> length (filter (\<lambda>r. j_app r = a) (task_jobs w)) \<le> app_limit wc a) \<and>
    queue_reachable (wk_store w) \<and> distinct (map fst (w_intents w)) \<and>
    length (w_intents w) \<le> length (w_tasks w)"
proof -
  have ok: "counts_ok wc w" "handshake_ok w" "queue_reachable (wk_store w)"
    using worker_reachable_ok [OF assms] by auto
  have "count_list (map j_app rs) a = length (filter (\<lambda>r. j_app r = a) rs)" for rs
    by (induction rs) auto
  then have count: "running_count a (w_running w) = length (filter (\<lambda>r. j_app r = a) (task_jobs w))"
    using ok(1) by (simp add: counts_ok_def)
  have lim: "app_limit wc a = 0 \<or> running_count a (w_running w) \<le> app_limit wc a"
    using ok(1) by (auto simp: counts_ok_def)
  have "length (w_intents w) = card (fst ` set (w_intents w))"
    using ok(2) by (metis handshake_ok_def distinct_card length_map set_map)
  also have "\<dots> \<le> card (j_id ` set (task_jobs w))"
    using ok(2) by (intro card_mono) (auto simp: handshake_ok_def)
  also have "\<dots> \<le> length (w_tasks w)"
    using card_image_le [of "set (task_jobs w)" j_id] card_length [of "task_jobs w"] by (simp add: task_jobs_def)
  finally show ?thesis
    using ok count lim by (simp add: counts_ok_def handshake_ok_def concurrency_def task_jobs_def)
qed

section \<open>The handshake\<close>

text \<open>
  What the table of intents is for, as a word for each job: a run is unclaimed, claimed by an operator,
  or committed to a suspend.
\<close>

datatype run_word = Unclaimed | ClaimedByUser | Suspending

datatype handshake = Door uuid | Resolve uuid bool | Forget uuid

fun handshake_step :: "handshake \<Rightarrow> intents \<Rightarrow> intents" where
  "handshake_step (Door i) ins = fst (claim_user_cancel i ins)"
| "handshake_step (Resolve i sd) ins = fst (resolve_cancel i sd ins)"
| "handshake_step (Forget i) ins = forget_cancel_intent i ins"

fun door_word :: "run_word \<Rightarrow> run_word" where
  "door_word Suspending = Suspending"
| "door_word _ = ClaimedByUser"

fun resolve_word :: "bool \<Rightarrow> run_word \<Rightarrow> run_word" where
  "resolve_word _ ClaimedByUser = Unclaimed"
| "resolve_word True _ = Suspending"
| "resolve_word False _ = Unclaimed"

fun handshake_spec :: "handshake \<Rightarrow> (uuid \<Rightarrow> run_word) \<Rightarrow> uuid \<Rightarrow> run_word" where
  "handshake_spec (Door i) f = f(i := door_word (f i))"
| "handshake_spec (Resolve i sd) f = f(i := resolve_word sd (f i))"
| "handshake_spec (Forget i) f = f(i := Unclaimed)"

definition word_of :: "intents \<Rightarrow> uuid \<Rightarrow> run_word" where
  "word_of ins i =
     (case map_of ins i of None \<Rightarrow> Unclaimed | Some User \<Rightarrow> ClaimedByUser | Some ShutdownSuspend \<Rightarrow> Suspending)"

lemma find_map_of: "find (\<lambda>(job, _). job = i) ins = map_option (Pair i) (map_of ins i)"
  by (induction ins) auto

lemma map_of_without: "map_of (filter (\<lambda>(job, _). job \<noteq> i) ins) = (map_of ins)(i := None)"
  by (induction ins) (auto simp: fun_eq_iff)

lemma map_of_mark_user: "map_of ins i \<noteq> None \<Longrightarrow> map_of (mark_user i ins) = (map_of ins)(i \<mapsto> User)"
  by (induction i ins rule: mark_user.induct) (auto simp: fun_eq_iff)

lemma map_of_snoc: "map_of (ins @ [(i, k)]) j = (case map_of ins j of Some x \<Rightarrow> Some x | None \<Rightarrow> if j = i then Some k else None)"
  by (simp add: map_add_def split: option.splits)

lemma claimed_iff:
  "distinct (map fst ins) \<Longrightarrow> list_ex (\<lambda>(job, kind). job = i \<and> kind = User) ins \<longleftrightarrow> map_of ins i = Some User"
  by (auto simp: list_ex_iff)

lemma door_refines:
  "word_of (fst (claim_user_cancel i ins)) = (word_of ins)(i := door_word (word_of ins i))"
  "snd (claim_user_cancel i ins) = ShutdownSuspend \<longleftrightarrow> word_of ins i = Suspending"
  by (auto simp: claim_user_cancel_def find_map_of word_of_def fun_eq_iff map_of_mark_user map_of_snoc
      split: option.splits CancelKind.splits)

lemma resolve_refines:
  assumes "distinct (map fst ins)"
  shows "word_of (fst (resolve_cancel i sd ins)) = (word_of ins)(i := resolve_word sd (word_of ins i))"
    "snd (resolve_cancel i sd ins) = ShutdownSuspend \<longleftrightarrow> sd \<and> word_of ins i \<noteq> ClaimedByUser"
  using claimed_iff [OF assms, of i]
  by (cases sd; auto simp: resolve_cancel_def Let_def word_of_def fun_eq_iff map_of_without map_of_snoc
      split: option.splits CancelKind.splits)+

lemma forget_refines: "word_of (forget_cancel_intent i ins) = (word_of ins)(i := Unclaimed)"
  by (auto simp: forget_cancel_intent_def word_of_def fun_eq_iff map_of_without)

lemma handshake_step_keys: "distinct (map fst ins) \<Longrightarrow> distinct (map fst (handshake_step op ins))"
  by (cases op) (simp_all add: claim_user_cancel_keys resolve_cancel_keys intents_shrink forget_cancel_intent_def)

lemma handshake_step_refines:
  "distinct (map fst ins) \<Longrightarrow> word_of (handshake_step op ins) = handshake_spec op (word_of ins)"
  by (cases op) (simp_all add: door_refines resolve_refines forget_refines)

lemma handshake_run_refines:
  "distinct (map fst ins) \<Longrightarrow> word_of (fold handshake_step ops ins) = fold handshake_spec ops (word_of ins) \<and>
     distinct (map fst (fold handshake_step ops ins))"
  by (induction ops arbitrary: ins) (simp_all add: handshake_step_refines handshake_step_keys)

text \<open>
  C11. The table of cancel intents implements one word per job: after any sequence of cancels at the
  door, resolved tokens and clean-ups, of any jobs in any order, the door answers that the job was
  suspended exactly when its run has committed to that, and a run resolves its token as a suspend
  exactly during a shutdown when no operator's claim on that job stands.
\<close>

theorem handshake_refines_words:
  "word_of (fold handshake_step ops []) = fold handshake_spec ops (\<lambda>_. Unclaimed) \<and>
   (snd (claim_user_cancel i (fold handshake_step ops [])) = ShutdownSuspend) =
     (fold handshake_spec ops (\<lambda>_. Unclaimed) i = Suspending) \<and>
   (snd (resolve_cancel i sd (fold handshake_step ops [])) = ShutdownSuspend) =
     (sd \<and> fold handshake_spec ops (\<lambda>_. Unclaimed) i \<noteq> ClaimedByUser)"
proof -
  have "word_of [] = (\<lambda>_. Unclaimed)" by (simp add: word_of_def fun_eq_iff)
  then have "word_of (fold handshake_step ops []) = fold handshake_spec ops (\<lambda>_. Unclaimed)"
      "distinct (map fst (fold handshake_step ops []))"
    using handshake_run_refines [of "[]" ops] by simp_all
  then show ?thesis using door_refines(2) resolve_refines(2) by simp
qed

text \<open>The loop changes the table by these operations only.\<close>

lemma worker_step_handshake:
  "worker_step wc cfg w w' \<Longrightarrow> w_intents w' = w_intents w \<or> (\<exists>op. w_intents w' = handshake_step op (w_intents w))"
proof (induction rule: worker_step.induct)
  case (take w b jd aging now)
  then show ?case by (auto simp: claim_take_def split: prod.splits option.splits)
next
  case (resolve n w)
  then show ?case
    by (auto simp: task_resolve_def split_beta intro!: exI [of _ "Resolve (j_id (task_job n w)) (w_shutdown w)"])
next
  case (finish n w)
  then show ?case by (auto intro!: exI [of _ "Forget (j_id (task_job n w))"])
next
  case (door w i)
  then show ?case
    by (auto simp: door_running_def split_beta intro!: exI [of _ "Door i"] split: option.splits)
qed (simp_all add: claim_look_def claim_failed_def task_register_def task_settle_def task_refuse_def fire_all_def Let_def)

lemma acknowledged_cancel_stands:
  assumes "distinct (map fst ins)" "claim_user_cancel i ins = (ins1, User)"
    and "list_all (\<lambda>op. case op of Door _ \<Rightarrow> True | Resolve j _ \<Rightarrow> j \<noteq> i | Forget j \<Rightarrow> j \<noteq> i) ops"
  shows "snd (resolve_cancel i sd (fold handshake_step ops ins1)) = User"
proof -
  have d: "distinct (map fst ins1)" using claim_user_cancel_keys(1) [OF assms(1), of i] assms(2) by simp
  have w: "word_of ins1 i = ClaimedByUser"
  proof -
    have "word_of ins i \<noteq> Suspending" using door_refines(2) [of i ins] assms(2) by simp
    then show ?thesis using door_refines(1) [of i ins] assms(2) by (cases "word_of ins i") simp_all
  qed
  have "fold handshake_spec ops f i = ClaimedByUser" if "f i = ClaimedByUser" for f
    using that assms(3)
  proof (induction ops arbitrary: f)
    case (Cons op ops)
    then show ?case by (cases op) (auto intro!: Cons.IH)
  qed simp
  then show ?thesis
    using handshake_run_refines [OF d, of ops] w resolve_refines(2) [of "fold handshake_step ops ins1" i sd]
    by (cases "snd (resolve_cancel i sd (fold handshake_step ops ins1))") auto
qed

section \<open>A cancel that is lost\<close>

text \<open>
  A clean-up drops the intent of the job, not of its own run. While an attempt that lost its row is
  still in flight beside the live one, an operator's cancel of the live attempt can be answered as
  stopping it; when the old task then ends, during a shutdown, the intent is gone and the live
  attempt resolves the same token as a suspend: it is re-queued and runs again.
\<close>

theorem foreign_cleanup_loses_a_cancel:
  assumes "worker_reachable wc cfg w" and "m < n" and "n < length (w_tasks w)"
    and "j_id (task_job m w) = i" and "j_id (task_job n w) = i"
    and "phase_of m w = Settled" and "phase_of n w = Executing"
    and "map_of (w_cancels w) i = Some (j_attempts (task_job n w))"
    and "map_of (w_intents w) i = None" and "w_shutdown w"
    and "door_running i w = (w1, answer)"
    and "w2 = task_end m w1" and "w3 = task_resolve (n - 1) w2"
  shows "answer = Some User \<and> worker_step wc cfg w w1 \<and> worker_step wc cfg w1 w2 \<and> worker_step wc cfg w2 w3 \<and>
    phase_of (n - 1) w3 = Resolved ShutdownSuspend"
proof -
  have d: "distinct (map fst (w_intents w))"
    using worker_reachable_ok [OF assms(1)] by (simp add: handshake_ok_def)
  have door: "answer = Some User" "w1 = w\<lparr>w_intents := fst (claim_user_cancel i (w_intents w)),
      w_fired := (i, j_attempts (task_job n w)) # w_fired w\<rparr>"
    using assms(8,9,11) by (auto simp: door_running_def claim_user_cancel_def find_map_of)
  have tasks: "w_tasks w2 = take m (w_tasks w) @ drop (Suc m) (w_tasks w)"
    by (simp add: assms(12) door(2) task_end_def Let_def)
  have nth: "w_tasks w2 ! (n - 1) = w_tasks w ! n" and len: "n - 1 < length (w_tasks w2)"
    using assms(2,3) by (auto simp: tasks nth_append min_def)
  have same: "task_job k w1 = task_job k w" "phase_of k w1 = phase_of k w" for k
    by (simp_all add: door(2) task_job_def phase_of_def)
  have job: "task_job (n - 1) w2 = task_job n w" "phase_of (n - 1) w2 = Executing"
    using nth assms(7) by (simp_all add: task_job_def phase_of_def)
  have fired: "(i, j_attempts (task_job n w)) \<in> set (w_fired w2)" and down: "w_shutdown w2"
    by (simp_all add: assms(10,12) door(2) task_end_def Let_def)
  have s1: "worker_step wc cfg w w1" using worker_step.door [of wc cfg w i] assms(11) by simp
  have s2: "worker_step wc cfg w1 w2"
    unfolding assms(12) using assms(2,3,6) same(2) [of m] by (intro worker_step.finish) (simp_all add: door(2))
  have s3: "worker_step wc cfg w2 w3"
    unfolding assms(13) using len job fired assms(5) by (intro worker_step.resolve) simp_all
  have "j_id (task_job m w1) = i" using same(1) assms(4) by simp
  then have int2: "w_intents w2 = forget_cancel_intent i (fst (claim_user_cancel i (w_intents w)))"
    unfolding assms(12) task_end_fields by (simp add: door(2))
  have d2: "distinct (map fst (w_intents w2))" "word_of (w_intents w2) i = Unclaimed"
    using handshake_step_keys [OF claim_user_cancel_keys(1) [OF d], of "Forget i" i]
    by (simp_all add: int2 forget_refines)
  have "snd (resolve_cancel i True (w_intents w2)) = ShutdownSuspend"
    using resolve_refines(2) [OF d2(1)] d2(2) by simp
  then have "phase_of (n - 1) w3 = Resolved ShutdownSuspend"
    using len job(1) assms(5) down
    by (simp add: assms(13) task_resolve_def split_beta phase_of_def set_phase_def)
  with door(1) s1 s2 s3 show ?thesis by simp
qed

text \<open>Two attempts of one job in flight, the first settled, at a shutdown.\<close>

definition loop_cfg :: worker_config where
  "loop_cfg = \<lparr>wc_concurrency = 2, wc_default_app_concurrency = 0, wc_app_concurrency = []\<rparr>"

definition loop_claim :: "time \<Rightarrow> worker \<Rightarrow> worker" where
  "loop_claim now w = claim_take (\<lambda>t. of_int t) 0 now [] (claim_look loop_cfg w)"

definition loop_first :: worker where
  "loop_first = task_register 0 (loop_claim 5 (worker_start loop_cfg demo_s1))"

definition loop_reset :: worker where
  "loop_reset = loop_first\<lparr>wk_store := fst (reset 6 [1] (wk_store loop_first))\<rparr>"

definition loop_second :: worker where
  "loop_second = task_register 1 (loop_claim 7 loop_reset)"

definition loop_down :: worker where
  "loop_down = (task_settle run_demo_cfg (run_demo_env False) None (run_demo_report (Finished (Inr JNull))) 0
     loop_second)\<lparr>w_shutdown := True\<rparr>"

lemma loop_claim_steps:
  assumes "0 < w_permits w" "w_blocked w = None" "\<not> w_shutdown w" "blocked_apps loop_cfg (w_running w) = []"
  shows "(worker_step loop_cfg cfg)\<^sup>*\<^sup>* w (loop_claim now w)"
proof -
  have a: "worker_step loop_cfg cfg w (claim_look loop_cfg w)"
    using assms(1-3) by (rule worker_step.look)
  have b: "worker_step loop_cfg cfg (claim_look loop_cfg w) (loop_claim now w)"
    unfolding loop_claim_def by (rule worker_step.take) (simp add: claim_look_def assms(4))
  from a b show ?thesis by (meson r_into_rtranclp rtranclp.rtrancl_into_rtrancl)
qed

lemma loop_first_facts:
  "w_permits (worker_start loop_cfg demo_s1) = 2 \<and> w_blocked (worker_start loop_cfg demo_s1) = None \<and>
   \<not> w_shutdown (worker_start loop_cfg demo_s1) \<and>
   blocked_apps loop_cfg (w_running (worker_start loop_cfg demo_s1)) = []"
  "length (w_tasks (loop_claim 5 (worker_start loop_cfg demo_s1))) = 1 \<and>
   phase_of 0 (loop_claim 5 (worker_start loop_cfg demo_s1)) = Spawned"
  by code_simp+

lemma loop_second_facts:
  "w_permits loop_reset = 1 \<and> w_blocked loop_reset = None \<and> \<not> w_shutdown loop_reset \<and>
   blocked_apps loop_cfg (w_running loop_reset) = []"
  "length (w_tasks (loop_claim 7 loop_reset)) = 2 \<and> phase_of 1 (loop_claim 7 loop_reset) = Spawned"
  "length (w_tasks loop_second) = 2 \<and> phase_of 0 loop_second = Executing"
  by code_simp+

lemma loop_down_facts:
  "length (w_tasks loop_down) = 2 \<and> j_id (task_job 0 loop_down) = [1] \<and> j_id (task_job 1 loop_down) = [1] \<and>
   phase_of 0 loop_down = Settled \<and> phase_of 1 loop_down = Executing \<and>
   map_of (w_cancels loop_down) [1] = Some (j_attempts (task_job 1 loop_down)) \<and>
   map_of (w_intents loop_down) [1] = None \<and> w_shutdown loop_down"
  by code_simp

lemma loop_down_reachable: "worker_reachable loop_cfg run_demo_cfg loop_down"
proof -
  let ?R = "(worker_step loop_cfg run_demo_cfg)\<^sup>*\<^sup>*"
  have 1: "?R (worker_start loop_cfg demo_s1) (loop_claim 5 (worker_start loop_cfg demo_s1))"
    using loop_first_facts(1) by (intro loop_claim_steps) simp_all
  have 2: "worker_step loop_cfg run_demo_cfg (loop_claim 5 (worker_start loop_cfg demo_s1)) loop_first"
    unfolding loop_first_def using loop_first_facts(2) by (intro worker_step.register) simp_all
  have 3: "worker_step loop_cfg run_demo_cfg loop_first loop_reset"
    unfolding loop_reset_def by (intro worker_step.others queue_step.reset)
  have 4: "?R loop_reset (loop_claim 7 loop_reset)"
    using loop_second_facts(1) by (intro loop_claim_steps) simp_all
  have 5: "worker_step loop_cfg run_demo_cfg (loop_claim 7 loop_reset) loop_second"
    unfolding loop_second_def using loop_second_facts(2) by (intro worker_step.register) simp_all
  have 6: "worker_step loop_cfg run_demo_cfg loop_second (task_settle run_demo_cfg (run_demo_env False) None
      (run_demo_report (Finished (Inr JNull))) 0 loop_second)"
    using loop_second_facts(3)
    by (intro worker_step.settle [where kind = User]) (simp_all add: run_demo_report_def run_demo_env_def)
  have 7: "worker_step loop_cfg run_demo_cfg (task_settle run_demo_cfg (run_demo_env False) None
      (run_demo_report (Finished (Inr JNull))) 0 loop_second) loop_down"
    unfolding loop_down_def by (rule worker_step.shutdown)
  have "?R (worker_start loop_cfg demo_s1) loop_down"
    using rtranclp_trans [OF rtranclp.rtrancl_into_rtrancl [OF rtranclp.rtrancl_into_rtrancl [OF 1 2] 3] 4] 5 6 7
    by (meson rtranclp.rtrancl_into_rtrancl)
  then show ?thesis using demo_reachable(1) by (auto simp: worker_reachable_def)
qed

theorem worker_loop_invariant_witness:
  "length (filter (\<lambda>r. j_app r = ''a'') (task_jobs loop_down)) = 2 \<and>
   running_count ''a'' (w_running loop_down) = 2"
proof -
  have "length (filter (\<lambda>r. j_app r = ''a'') (task_jobs loop_down)) = 2" by code_simp
  then show ?thesis using worker_loop_invariant [OF loop_down_reachable, of "''a''"] by simp
qed

theorem foreign_cleanup_loses_a_cancel_witness:
  "snd (door_running [1] loop_down) = Some User \<and>
   phase_of 0 (task_resolve 0 (task_end 0 (fst (door_running [1] loop_down)))) = Resolved ShutdownSuspend"
proof -
  obtain w1 answer where door: "door_running [1] loop_down = (w1, answer)" by (rule prod.exhaust)
  show ?thesis
    using foreign_cleanup_loses_a_cancel [OF loop_down_reachable, of 0 1 "[1]", OF _ _ _ _ _ _ _ _ _ door refl refl]
      loop_down_facts door by simp
qed

end
