(* ===== verification/Executors.thy ===== *)
theory Executors
  imports Worker
begin

text \<open>
  The executor plane, coordinator side: the policy of \<open>crates/server/src/executors.rs\<close> and the doors of
  \<open>crates/server/src/routes/executors.rs\<close> through which a remote process claims a job, keeps its
  lease, saves its checkpoints and reports its outcome. A door checks the fence and then acts in a
  second statement; \<open>between\<close> is what other tasks do to the store in the meantime. The lemmas say
  what the fence refuses, that the cap on an app holds when polls do not overlap, and what two
  overlapping statements can do.
\<close>

section \<open>Policy\<close>

text \<open>\<open>digest\<close> is SHA-256.\<close>

definition secret_matches :: "(string \<Rightarrow> 'd) \<Rightarrow> string \<Rightarrow> string \<Rightarrow> bool" where
  "secret_matches digest presented expected =
     (if trim expected = [] then False else digest presented = digest (trim expected))"

record executor_app =
  ea_name :: string
  ea_executor :: bool

definition eligible_apps :: "executor_app list \<Rightarrow> string list \<Rightarrow> string list" where
  "eligible_apps apps requested =
     sort (filter (\<lambda>name. requested = [] \<or> list_ex (\<lambda>r. r = name) requested)
       (map ea_name (filter ea_executor apps)))"

definition blocked_over_cap :: "(string \<times> nat) list \<Rightarrow> (string \<Rightarrow> nat) \<Rightarrow> string list" where
  "blocked_over_cap counts limit_for =
     sort (map fst (filter (\<lambda>(app, n). limit_for app > 0 \<and> int n \<ge> u64_as_i64 (limit_for app)) counts))"

definition executor_state :: "int \<Rightarrow> int \<Rightarrow> nat \<Rightarrow> string" where
  "executor_state age running offline_after_secs =
     (if offline_after_secs > 0 \<and> age \<ge> u64_as_i64 offline_after_secs then ''offline''
      else if running > 0 then ''busy'' else ''idle'')"

definition age_secs :: "(string \<Rightarrow> time option) \<Rightarrow> string \<Rightarrow> time \<Rightarrow> int" where
  "age_secs parse_time stamp now =
     (case parse_time stamp of None \<Rightarrow> 0 | Some t \<Rightarrow> max (num_seconds (now - t)) 0)"

section \<open>Doors\<close>

datatype executor_refusal =
    PlaneDisabled
  | BadSecret
  | AnonymousExecutor
  | NoSingleOutcome
  | NotOwned uuid int string
  | UnknownJob uuid
  | SaveFailed store_error

record executor_plane =
  ep_enabled :: bool
  ep_secret :: string

record executor_write =
  ew_attempt :: int
  ew_executor_id :: string
  ew_state :: json
  ew_result :: "json option"
  ew_error :: "string option"
  ew_run_ms :: "int option"

definition servable :: "executor_plane \<Rightarrow> bool" where
  "servable plane \<longleftrightarrow> ep_enabled plane \<and> trim (ep_secret plane) \<noteq> []"

definition authorize :: "(string \<Rightarrow> 'd) \<Rightarrow> executor_plane \<Rightarrow> string option \<Rightarrow> executor_refusal option" where
  "authorize digest plane header =
     (if \<not> servable plane then Some PlaneDisabled
      else if \<not> secret_matches digest (case header of Some h \<Rightarrow> h | None \<Rightarrow> []) (ep_secret plane)
      then Some BadSecret else None)"

definition owned_by_executor :: "uuid \<Rightarrow> executor_write \<Rightarrow> store \<Rightarrow> executor_refusal option" where
  "owned_by_executor i wr s =
     (if job_claimed_by i (ew_attempt wr) (ew_executor_id wr) s then None
      else Some (NotOwned i (ew_attempt wr) (ew_executor_id wr)))"

text \<open>One turn of the long poll: the cap is read, then the claim is made.\<close>

definition poll_once ::
  "worker_config \<Rightarrow> (time \<Rightarrow> rat) \<Rightarrow> rat \<Rightarrow> string \<Rightarrow> string list \<Rightarrow> (store \<Rightarrow> store) \<Rightarrow> time \<Rightarrow> store
    \<Rightarrow> store \<times> job_row option" where
  "poll_once wc jd aging executor eligible between now s =
     (let blocked = blocked_over_cap (executor_running_counts s) (app_limit wc)
      in claim_next_for_executor jd executor eligible blocked aging now (between s))"

text \<open>The turns until a job is found or the deadline has passed: a turn's clock, what happens before it
  and what happens inside it.\<close>

fun poll_loop ::
  "worker_config \<Rightarrow> (time \<Rightarrow> rat) \<Rightarrow> rat \<Rightarrow> string \<Rightarrow> string list \<Rightarrow> (time \<times> (store \<Rightarrow> store) \<times> (store \<Rightarrow> store)) list
    \<Rightarrow> store \<Rightarrow> store \<times> job_row option" where
  "poll_loop wc jd aging executor eligible [] s = (s, None)"
| "poll_loop wc jd aging executor eligible ((now, idle, between) # turns) s =
     (case poll_once wc jd aging executor eligible between now (idle s) of
        (s', Some job) \<Rightarrow> (s', Some job)
      | (s', None) \<Rightarrow> poll_loop wc jd aging executor eligible turns s')"

definition claim_job ::
  "worker_config \<Rightarrow> run_config \<Rightarrow> run_env \<Rightarrow> (string \<Rightarrow> 'd) \<Rightarrow> executor_plane \<Rightarrow> executor_app list \<Rightarrow> string option
    \<Rightarrow> (time \<Rightarrow> rat) \<Rightarrow> rat \<Rightarrow> string \<Rightarrow> string list \<Rightarrow> (time \<times> (store \<Rightarrow> store) \<times> (store \<Rightarrow> store)) list
    \<Rightarrow> store \<Rightarrow> store \<times> effect list \<times> (executor_refusal + (job_row \<times> json option) option)" where
  "claim_job wc cfg env digest plane apps header jd aging executor capabilities turns s =
     (case authorize digest plane header of
        Some e \<Rightarrow> (s, [], Inl e)
      | None \<Rightarrow>
          if trim executor = [] then (s, [], Inl AnonymousExecutor)
          else case poll_loop wc jd aging executor (eligible_apps apps capabilities) turns s of
                 (s1, claimed) \<Rightarrow>
                   let s2 = record_executor_poll (re_now env) executor capabilities (claimed \<noteq> None) (re_between env s1)
                   in (case claimed of
                         None \<Rightarrow> (s2, [], Inr None)
                       | Some job \<Rightarrow>
                           (case load_restore cfg env job s2 of
                              (s3, restored) \<Rightarrow> (s3, publish_running job, Inr (Some (job, restored))))))"

definition executor_heartbeat ::
  "(string \<Rightarrow> 'd) \<Rightarrow> executor_plane \<Rightarrow> string option \<Rightarrow> time \<Rightarrow> uuid \<Rightarrow> executor_write \<Rightarrow> store
    \<Rightarrow> store \<times> executor_refusal option" where
  "executor_heartbeat digest plane header now i wr s =
     (case authorize digest plane header of
        Some e \<Rightarrow> (s, Some e)
      | None \<Rightarrow>
          (case heartbeat_from now i (ew_attempt wr) (ew_executor_id wr) s of
             (s', True) \<Rightarrow> (s', None)
           | (s', False) \<Rightarrow> (s', Some (NotOwned i (ew_attempt wr) (ew_executor_id wr)))))"

definition executor_checkpoint ::
  "(string \<Rightarrow> 'd) \<Rightarrow> executor_plane \<Rightarrow> string option \<Rightarrow> run_env \<Rightarrow> (store \<Rightarrow> store) \<Rightarrow> uuid \<Rightarrow> executor_write \<Rightarrow> store
    \<Rightarrow> store \<times> (executor_refusal + bool)" where
  "executor_checkpoint digest plane header env between i wr s =
     (case authorize digest plane header of
        Some e \<Rightarrow> (s, Inl e)
      | None \<Rightarrow>
          (case owned_by_executor i wr s of
             Some e \<Rightarrow> (s, Inl e)
           | None \<Rightarrow>
               (case save_checkpoint (re_json_text env) (re_now env) i (ew_attempt wr) (ew_state wr) (between s) of
                  (s', Inl e) \<Rightarrow> (s', Inl (SaveFailed e))
                | (s', Inr saved) \<Rightarrow> (s', Inr saved))))"

text \<open>A finish re-reads the row after the fence and reports under the attempt it finds there.\<close>

definition executor_finish ::
  "(string \<Rightarrow> 'd) \<Rightarrow> executor_plane \<Rightarrow> string option \<Rightarrow> run_config \<Rightarrow> run_env \<Rightarrow> (store \<Rightarrow> store) \<Rightarrow> uuid
    \<Rightarrow> executor_write \<Rightarrow> store \<Rightarrow> store \<times> effect list \<times> (executor_refusal + string)" where
  "executor_finish digest plane header cfg env between i wr s =
     (case authorize digest plane header of
        Some e \<Rightarrow> (s, [], Inl e)
      | None \<Rightarrow>
          (case (case (ew_result wr, ew_error wr) of
                   (Some result, None) \<Rightarrow> Inr (Inr result)
                 | (None, Some err) \<Rightarrow> Inr (Inl err)
                 | _ \<Rightarrow> Inl NoSingleOutcome) of
             Inl e \<Rightarrow> (s, [], Inl e)
           | Inr outcome \<Rightarrow>
               (case owned_by_executor i wr s of
                  Some e \<Rightarrow> (s, [], Inl e)
                | None \<Rightarrow>
                    let s1 = between s
                    in (case get_job i s1 of
                          None \<Rightarrow> (s1, [], Inl (UnknownJob i))
                        | Some job \<Rightarrow>
                            (case finish_from_executor cfg env job outcome (ew_run_ms wr) s1 of
                               (s2, es, word) \<Rightarrow> (s2, es, Inr word))))))"

section \<open>The fence\<close>

lemma not_claimed_heartbeat:
  assumes "\<not> job_claimed_by i a ex s"
  shows "heartbeat_from now i a ex s = (s, False)"
  using assms
  by (auto simp: heartbeat_from_def Let_def job_claimed_by_def rows_affected_pos update_jobs_def update_where_none)


section \<open>Two overlapping statements\<close>

text \<open>
  C15. The report is fenced on the attempt it names, but written under the attempt the door reads
  afterwards. When the row is taken from the executor and claimed again between the two, the old
  attempt's result completes the new attempt: the job succeeds with it while another process is
  still running it, and the executor that lost the job is told it succeeded.
\<close>

theorem stale_report_completes_the_next_attempt:
  assumes "authorize digest plane header = None"
    and "job_claimed_by i (ew_attempt wr) (ew_executor_id wr) s"
    and "ew_result wr = Some result" and "ew_error wr = None"
    and "queue_reachable (between s)" and "get_job i (between s) = Some r" and "j_status r = Running"
    and "j_attempts r \<noteq> ew_attempt wr"
    and "\<not> re_write_fails env" and "re_between env = (\<lambda>x. x)"
    and "executor_finish digest plane header cfg env between i wr s = (s', es, answer)"
  shows "answer = Inr ''succeeded'' \<and> (\<exists>q. get_job i s' = Some q \<and> j_status q = Succeeded \<and>
    j_attempts q = j_attempts r \<and> j_result q = Some result)"
proof -
  have s: "store_ok (between s)" using reachable_ok [OF assms(5)] .
  have i: "j_id r = i" using get_job_Some [OF assms(6)] by simp
  note upd = held_update [OF s, of r r, unfolded i, OF assms(6,7) refl]
  have fin: "finish_from_executor cfg env r (Inr result) (ew_run_ms wr) (between s) = (s', es, ''succeeded'')
      \<and> answer = Inr ''succeeded''"
    using assms(1-4,6,9,11) upd(2) [of id]
    by (auto simp: executor_finish_def owned_by_executor_def Let_def finish_from_executor_def complete_arm_def complete_def i
        split: prod.splits if_splits)
  have "get_job i s' = Some (complete_set (re_write_now env) result r)"
    using fin assms(9,10) upd(2) [of id] upd(1) [of "complete_set (re_write_now env) result"]
    by (auto simp: finish_from_executor_def complete_arm_def complete_def complete_set_def i split: if_splits)
  then show ?thesis using fin by (simp add: complete_set_def)
qed

text \<open>A third attempt of the demonstration job, on another executor.\<close>

definition taken_again :: "store \<Rightarrow> store" where
  "taken_again s = fst (claim_next_for_executor (\<lambda>t. of_int t) ''y'' [''a''] [] 0 12 (fst (reset 11 [1] s)))"

lemma taken_again_reachable: "queue_reachable (taken_again run_demo_taken)"
proof -
  have "queue_step run_demo_taken (fst (reset 11 [1] run_demo_taken))" by (rule queue_step.reset)
  moreover have "queue_step (fst (reset 11 [1] run_demo_taken)) (taken_again run_demo_taken)"
    unfolding taken_again_def by (rule queue_step.claim_executor)
  ultimately show ?thesis
    by (meson reachable_steps run_demo_taken_reachable r_into_rtranclp rtranclp.rtrancl_into_rtrancl)
qed

definition demo_plane :: executor_plane where
  "demo_plane = \<lparr>ep_enabled = True, ep_secret = ''k''\<rparr>"

definition demo_write :: executor_write where
  "demo_write = \<lparr>ew_attempt = 2, ew_executor_id = ''x'', ew_state = JNull, ew_result = Some (JBool True),
     ew_error = None, ew_run_ms = None\<rparr>"

lemma demo_plane_facts:
  "authorize id demo_plane (Some ''k'') = None" "job_claimed_by [1] 2 ''x'' run_demo_taken"
  "\<not> job_claimed_by [1] 2 ''x'' demo_s3"
  by code_simp+


theorem stale_report_completes_the_next_attempt_witness:
  "\<exists>q. get_job [1] (fst (executor_finish id demo_plane (Some ''k'') run_demo_cfg (run_demo_env False) taken_again [1]
     demo_write run_demo_taken)) = Some q \<and> j_status q = Succeeded \<and> j_attempts q = 3 \<and> j_result q = Some (JBool True)"
proof -
  have "get_job [1] (taken_again run_demo_taken) \<noteq> None \<and>
      j_status (the (get_job [1] (taken_again run_demo_taken))) = Running \<and>
      j_attempts (the (get_job [1] (taken_again run_demo_taken))) = 3"
    by code_simp
  then obtain r where r: "get_job [1] (taken_again run_demo_taken) = Some r" "j_status r = Running" "j_attempts r = 3"
    by auto
  obtain s' es answer where f: "executor_finish id demo_plane (Some ''k'') run_demo_cfg (run_demo_env False) taken_again [1]
     demo_write run_demo_taken = (s', es, answer)" by (metis prod_cases3)
  show ?thesis
    using stale_report_completes_the_next_attempt [OF demo_plane_facts(1) _ _ _ taken_again_reachable r(1,2) _ _ _ f]
      demo_plane_facts(2) r(3) f by (simp add: demo_write_def run_demo_env_def)
qed

section \<open>The cap on an app\<close>

definition remote_count :: "string \<Rightarrow> store \<Rightarrow> nat" where
  "remote_count a s =
     length (filter (\<lambda>r. j_status r = Running \<and> j_executor_id r \<noteq> None \<and> j_app r = a) (jobs s))"

lemma executor_counts_entry:
  assumes "0 < remote_count a s"
  shows "(a, remote_count a s) \<in> set (executor_running_counts s)"
proof -
  let ?run = "filter (\<lambda>r. j_status r = Running \<and> j_executor_id r \<noteq> None) (jobs s)"
  let ?entry = "\<lambda>a. (a, length (filter (\<lambda>r. j_app r = a) ?run))"
  have n: "length (filter (\<lambda>r. j_app r = a) ?run) = remote_count a s"
    by (simp add: remote_count_def conj_ac)
  have "filter (\<lambda>r. j_app r = a) ?run \<noteq> []" using assms n by force
  then have "a \<in> set (sort (remdups (map j_app ?run)))" by (force simp: filter_empty_conv)
  then have "?entry a \<in> set (map ?entry (sort (remdups (map j_app ?run))))"
    unfolding set_map by (rule imageI)
  then show ?thesis unfolding n executor_running_counts_def Let_def .
qed

lemma below_cap:
  assumes "a \<notin> set (blocked_over_cap (executor_running_counts s) (app_limit wc))"
    and "0 < app_limit wc a" "app_limit wc a < 2 ^ 63"
  shows "remote_count a s < app_limit wc a"
proof (rule ccontr)
  assume over: "\<not> remote_count a s < app_limit wc a"
  then have "(a, remote_count a s) \<in> set (executor_running_counts s)"
    using executor_counts_entry assms(2) by simp
  then have "a \<in> set (blocked_over_cap (executor_running_counts s) (app_limit wc))"
    using over assms(2,3) by (force simp: blocked_over_cap_def u64_as_i64_small)
  with assms(1) show False by blast
qed

lemma count_after_claim:
  "distinct (map k rows) \<Longrightarrow> length (filter Q (update_where (\<lambda>x. k x = i) g rows)) \<le> Suc (length (filter Q rows))"
proof (induction rows)
  case (Cons r rows)
  then show ?case
  proof (cases "k r = i")
    case True
    then have "update_where (\<lambda>x. k x = i) g rows = rows"
      using Cons.prems by (intro update_where_none) (metis distinct.simps(2) image_eqI list.simps(9) set_map)
    then show ?thesis by simp
  qed auto
qed simp

lemma count_after_other:
  "(\<And>r. r \<in> set rows \<Longrightarrow> p r \<Longrightarrow> \<not> Q (g r)) \<Longrightarrow> length (filter Q (update_where p g rows)) \<le> length (filter Q rows)"
  by (induction rows) (auto intro: le_SucI)

text \<open>
  One poll at a time keeps the cap: a poll whose claim directly follows its reading of the counts
  never brings an app over its limit.
\<close>

lemma serial_polls_keep_the_cap:
  assumes "queue_reachable s" "0 < app_limit wc a" "app_limit wc a < 2 ^ 63" "remote_count a s \<le> app_limit wc a"
  shows "remote_count a (fst (poll_once wc jd aging executor eligible (\<lambda>x. x) now s)) \<le> app_limit wc a"
proof -
  let ?b = "blocked_over_cap (executor_running_counts s) (app_limit wc)"
  have ok: "store_ok s" using reachable_ok [OF assms(1)] .
  show ?thesis
  proof (cases rule: claim_next_for_executor_cases [of jd executor eligible ?b aging now s])
    case 1
    then show ?thesis using assms(4) by (simp add: poll_once_def)
  next
    case (2 r)
    have d: "distinct (map j_id (jobs s))" using ok by (simp add: store_ok_def)
    have jobs': "jobs (fst (poll_once wc jd aging executor eligible (\<lambda>x. x) now s)) =
        update_where (\<lambda>x. j_id x = j_id r) (claim_executor_set now executor) (jobs s)"
      using 2 by (simp add: poll_once_def)
    show ?thesis
    proof (cases "j_app r = a")
      case True
      then have "remote_count a s < app_limit wc a"
        using 2 below_cap [OF _ assms(2,3)] by (auto simp: claimable_def)
      then show ?thesis
        using count_after_claim [OF d, of _ "j_id r" "claim_executor_set now executor"]
        unfolding remote_count_def jobs' by (meson Suc_leI le_trans)
    next
      case False
      have "\<not> (j_status (claim_executor_set now executor x) = Running \<and>
          j_executor_id (claim_executor_set now executor x) \<noteq> None \<and> j_app (claim_executor_set now executor x) = a)"
        if "x \<in> set (jobs s)" "j_id x = j_id r" for x
        using distinct_key_eq [OF d that(1)] 2 that(2) False by (auto simp: claim_executor_set_def claim_set_def)
      then have "remote_count a (fst (poll_once wc jd aging executor eligible (\<lambda>x. x) now s)) \<le> remote_count a s"
        unfolding remote_count_def jobs' by (intro count_after_other)
      with assms(4) show ?thesis by simp
    qed
  qed
qed

text \<open>
  Two polls whose readings both precede their claims exceed it: with a cap of one, two jobs of the
  app run on executors.
\<close>

definition capped :: worker_config where
  "capped = \<lparr>wc_concurrency = 4, wc_default_app_concurrency = 1, wc_app_concurrency = []\<rparr>"

definition two_jobs :: store where
  "two_jobs = fst (enqueue_dedup_as [2] 1 ''a'' ((demo_opts None)\<lparr>o_target_key := None\<rparr>) None demo_s1)"

lemma overlapping_polls_exceed_the_cap:
  "remote_count ''a'' (fst (poll_once capped (\<lambda>t. of_int t) 0 ''x'' [''a'']
     (\<lambda>s. fst (poll_once capped (\<lambda>t. of_int t) 0 ''y'' [''a''] (\<lambda>x. x) 7 s)) 8 two_jobs)) = 2
   \<and> app_limit capped ''a'' = 1"
  by code_simp

text \<open>A job that ran on an executor and is then claimed here still names the executor.\<close>

lemma local_attempt_names_the_executor:
  assumes "queue_reachable s" "claim_next jd blocked aging now s = (s', Some r')"
  shows "\<exists>r\<in>set (jobs s). j_id r = j_id r' \<and> j_executor_id r' = j_executor_id r \<and>
    (case j_executor_id r of None \<Rightarrow> True | Some ex \<Rightarrow> job_claimed_by (j_id r') (j_attempts r') ex s')"
proof -
  note c = claim_result [OF reachable_ok [OF assms(1)] assms(2)]
  obtain r where r: "r \<in> set (jobs s)" "r' = claim_set now r" using c(3) by blast
  have "job_claimed_by (j_id r') (j_attempts r') ex s'" if "j_executor_id r = Some ex" for ex
    unfolding job_claimed_by_def using c(1,2) that r(2) by (intro bexI [of _ r']) (simp_all add: claim_set_def)
  then show ?thesis
    using r by (intro bexI [of _ r]) (auto simp: claim_set_def split: option.splits)
qed

end
