(* ===== verification/Spec2Isabelle.thy ===== *)
theory Spec2Isabelle
  imports Queue_Recovery Near_Dup Workflow_Runs Dataset_History Dataset_Diff Crawl_Frontier Client_Pool Governor Paging Transactions Host_Memory Subscriptions Scheduler Catalog_Sync Executors
begin

text \<open>
  Pumper is a self-hosted scraping and data service: apps are run as jobs from a durable queue in
  SQLite, fetch pages through politeness-governed engines, crawl sites, and write their results
  into versioned datasets; workflows chain jobs into plans. This development models the program's
  own logic, from the Rust sources under \<open>src/crates\<close>, and proves what makes it correct.

  \<^bold>\<open>Parts and theories.\<close>

  \<^item> \<open>Prelude\<close>: time, durations, JSON values, SQL statements over a table held as a list of rows
    (\<open>update_where\<close>, \<open>rows_affected\<close>, \<open>order_limit\<close>), Rust's saturating arithmetic, rounding to a
    64-bit float. \<open>Text\<close>: UTF-8 trimming, splitting, ordered maps, floats, JSON accessors.
  \<^item> \<open>Job\<close> (\<open>core/src/job.rs\<close>), \<open>Failure\<close> (\<open>core/src/error.rs\<close>): the status machine, the job row
    and the failure taxonomy with its cause chain. \<open>Requeue\<close> (\<open>core/src/jitter.rs\<close>,
    \<open>storage.rs\<close>, \<open>engine-http\<close>): the attempt ladder, the requeue policy, the retry sleep.
  \<^item> \<open>Job_Store\<close>, \<open>Job_Queue\<close> (\<open>core/src/storage.rs\<close>): every statement that changes a job, and the
    step relation of the store under any interleaving of workers, executors, operators and sweeps.
    \<open>Queue_Claims\<close>: the row invariant, mutual exclusion per target, fencing of stale leases, the
    order of claims, idempotent enqueues, atomicity of the two-statement failure. \<open>Queue_Recovery\<close>:
    the boot sweep, the delay of a requeue, parking and resuming.
  \<^item> \<open>Simhash\<close>, \<open>Near_Dup\<close> (\<open>core/src/simhash.rs\<close>): fingerprints and the banded index, equal to a
    linear scan; the duplicate report; the fingerprint as a bitwise majority.
  \<^item> \<open>Workflow_Spec\<close>, \<open>Workflow_Plan\<close>, \<open>Workflow_Engine\<close>, \<open>Workflow_Runs\<close> (\<open>server/src/workflow.rs\<close>
    and its storage): the plan grammar and its validation, templates, readiness and skips, the
    engine over the job queue, the single claim of a join, progress, cancellation.
  \<^item> \<open>Dataset_Store\<close>, \<open>Dataset_Upsert\<close>, \<open>Dataset_History\<close>, \<open>Dataset_Diff\<close>
    (\<open>core/src/datasets.rs\<close>): records with their revisions; the set-oriented batch upsert equals the
    loop of single upserts; a record is the head of its history; revision numbers; diffs.
  \<^item> \<open>Crawl_Frontier\<close> (\<open>core/src/crawl.rs\<close>): the per-host rotation and budgets of a crawl, and its
    checkpoint with the resume.
  \<^item> \<open>Client_Pool\<close> (\<open>core/src/lru.rs\<close>, \<open>engine-http\<close>, \<open>engine-browser\<close>): the recency order as an
    interface (locale \<open>recency\<close>), the pooled clients as a refinement of building one per request,
    the live browsers.
  \<^item> \<open>Governor\<close> (\<open>core/src/governor.rs\<close>): slots per host, learned penalties, the idle sweep.
  \<^item> \<open>Paging\<close> (\<open>core/src/datasets.rs\<close>, \<open>storage.rs\<close>, \<open>server/src/routes\<close>): the paged reads as one
    interface (locale \<open>keyset\<close>), the walks that follow their cursors, the export before a deletion,
    and two places where a walk can lose a row.
  \<^item> \<open>Transactions\<close> (\<open>core/src/transactions.rs\<close>, \<open>core/src/engine.rs\<close>, \<open>server/src/routes/transactions.rs\<close>,
    \<open>apps/transact\<close>): the approval ledger of irreversible browser actions, with the job it parks; the
    life of a row, and how one approval can act twice or release evidence nobody quoted.
  \<^item> \<open>Host_Memory\<close> (\<open>core/src/tiers.rs\<close>, \<open>server/src/state.rs\<close>, \<open>server/src/routes/host_weather.rs\<close>): the
    learned starting tier of a host and its persisted penalty; what a history of fetches teaches,
    that a restart keeps what the governor knew, and that an import only adds caution.
  \<^item> \<open>Event_Bus\<close> (\<open>server/src/events.rs\<close>, \<open>server/src/routes/events.rs\<close>, \<open>core/src/storage.rs\<close>): the replay
    ring, the queue of rows not yet written, the durable log and the resume of a stream; that a resume
    is exact while the log is complete, that every event is accounted for, and when a client is silenced.
  \<^item> \<open>Subscriptions\<close> (\<open>server/src/subscriptions.rs\<close>): selectors and the outbox pass over the log, an
    instance of the paging interface; what one pass hands over, and how a flush in flight is passed.
  \<^item> \<open>Registry\<close> (\<open>server/src/mcp/mod.rs\<close>, \<open>server/src/routes/jobs.rs\<close>): what the doors that create work
    ask of a registered app.
  \<^item> \<open>Schedules\<close>, \<open>Scheduler\<close> (\<open>server/src/scheduler.rs\<close>, \<open>core/src/storage.rs\<close>): the schedules, their
    decision ledger, the classification of firings, admission, the step of one schedule and the pass;
    the classification is exact, a firing runs at most once, a failure stays with its schedule, and
    how the policy \<open>skip\<close> loses a firing that was held.
  \<^item> \<open>Catalog_Sync\<close> (\<open>core/src/catalog.rs\<close>, \<open>core/src/config.rs\<close>, \<open>server/src/scheduler.rs\<close>): the rows the
    catalog and the configured peers own; the catalog's plan converges, the fence holds for any plan,
    and the last peer that is removed keeps pulling.
  \<^item> \<open>Run_Outcome\<close> (\<open>server/src/worker.rs\<close>, \<open>core/src/vcr.rs\<close>, \<open>core/src/costs.rs\<close>,
    \<open>server/src/progress.rs\<close>): one run of a job over the queue, with the app as an argument: what
    refuses it, the checkpoint it is given, what each outcome writes and announces, the report of a
    remote executor, the reaper. A run that lost its row changes nothing, a run that holds it lands
    exactly its outcome, and three places where a run goes wrong.
  \<^item> \<open>Worker\<close> (\<open>server/src/worker.rs\<close>, \<open>server/src/routes/jobs.rs\<close>): the claim loop, its tasks, the cancel
    door and the drain as one step relation over that; its invariant, the handshake between the door
    and the run as a refinement of one word per job, and how a granted cancel can be lost.
  \<^item> \<open>Executors\<close> (\<open>server/src/executors.rs\<close>, \<open>server/src/routes/executors.rs\<close>): the doors of the remote
    executors; what their fence refuses, when the cap on an app holds, and the report that completes
    an attempt it is not about.

  \<^bold>\<open>How the code is modelled.\<close> A table is a list of rows and a statement is one atomic step; a
  method that issues several statements is composed of them, and the step relations let other
  callers act in between. A shared map behind a lock is stepped by its critical sections.
  Timestamps are microseconds, durations nanoseconds. Machine integers are words where they wrap,
  and numbers with the saturation written out otherwise. A 64-bit float is a rational that is
  rounded after each operation. A panic is a value: \<open>None\<close>, or
  \<open>DelayPanic\<close> of an enqueue whose delay leaves the calendar. Arithmetic is that of a release build
  (an overflow wraps where a debug build panics). A claim orders aged jobs by SQLite's floating-point
  key. \<open>cancel_run\<close> and the rounds of \<open>advance\<close> are whole calls, run while no other task acts; what
  holds when others act in between is stated over their statements (\<open>join_fires_once\<close>). What the sources only call (serde_json, SHA-256,
  Unicode case mapping, the URL parser, building an HTTP client, cron arithmetic, JSON schema
  validation) is an argument of the definitions that use it; where a property relies on such code,
  its hypothesis states the documented behaviour and its witness instantiates it.

  \<^bold>\<open>Bounds and fuel.\<close> The recovery sweep, the advance loop of a workflow and the pop of the
  frontier carry the bounds the code has (a number of rounds, the number of steps, the length of
  the rotation); the theorems show that each loop ends within them. No other fuel is used.

  \<^bold>\<open>Not modelled.\<close> Network and process I/O (the HTTP, browser, Claude, archive, remote and search
  engines beyond their pools and timing), WebAssembly plugins, HTML extraction and Markdown, the
  thirty apps, HTTP routes and wire types, MCP, the fan-out of a finished job (index, hooks and
  alerts are one effect), configuration parsing, DataHub and OpenLineage emission, webhooks, authentication, developer tooling; of the
  datasets, derived datasets and their leases and the Parquet export; of the crawl, the fetch loop
  and robots rules.
\<close>

end
